(* ===== verification/Cdpt_Prelude.thy ===== *)
theory Cdpt_Prelude
  imports Main "HOL-Library.Word"
begin

unbundle bit_operations_syntax

text \<open>
  Shared vocabulary of the development: the machine integers of the crate (a 64-bit
  target, so \<^verbatim>\<open>usize\<close> is a 64-bit word), the panics the Rust code can raise, the
  integer operations of the standard library that the crate calls, the atomic
  compare-and-exchange, and two interfaces:
  \<^item> \<open>packed_field\<close>: a field of several bits inside a machine word (the crate packs
    its epochs, object headers and pointers into one word each), with its laws;
  \<^item> \<open>packed_fields\<close>: two such fields of the same word that do not overlap.
\<close>

section \<open>Types and errors\<close>

type_synonym usize = "64 word"
type_synonym u8 = "8 word"
type_synonym u32 = "32 word"

text \<open>
  Every way in which the modelled code can panic or reach undefined behaviour, one constructor per
  kind of site; the last two mark paths of the model that the lemmas show to be unreachable.
\<close>

datatype rust_error =
    InvalidPhase          \<comment> \<open>\<^verbatim>\<open>Phase::from\<close>\<close>
  | HashSetFull           \<comment> \<open>\<^verbatim>\<open>FixedHashSet::get_or_insert\<close>\<close>
  | RegistryOverflow      \<comment> \<open>\<^verbatim>\<open>register_type\<close>\<close>
  | UnwrapNone            \<comment> \<open>\<^verbatim>\<open>Option::unwrap\<close> on \<^verbatim>\<open>None\<close>\<close>
  | DivByZero             \<comment> \<open>integer division by zero\<close>
  | DeriveUnion           \<comment> \<open>\<^verbatim>\<open>derive(TraceObj)\<close> on a union\<close>
  | OutOfMemory           \<comment> \<open>the allocator has no free block\<close>
  | UseAfterFree          \<comment> \<open>undefined behaviour: access to an object that was reclaimed\<close>
  | UnwrapUncheckedNone   \<comment> \<open>undefined behaviour: \<^verbatim>\<open>unwrap_unchecked\<close> on \<^verbatim>\<open>None\<close>\<close>
  | NullShadeFn           \<comment> \<open>undefined behaviour: call of a null shade function\<close>
  | RootedHeapEdge        \<comment> \<open>an object is reclaimed while one of its own edges still counts as a root\<close>
  | FreshPinExpected      \<comment> \<open>a nested pin finds the thread unpinned\<close>

type_synonym 'a outcome = "rust_error + 'a"

section \<open>Lemma collections\<close>

named_theorems epoch_simps \<open>reading a field of an updated epoch\<close>
named_theorems meta_simps \<open>reading a field of an updated object header\<close>
named_theorems ptr_simps \<open>reading a field of an updated tagged pointer\<close>
named_theorems layout_defs \<open>the constants of the bit layouts\<close>

section \<open>Integer operations of the standard library\<close>

definition usize_MAX :: usize where
  "usize_MAX = - 1"

definition clamp :: "usize \<Rightarrow> usize \<Rightarrow> usize \<Rightarrow> usize" where
  "clamp x lo hi = (if x < lo then lo else if hi < x then hi else x)"

definition saturating_sub :: "usize \<Rightarrow> usize \<Rightarrow> usize" where
  "saturating_sub a b = (if b \<le> a then a - b else 0)"

definition checked_add :: "usize \<Rightarrow> usize \<Rightarrow> usize option" where
  "checked_add a b = (if unat a + unat b < 2 ^ 64 then Some (a + b) else None)"

lemma clamp_bounds: "lo \<le> hi \<Longrightarrow> lo \<le> clamp x lo hi \<and> clamp x lo hi \<le> hi"
  by (auto simp: clamp_def)

lemma clamp_id [simp]: "lo \<le> x \<Longrightarrow> x \<le> hi \<Longrightarrow> clamp x lo hi = x"
  by (auto simp: clamp_def)

lemma unat_saturating_sub: "unat (saturating_sub a b) = unat a - unat b"
  by (auto simp: saturating_sub_def unat_sub word_le_nat_alt)

lemma checked_add_Some:
  "checked_add a b = Some c \<longleftrightarrow> unat a + unat b < 2 ^ 64 \<and> c = a + b"
  by (auto simp: checked_add_def)

section \<open>Atomic compare-and-exchange on a shared word\<close>

text \<open>
  The strong compare-exchange of one atomic cell: the new content of the cell, and
  \<open>Inr\<close> of the previous content on success, \<open>Inl\<close> of the content found on failure.
\<close>

definition compare_exchange :: "'a \<Rightarrow> 'a \<Rightarrow> 'a \<Rightarrow> 'a \<times> ('a + 'a)" where
  "compare_exchange cell current new =
     (if cell = current then (new, Inr cell) else (cell, Inl cell))"

lemma compare_exchange_simps [simp]:
  "compare_exchange c c new = (new, Inr c)"
  "cell \<noteq> current \<Longrightarrow> compare_exchange cell current new = (cell, Inl cell)"
  by (simp_all add: compare_exchange_def)

section \<open>Compare-and-exchange retry loops under interference\<close>

text \<open>
  A lock-free update reads a shared cell and then retries a compare-exchange until it succeeds
  or the value found makes the update unnecessary. What the other threads do to the cell is a
  list of functions: the head is applied right before the next attempt, and an empty list means
  that nobody interferes any more. \<open>seen\<close> is the value the loop has last read. The loop is a
  partial function: \<open>None\<close> stands for a loop that never ends.
\<close>

fun interfere :: "('w \<Rightarrow> 'w) list \<Rightarrow> 'w \<Rightarrow> 'w \<times> ('w \<Rightarrow> 'w) list" where
  "interfere [] cell = (cell, [])"
| "interfere (e # es) cell = (e cell, es)"

partial_function (option) cas_loop ::
  "('w \<Rightarrow> bool) \<Rightarrow> ('w \<Rightarrow> 'w) \<Rightarrow> ('w \<Rightarrow> 'w) list \<Rightarrow> 'w \<Rightarrow> 'w \<Rightarrow> ('w \<times> ('w \<Rightarrow> 'w) list) option" where
  "cas_loop enough upd es seen cell =
     (if enough seen then Some (cell, es)
      else case interfere es cell of (cell', es') \<Rightarrow>
        (case compare_exchange cell' seen (upd seen) of
           (c, Inr _) \<Rightarrow> Some (c, es')
         | (c, Inl found) \<Rightarrow> cas_loop enough upd es' found c))"

declare cas_loop.simps [code]

text \<open>
  With finitely many interferences the loop returns, and what it leaves is the cell after some
  prefix of the interferences, updated once if that was still necessary: no update of another
  thread is lost.
\<close>

lemma cas_loop_quiet: "cas_loop enough upd [] cell cell =
    Some (if enough cell then cell else upd cell, [])"
  by (simp add: cas_loop.simps)

abbreviation others :: "('w \<Rightarrow> 'w) list \<Rightarrow> 'w \<Rightarrow> 'w" where
  "others es cell \<equiv> fold (\<lambda>e x. e x) es cell"

definition settled :: "('w \<Rightarrow> bool) \<Rightarrow> ('w \<Rightarrow> 'w) \<Rightarrow> 'w \<Rightarrow> 'w" where
  "settled enough upd v = (if enough v then v else upd v)"

lemma cas_loop_returns:
  "\<exists>k. cas_loop enough upd es cell cell = Some (settled enough upd (others (take k es) cell), drop k es)"
proof (induction es arbitrary: cell)
  case Nil
  then show ?case by (simp add: cas_loop_quiet settled_def)
next
  case (Cons e es)
  consider (enough) "enough cell" | (quiet) "\<not> enough cell" "e cell = cell"
    | (lost) "\<not> enough cell" "e cell \<noteq> cell" by blast
  then show ?case
  proof cases
    case enough
    then have "cas_loop enough upd (e # es) cell cell =
        Some (settled enough upd (others (take 0 (e # es)) cell), drop 0 (e # es))"
      by (subst cas_loop.simps) (simp add: settled_def)
    then show ?thesis by blast
  next
    case quiet
    then have "cas_loop enough upd (e # es) cell cell =
        Some (settled enough upd (others (take (Suc 0) (e # es)) cell), drop (Suc 0) (e # es))"
      by (subst cas_loop.simps) (simp add: settled_def)
    then show ?thesis by blast
  next
    case lost
    obtain k where "cas_loop enough upd es (e cell) (e cell) =
        Some (settled enough upd (others (take k es) (e cell)), drop k es)"
      using Cons.IH by blast
    with lost have "cas_loop enough upd (e # es) cell cell =
        Some (settled enough upd (others (take (Suc k) (e # es)) cell), drop (Suc k) (e # es))"
      by (subst cas_loop.simps) simp
    then show ?thesis by blast
  qed
qed

section \<open>Bits\<close>

lemma and_single_bit_eq_0: "(w :: usize) AND push_bit n 1 = 0 \<longleftrightarrow> \<not> bit w n"
  by (simp add: and_exp_eq_0_iff_not_bit)

lemma three_eq_mask: "(3 :: usize) = mask 2"
  by (simp add: mask_eq_exp_minus_1)

lemma two_bit_field:
  assumes "m < 62"
  shows "drop_bit m ((w :: usize) AND push_bit m 3) =
    of_bool (bit w m) OR push_bit 1 (of_bool (bit w (Suc m)))"
  using assms unfolding three_eq_mask
  by (intro bit_word_eqI) (auto simp: bit_simps less_2_cases_iff)

lemma unat_lt_take_bit: "unat (w :: usize) < 2 ^ n \<Longrightarrow> n < 64 \<Longrightarrow> take_bit n w = w"
  by (rule word_unat_eq_iff [THEN iffD2]) (simp add: unsigned_take_bit_eq take_bit_nat_eq_self)

lemma word_eq_take_bit_less: "take_bit n (w :: usize) = w \<Longrightarrow> n < 64 \<Longrightarrow> w < 2 ^ n"
  using and_mask_less_size [of n w] by (simp add: word_size take_bit_eq_mask)

text \<open>The test \<^verbatim>\<open>n & (n - 1) == 0\<close> recognises the powers of two.\<close>

lemma unat_pow2: "m < 64 \<Longrightarrow> unat (2 ^ m :: usize) = 2 ^ m"
  using unat_of_nat [where 'a = 64 and x = "2 ^ m"] power_strict_increasing [of m 64 "2 :: nat"]
  by simp

lemma power_of_two_test:
  fixes w :: usize
  assumes "w \<noteq> 0" "w AND (w - 1) = 0"
  obtains m where "m < 64" "w = 2 ^ m"
proof -
  define m where "m = (LEAST n. bit w n)"
  obtain n where n: "bit w n"
    using assms(1) by (auto simp: bit_eq_iff)
  have m: "bit w m"
    unfolding m_def using n by (rule LeastI)
  have low: "\<not> bit w i" if "i < m" for i
    using that unfolding m_def by (rule not_less_Least)
  have m64: "m < 64"
    using bit_imp_le_length [OF m] by simp
  define r where "r = w AND NOT (2 ^ m)"
  have rb: "bit r i \<longleftrightarrow> m < i \<and> bit w i" for i
    using low [of i] by (cases i m rule: linorder_cases) (auto simp: r_def bit_simps dest: bit_imp_le_length)
  have "w = r OR 2 ^ m"
    by (rule bit_word_eqI) (use m m64 low rb in \<open>auto simp: bit_simps intro: linorder_neqE_nat\<close>)
  also have "\<dots> = r + 2 ^ m"
    by (rule disjunctive_add_eq_or [symmetric], rule bit_word_eqI) (auto simp: bit_simps rb)
  finally have w: "w = r + 2 ^ m" .
  then have "w - 1 = r + mask m"
    by (simp add: mask_eq_exp_minus_1)
  also have "\<dots> = r OR mask m"
    by (rule disjunctive_add_eq_or, rule bit_word_eqI) (auto simp: bit_simps rb)
  finally have "w AND (w - 1) = r"
    by (simp only:, intro bit_word_eqI) (use low in \<open>auto simp: bit_simps rb\<close>)
  with assms(2) w have "w = 2 ^ m" by simp
  with m64 show thesis by (rule that)
qed

section \<open>Packed fields\<close>

text \<open>
  The contract of a bit field: \<open>get\<close> reads it, \<open>put\<close> overwrites it, \<open>wf\<close> says which
  words hold a readable value, \<open>fits\<close> which values fit into the field.
\<close>

locale packed_field =
  fixes get :: "'w \<Rightarrow> 'v"
    and put :: "'v \<Rightarrow> 'w \<Rightarrow> 'w"
    and wf :: "'w \<Rightarrow> bool"
    and fits :: "'v \<Rightarrow> bool"
  assumes get_put: "fits v \<Longrightarrow> get (put v w) = v"
    and put_get: "wf w \<Longrightarrow> put (get w) w = w"
    and put_put: "put v' (put v w) = put v' w"
    and wf_put: "fits v \<Longrightarrow> wf (put v w)"
    and fits_get: "wf w \<Longrightarrow> fits (get w)"
begin

lemma put_inject: "fits v \<Longrightarrow> fits v' \<Longrightarrow> put v w = put v' w \<longleftrightarrow> v = v'"
  by (metis get_put)

lemma put_restore: "wf w \<Longrightarrow> put (get w) (put v w) = w"
  by (simp add: put_put put_get)

lemma put_same_iff: "wf w \<Longrightarrow> fits v \<Longrightarrow> put v w = w \<longleftrightarrow> get w = v"
  using get_put put_get by metis

end

text \<open>
  Two fields of one word: writing one leaves the other alone. Then the two writes commute on
  reading, and a word is not determined by less than both.
\<close>

locale packed_fields =
  a: packed_field get_a put_a wf_a fits_a + b: packed_field get_b put_b wf_b fits_b
  for get_a :: "'w \<Rightarrow> 'u" and put_a wf_a fits_a
    and get_b :: "'w \<Rightarrow> 'v" and put_b wf_b fits_b +
  assumes a_put_b: "get_a (put_b v w) = get_a w"
    and b_put_a: "get_b (put_a u w) = get_b w"
    and put_comm: "put_a u (put_b v w) = put_b v (put_a u w)"
begin

lemma read_a: "fits_a u \<Longrightarrow> get_a (put_b v (put_a u w)) = u"
  by (simp add: a_put_b a.get_put)

lemma read_b: "fits_b v \<Longrightarrow> get_b (put_b v (put_a u w)) = v"
  by (simp add: b.get_put)

lemma both_restore:
  "wf_a w \<Longrightarrow> wf_b w \<Longrightarrow> put_a (get_a w) (put_b (get_b w) (put_a u (put_b v w))) = w"
  by (metis put_comm a.put_put b.put_put a.put_get b.put_get)

lemma put_both_inject:
  "fits_a u \<Longrightarrow> fits_a u' \<Longrightarrow> fits_b v \<Longrightarrow> fits_b v' \<Longrightarrow>
     put_a u (put_b v w) = put_a u' (put_b v' w) \<longleftrightarrow> u = u' \<and> v = v'"
  by (metis a.get_put b_put_a b.get_put)

end

end
