(* ===== verification/Interference.thy ===== *)
theory Interference
  imports Cdpt_Prelude
begin

text \<open>
  How the development runs code that works on shared memory. An action is what one thread does: it
  takes the shared state and the list of what the other threads are still going to do, and returns a
  result, the new state and the rest of that list. Right before each atomic access of the thread the
  head of the list is applied to the state, so that other threads may do anything between any two
  accesses; an empty list means that nobody interferes. A result is a value or an error (a panic, or
  the dereference of reclaimed memory); \<open>None\<close> is an action that never returns.

  The lemmas are the monad laws, the way an action runs without interference, and the rule that
  makes retry loops return: every failed attempt uses up one interference.
\<close>

section \<open>Actions\<close>

type_synonym 's env = "('s \<Rightarrow> 's) list"
type_synonym ('s, 'a) act = "'s \<times> 's env \<Rightarrow> ('a outcome \<times> 's \<times> 's env) option"

definition ret :: "'a \<Rightarrow> ('s, 'a) act" where
  "ret x = (\<lambda>(s, es). Some (Inr x, s, es))"

definition raise :: "rust_error \<Rightarrow> ('s, 'a) act" where
  "raise e = (\<lambda>(s, es). Some (Inl e, s, es))"

definition bind :: "('s, 'a) act \<Rightarrow> ('a \<Rightarrow> ('s, 'b) act) \<Rightarrow> ('s, 'b) act" where
  "bind m f = (\<lambda>se. case m se of
     None \<Rightarrow> None
   | Some (Inl e, se') \<Rightarrow> Some (Inl e, se')
   | Some (Inr x, se') \<Rightarrow> f x se')"

definition seq :: "('s, unit) act \<Rightarrow> ('s, 'b) act \<Rightarrow> ('s, 'b) act" where
  "seq m n = bind m (\<lambda>_. n)"

text \<open>Accesses to what only this thread can touch: no other thread can come in between.\<close>

definition gets :: "('s \<Rightarrow> 'a) \<Rightarrow> ('s, 'a) act" where
  "gets f = (\<lambda>(s, es). Some (Inr (f s), s, es))"

definition modify :: "('s \<Rightarrow> 's) \<Rightarrow> ('s, unit) act" where
  "modify f = (\<lambda>(s, es). Some (Inr (), f s, es))"

text \<open>An atomic access to shared memory.\<close>

definition atomic :: "('s \<Rightarrow> 'a outcome \<times> 's) \<Rightarrow> ('s, 'a) act" where
  "atomic f = (\<lambda>(s, es). case interfere es s of (s1, es1) \<Rightarrow>
     (case f s1 of (r, s2) \<Rightarrow> Some (r, s2, es1)))"

definition atomic_read :: "('s \<Rightarrow> 'a) \<Rightarrow> ('s, 'a) act" where
  "atomic_read f = atomic (\<lambda>s. (Inr (f s), s))"

definition atomic_write :: "('s \<Rightarrow> 's) \<Rightarrow> ('s, unit) act" where
  "atomic_write f = atomic (\<lambda>s. (Inr (), f s))"

definition act_when :: "bool \<Rightarrow> ('s, unit) act \<Rightarrow> ('s, unit) act" where
  "act_when b m = (if b then m else ret ())"

fun for_each :: "'a list \<Rightarrow> ('a \<Rightarrow> ('s, unit) act) \<Rightarrow> ('s, unit) act" where
  "for_each [] f = ret ()"
| "for_each (x # xs) f = seq (f x) (for_each xs f)"

fun act_map :: "('a \<Rightarrow> ('s, 'b) act) \<Rightarrow> 'a list \<Rightarrow> ('s, 'b list) act" where
  "act_map f [] = ret []"
| "act_map f (x # xs) = bind (f x) (\<lambda>y. bind (act_map f xs) (\<lambda>ys. ret (y # ys)))"

text \<open>What an action does to the state when nobody interferes, as an interference for others.\<close>

definition run :: "('s, 'a) act \<Rightarrow> 's \<Rightarrow> ('a outcome \<times> 's) option" where
  "run m s = map_option (\<lambda>(r, s', _). (r, s')) (m (s, []))"

definition as_env :: "('s, 'a) act \<Rightarrow> 's \<Rightarrow> 's" where
  "as_env m s = (case run m s of Some (_, s') \<Rightarrow> s' | None \<Rightarrow> s)"

section \<open>Laws\<close>

named_theorems act_simps \<open>running actions\<close>

lemma bind_mono [partial_function_mono]:
  assumes "monotone (fun_ord option_ord) option_ord (\<lambda>f. m f se)"
    and "\<And>x se'. monotone (fun_ord option_ord) option_ord (\<lambda>f. g f x se')"
  shows "monotone (fun_ord option_ord) option_ord (\<lambda>f. bind (m f) (g f) se)"
  unfolding monotone_def
proof (intro allI impI)
  fix f h :: "'a \<Rightarrow> 'b option"
  assume fh: "fun_ord option_ord f h"
  have m: "m f se = None \<or> m f se = m h se"
    using assms(1) fh unfolding monotone_def flat_ord_def by blast
  have g: "option_ord (g f x se') (g h x se')" for x se'
    using assms(2) fh unfolding monotone_def by blast
  show "option_ord (bind (m f) (g f) se) (bind (m h) (g h) se)"
  proof (cases "m f se")
    case None
    then show ?thesis by (simp add: bind_def flat_ord_def)
  next
    case (Some r)
    then have "m h se = Some r" using m by simp
    with Some g show ?thesis
      by (cases r; cases "fst r") (simp_all add: bind_def flat_ord_def)
  qed
qed

lemma if_act_mono [partial_function_mono]:
  assumes "monotone (fun_ord option_ord) option_ord (\<lambda>f. m f se)"
    and "monotone (fun_ord option_ord) option_ord (\<lambda>f. n f se)"
  shows "monotone (fun_ord option_ord) option_ord (\<lambda>f. (if b then m f else n f) se)"
  using assms by (cases b) simp_all

lemma bind_ret [act_simps]: "bind (ret x) f = f x"
  by (auto simp: bind_def ret_def)

lemma bind_ret_right: "bind m ret = m"
  by (rule ext) (auto simp: bind_def ret_def split: option.splits sum.splits)

lemma bind_raise [act_simps]: "bind (raise e) f = raise e"
  by (auto simp: bind_def raise_def)

lemma bind_assoc: "bind (bind m f) g = bind m (\<lambda>x. bind (f x) g)"
  by (rule ext) (auto simp: bind_def split: option.splits sum.splits)

lemma act_run [act_simps]:
  "ret x (s, es) = Some (Inr x, s, es)"
  "raise err (s, es) = Some (Inl err, s, es)"
  "gets f (s, es) = Some (Inr (f s), s, es)"
  "modify u (s, es) = Some (Inr (), u s, es)"
  "atomic a (s, []) = Some (fst (a s), snd (a s), [])"
  "atomic a (s, e # es) = Some (fst (a (e s)), snd (a (e s)), es)"
  "atomic_read f (s, []) = Some (Inr (f s), s, [])"
  "atomic_read f (s, e # es) = Some (Inr (f (e s)), e s, es)"
  "atomic_write u (s, []) = Some (Inr (), u s, [])"
  "atomic_write u (s, e # es) = Some (Inr (), u (e s), es)"
  by (simp_all add: ret_def raise_def gets_def modify_def atomic_def atomic_read_def
      atomic_write_def split: prod.splits)

lemma bind_run [act_simps]:
  "m se = Some (Inr x, se') \<Longrightarrow> bind m f se = f x se'"
  "m se = Some (Inl e, se') \<Longrightarrow> bind m f se = Some (Inl e, se')"
  by (simp_all add: bind_def)

lemma seq_run [act_simps]:
  "m se = Some (Inr (), se') \<Longrightarrow> seq m n se = n se'"
  "m se = Some (Inl e, se') \<Longrightarrow> seq m n se = Some (Inl e, se')"
  by (simp_all add: seq_def bind_def)

lemma act_when_simps [act_simps]: "act_when True m = m" "act_when False m = ret ()"
  by (simp_all add: act_when_def)

section \<open>Actions that always return\<close>

text \<open>
  \<open>returns R m\<close>: whatever finitely many steps other threads take, as long as each of them respects
  the relation \<open>R\<close>, the action comes to an end (with a value or an error).
\<close>

definition env_ok :: "('s \<Rightarrow> 's \<Rightarrow> bool) \<Rightarrow> 's env \<Rightarrow> bool" where
  "env_ok R es \<longleftrightarrow> (\<forall>e\<in>set es. \<forall>s. R s (e s))"

definition returns :: "('s \<Rightarrow> 's \<Rightarrow> bool) \<Rightarrow> ('s, 'a) act \<Rightarrow> bool" where
  "returns R m \<longleftrightarrow> (\<forall>s es. env_ok R es \<longrightarrow> (\<exists>n r s'. m (s, es) = Some (r, s', drop n es)))"

named_theorems returns_intros \<open>actions that always return\<close>

lemma env_ok_drop: "env_ok R es \<Longrightarrow> env_ok R (drop n es)"
  unfolding env_ok_def by (meson in_set_dropD)

lemma env_ok_Cons [simp]: "env_ok R (e # es) \<longleftrightarrow> (\<forall>s. R s (e s)) \<and> env_ok R es"
  by (auto simp: env_ok_def)

lemma returnsI:
  "(\<And>s es. env_ok R es \<Longrightarrow> \<exists>n r s'. m (s, es) = Some (r, s', drop n es)) \<Longrightarrow> returns R m"
  by (auto simp: returns_def)

lemma returnsD:
  assumes "returns R m" "env_ok R es"
  obtains n r s' where "m (s, es) = Some (r, s', drop n es)"
  using assms unfolding returns_def by blast

lemma returns_basic [returns_intros]:
  "returns R (ret x)" "returns R (raise err)" "returns R (gets f)" "returns R (modify u)"
  by (auto simp: returns_def act_simps intro: exI [of _ 0])

lemma returns_atomic [returns_intros]: "returns R (atomic a)"
proof (rule returnsI)
  fix s es
  show "\<exists>n r s'. atomic a (s, es) = Some (r, s', drop n es)"
    by (cases es) (auto simp: act_simps intro: exI [of _ 0] exI [of _ 1])
qed

lemma returns_atomic_access [returns_intros]:
  "returns R (atomic_read f)" "returns R (atomic_write u)"
  by (simp_all add: atomic_read_def atomic_write_def returns_atomic)

lemma returns_bind [returns_intros]:
  assumes "returns R m" "\<And>x. returns R (f x)"
  shows "returns R (bind m f)"
proof (rule returnsI)
  fix s es
  assume es: "env_ok R es"
  obtain n r s1 where m: "m (s, es) = Some (r, s1, drop n es)"
    using assms(1) es by (rule returnsD)
  show "\<exists>n r s'. bind m f (s, es) = Some (r, s', drop n es)"
  proof (cases r)
    case (Inl err)
    then show ?thesis using m by (auto simp: act_simps)
  next
    case (Inr x)
    obtain j r' s2 where "f x (s1, drop n es) = Some (r', s2, drop j (drop n es))"
      using assms(2) env_ok_drop [OF es] by (rule returnsD)
    then show ?thesis using m Inr by (auto simp: act_simps)
  qed
qed

lemma returns_seq [returns_intros]: "returns R m \<Longrightarrow> returns R n \<Longrightarrow> returns R (seq m n)"
  by (simp add: seq_def returns_bind)

lemma returns_when [returns_intros]: "returns R m \<Longrightarrow> returns R (act_when b m)"
  by (simp add: act_when_def returns_basic)

lemma returns_if [returns_intros]: "returns R m \<Longrightarrow> returns R n \<Longrightarrow> returns R (if b then m else n)"
  by simp

lemma returns_option [returns_intros]:
  "returns R m \<Longrightarrow> (\<And>x. returns R (f x)) \<Longrightarrow> returns R (case_option m f x)"
  by (cases x) auto

lemma returns_sum [returns_intros]:
  "(\<And>x. returns R (f x)) \<Longrightarrow> (\<And>x. returns R (g x)) \<Longrightarrow> returns R (case_sum f g x)"
  by (cases x) auto

lemma returns_prod [returns_intros]: "(\<And>x y. returns R (f x y)) \<Longrightarrow> returns R (case_prod f p)"
  by (cases p) auto

lemma returns_for_each [returns_intros]:
  "(\<And>x. x \<in> set xs \<Longrightarrow> returns R (f x)) \<Longrightarrow> returns R (for_each xs f)"
  by (induction xs) (auto intro!: returns_intros)

lemma returns_act_map [returns_intros]:
  "(\<And>x. x \<in> set xs \<Longrightarrow> returns R (f x)) \<Longrightarrow> returns R (act_map f xs)"
  by (induction xs) (auto intro!: returns_intros)

text \<open>
  Retry loops. The body of the loop either ends it (\<open>Inr\<close>) or asks for another round (\<open>Inl\<close>). If other
  threads still had steps to take, a round that is repeated has used up at least one of them; if not,
  it leaves a state in which the next round ends the loop. Then the loop returns.
\<close>

definition retry_body ::
  "('s \<Rightarrow> 's \<Rightarrow> bool) \<Rightarrow> ('x \<Rightarrow> 's \<Rightarrow> bool) \<Rightarrow> ('x \<Rightarrow> ('s, 'x + 'y) act) \<Rightarrow> bool" where
  "retry_body R settles body \<longleftrightarrow>
     (\<forall>x s es. env_ok R es \<longrightarrow> (\<exists>n r s'. body x (s, es) = Some (r, s', drop n es) \<and>
        (\<forall>x'. r = Inr (Inl x') \<longrightarrow>
           (es \<noteq> [] \<longrightarrow> 0 < n) \<and> (es = [] \<longrightarrow> \<not> settles x s \<and> settles x' s'))))"

lemma retry_bodyI:
  "(\<And>x s es. env_ok R es \<Longrightarrow> \<exists>n r s'. body x (s, es) = Some (r, s', drop n es) \<and>
      (\<forall>x'. r = Inr (Inl x') \<longrightarrow>
         (es \<noteq> [] \<longrightarrow> 0 < n) \<and> (es = [] \<longrightarrow> \<not> settles x s \<and> settles x' s'))) \<Longrightarrow>
   retry_body R settles body"
  by (simp add: retry_body_def)

text \<open>
  More generally, a loop returns if a repeated round without interference decreases a measure.
\<close>

definition measured_body ::
  "('s \<Rightarrow> 's \<Rightarrow> bool) \<Rightarrow> ('x \<Rightarrow> 's \<Rightarrow> nat) \<Rightarrow> ('x \<Rightarrow> ('s, 'x + 'y) act) \<Rightarrow> bool" where
  "measured_body R \<mu> body \<longleftrightarrow>
     (\<forall>x s es. env_ok R es \<longrightarrow> (\<exists>n r s'. body x (s, es) = Some (r, s', drop n es) \<and>
        (\<forall>x'. r = Inr (Inl x') \<longrightarrow> (es \<noteq> [] \<longrightarrow> 0 < n) \<and> (es = [] \<longrightarrow> \<mu> x' s' < \<mu> x s))))"

lemma measured_bodyI:
  "(\<And>x s es. env_ok R es \<Longrightarrow> \<exists>n r s'. body x (s, es) = Some (r, s', drop n es) \<and>
      (\<forall>x'. r = Inr (Inl x') \<longrightarrow> (es \<noteq> [] \<longrightarrow> 0 < n) \<and> (es = [] \<longrightarrow> \<mu> x' s' < \<mu> x s))) \<Longrightarrow>
   measured_body R \<mu> body"
  by (simp add: measured_body_def)

lemma returns_measure:
  assumes body: "measured_body R \<mu> body"
    and fin: "\<And>y. returns R (fin y)"
    and unfold: "\<And>x se. loop x se = bind (body x) (\<lambda>r. case r of Inl x' \<Rightarrow> loop x' | Inr y \<Rightarrow> fin y) se"
  shows "returns R (loop x)"
proof -
  let ?after = "\<lambda>r. case r of Inl x' \<Rightarrow> loop x' | Inr y \<Rightarrow> fin y"
  have round: "\<exists>n r s'. loop x (s, es) = Some (r, s', drop n es)"
    if es: "env_ok R es"
      and again: "\<And>n x' s'. body x (s, es) = Some (Inr (Inl x'), s', drop n es) \<Longrightarrow>
        (es \<noteq> [] \<longrightarrow> 0 < n) \<Longrightarrow> (es = [] \<longrightarrow> \<mu> x' s' < \<mu> x s) \<Longrightarrow>
        \<exists>j r s2. loop x' (s', drop n es) = Some (r, s2, drop j (drop n es))" for x s es
  proof -
    obtain n r s' where b: "body x (s, es) = Some (r, s', drop n es)"
      and again': "\<And>x'. r = Inr (Inl x') \<Longrightarrow> (es \<noteq> [] \<longrightarrow> 0 < n) \<and> (es = [] \<longrightarrow> \<mu> x' s' < \<mu> x s)"
      using body es unfolding measured_body_def by blast
    consider (err) e where "r = Inl e" | (stop) y where "r = Inr (Inr y)" | (more) x' where "r = Inr (Inl x')"
      by (cases r) (auto, metis sum.exhaust)
    then show ?thesis
    proof cases
      case err
      then show ?thesis unfolding unfold [of x "(s, es)"] using b by (auto simp: act_simps)
    next
      case stop
      obtain j r' s2 where "fin y (s', drop n es) = Some (r', s2, drop j (drop n es))"
        using fin env_ok_drop [OF es] by (rule returnsD)
      then show ?thesis unfolding unfold [of x "(s, es)"] using b stop by (auto simp: act_simps)
    next
      case more
      obtain j r' s2 where "loop x' (s', drop n es) = Some (r', s2, drop j (drop n es))"
        using again [of x' s' n] again' [OF more] b more by blast
      then show ?thesis unfolding unfold [of x "(s, es)"] using b more by (auto simp: act_simps)
    qed
  qed
  have alone: "\<exists>n r s'. loop x (s, []) = Some (r, s', drop n [])" for x s
  proof (induction "\<mu> x s" arbitrary: x s rule: less_induct)
    case less
    show ?case by (rule round) (use less in \<open>auto simp: env_ok_def\<close>)
  qed
  have "\<exists>n r s'. loop x (s, es) = Some (r, s', drop n es)" if "env_ok R es" for x s es
    using that
  proof (induction "length es" arbitrary: x s es rule: less_induct)
    case less
    show ?case
    proof (rule round [OF less.prems])
      fix n :: nat and x' s'
      assume n: "es \<noteq> [] \<longrightarrow> 0 < n" and "es = [] \<longrightarrow> \<mu> x' s' < \<mu> x s"
      then show "\<exists>j r s2. loop x' (s', drop n es) = Some (r, s2, drop j (drop n es))"
        using alone [of x' s'] less.hyps [OF _ env_ok_drop [OF less.prems], of n x' s']
        by (cases "es = []") auto
    qed
  qed
  then show ?thesis by (rule returnsI)
qed

lemma retry_measured:
  "retry_body R settles body \<Longrightarrow> measured_body R (\<lambda>x s. if settles x s then 0 else 1) body"
  unfolding retry_body_def measured_body_def by (simp add: if_split_mem1) meson

lemma returns_retry:
  assumes "retry_body R settles body"
    and "\<And>y. returns R (fin y)"
    and "\<And>x se. loop x se = bind (body x) (\<lambda>r. case r of Inl x' \<Rightarrow> loop x' | Inr y \<Rightarrow> fin y) se"
  shows "returns R (loop x)"
  using returns_measure [OF retry_measured [OF assms(1)] assms(2,3)] .

section \<open>What an action that runs alone leaves unchanged\<close>

definition preserves :: "('s \<Rightarrow> 'b) \<Rightarrow> ('s, 'a) act \<Rightarrow> bool" where
  "preserves f m \<longleftrightarrow> (\<forall>s r s' es'. m (s, []) = Some (r, s', es') \<longrightarrow> es' = [] \<and> f s' = f s)"

named_theorems preserves_intros \<open>what actions leave unchanged\<close>

lemma preservesD: "preserves f m \<Longrightarrow> m (s, []) = Some (r, s', es') \<Longrightarrow> es' = [] \<and> f s' = f s"
  unfolding preserves_def by blast

lemma preserves_basic [preserves_intros]:
  "preserves f (ret x)" "preserves f (raise err)" "preserves f (gets h)"
  "preserves f (atomic_read h)"
  by (simp_all add: preserves_def act_simps)

lemma preserves_update [preserves_intros]:
  "(\<And>s. f (u s) = f s) \<Longrightarrow> preserves f (modify u)"
  "(\<And>s. f (u s) = f s) \<Longrightarrow> preserves f (atomic_write u)"
  "(\<And>s. f (snd (a s)) = f s) \<Longrightarrow> preserves f (atomic a)"
  by (auto simp: preserves_def act_simps)

lemma preserves_bind [preserves_intros]:
  assumes "preserves f m" "\<And>x. preserves f (h x)"
  shows "preserves f (bind m h)"
  unfolding preserves_def
proof (intro allI impI)
  fix s r s' es'
  assume b: "bind m h (s, []) = Some (r, s', es')"
  then obtain r1 s1 es1 where m: "m (s, []) = Some (r1, s1, es1)"
    by (auto simp: bind_def split: option.splits)
  then have 1: "es1 = []" "f s1 = f s" using preservesD [OF assms(1)] by blast+
  show "es' = [] \<and> f s' = f s"
  proof (cases r1)
    case (Inl err)
    then show ?thesis using b m 1 by (auto simp: act_simps)
  next
    case (Inr x)
    then have "h x (s1, []) = Some (r, s', es')" using b m 1 by (simp add: act_simps)
    then show ?thesis using preservesD [OF assms(2)] 1 by metis
  qed
qed

lemma preserves_seq [preserves_intros]: "preserves f m \<Longrightarrow> preserves f n \<Longrightarrow> preserves f (seq m n)"
  by (simp add: seq_def preserves_bind)

lemma preserves_when [preserves_intros]: "preserves f m \<Longrightarrow> preserves f (act_when b m)"
  by (simp add: act_when_def preserves_basic)

lemma preserves_if [preserves_intros]:
  "(b \<Longrightarrow> preserves f m) \<Longrightarrow> (\<not> b \<Longrightarrow> preserves f n) \<Longrightarrow> preserves f (if b then m else n)"
  by simp

lemma preserves_option [preserves_intros]:
  "preserves f m \<Longrightarrow> (\<And>x. preserves f (h x)) \<Longrightarrow> preserves f (case_option m h x)"
  by (cases x) auto

lemma preserves_sum [preserves_intros]:
  "(\<And>x. preserves f (h x)) \<Longrightarrow> (\<And>x. preserves f (h' x)) \<Longrightarrow> preserves f (case_sum h h' x)"
  by (cases x) auto

lemma preserves_prod [preserves_intros]:
  "(\<And>x y. preserves f (h x y)) \<Longrightarrow> preserves f (case_prod h p)"
  by (cases p) auto

lemma preserves_for_each [preserves_intros]:
  "(\<And>x. x \<in> set xs \<Longrightarrow> preserves f (h x)) \<Longrightarrow> preserves f (for_each xs h)"
  by (induction xs) (auto intro!: preserves_intros)

lemma preserves_act_map [preserves_intros]:
  "(\<And>x. x \<in> set xs \<Longrightarrow> preserves f (h x)) \<Longrightarrow> preserves f (act_map h xs)"
  by (induction xs) (auto intro!: preserves_intros)

section \<open>Total correctness of actions that run alone\<close>

definition ensures :: "('s \<Rightarrow> bool) \<Rightarrow> ('s, 'a) act \<Rightarrow> ('a \<Rightarrow> 's \<Rightarrow> bool) \<Rightarrow> bool" where
  "ensures P m Q \<longleftrightarrow> (\<forall>s. P s \<longrightarrow> (\<exists>r s'. m (s, []) = Some (Inr r, s', []) \<and> Q r s'))"

lemma ensuresI:
  "(\<And>s. P s \<Longrightarrow> \<exists>r s'. m (s, []) = Some (Inr r, s', []) \<and> Q r s') \<Longrightarrow> ensures P m Q"
  by (simp add: ensures_def)

lemma ensuresE:
  assumes "ensures P m Q" "P s"
  obtains r s' where "m (s, []) = Some (Inr r, s', [])" "Q r s'"
  using assms by (auto simp: ensures_def)

lemma ensures_bind:
  assumes "ensures P m Q" "\<And>x. ensures (Q x) (f x) S"
  shows "ensures P (bind m f) S"
  using assms unfolding ensures_def by (metis bind_run(1))

lemma ensures_seq: "ensures P m (\<lambda>_. Q) \<Longrightarrow> ensures Q n S \<Longrightarrow> ensures P (seq m n) S"
  unfolding seq_def by (rule ensures_bind)

lemma ensures_pre: "ensures P m Q \<Longrightarrow> (\<And>s. P' s \<Longrightarrow> P s) \<Longrightarrow> ensures P' m Q"
  by (auto simp: ensures_def)

lemma ensures_post: "ensures P m Q \<Longrightarrow> (\<And>r s. Q r s \<Longrightarrow> Q' r s) \<Longrightarrow> ensures P m Q'"
  unfolding ensures_def by blast

lemma ensures_for_each:
  assumes "\<And>i. i < length xs \<Longrightarrow> ensures (I i) (f (xs ! i)) (\<lambda>_. I (Suc i))"
  shows "ensures (I 0) (for_each xs f) (\<lambda>_. I (length xs))"
  using assms
proof (induction xs arbitrary: I)
  case Nil
  then show ?case by (auto simp: ensures_def act_simps)
next
  case (Cons x xs)
  have "ensures (I 0) (f x) (\<lambda>_. I (Suc 0))"
    using Cons.prems [of 0] by simp
  moreover have "ensures (I (Suc 0)) (for_each xs f) (\<lambda>_. I (Suc (length xs)))"
    using Cons.prems [of "Suc i" for i] by (intro Cons.IH [of "\<lambda>i. I (Suc i)", simplified]) force
  ultimately show ?case by (auto intro: ensures_seq)
qed

end
