(* ===== verification/Epoch.thy ===== *)
theory Epoch
  imports Cdpt_Prelude
begin

text \<open>
  Models \<^verbatim>\<open>src/src/epoch.rs\<close>: the collection phases, the two colours, the packed epoch
  word and the atomic cell that holds one. The bits of an epoch are, from the least
  significant: pinned (1), phase number (2), white colour (1), timestamp (60).

  The lemmas give the four accessors on every update, the laws of the bit fields (as
  interpretations of \<open>packed_field\<close>), the wrap-around of the 60-bit timestamp, and that
  no operation of the crate builds an epoch whose phase number makes \<^verbatim>\<open>Phase::from\<close> panic.
\<close>

section \<open>Phases and colours\<close>

datatype phase = N | RT | CT

datatype color = C0 | C1

definition phase_from :: "usize \<Rightarrow> phase outcome" where
  "phase_from v =
     (if v = 0b00 then Inr N
      else if v = 0b01 then Inr RT
      else if v = 0b10 then Inr CT
      else Inl InvalidPhase)"

fun phase_as_usize :: "phase \<Rightarrow> usize" where
  "phase_as_usize N = 0b00"
| "phase_as_usize RT = 0b01"
| "phase_as_usize CT = 0b10"

definition color_from :: "usize \<Rightarrow> color" where
  "color_from v = (if v = 0 then C0 else C1)"

fun color_as_usize :: "color \<Rightarrow> usize" where
  "color_as_usize C0 = 0"
| "color_as_usize C1 = 1"

fun flip :: "color \<Rightarrow> color" where
  "flip C0 = C1"
| "flip C1 = C0"

section \<open>The packed epoch\<close>

record epoch =
  epoch_data :: usize

definition PINNED_POS :: nat where "PINNED_POS = 0"
definition PHASE_NUMBER_POS :: nat where "PHASE_NUMBER_POS = PINNED_POS + 1"
definition COLOR_POS :: nat where "COLOR_POS = PHASE_NUMBER_POS + 2"
definition TIMESTAMP_POS :: nat where "TIMESTAMP_POS = COLOR_POS + 1"

definition PINNED_BIT :: usize where "PINNED_BIT = push_bit PINNED_POS 0b1"
definition PHASE_NUMBER_BITS :: usize where
  "PHASE_NUMBER_BITS = push_bit PHASE_NUMBER_POS 0b11"
definition COLOR_BIT :: usize where "COLOR_BIT = push_bit COLOR_POS 0b1"
definition TIMESTAMP_BITS :: usize where "TIMESTAMP_BITS = push_bit TIMESTAMP_POS usize_MAX"

definition starting :: epoch where
  "starting = \<lparr>epoch_data = 0\<rparr>"

definition is_pinned :: "epoch \<Rightarrow> bool" where
  "is_pinned e \<longleftrightarrow> epoch_data e AND PINNED_BIT > 0"

definition pinned :: "epoch \<Rightarrow> epoch" where
  "pinned e = \<lparr>epoch_data = epoch_data e OR PINNED_BIT\<rparr>"

definition unpinned :: "epoch \<Rightarrow> epoch" where
  "unpinned e = \<lparr>epoch_data = epoch_data e AND NOT PINNED_BIT\<rparr>"

definition epoch_phase :: "epoch \<Rightarrow> phase outcome" where
  "epoch_phase e =
     phase_from (drop_bit PHASE_NUMBER_POS (epoch_data e AND PHASE_NUMBER_BITS))"

definition with_phase :: "phase \<Rightarrow> epoch \<Rightarrow> epoch" where
  "with_phase p e =
     \<lparr>epoch_data = (epoch_data e AND NOT PHASE_NUMBER_BITS)
        OR push_bit PHASE_NUMBER_POS (phase_as_usize p)\<rparr>"

definition epoch_color :: "epoch \<Rightarrow> color" where
  "epoch_color e = color_from (drop_bit COLOR_POS (epoch_data e AND COLOR_BIT))"

definition with_color :: "color \<Rightarrow> epoch \<Rightarrow> epoch" where
  "with_color c e =
     \<lparr>epoch_data = (epoch_data e AND NOT COLOR_BIT) OR push_bit COLOR_POS (color_as_usize c)\<rparr>"

definition timestamp :: "epoch \<Rightarrow> usize" where
  "timestamp e = drop_bit TIMESTAMP_POS (epoch_data e AND TIMESTAMP_BITS)"

definition with_timestamp :: "usize \<Rightarrow> epoch \<Rightarrow> epoch" where
  "with_timestamp v e =
     \<lparr>epoch_data = (epoch_data e AND NOT TIMESTAMP_BITS) OR push_bit TIMESTAMP_POS v\<rparr>"

section \<open>The atomic epoch\<close>

record atomic_epoch =
  atomic_epoch_data :: usize

definition atomic_epoch_new :: "epoch \<Rightarrow> atomic_epoch" where
  "atomic_epoch_new e = \<lparr>atomic_epoch_data = epoch_data e\<rparr>"

definition atomic_epoch_load :: "atomic_epoch \<Rightarrow> epoch" where
  "atomic_epoch_load a = \<lparr>epoch_data = atomic_epoch_data a\<rparr>"

definition atomic_epoch_store :: "epoch \<Rightarrow> atomic_epoch \<Rightarrow> atomic_epoch" where
  "atomic_epoch_store e a = a\<lparr>atomic_epoch_data := epoch_data e\<rparr>"

definition atomic_epoch_compare_exchange ::
  "epoch \<Rightarrow> epoch \<Rightarrow> atomic_epoch \<Rightarrow> atomic_epoch \<times> (epoch + epoch)" where
  "atomic_epoch_compare_exchange current new a =
     (case compare_exchange (atomic_epoch_data a) (epoch_data current) (epoch_data new) of
        (d, Inr v) \<Rightarrow> (a\<lparr>atomic_epoch_data := d\<rparr>, Inr \<lparr>epoch_data = v\<rparr>)
      | (d, Inl v) \<Rightarrow> (a\<lparr>atomic_epoch_data := d\<rparr>, Inl \<lparr>epoch_data = v\<rparr>))"

definition atomic_epoch_load_non_atomic :: "atomic_epoch \<Rightarrow> epoch" where
  "atomic_epoch_load_non_atomic a = \<lparr>epoch_data = atomic_epoch_data a\<rparr>"

section \<open>Accessors on updates\<close>

declare push_bit_of_1 [simp del] push_bit_numeral [simp del]

text \<open>The constants of the layout, evaluated.\<close>

lemma epoch_layout [layout_defs]:
  "PINNED_POS = 0" "PHASE_NUMBER_POS = 1" "COLOR_POS = 3" "TIMESTAMP_POS = 4"
  "PINNED_BIT = push_bit 0 1" "PHASE_NUMBER_BITS = push_bit 1 3" "COLOR_BIT = push_bit 3 1"
  "TIMESTAMP_BITS = push_bit 4 (- 1)"
  by (simp_all add: PINNED_POS_def PHASE_NUMBER_POS_def COLOR_POS_def TIMESTAMP_POS_def
      PINNED_BIT_def PHASE_NUMBER_BITS_def COLOR_BIT_def TIMESTAMP_BITS_def usize_MAX_def
      numeral_eq_Suc)

lemma flip_flip [simp]: "flip (flip c) = c"
  by (cases c) auto

lemma flip_neq [simp]: "flip c \<noteq> c" "c \<noteq> flip c"
  by (cases c; simp)+

lemma neq_iff_flip: "c \<noteq> d \<longleftrightarrow> c = flip d"
  by (cases c; cases d) auto

lemma color_from_as [simp]: "color_from (color_as_usize c) = c"
  by (cases c) (auto simp: color_from_def)

lemma phase_from_as [simp]: "phase_from (phase_as_usize p) = Inr p"
  by (cases p) (auto simp: phase_from_def)

text \<open>Each accessor in terms of single bits of the word.\<close>

lemma is_pinned_bit: "is_pinned e \<longleftrightarrow> bit (epoch_data e) 0"
  using and_single_bit_eq_0 [of "epoch_data e" 0]
  by (simp add: is_pinned_def epoch_layout word_gt_0)

lemma epoch_color_bit: "epoch_color e = (if bit (epoch_data e) 3 then C1 else C0)"
proof -
  have "drop_bit 3 (epoch_data e AND push_bit 3 1) = of_bool (bit (epoch_data e) 3)"
    by (rule bit_word_eqI) (auto simp: bit_simps)
  then show ?thesis
    unfolding epoch_color_def epoch_layout by (simp only:) (simp add: color_from_def)
qed

lemma timestamp_drop_bit: "timestamp e = drop_bit 4 (epoch_data e)"
  unfolding timestamp_def epoch_layout by (rule bit_word_eqI) (auto simp: bit_simps dest: bit_imp_le_length)

lemma epoch_phase_bit:
  "epoch_phase e =
     (if bit (epoch_data e) 2 then (if bit (epoch_data e) 1 then Inl InvalidPhase else Inr CT)
      else Inr (if bit (epoch_data e) 1 then RT else N))"
proof -
  let ?d = "epoch_data e"
  have "drop_bit 1 (?d AND push_bit 1 3) = of_bool (bit ?d 1) OR push_bit 1 (of_bool (bit ?d 2))"
    using two_bit_field [of 1 ?d] by (simp only: Suc_1)
  then show ?thesis
    unfolding epoch_phase_def epoch_layout
    by (cases "bit ?d 1"; cases "bit ?d 2") (simp_all only:, simp_all add: phase_from_def)
qed

lemma bit_with_phase:
  "bit (epoch_data (with_phase p e)) n \<longleftrightarrow>
     (if n = 1 then p = RT else if n = 2 then p = CT else bit (epoch_data e) n)"
proof -
  have b: "bit (phase_as_usize p) m \<longleftrightarrow> m = 0 \<and> p = RT \<or> m = 1 \<and> p = CT" for m
    by (cases p) (auto simp: bit_simps bit_2_iff)
  have "bit (push_bit 1 (phase_as_usize p)) n \<longleftrightarrow> n = 1 \<and> p = RT \<or> n = 2 \<and> p = CT"
    unfolding bit_push_bit_iff b possible_bit_word by (auto simp: le_Suc_eq)
  moreover have "bit (push_bit 1 3 :: usize) n \<longleftrightarrow> n = 1 \<or> n = 2"
    unfolding three_eq_mask bit_push_bit_iff bit_mask_iff possible_bit_word by auto
  ultimately show ?thesis
    unfolding with_phase_def epoch_layout
    by (auto simp: bit_simps dest: bit_imp_le_length)
qed

lemma bit_with_color:
  "bit (epoch_data (with_color c e)) n \<longleftrightarrow> (if n = 3 then c = C1 else bit (epoch_data e) n)"
  unfolding with_color_def epoch_layout
  by (cases c) (auto simp: bit_simps dest: bit_imp_le_length)

lemma bit_with_timestamp:
  "bit (epoch_data (with_timestamp v e)) n \<longleftrightarrow>
     (if n < 4 then bit (epoch_data e) n else n < 64 \<and> bit v (n - 4))"
  unfolding with_timestamp_def epoch_layout
  by (auto simp: bit_simps dest: bit_imp_le_length)

lemma bit_pinned: "bit (epoch_data (pinned e)) n \<longleftrightarrow> n = 0 \<or> bit (epoch_data e) n"
  unfolding pinned_def epoch_layout by (auto simp: bit_simps)

lemma bit_unpinned: "bit (epoch_data (unpinned e)) n \<longleftrightarrow> n \<noteq> 0 \<and> bit (epoch_data e) n"
  unfolding unpinned_def epoch_layout by (auto simp: bit_simps dest: bit_imp_le_length)

lemmas epoch_readers = is_pinned_bit epoch_color_bit epoch_phase_bit timestamp_drop_bit
lemmas epoch_writers =
  bit_with_phase bit_with_color bit_with_timestamp bit_pinned bit_unpinned

lemma epoch_eqI:
  fixes e e' :: epoch
  shows "(\<And>n. n < 64 \<Longrightarrow> bit (epoch_data e) n \<longleftrightarrow> bit (epoch_data e') n) \<Longrightarrow> e = e'"
  by (rule epoch.equality) (auto intro: bit_word_eqI)

lemma timestamp_of [epoch_simps]:
  "timestamp (with_timestamp v e) = take_bit 60 v"
  "timestamp (with_phase p e) = timestamp e"
  "timestamp (with_color c e) = timestamp e"
  "timestamp (pinned e) = timestamp e"
  "timestamp (unpinned e) = timestamp e"
  by (rule bit_word_eqI; auto simp: epoch_readers bit_simps epoch_writers)+

lemma epoch_color_of [epoch_simps]:
  "epoch_color (with_color c e) = c"
  "epoch_color (with_phase p e) = epoch_color e"
  "epoch_color (with_timestamp v e) = epoch_color e"
  "epoch_color (pinned e) = epoch_color e"
  "epoch_color (unpinned e) = epoch_color e"
  by (cases c; simp add: epoch_readers epoch_writers)
    (simp_all add: epoch_readers epoch_writers)

lemma epoch_phase_of [epoch_simps]:
  "epoch_phase (with_phase p e) = Inr p"
  "epoch_phase (with_color c e) = epoch_phase e"
  "epoch_phase (with_timestamp v e) = epoch_phase e"
  "epoch_phase (pinned e) = epoch_phase e"
  "epoch_phase (unpinned e) = epoch_phase e"
  by (cases p; simp add: epoch_readers epoch_writers)
    (simp_all add: epoch_readers epoch_writers)

lemma is_pinned_of [epoch_simps]:
  "is_pinned (pinned e)"
  "\<not> is_pinned (unpinned e)"
  "is_pinned (with_phase p e) = is_pinned e"
  "is_pinned (with_color c e) = is_pinned e"
  "is_pinned (with_timestamp v e) = is_pinned e"
  by (simp_all add: epoch_readers epoch_writers)

lemma starting_fields [epoch_simps]:
  "\<not> is_pinned starting" "epoch_phase starting = Inr N" "epoch_color starting = C0"
  "timestamp starting = 0"
  by (simp_all add: epoch_readers starting_def)

lemma timestamp_bound: "timestamp e < 2 ^ 60"
proof -
  have "take_bit 60 (timestamp e) = timestamp e"
    by (rule bit_word_eqI) (auto simp: epoch_readers bit_simps dest: bit_imp_le_length)
  then show ?thesis by (simp only: word_eq_take_bit_less)
qed

section \<open>The bit fields of an epoch\<close>

definition epoch_wf :: "epoch \<Rightarrow> bool" where
  "epoch_wf e \<longleftrightarrow> \<not> isl (epoch_phase e)"

lemma epoch_wf_bits: "epoch_wf e \<longleftrightarrow> \<not> (bit (epoch_data e) 1 \<and> bit (epoch_data e) 2)"
  by (simp add: epoch_wf_def epoch_phase_bit)

lemma epoch_wf_of [epoch_simps]:
  "epoch_wf starting" "epoch_wf (with_phase p e)"
  "epoch_wf (with_color c e) = epoch_wf e" "epoch_wf (with_timestamp v e) = epoch_wf e"
  "epoch_wf (pinned e) = epoch_wf e" "epoch_wf (unpinned e) = epoch_wf e"
  by (simp_all add: epoch_wf_def epoch_simps)

lemma take_bit_60: "(v :: usize) < 2 ^ 60 \<Longrightarrow> take_bit 60 v = v"
  by (rule unat_lt_take_bit) (simp_all add: word_less_nat_alt)

interpretation ts: packed_field timestamp with_timestamp "\<lambda>_ :: epoch. True" "\<lambda>v. v < 2 ^ 60"
proof unfold_locales
  show "with_timestamp (timestamp w) w = w" for w :: epoch
    by (rule epoch_eqI) (auto simp: epoch_writers timestamp_drop_bit bit_simps)
qed (auto simp: epoch_simps take_bit_60 timestamp_bound [simplified] epoch_writers intro!: epoch_eqI)

interpretation col: packed_field epoch_color with_color "\<lambda>_ :: epoch. True" "\<lambda>_. True"
proof unfold_locales
  show "with_color (epoch_color w) w = w" for w :: epoch
    by (rule epoch_eqI) (simp add: epoch_writers epoch_color_bit)
qed (auto simp: epoch_simps epoch_writers intro!: epoch_eqI)

interpretation ph: packed_field "\<lambda>e. projr (epoch_phase e)" with_phase epoch_wf "\<lambda>_. True"
proof unfold_locales
  show "with_phase (projr (epoch_phase w)) w = w" if "epoch_wf w" for w :: epoch
    using that
    by (intro epoch_eqI) (auto simp: epoch_wf_bits epoch_writers epoch_phase_bit)
qed (auto simp: epoch_simps epoch_writers intro!: epoch_eqI)

interpretation ts_col: packed_fields
  timestamp with_timestamp "\<lambda>_ :: epoch. True" "\<lambda>v. v < 2 ^ 60"
  epoch_color with_color "\<lambda>_ :: epoch. True" "\<lambda>_. True"
  by unfold_locales (auto simp: epoch_simps epoch_writers intro!: epoch_eqI)

interpretation ts_ph: packed_fields
  timestamp with_timestamp "\<lambda>_ :: epoch. True" "\<lambda>v. v < 2 ^ 60"
  "\<lambda>e. projr (epoch_phase e)" with_phase epoch_wf "\<lambda>_. True"
  by unfold_locales (auto simp: epoch_simps epoch_writers intro!: epoch_eqI)

interpretation col_ph: packed_fields
  epoch_color with_color "\<lambda>_ :: epoch. True" "\<lambda>_. True"
  "\<lambda>e. projr (epoch_phase e)" with_phase epoch_wf "\<lambda>_. True"
  by unfold_locales (auto simp: epoch_simps epoch_writers intro!: epoch_eqI)

text \<open>An epoch is the four values it packs, and nothing else.\<close>

lemma epoch_fields_inject:
  fixes e e' :: epoch
  assumes "epoch_wf e" "epoch_wf e'"
    and "is_pinned e = is_pinned e'" "epoch_phase e = epoch_phase e'"
    and "epoch_color e = epoch_color e'" "timestamp e = timestamp e'"
  shows "e = e'"
proof (rule epoch_eqI)
  fix n :: nat
  assume "n < 64"
  have ts: "bit (epoch_data e) (4 + m) = bit (epoch_data e') (4 + m)" for m
    using assms(6) by (metis timestamp_drop_bit bit_drop_bit_eq comp_apply)
  consider "n = 0" | "n = 1" | "n = 2" | "n = 3" | m where "n = 4 + m"
    by (metis add.commute le_Suc_ex less_Suc_eq not_less numeral_eq_Suc pred_numeral_simps(2)
        semiring_norm(26,27) less_one one_eq_numeral_iff numeral_3_eq_3 numeral_2_eq_2 One_nat_def
        pred_numeral_simps(3) less_numeral_extra(3) less_Suc0)
  then show "bit (epoch_data e) n = bit (epoch_data e') n"
    using assms(1-5) ts
    by cases (auto simp: epoch_wf_bits epoch_readers split: if_splits)
qed

text \<open>
  The epochs the crate can build: from the starting epoch by its setters. None of them makes
  \<^verbatim>\<open>Phase::from\<close> panic.
\<close>

inductive epoch_built :: "epoch \<Rightarrow> bool" where
  "epoch_built starting"
| "epoch_built e \<Longrightarrow> epoch_built (pinned e)"
| "epoch_built e \<Longrightarrow> epoch_built (unpinned e)"
| "epoch_built e \<Longrightarrow> epoch_built (with_phase p e)"
| "epoch_built e \<Longrightarrow> epoch_built (with_color c e)"
| "epoch_built e \<Longrightarrow> epoch_built (with_timestamp v e)"

lemma epoch_built_wf: "epoch_built e \<Longrightarrow> epoch_wf e"
  by (induction rule: epoch_built.induct) (simp_all add: epoch_simps)

lemma epoch_wf_phase: "epoch_wf e \<longleftrightarrow> (\<exists>p. epoch_phase e = Inr p)"
  by (auto simp: epoch_wf_def isl_def) (metis sum.exhaust)

section \<open>Properties\<close>

text \<open>
  C34: writing the three settable fields of an epoch and reading them back gives the phase and the
  colour that were written, the timestamp modulo \<open>2 ^ 60\<close>, and leaves the pinned bit alone; and
  an epoch is determined by its four fields.
\<close>

theorem epoch_fields_roundtrip:
  fixes e e' :: epoch
  assumes "epoch_wf e" "epoch_wf e'"
  shows "(let w = with_timestamp v (with_color c (with_phase p e)) in
      epoch_phase w = Inr p \<and> epoch_color w = c \<and> timestamp w = take_bit 60 v \<and>
      is_pinned w = is_pinned e \<and> epoch_wf w) \<and>
    (epoch_phase e = epoch_phase e' \<and> epoch_color e = epoch_color e' \<and> timestamp e = timestamp e' \<and>
      is_pinned e = is_pinned e' \<longleftrightarrow> e = e')"
  using epoch_fields_inject [of e e'] assms by (auto simp: epoch_simps Let_def)

theorem epoch_fields_roundtrip_witness:
  "epoch_phase (with_timestamp 5 (with_color C1 (with_phase CT (pinned starting)))) = Inr CT \<and>
   is_pinned (with_timestamp 5 (with_color C1 (with_phase CT (pinned starting)))) \<and>
   with_color C0 (pinned starting) = pinned starting"
  using epoch_fields_roundtrip [of "pinned starting" "with_color C0 (pinned starting)" 5 C1 CT]
  by (simp add: epoch_simps Let_def)

text \<open>
  C35: the panic of \<^verbatim>\<open>Phase::from\<close> is unreachable: every epoch that is built from the starting one by
  the public operations has a valid phase.
\<close>

theorem epoch_phase_no_panic:
  assumes "epoch_built e"
  shows "\<exists>p. epoch_phase e = Inr p"
  using epoch_built_wf [OF assms] by (cases "epoch_phase e") (auto simp: epoch_wf_def)

theorem epoch_phase_no_panic_witness:
  "\<exists>p. epoch_phase (pinned (with_phase RT starting)) = Inr p"
  by (intro epoch_phase_no_panic epoch_built.intros)

end
