(* ===== verification/Obj_Meta.thy ===== *)
theory Obj_Meta
  imports Epoch
begin

text \<open>
  Models the object header of \<^verbatim>\<open>src/src/pointers.rs\<close> (\<^verbatim>\<open>ObjMeta\<close>, \<^verbatim>\<open>AtomicObjMeta\<close>): one
  word that packs the mark colour (bit 63), the type id (bits 55 to 62) and the root count
  (bits 0 to 54). The root count is updated by fetch-and-add on the whole word and the colour by a
  compare-exchange loop.

  The lemmas show that the three fields do not disturb each other: building a header and reading it
  back, counting up and down within the 55-bit range, marking; and what happens at the two ends of
  the range, where a count runs over into the type id.
\<close>

section \<open>The packed header\<close>

definition TYPE_ID_BITS :: nat where "TYPE_ID_BITS = 8"

record obj_meta =
  meta_word :: usize

definition COLOR_SHIFT :: nat where "COLOR_SHIFT = 63"
definition TYPE_ID_SHIFT :: nat where "TYPE_ID_SHIFT = COLOR_SHIFT - TYPE_ID_BITS"
definition TYPE_ID_MASK :: usize where
  "TYPE_ID_MASK = push_bit TYPE_ID_SHIFT (push_bit TYPE_ID_BITS 1 - 1)"
definition ROOT_COUNT_BITS :: nat where "ROOT_COUNT_BITS = TYPE_ID_SHIFT"
definition ROOT_COUNT_MASK :: usize where "ROOT_COUNT_MASK = push_bit ROOT_COUNT_BITS 1 - 1"

definition obj_meta_from :: "usize \<Rightarrow> obj_meta" where
  "obj_meta_from v = \<lparr>meta_word = v\<rparr>"

definition obj_meta_default :: obj_meta where
  "obj_meta_default = \<lparr>meta_word = 0\<rparr>"

definition obj_meta_new :: "color \<Rightarrow> usize \<Rightarrow> obj_meta" where
  "obj_meta_new marked root_count =
     \<lparr>meta_word = push_bit COLOR_SHIFT (color_as_usize marked) OR (root_count AND ROOT_COUNT_MASK)\<rparr>"

definition new_with_type_id :: "color \<Rightarrow> usize \<Rightarrow> u8 \<Rightarrow> obj_meta" where
  "new_with_type_id marked root_count type_id =
     \<lparr>meta_word = push_bit COLOR_SHIFT (color_as_usize marked)
        OR push_bit TYPE_ID_SHIFT (ucast type_id)
        OR (root_count AND ROOT_COUNT_MASK)\<rparr>"

definition type_id :: "obj_meta \<Rightarrow> u8" where
  "type_id m = ucast (drop_bit TYPE_ID_SHIFT (meta_word m AND TYPE_ID_MASK))"

definition marked :: "obj_meta \<Rightarrow> color" where
  "marked m = color_from (drop_bit COLOR_SHIFT (meta_word m))"

definition with_marked :: "color \<Rightarrow> obj_meta \<Rightarrow> obj_meta" where
  "with_marked c m =
     \<lparr>meta_word = (meta_word m AND NOT (push_bit COLOR_SHIFT 1))
        OR push_bit COLOR_SHIFT (color_as_usize c)\<rparr>"

definition root_count :: "obj_meta \<Rightarrow> usize" where
  "root_count m = meta_word m AND ROOT_COUNT_MASK"

section \<open>The atomic header\<close>

text \<open>
  An \<^verbatim>\<open>AtomicObjMeta\<close> is the cell that holds the header word. The two counters return the root
  count before the update, together with the new content of the cell.
\<close>

type_synonym atomic_obj_meta = obj_meta

definition increment_root_count :: "atomic_obj_meta \<Rightarrow> atomic_obj_meta \<times> usize" where
  "increment_root_count m = (obj_meta_from (meta_word m + 1), root_count m)"

definition decrement_root_count :: "atomic_obj_meta \<Rightarrow> atomic_obj_meta \<times> usize" where
  "decrement_root_count m = (obj_meta_from (meta_word m - 1), root_count m)"

text \<open>
  \<^verbatim>\<open>AtomicObjMeta::mark\<close>: load the header, then retry a compare-exchange to the black colour until
  it succeeds or the header is found to be black. \<open>es\<close> is what other threads do to the header in
  the meantime.
\<close>

definition header_mark ::
  "color \<Rightarrow> (obj_meta \<Rightarrow> obj_meta) list \<Rightarrow> atomic_obj_meta \<Rightarrow>
     (atomic_obj_meta \<times> (obj_meta \<Rightarrow> obj_meta) list) option" where
  "header_mark black es m =
     (let meta = m in cas_loop (\<lambda>meta. marked meta = black) (with_marked black) es meta m)"

section \<open>Accessors on updates\<close>

declare push_bit_of_1 [simp del] push_bit_numeral [simp del]

lemma obj_meta_eqI:
  fixes m m' :: obj_meta
  shows "(\<And>n. n < 64 \<Longrightarrow> bit (meta_word m) n \<longleftrightarrow> bit (meta_word m') n) \<Longrightarrow> m = m'"
  by (rule obj_meta.equality) (auto intro: bit_word_eqI)

lemma meta_layout [layout_defs]:
  "TYPE_ID_BITS = 8" "COLOR_SHIFT = 63" "TYPE_ID_SHIFT = 55" "ROOT_COUNT_BITS = 55"
  "TYPE_ID_MASK = push_bit 55 (mask 8)" "ROOT_COUNT_MASK = mask 55"
  by (simp_all add: TYPE_ID_BITS_def COLOR_SHIFT_def TYPE_ID_SHIFT_def ROOT_COUNT_BITS_def
      TYPE_ID_MASK_def ROOT_COUNT_MASK_def mask_eq_exp_minus_1 push_bit_of_1)

lemma marked_bit: "marked m = (if bit (meta_word m) 63 then C1 else C0)"
proof -
  have "drop_bit 63 (meta_word m) = of_bool (bit (meta_word m) 63)"
    using bit_imp_le_length [of "meta_word m"]
    by (intro bit_word_eqI) (fastforce simp: bit_simps)
  then show ?thesis
    unfolding marked_def meta_layout by (simp only:) (simp add: color_from_def)
qed

lemma bit_type_id: "bit (type_id m) n \<longleftrightarrow> n < 8 \<and> bit (meta_word m) (55 + n)"
  unfolding type_id_def meta_layout by (auto simp: bit_simps)

lemma root_count_take_bit: "root_count m = take_bit 55 (meta_word m)"
  by (simp add: root_count_def meta_layout take_bit_eq_mask)

lemma bit_with_marked:
  "bit (meta_word (with_marked c m)) n \<longleftrightarrow> (if n = 63 then c = C1 else bit (meta_word m) n)"
  unfolding with_marked_def meta_layout
  by (cases c) (auto simp: bit_simps dest: bit_imp_le_length)

lemma bit_new_with_type_id:
  "bit (meta_word (new_with_type_id c rc t)) n \<longleftrightarrow>
     (if n < 55 then bit rc n else if n < 63 then bit t (n - 55) else n = 63 \<and> c = C1)"
  unfolding new_with_type_id_def meta_layout
  by (cases c) (auto simp: bit_simps dest: bit_imp_le_length)

lemma bit_obj_meta_new:
  "bit (meta_word (obj_meta_new c rc)) n \<longleftrightarrow>
     (if n < 55 then bit rc n else n = 63 \<and> c = C1)"
  unfolding obj_meta_new_def meta_layout
  by (cases c) (auto simp: bit_simps dest: bit_imp_le_length)

lemma type_id_eqI: "(\<And>n. n < 8 \<Longrightarrow> bit (meta_word m) (55 + n) = bit (meta_word m') (55 + n)) \<Longrightarrow>
    type_id m = type_id m'"
  by (rule bit_word_eqI) (simp add: bit_type_id)

lemma with_marked_fields [meta_simps]:
  "marked (with_marked c m) = c"
  "type_id (with_marked c m) = type_id m"
  "root_count (with_marked c m) = root_count m"
  by (cases c; simp add: marked_bit bit_with_marked)
    (auto simp: root_count_take_bit bit_with_marked bit_simps bit_type_id intro!: bit_word_eqI)

lemma new_with_type_id_fields [meta_simps]:
  "marked (new_with_type_id c rc t) = c"
  "type_id (new_with_type_id c rc t) = t"
  "root_count (new_with_type_id c rc t) = take_bit 55 rc"
  by (cases c; simp add: marked_bit bit_new_with_type_id)
    (auto simp: root_count_take_bit bit_new_with_type_id bit_type_id bit_simps
      intro!: bit_word_eqI dest: bit_imp_le_length)

lemma obj_meta_new_fields [meta_simps]:
  "marked (obj_meta_new c rc) = c"
  "root_count (obj_meta_new c rc) = take_bit 55 rc"
  by (cases c; simp add: marked_bit bit_obj_meta_new)
    (auto simp: root_count_take_bit bit_obj_meta_new bit_simps intro!: bit_word_eqI)

lemma obj_meta_default_fields [meta_simps]:
  "marked obj_meta_default = C0" "root_count obj_meta_default = 0" "type_id obj_meta_default = 0"
  by (auto simp: marked_bit root_count_take_bit obj_meta_default_def bit_type_id intro!: bit_word_eqI)

lemma meta_word_from [simp]: "meta_word (obj_meta_from v) = v" "obj_meta_from (meta_word m) = m"
  for m :: obj_meta
  by (simp_all add: obj_meta_from_def)

lemma obj_meta_fields_inject:
  fixes m m' :: obj_meta
  assumes "marked m = marked m'" "type_id m = type_id m'" "root_count m = root_count m'"
  shows "m = m'"
proof (rule obj_meta_eqI)
  fix n :: nat
  assume "n < 64"
  have t: "bit (meta_word m) (55 + k) = bit (meta_word m') (55 + k)" if "k < 8" for k
    using assms(2) that by (metis bit_type_id)
  have r: "bit (meta_word m) k = bit (meta_word m') k" if "k < 55" for k
    using assms(3) that by (metis root_count_take_bit bit_take_bit_iff)
  have c: "bit (meta_word m) 63 = bit (meta_word m') 63"
    using assms(1) by (simp add: marked_bit split: if_splits)
  consider "n < 55" | "55 \<le> n \<and> n < 63" | "n = 63"
    using \<open>n < 64\<close> by linarith
  then show "bit (meta_word m) n = bit (meta_word m') n"
    using t [of "n - 55"] by cases (auto simp: r c)
qed

interpretation mk: packed_field marked with_marked "\<lambda>_ :: obj_meta. True" "\<lambda>_. True"
  by unfold_locales (auto simp: meta_simps intro!: obj_meta_fields_inject)

section \<open>Counting roots\<close>

text \<open>Arithmetic on the whole word that stays within the low 55 bits leaves the rest alone.\<close>

lemma unat_root_count: "unat (root_count m) = unat (meta_word m) mod 2 ^ 55"
  by (simp add: root_count_take_bit take_bit_eq_mod unat_mod)

lemma upper_fields:
  assumes "unat (meta_word m') div 2 ^ 55 = unat (meta_word m) div 2 ^ 55"
  shows "marked m' = marked m" and "type_id m' = type_id m"
proof -
  have "drop_bit 55 (meta_word m') = drop_bit 55 (meta_word m)"
    using assms by (simp add: word_unat_eq_iff drop_bit_eq_div unat_div)
  then have b: "bit (meta_word m') (55 + n) = bit (meta_word m) (55 + n)" for n
    by (drule_tac arg_cong [where f = "\<lambda>w. bit w n"]) (simp add: bit_drop_bit_eq)
  show "marked m' = marked m"
    using b [of 8] by (simp add: marked_bit)
  show "type_id m' = type_id m"
    using b by (rule type_id_eqI)
qed

lemma root_count_le: "unat (root_count m) \<le> 2 ^ 55 - 1"
  using mod_less_divisor [of "2 ^ 55" "unat (meta_word m)"] by (simp add: unat_root_count)

lemma increment_root_count_fields:
  assumes "root_count m < ROOT_COUNT_MASK" and "increment_root_count m = (m', prev)"
  shows "prev = root_count m" and "root_count m' = root_count m + 1"
    and "marked m' = marked m" and "type_id m' = type_id m"
proof -
  let ?w = "unat (meta_word m)"
  have small: "?w mod 2 ^ 55 < 2 ^ 55 - 1"
    using assms(1) by (simp add: word_less_nat_alt unat_root_count meta_layout mask_eq_exp_minus_1)
  have nz: "1 + meta_word m \<noteq> 0"
    using small by (auto simp: add_eq_0_iff unsigned_minus_1_eq_mask mask_eq_exp_minus_1)
  have m': "unat (meta_word m') = Suc ?w"
    using assms(2) unatSuc [OF nz] by (auto simp: increment_root_count_def add.commute)
  show "prev = root_count m"
    using assms(2) by (simp add: increment_root_count_def)
  have "Suc ?w div 2 ^ 55 = ?w div 2 ^ 55"
    using small by (simp add: div_Suc mod_Suc)
  then have "unat (meta_word m') div 2 ^ 55 = ?w div 2 ^ 55"
    by (simp only: m')
  then show "marked m' = marked m" and "type_id m' = type_id m"
    by (rule upper_fields)+
  have "unat (root_count m') = Suc (unat (root_count m))"
    using small by (simp add: unat_root_count m' mod_Suc)
  moreover have "1 + root_count m \<noteq> 0"
    using root_count_le [of m]
    by (auto simp: add_eq_0_iff unsigned_minus_1_eq_mask mask_eq_exp_minus_1)
  then have "unat (root_count m + 1) = Suc (unat (root_count m))"
    by (simp add: add.commute unatSuc)
  ultimately show "root_count m' = root_count m + 1"
    by (simp add: word_unat_eq_iff)
qed

lemma decrement_root_count_fields:
  assumes "0 < root_count m" and "decrement_root_count m = (m', prev)"
  shows "prev = root_count m" and "root_count m' = root_count m - 1"
    and "marked m' = marked m" and "type_id m' = type_id m"
proof -
  let ?w = "unat (meta_word m)"
  have pos: "0 < ?w mod 2 ^ 55"
    using assms(1) by (simp add: word_less_nat_alt unat_root_count)
  then have nz: "meta_word m \<noteq> 0" and w: "?w = Suc (?w - 1)"
    by (auto simp: gr0_conv_Suc intro: gr0I)
  have m': "unat (meta_word m') = ?w - 1"
    using assms(2) unat_minus_one [OF nz] by (auto simp: decrement_root_count_def)
  show "prev = root_count m"
    using assms(2) by (simp add: decrement_root_count_def)
  obtain v where v: "?w = Suc v" using w by blast
  have "v div 2 ^ 55 = Suc v div 2 ^ 55" and "v mod 2 ^ 55 = Suc v mod 2 ^ 55 - 1"
    using pos unfolding v by (auto simp: div_Suc mod_Suc split: if_splits)
  then have "unat (meta_word m') div 2 ^ 55 = ?w div 2 ^ 55"
    and r: "unat (root_count m') = unat (root_count m) - 1"
    by (simp_all add: m' v unat_root_count)
  then show "marked m' = marked m" and "type_id m' = type_id m"
    by - (rule upper_fields; assumption)+
  show "root_count m' = root_count m - 1"
    using r assms(1) by (simp add: word_unat_eq_iff unat_minus_one word_gt_0)
qed

text \<open>The two counters undo each other, whatever the header holds.\<close>

lemma decrement_increment: "fst (decrement_root_count (fst (increment_root_count m))) = m"
  "fst (increment_root_count (fst (decrement_root_count m))) = m"
  by (simp_all add: increment_root_count_def decrement_root_count_def)

section \<open>Properties\<close>

text \<open>
  C21: a fetch-and-add on the header word that stays within the 55 bits of the root count changes the
  root count by one, returns the previous count, and leaves the colour and the type id alone;
  incrementing and decrementing undo each other.
\<close>

theorem root_count_frame:
  assumes "root_count m < ROOT_COUNT_MASK" "increment_root_count m = (m', prev)"
  shows "prev = root_count m \<and> root_count m' = root_count m + 1 \<and>
    marked m' = marked m \<and> type_id m' = type_id m \<and>
    decrement_root_count m' = (m, root_count m + 1)"
  using increment_root_count_fields [OF assms] decrement_increment(1) [of m] assms(2)
  by (simp add: decrement_root_count_def)

theorem root_count_frame_witness:
  "\<exists>m' prev. increment_root_count (new_with_type_id C1 4 9) = (m', prev) \<and> prev = 4 \<and>
    root_count m' = 5 \<and> marked m' = C1 \<and> type_id m' = 9"
proof -
  obtain m' prev where i: "increment_root_count (new_with_type_id C1 4 9) = (m', prev)"
    by (rule prod.exhaust)
  have "root_count (new_with_type_id C1 4 9) < ROOT_COUNT_MASK"
    by (simp add: meta_simps ROOT_COUNT_MASK_def meta_layout(4) push_bit_of_1)
  then show ?thesis using root_count_frame [OF _ i] i by (simp add: meta_simps)
qed

text \<open>
  C20: \<^verbatim>\<open>AtomicObjMeta::mark\<close> returns whatever finitely many updates of the header other threads
  make meanwhile; afterwards the header is black, and its root count and type id are those the other
  threads' updates gave it: no update is lost.
\<close>

theorem header_mark_sound:
  "\<exists>n m'. header_mark black es m = Some (m', drop n es) \<and>
     m' = with_marked black (others (take n es) m) \<and> marked m' = black \<and>
     root_count m' = root_count (others (take n es) m) \<and>
     type_id m' = type_id (others (take n es) m)"
proof -
  obtain n where "header_mark black es m =
      Some (settled (\<lambda>meta. marked meta = black) (with_marked black) (others (take n es) m), drop n es)"
    using cas_loop_returns [of "\<lambda>meta. marked meta = black" "with_marked black" es m]
    by (auto simp: header_mark_def)
  moreover have "settled (\<lambda>meta. marked meta = black) (with_marked black) v = with_marked black v" for v
    using mk.put_same_iff [where w = v and v = black] by (auto simp: settled_def)
  ultimately show ?thesis by (auto simp: meta_simps)
qed


end
