(* ===== verification/Man_Ptr.thy ===== *)
theory Man_Ptr
  imports Obj_Meta
begin

text \<open>
  Models \<^verbatim>\<open>PtrMeta\<close> and the word level of \<^verbatim>\<open>ManPtr\<close> in \<^verbatim>\<open>src/src/pointers.rs\<close>: a managed pointer
  is one word that packs the link's meta bits (the two top bits: rooted, or unrooted with a
  colour), the address of the object, and a user tag in the low bits that the alignment of
  \<^verbatim>\<open>ManObj<T>\<close> leaves free. That alignment depends on the type parameter, so the number \<open>k\<close> of
  low bits (\<^verbatim>\<open>align_of::<ManObj<T>>().trailing_zeros()\<close>) is an argument of the definitions.

  The lemmas show that meta bits, address and tag are three independent fields of the word.
\<close>

datatype ptr_meta = Rooted | Unrooted color

record man_ptr =
  ptr_data :: usize

definition META_WIDTH :: nat where "META_WIDTH = 2"
definition META_BITS :: usize where
  "META_BITS = push_bit (64 - META_WIDTH) (push_bit META_WIDTH 1 - 1)"
definition LOW_BITS :: "nat \<Rightarrow> usize" where "LOW_BITS k = push_bit k 1 - 1"
definition ADDR_BITS :: "nat \<Rightarrow> usize" where
  "ADDR_BITS k = usize_MAX AND NOT META_BITS AND NOT (LOW_BITS k)"

definition man_ptr_from :: "usize \<Rightarrow> man_ptr" where
  "man_ptr_from v = \<lparr>ptr_data = v\<rparr>"

definition null_base :: man_ptr where
  "null_base = \<lparr>ptr_data = 0\<rparr>"

definition null_rooted_with_tag :: "nat \<Rightarrow> usize \<Rightarrow> man_ptr" where
  "null_rooted_with_tag k tag = \<lparr>ptr_data = tag AND LOW_BITS k\<rparr>"

definition null_rooted :: "nat \<Rightarrow> man_ptr" where
  "null_rooted k = null_rooted_with_tag k 0"

definition ptr_meta_of :: "man_ptr \<Rightarrow> ptr_meta" where
  "ptr_meta_of p =
     (if ptr_data p AND push_bit (64 - 1) 1 = 0 then Rooted
      else Unrooted (color_from (ptr_data p AND push_bit (64 - 2) 1)))"

fun ptr_meta_code :: "ptr_meta \<Rightarrow> usize" where
  "ptr_meta_code Rooted = 0b00"
| "ptr_meta_code (Unrooted C0) = 0b10"
| "ptr_meta_code (Unrooted C1) = 0b11"

definition with_meta :: "ptr_meta \<Rightarrow> man_ptr \<Rightarrow> man_ptr" where
  "with_meta m p =
     \<lparr>ptr_data = (let wo_meta = ptr_data p AND NOT META_BITS
                 in push_bit (64 - META_WIDTH) (ptr_meta_code m) OR wo_meta)\<rparr>"

definition without_meta :: "man_ptr \<Rightarrow> man_ptr" where
  "without_meta p = \<lparr>ptr_data = ptr_data p AND NOT META_BITS\<rparr>"

definition as_ptr :: "nat \<Rightarrow> man_ptr \<Rightarrow> usize" where
  "as_ptr k p = ptr_data p AND ADDR_BITS k"

definition ptr_tag :: "nat \<Rightarrow> man_ptr \<Rightarrow> usize" where
  "ptr_tag k p = ptr_data p AND LOW_BITS k"

definition with_tag :: "nat \<Rightarrow> usize \<Rightarrow> man_ptr \<Rightarrow> man_ptr" where
  "with_tag k tag p =
     \<lparr>ptr_data = (ptr_data p AND NOT (LOW_BITS k)) OR (tag AND LOW_BITS k)\<rparr>"

definition ptr_is_null :: "nat \<Rightarrow> man_ptr \<Rightarrow> bool" where
  "ptr_is_null k p \<longleftrightarrow> as_ptr k p = 0"

definition unrooted_color_unchecked :: "man_ptr \<Rightarrow> color" where
  "unrooted_color_unchecked p = color_from (ptr_data p AND push_bit (64 - 2) 1)"

text \<open>
  A \<^verbatim>\<open>Local\<close> is the bare, non-null address of an object. \<^verbatim>\<open>ManPtr::from(Option<&Local>)\<close>, its
  tagged variant, and \<^verbatim>\<open>as_local_with_tag\<close>, which splits a link word into an optional
  local and a tag.
\<close>

type_synonym local_ptr = usize

definition man_ptr_from_local :: "local_ptr option \<Rightarrow> man_ptr" where
  "man_ptr_from_local l = (case l of Some a \<Rightarrow> man_ptr_from a | None \<Rightarrow> null_base)"

definition man_ptr_from_local_tag :: "nat \<Rightarrow> local_ptr option \<times> usize \<Rightarrow> man_ptr" where
  "man_ptr_from_local_tag k lt = with_tag k (snd lt) (man_ptr_from_local (fst lt))"

definition as_local_with_tag :: "nat \<Rightarrow> man_ptr \<Rightarrow> local_ptr option \<times> usize" where
  "as_local_with_tag k p =
     (let tag = ptr_tag k p;
          opt_local = (if ptr_is_null k p then None
                       else Some (as_ptr k (with_tag k 0 (without_meta p))))
      in (opt_local, tag))"

section \<open>Accessors on updates\<close>

declare push_bit_of_1 [simp del] push_bit_numeral [simp del]

text \<open>The alignments that occur: the header alone gives 8, and an alignment is below \<open>2 ^ 62\<close>.\<close>

definition align_ok :: "nat \<Rightarrow> bool" where
  "align_ok k \<longleftrightarrow> 3 \<le> k \<and> k < 62"

lemma ptr_layout [layout_defs]:
  "META_WIDTH = 2" "META_BITS = push_bit 62 (mask 2)" "LOW_BITS k = mask k"
  "ADDR_BITS k = NOT (push_bit 62 (mask 2)) AND NOT (mask k)"
  by (simp_all add: META_WIDTH_def META_BITS_def LOW_BITS_def ADDR_BITS_def usize_MAX_def
      mask_eq_exp_minus_1 push_bit_of_1)

lemma man_ptr_eqI:
  fixes p q :: man_ptr
  shows "(\<And>n. n < 64 \<Longrightarrow> bit (ptr_data p) n \<longleftrightarrow> bit (ptr_data q) n) \<Longrightarrow> p = q"
  by (rule man_ptr.equality) (auto intro: bit_word_eqI)

lemma bit_META_BITS: "bit META_BITS n \<longleftrightarrow> n = 62 \<or> n = 63"
  unfolding ptr_layout bit_push_bit_iff bit_mask_iff possible_bit_word by auto

lemma ptr_meta_bits:
  "ptr_meta_of p =
     (if bit (ptr_data p) 63 then Unrooted (if bit (ptr_data p) 62 then C1 else C0) else Rooted)"
  by (simp add: ptr_meta_of_def color_from_def and_single_bit_eq_0)

lemma unrooted_color_bit:
  "unrooted_color_unchecked p = (if bit (ptr_data p) 62 then C1 else C0)"
  by (simp add: unrooted_color_unchecked_def color_from_def and_single_bit_eq_0)

lemma bit_as_ptr: "bit (as_ptr k p) n \<longleftrightarrow> k \<le> n \<and> n < 62 \<and> bit (ptr_data p) n"
  unfolding as_ptr_def ADDR_BITS_def bit_and_iff bit_not_iff bit_META_BITS usize_MAX_def ptr_layout
  by (auto simp: bit_simps dest: bit_imp_le_length)

lemma ptr_tag_take_bit: "ptr_tag k p = take_bit k (ptr_data p)"
  by (simp add: ptr_tag_def ptr_layout take_bit_eq_mask)

lemma bit_with_meta:
  "bit (ptr_data (with_meta m p)) n \<longleftrightarrow>
     (if n = 63 then m \<noteq> Rooted else if n = 62 then m = Unrooted C1 else bit (ptr_data p) n)"
proof -
  have b: "bit (ptr_meta_code m) i \<longleftrightarrow> i = 0 \<and> m = Unrooted C1 \<or> i = 1 \<and> m \<noteq> Rooted" for i
    by (cases m rule: ptr_meta_code.cases)
      (auto simp: bit_2_iff three_eq_mask bit_mask_iff less_2_cases_iff)
  show ?thesis
    unfolding with_meta_def Let_def man_ptr.simps bit_or_iff bit_and_iff bit_not_iff bit_META_BITS
      META_WIDTH_def bit_push_bit_iff b possible_bit_word
    by (auto dest: bit_imp_le_length)
qed

lemma bit_without_meta: "bit (ptr_data (without_meta p)) n \<longleftrightarrow> n < 62 \<and> bit (ptr_data p) n"
  unfolding without_meta_def man_ptr.simps bit_and_iff bit_not_iff bit_META_BITS
  by (auto dest: bit_imp_le_length)

lemma bit_with_tag:
  "bit (ptr_data (with_tag k t p)) n \<longleftrightarrow> (if n < k then bit t n else bit (ptr_data p) n)"
  unfolding with_tag_def ptr_layout by (auto simp: bit_simps dest: bit_imp_le_length)

lemmas ptr_bits = ptr_meta_bits unrooted_color_bit bit_as_ptr ptr_tag_take_bit bit_take_bit_iff
  bit_with_meta bit_without_meta bit_with_tag

lemma ptr_meta_of_updates [ptr_simps]:
  "ptr_meta_of (with_meta m p) = m"
  "ptr_meta_of (without_meta p) = Rooted"
  "k < 62 \<Longrightarrow> ptr_meta_of (with_tag k t p) = ptr_meta_of p"
proof -
  show "ptr_meta_of (with_meta m p) = m"
    by (cases m rule: ptr_meta_code.cases) (simp_all add: ptr_bits)
qed (simp_all add: ptr_bits)

lemma as_ptr_updates [ptr_simps]:
  "as_ptr k (with_meta m p) = as_ptr k p"
  "as_ptr k (without_meta p) = as_ptr k p"
  "as_ptr k (with_tag k t p) = as_ptr k p"
  by (rule bit_word_eqI; auto simp: ptr_bits)+

lemma ptr_tag_updates [ptr_simps]:
  "k < 62 \<Longrightarrow> ptr_tag k (with_meta m p) = ptr_tag k p"
  "k < 62 \<Longrightarrow> ptr_tag k (without_meta p) = ptr_tag k p"
  "ptr_tag k (with_tag k t p) = take_bit k t"
  by (rule bit_word_eqI; auto simp: ptr_bits)+

lemma unrooted_color_updates [ptr_simps]:
  "unrooted_color_unchecked (with_meta (Unrooted c) p) = c"
  "k < 62 \<Longrightarrow> unrooted_color_unchecked (with_tag k t p) = unrooted_color_unchecked p"
  by (cases c; simp add: ptr_bits)+

lemma unrooted_color_meta: "ptr_meta_of p = Unrooted c \<Longrightarrow> unrooted_color_unchecked p = c"
  by (simp add: ptr_bits split: if_splits)

lemma without_meta_updates [ptr_simps]:
  "without_meta (with_meta m p) = without_meta p"
  "without_meta (without_meta p) = without_meta p"
  by (rule man_ptr_eqI; simp add: ptr_bits)+

lemma with_meta_updates [ptr_simps]:
  "with_meta m (with_meta m' p) = with_meta m p"
  "with_meta m (without_meta p) = with_meta m p"
  by (rule man_ptr_eqI; simp add: ptr_bits)+

lemma as_ptr_eq_of_without_meta: "without_meta p = without_meta q \<Longrightarrow> as_ptr k p = as_ptr k q"
  by (metis as_ptr_updates(2))

text \<open>
  A link word is canonical when its colour bit is only set on an unrooted link; every word the
  crate stores is (\<^verbatim>\<open>with_meta\<close> or a bare pointer).
\<close>

definition canonical :: "man_ptr \<Rightarrow> bool" where
  "canonical p \<longleftrightarrow> (bit (ptr_data p) 62 \<longrightarrow> bit (ptr_data p) 63)"

lemma canonical_updates [ptr_simps]:
  "canonical (with_meta m p)" "canonical (without_meta p)"
  "k < 62 \<Longrightarrow> canonical (with_tag k t p) = canonical p"
  by (auto simp: canonical_def ptr_bits)

lemma man_ptr_fields_inject:
  fixes p q :: man_ptr
  assumes "canonical p" "canonical q"
    and "ptr_meta_of p = ptr_meta_of q" "as_ptr k p = as_ptr k q" "ptr_tag k p = ptr_tag k q"
  shows "p = q"
proof (rule man_ptr_eqI)
  fix n :: nat
  assume "n < 64"
  have a: "bit (ptr_data p) n = bit (ptr_data q) n" if "k \<le> n" "n < 62"
    using assms(4) that by (metis bit_as_ptr)
  have t: "bit (ptr_data p) n = bit (ptr_data q) n" if "n < k"
    using assms(5) that by (metis ptr_tag_take_bit bit_take_bit_iff)
  have m: "bit (ptr_data p) 63 = bit (ptr_data q) 63" "bit (ptr_data p) 62 = bit (ptr_data q) 62"
    using assms(1-3) by (auto simp: ptr_meta_bits canonical_def split: if_splits)
  consider "n < k" | "k \<le> n \<and> n < 62" | "n = 62" | "n = 63"
    using \<open>n < 64\<close> by linarith
  then show "bit (ptr_data p) n = bit (ptr_data q) n"
    by cases (simp_all add: a t m)
qed

interpretation mt: packed_field ptr_meta_of with_meta canonical "\<lambda>_. True"
proof unfold_locales
  show "with_meta (ptr_meta_of w) w = w" if "canonical w" for w
    using that by (intro man_ptr_fields_inject [where k = 3]) (simp_all add: ptr_simps)
qed (simp_all add: ptr_simps)

interpretation tg: packed_field "ptr_tag k" "with_tag k" "\<lambda>_. True" "\<lambda>t. take_bit k t = t" for k
proof unfold_locales
  show "with_tag k (ptr_tag k w) w = w" for w
    by (rule man_ptr_eqI) (simp add: ptr_bits)
  show "with_tag k v' (with_tag k v w) = with_tag k v' w" for v v' w
    by (rule man_ptr_eqI) (simp add: ptr_bits)
qed (simp_all add: ptr_tag_updates, simp add: ptr_tag_take_bit)

text \<open>The link words of a type whose alignment is that of the header: meta bits and tag together.\<close>

interpretation mt_tg: packed_fields ptr_meta_of with_meta canonical "\<lambda>_. True"
  "ptr_tag 3" "with_tag 3" "\<lambda>_. True" "\<lambda>t. take_bit 3 t = t"
proof unfold_locales
  show "with_meta u (with_tag 3 v w) = with_tag 3 v (with_meta u w)" for u v w
    by (rule man_ptr_eqI) (simp add: ptr_bits)
qed (simp_all add: ptr_simps)

section \<open>Locals and link words\<close>

text \<open>An address that a \<^verbatim>\<open>Local\<close> can hold: non-null, aligned, and outside the meta bits.\<close>

definition addr_ok :: "nat \<Rightarrow> usize \<Rightarrow> bool" where
  "addr_ok k a \<longleftrightarrow> a \<noteq> 0 \<and> a AND ADDR_BITS k = a"

lemma as_ptr_from [simp]: "addr_ok k a \<Longrightarrow> as_ptr k (man_ptr_from a) = a"
  by (simp add: addr_ok_def as_ptr_def man_ptr_from_def)

lemma from_local_fields [ptr_simps]:
  "as_ptr k (man_ptr_from_local None) = 0"
  "addr_ok k a \<Longrightarrow> as_ptr k (man_ptr_from_local (Some a)) = a"
  by (simp_all add: man_ptr_from_local_def null_base_def as_ptr_def [of k "\<lparr>ptr_data = 0\<rparr>"])

lemma bare_ptr_eq: "addr_ok k a \<Longrightarrow> without_meta (man_ptr_from a) = man_ptr_from a"
proof -
  assume a: "addr_ok k a"
  have "n < 62" if "bit a n" for n
    using that a bit_as_ptr [of k "man_ptr_from a" n] by simp
  then show ?thesis
    by (intro man_ptr_eqI) (auto simp: bit_without_meta man_ptr_from_def)
qed

lemma as_local_with_tag_from:
  assumes "k < 62" "\<And>a. l = Some a \<Longrightarrow> addr_ok k a"
  shows "as_local_with_tag k (with_meta m (man_ptr_from_local_tag k (l, t))) = (l, take_bit k t)"
  using assms
  by (cases l)
    (auto simp: as_local_with_tag_def man_ptr_from_local_tag_def ptr_is_null_def ptr_simps
      addr_ok_def)

section \<open>Properties\<close>

text \<open>
  C32: storing a local pointer and a tag in a link of any meta state and reading the link back with
  \<^verbatim>\<open>as_local_with_tag\<close> gives the same local pointer and the tag cut to the free low bits.
\<close>

theorem link_local_roundtrip:
  assumes "align_ok k" "\<And>a. l = Some a \<Longrightarrow> addr_ok k a"
  shows "as_local_with_tag k (with_meta m (man_ptr_from_local_tag k (l, t))) = (l, take_bit k t) \<and>
    ptr_meta_of (with_meta m (man_ptr_from_local_tag k (l, t))) = m"
  using as_local_with_tag_from [of k l m t] assms by (simp add: align_ok_def ptr_simps)

theorem link_local_roundtrip_witness:
  "as_local_with_tag 3 (with_meta (Unrooted C1) (man_ptr_from_local_tag 3 (Some 0x1000, 9)))
     = (Some 0x1000, take_bit 3 9)"
proof -
  have "addr_ok 3 0x1000"
    by (simp add: addr_ok_def ADDR_BITS_def META_BITS_def LOW_BITS_def usize_MAX_def META_WIDTH_def
        push_bit_of_1 push_bit_numeral)
  then show ?thesis
    using link_local_roundtrip [of 3 "Some 0x1000" "Unrooted C1" 9] by (simp add: align_ok_def)
qed

text \<open>
  C33: the meta bits, the address and the tag are independent fields of a canonical link word:
  setting one keeps the other two, and the three determine the word.
\<close>

theorem link_fields_independent:
  fixes p q :: man_ptr
  assumes "align_ok k" "canonical p" "canonical q"
  shows "ptr_meta_of (with_tag k t p) = ptr_meta_of p \<and> as_ptr k (with_tag k t p) = as_ptr k p \<and>
    ptr_tag k (with_tag k t p) = take_bit k t \<and>
    ptr_meta_of (with_meta m p) = m \<and> as_ptr k (with_meta m p) = as_ptr k p \<and>
    ptr_tag k (with_meta m p) = ptr_tag k p \<and>
    (p = q \<longleftrightarrow> ptr_meta_of p = ptr_meta_of q \<and> as_ptr k p = as_ptr k q \<and> ptr_tag k p = ptr_tag k q)"
  using assms man_ptr_fields_inject [of p q k] by (auto simp: align_ok_def ptr_simps)

theorem link_fields_independent_witness:
  "ptr_tag 3 (with_tag 3 5 (with_meta (Unrooted C1) null_base)) = take_bit 3 5 \<and>
   ptr_meta_of (with_tag 3 5 (with_meta (Unrooted C1) null_base)) = Unrooted C1"
  using link_fields_independent [of 3 "with_meta (Unrooted C1) null_base" null_base 5 Rooted]
  by (simp add: align_ok_def canonical_def null_base_def ptr_simps)

end
