(* ===== verification/Runtime.thy ===== *)
theory Runtime
  imports Interference Man_Ptr
begin

text \<open>
  The state of the collector and the thread-local operations of \<^verbatim>\<open>src/src/internal.rs\<close>: the managed
  heap, the pointers outside it, \<^verbatim>\<open>Global\<close> (the epoch, the sharded object lists, the statistics) and
  one \<^verbatim>\<open>Local\<close> per thread (allocation batches, mark queue, hazard pointers). The queues of object
  batches are lists here; that \<^verbatim>\<open>src/src/sync/queue.rs\<close> implements such lists is the subject of the
  queue theory. The alignment of the managed types is the argument \<open>k\<close>, as in the theory of the
  tagged pointers; random choices of shards come from the list \<open>rng\<close>.
\<close>

section \<open>Objects and locations\<close>

text \<open>
  \<^verbatim>\<open>ManObj<T>\<close>: the header and the item; of the item the managed pointer fields are kept in the order
  in which \<^verbatim>\<open>TraceObj\<close> visits them, the rest is one value.
\<close>

record 'v mobj =
  header :: obj_meta
  links :: "man_ptr list"
  item_val :: 'v
  obj_size :: usize

text \<open>Where a managed pointer is stored: outside the managed heap, or as a field of an object.\<close>

datatype loc = Root_Cell nat | Field usize nat

text \<open>\<^verbatim>\<open>ObjBatch\<close>: the addresses of at most \<open>OBJ_BATCH_SIZE\<close> boxed objects.\<close>

type_synonym obj_batch = "usize list"

definition OBJ_BATCHES_SHARD :: nat where "OBJ_BATCHES_SHARD = 8"
definition OBJ_BATCH_SIZE :: nat where "OBJ_BATCH_SIZE = 64"
definition HAZARDS_INIT_COUNT :: nat where "HAZARDS_INIT_COUNT = 8"
definition ALLOC_HELPING_PERIOD :: usize where "ALLOC_HELPING_PERIOD = 64"
definition SCHED_HELPING_PERIOD :: usize where "SCHED_HELPING_PERIOD = 32"

definition push_within_capacity :: "usize \<Rightarrow> obj_batch \<Rightarrow> obj_batch option" where
  "push_within_capacity obj b = (if length b < OBJ_BATCH_SIZE then Some (b @ [obj]) else None)"

section \<open>Participants\<close>

text \<open>
  \<^verbatim>\<open>Local\<close>. A marker of a hazard slot is present or not (it always marks the object of the slot);
  the mark queue holds the objects whose marking is scheduled.
\<close>

record participant =
  guard_count :: usize
  last_observed :: epoch
  alloc_count :: usize
  sched_count :: usize
  is_helping_normal :: bool
  is_helping_root_tracing :: bool
  is_helping_draining_mark_tasks :: bool
  hazards :: "usize list"
  hazards_marker :: "bool list"
  local_epoch :: atomic_epoch
  mt_modified_ts :: usize
  available_hids :: "nat list"
  objs :: "color \<Rightarrow> obj_batch \<times> usize"
  mark_tasks :: "usize list"
  cached_hazards :: "(usize list \<times> epoch) option"

definition participant_default :: participant where
  "participant_default =
     \<lparr>guard_count = 0, last_observed = starting, alloc_count = 0, sched_count = 0,
      is_helping_normal = False, is_helping_root_tracing = False,
      is_helping_draining_mark_tasks = False,
      hazards = replicate HAZARDS_INIT_COUNT 0,
      hazards_marker = replicate HAZARDS_INIT_COUNT False,
      local_epoch = atomic_epoch_new starting, mt_modified_ts = 0,
      available_hids = [0..<HAZARDS_INIT_COUNT], objs = (\<lambda>_. ([], 0)), mark_tasks = [],
      cached_hazards = None\<rparr>"

section \<open>The whole state\<close>

text \<open>
  \<open>heap\<close>: the objects that are allocated. \<open>pool\<close>: the blocks the allocator may hand out.
  \<open>cells\<close>: the managed pointers outside the heap. \<open>locals\<close>, \<open>n_locals\<close>, \<open>in_use\<close>, \<open>active_slots\<close>: the
  list of participants (\<^verbatim>\<open>ReusableSlots\<close>: nodes are only ever appended, so a node is its position), its
  length, which entries a thread holds, and their counter. \<open>should_help\<close>: the flag of each guard.
  \<open>type_set\<close>, \<open>next_type_id\<close>, \<open>shade_fns\<close>: the registered types with their ids, the counter, and
  the type whose shade function each entry of \<^verbatim>\<open>SHADE_FN_TABLE\<close> holds. \<open>contended\<close>: whether the
  next attempts to steal a task lose a race. The other fields are those of \<^verbatim>\<open>Global\<close>.
\<close>

record 'v rt =
  heap :: "usize \<rightharpoonup> 'v mobj"
  pool :: "usize list"
  cells :: "nat \<rightharpoonup> man_ptr"
  global_epoch :: atomic_epoch
  total_allocated :: usize
  total_reclaimed :: usize
  fresh_objs :: "color \<Rightarrow> nat \<Rightarrow> obj_batch list"
  marked_objs :: "color \<Rightarrow> nat \<Rightarrow> obj_batch list"
  locals :: "nat \<Rightarrow> participant"
  n_locals :: nat
  in_use :: "nat \<Rightarrow> bool"
  active_slots :: usize
  should_help :: "nat \<Rightarrow> bool"
  type_set :: "(nat \<times> u32) list"
  next_type_id :: usize
  shade_fns :: "nat \<Rightarrow> nat option"
  rng :: "nat list"
  contended :: "bool list"
  collector_init :: bool
  collection_enabled :: bool
  collection_requested :: bool
  headroom :: usize
  collector_threads :: usize

text \<open>A \<^verbatim>\<open>Guard\<close>: the participant it pins and the identity of its own flag.\<close>

record guard =
  g_local :: nat
  g_flag :: nat

definition upd_local :: "nat \<Rightarrow> (participant \<Rightarrow> participant) \<Rightarrow> 'v rt \<Rightarrow> 'v rt" where
  "upd_local t f s = s\<lparr>locals := (locals s)(t := f (locals s t))\<rparr>"

text \<open>
  \<^verbatim>\<open>SlotIter\<close> over the participants with the loop it drives: \<open>node\<close> is the next node; its successor is
  read before the node is filtered by \<open>cond\<close> and handed to the \<open>body\<close>, which returns \<open>Inl\<close> to go on and
  \<open>Inr\<close> to leave the loop. Participants may be appended while the loop runs.
\<close>

definition node_at :: "nat \<Rightarrow> 'v rt \<Rightarrow> nat option" where
  "node_at i s = (if i < n_locals s then Some i else None)"

partial_function (option) slot_iter ::
  "(nat \<Rightarrow> ('v rt, bool) act) \<Rightarrow> (nat \<Rightarrow> 'b \<Rightarrow> ('v rt, 'b + 'b) act) \<Rightarrow> nat option \<Rightarrow> 'b \<Rightarrow>
     'v rt \<times> 'v rt env \<Rightarrow> ('b outcome \<times> 'v rt \<times> 'v rt env) option" where
  "slot_iter cond body node acc se =
     (case node of
        None \<Rightarrow> ret acc
      | Some i \<Rightarrow>
          bind (atomic_read (node_at (Suc i))) (\<lambda>next.
          bind (cond i) (\<lambda>c.
          if c then
            bind (body i acc) (\<lambda>r. case r of Inl acc' \<Rightarrow> slot_iter cond body next acc' | Inr acc' \<Rightarrow> ret acc')
          else slot_iter cond body next acc))) se"

declare slot_iter.simps [code]

definition iter_all :: "(nat \<Rightarrow> 'b \<Rightarrow> ('v rt, 'b + 'b) act) \<Rightarrow> 'b \<Rightarrow> ('v rt, 'b) act" where
  "iter_all body acc =
     bind (atomic_read (node_at 0)) (\<lambda>node. slot_iter (\<lambda>_. ret True) body node acc)"

definition iter_using :: "(nat \<Rightarrow> 'b \<Rightarrow> ('v rt, 'b + 'b) act) \<Rightarrow> 'b \<Rightarrow> ('v rt, 'b) act" where
  "iter_using body acc =
     bind (atomic_read (node_at 0)) (\<lambda>node. slot_iter (\<lambda>i. atomic_read (\<lambda>s. in_use s i)) body node acc)"

definition lift_outcome :: "'a outcome \<Rightarrow> ('s, 'a) act" where
  "lift_outcome r = (case r of Inl e \<Rightarrow> raise e | Inr x \<Rightarrow> ret x)"

section \<open>Memory\<close>

text \<open>
  \<^verbatim>\<open>ManPtr::as_ref\<close>: nothing for a null address, a reference to the object otherwise. A reference is
  its address; reading or writing memory that is not allocated is the error \<open>UseAfterFree\<close>.
\<close>

definition as_ref :: "nat \<Rightarrow> man_ptr \<Rightarrow> usize option" where
  "as_ref k p = (if ptr_is_null k p then None else Some (as_ptr k p))"

definition read_header :: "usize \<Rightarrow> ('v rt, obj_meta) act" where
  "read_header a = atomic (\<lambda>s. case heap s a of
     None \<Rightarrow> (Inl UseAfterFree, s) | Some obj \<Rightarrow> (Inr (header obj), s))"

definition set_header :: "usize \<Rightarrow> obj_meta \<Rightarrow> 'v rt \<Rightarrow> 'v rt" where
  "set_header a h s =
     (case heap s a of None \<Rightarrow> s | Some obj \<Rightarrow> s\<lparr>heap := (heap s)(a \<mapsto> obj\<lparr>header := h\<rparr>)\<rparr>)"

definition fetch_header :: "usize \<Rightarrow> (obj_meta \<Rightarrow> obj_meta \<times> 'a) \<Rightarrow> ('v rt, 'a) act" where
  "fetch_header a f = atomic (\<lambda>s. case heap s a of
     None \<Rightarrow> (Inl UseAfterFree, s)
   | Some obj \<Rightarrow> (case f (header obj) of (h, r) \<Rightarrow> (Inr r, set_header a h s)))"

definition read_link :: "loc \<Rightarrow> 'v rt \<Rightarrow> man_ptr outcome" where
  "read_link l s =
     (case l of
        Root_Cell c \<Rightarrow> (case cells s c of None \<Rightarrow> Inl UseAfterFree | Some p \<Rightarrow> Inr p)
      | Field a i \<Rightarrow>
          (case heap s a of
             None \<Rightarrow> Inl UseAfterFree
           | Some obj \<Rightarrow> if i < length (links obj) then Inr (links obj ! i) else Inl UseAfterFree))"

definition write_link :: "loc \<Rightarrow> man_ptr \<Rightarrow> 'v rt \<Rightarrow> 'v rt" where
  "write_link l p s =
     (case l of
        Root_Cell c \<Rightarrow> s\<lparr>cells := (cells s)(c \<mapsto> p)\<rparr>
      | Field a i \<Rightarrow>
          (case heap s a of
             None \<Rightarrow> s
           | Some obj \<Rightarrow> s\<lparr>heap := (heap s)(a \<mapsto> obj\<lparr>links := (links obj)[i := p]\<rparr>)\<rparr>))"

definition link_load :: "loc \<Rightarrow> ('v rt, man_ptr) act" where
  "link_load l = atomic (\<lambda>s. (read_link l s, s))"

definition link_store :: "loc \<Rightarrow> man_ptr \<Rightarrow> ('v rt, unit) act" where
  "link_store l p = atomic (\<lambda>s. case read_link l s of
     Inl e \<Rightarrow> (Inl e, s) | Inr _ \<Rightarrow> (Inr (), write_link l p s))"

definition link_compare_exchange ::
  "loc \<Rightarrow> man_ptr \<Rightarrow> man_ptr \<Rightarrow> ('v rt, man_ptr + man_ptr) act" where
  "link_compare_exchange l current new = atomic (\<lambda>s. case read_link l s of
     Inl e \<Rightarrow> (Inl e, s)
   | Inr p \<Rightarrow> (case compare_exchange p current new of
       (p', Inr ok) \<Rightarrow> (Inr (Inr ok), write_link l p' s)
     | (_, Inl found) \<Rightarrow> (Inr (Inl found), s)))"

text \<open>
  The weak form may fail although the link holds the expected word; \<open>spurious\<close> says whether it does.
\<close>

definition link_compare_exchange_weak ::
  "bool \<Rightarrow> loc \<Rightarrow> man_ptr \<Rightarrow> man_ptr \<Rightarrow> ('v rt, man_ptr + man_ptr) act" where
  "link_compare_exchange_weak spurious l current new =
     (if spurious then bind (link_load l) (\<lambda>p. ret (Inl p))
      else link_compare_exchange l current new)"

definition link_fetch :: "loc \<Rightarrow> (usize \<Rightarrow> usize) \<Rightarrow> ('v rt, man_ptr) act" where
  "link_fetch l f = atomic (\<lambda>s. case read_link l s of
     Inl e \<Rightarrow> (Inl e, s)
   | Inr p \<Rightarrow> (Inr p, write_link l (man_ptr_from (f (ptr_data p))) s))"

text \<open>\<^verbatim>\<open>Box::new\<close>: the first block of the pool that is free.\<close>

definition box_new :: "nat \<Rightarrow> 'v mobj \<Rightarrow> ('v rt, usize) act" where
  "box_new k obj = atomic (\<lambda>s.
     case find (\<lambda>a. addr_ok k a \<and> heap s a = None) (pool s) of
       None \<Rightarrow> (Inl OutOfMemory, s)
     | Some a \<Rightarrow> (Inr a, s\<lparr>heap := (heap s)(a \<mapsto> obj)\<rparr>))"

section \<open>Epochs and colours of a thread\<close>

definition load_epoch :: "('v rt, epoch) act" where
  "load_epoch = atomic_read (\<lambda>s. atomic_epoch_load (global_epoch s))"

definition pinned_epoch :: "nat \<Rightarrow> ('v rt, epoch) act" where
  "pinned_epoch t = gets (\<lambda>s. atomic_epoch_load_non_atomic (local_epoch (locals s t)))"

definition pinned_alloc_color :: "nat \<Rightarrow> ('v rt, color) act" where
  "pinned_alloc_color t =
     bind (pinned_epoch t) (\<lambda>epoch.
     bind (lift_outcome (epoch_phase epoch)) (\<lambda>phase.
     ret (case phase of N \<Rightarrow> epoch_color epoch | _ \<Rightarrow> flip (epoch_color epoch))))"

section \<open>Random choices\<close>

definition select_obj_shard :: "('v rt, nat) act" where
  "select_obj_shard =
     bind (gets (\<lambda>s. case rng s of [] \<Rightarrow> 0 | x # _ \<Rightarrow> x mod OBJ_BATCHES_SHARD)) (\<lambda>i.
     seq (modify (\<lambda>s. s\<lparr>rng := tl (rng s)\<rparr>)) (ret i))"

text \<open>
  A shuffle of \<open>[0, 1, 2, 3, 4, 5, 6, 7]\<close>: repeatedly take out the element that the next random
  number selects.
\<close>

fun shuffle_with :: "nat list \<Rightarrow> nat list \<Rightarrow> nat list" where
  "shuffle_with _ [] = []"
| "shuffle_with [] (x # xs) = x # xs"
| "shuffle_with (r # rs) (x # xs) =
     (let i = r mod Suc (length xs); y = (x # xs) ! i
      in y # shuffle_with rs (take i (x # xs) @ drop (Suc i) (x # xs)))"

definition generate_shard_permut :: "('v rt, nat list) act" where
  "generate_shard_permut =
     bind (gets (\<lambda>s. shuffle_with (rng s) [0..<OBJ_BATCHES_SHARD])) (\<lambda>p.
     seq (modify (\<lambda>s. s\<lparr>rng := drop OBJ_BATCHES_SHARD (rng s)\<rparr>)) (ret p))"

section \<open>Object batches\<close>

definition push_fresh_objs :: "obj_batch \<Rightarrow> usize \<Rightarrow> color \<Rightarrow> nat \<Rightarrow> ('v rt, unit) act" where
  "push_fresh_objs batch size_bytes alloc_color shard_index =
     seq (atomic_write (\<lambda>s. s\<lparr>fresh_objs := (fresh_objs s)(alloc_color :=
            (fresh_objs s alloc_color)(shard_index :=
               fresh_objs s alloc_color shard_index @ [batch]))\<rparr>))
         (atomic_write (\<lambda>s. s\<lparr>total_allocated := total_allocated s + size_bytes\<rparr>))"

definition take_obj_batch :: "nat \<Rightarrow> color \<Rightarrow> ('v rt, (obj_batch \<times> usize) option) act" where
  "take_obj_batch t index =
     bind (gets (\<lambda>s. objs (locals s t) index)) (\<lambda>batch_and_size.
     if fst batch_and_size = [] then ret None
     else seq (modify (upd_local t (\<lambda>l. l\<lparr>objs := (objs l)(index := ([], 0))\<rparr>)))
              (ret (Some batch_and_size)))"

definition flush_objs :: "nat \<Rightarrow> ('v rt, unit) act" where
  "flush_objs t =
     bind (pinned_alloc_color t) (\<lambda>alloc_color.
     bind (take_obj_batch t alloc_color) (\<lambda>taken.
     case taken of
       None \<Rightarrow> ret ()
     | Some (batch, size_bytes) \<Rightarrow>
         bind select_obj_shard (\<lambda>shard. push_fresh_objs batch size_bytes alloc_color shard)))"

partial_function (option) push_fresh_loop ::
  "nat \<Rightarrow> color \<Rightarrow> usize \<Rightarrow> usize \<Rightarrow> bool \<Rightarrow> 'v rt \<times> 'v rt env \<Rightarrow> (unit outcome \<times> 'v rt \<times> 'v rt env) option"
  where
  "push_fresh_loop t objs_index obj sz newly_allocated se =
     bind (gets (\<lambda>s. objs (locals s t) objs_index)) (\<lambda>slot.
     case push_within_capacity obj (fst slot) of
       Some batch \<Rightarrow>
         modify (upd_local t (\<lambda>l. l\<lparr>objs := (objs l)(objs_index :=
           (batch, if newly_allocated then snd slot + sz else snd slot))\<rparr>))
     | None \<Rightarrow>
         bind (flush_objs t) (\<lambda>_. push_fresh_loop t objs_index obj sz newly_allocated)) se"

declare push_fresh_loop.simps [code]

definition size_of_val :: "usize \<Rightarrow> ('v rt, usize) act" where
  "size_of_val a = bind (gets (\<lambda>s. heap s a)) (\<lambda>r. case r of
     None \<Rightarrow> raise UseAfterFree | Some obj \<Rightarrow> ret (obj_size obj))"

definition push_fresh_obj :: "nat \<Rightarrow> usize \<Rightarrow> bool \<Rightarrow> ('v rt, unit) act" where
  "push_fresh_obj t obj newly_allocated =
     bind (size_of_val obj) (\<lambda>sz.
     bind (pinned_alloc_color t) (\<lambda>objs_index.
     push_fresh_loop t objs_index obj sz newly_allocated))"

definition schedule_helping_collect :: "guard \<Rightarrow> ('v rt, unit) act" where
  "schedule_helping_collect g = modify (\<lambda>s. s\<lparr>should_help := (should_help s)(g_flag g := True)\<rparr>)"

text \<open>\<^verbatim>\<open>Local::alloc\<close>.\<close>

definition local_alloc :: "nat \<Rightarrow> 'v mobj \<Rightarrow> guard \<Rightarrow> ('v rt, usize) act" where
  "local_alloc k obj g =
     (let t = g_local g in
      bind (box_new k obj) (\<lambda>ptr.
      seq (push_fresh_obj t ptr True) (
      bind (gets (\<lambda>s. alloc_count (locals s t) + 1)) (\<lambda>count.
      seq (modify (upd_local t (\<lambda>l. l\<lparr>alloc_count := count\<rparr>))) (
      seq (act_when (count mod ALLOC_HELPING_PERIOD = 0) (schedule_helping_collect g))
          (ret ptr))))))"

section \<open>Scheduling of marks\<close>

definition record_mt_modification :: "nat \<Rightarrow> ('v rt, unit) act" where
  "record_mt_modification t =
     bind (pinned_epoch t) (\<lambda>epoch.
     bind (gets (\<lambda>s. mt_modified_ts (locals s t))) (\<lambda>last_modified.
     if last_modified = timestamp epoch then ret ()
     else atomic_write (upd_local t (\<lambda>l. l\<lparr>mt_modified_ts := timestamp epoch\<rparr>))))"

definition schedule_mark :: "usize \<Rightarrow> guard \<Rightarrow> ('v rt, unit) act" where
  "schedule_mark obj g =
     (let t = g_local g in
      seq (record_mt_modification t) (
      seq (atomic_write (upd_local t (\<lambda>l. l\<lparr>mark_tasks := mark_tasks l @ [obj]\<rparr>))) (
      bind (gets (\<lambda>s. sched_count (locals s t) + 1)) (\<lambda>count.
      seq (modify (upd_local t (\<lambda>l. l\<lparr>sched_count := count\<rparr>)))
          (act_when (count mod SCHED_HELPING_PERIOD = 0) (schedule_helping_collect g))))))"

definition pop_mark_task :: "nat \<Rightarrow> ('v rt, usize option) act" where
  "pop_mark_task t = atomic (\<lambda>s. case mark_tasks (locals s t) of
     [] \<Rightarrow> (Inr None, s)
   | a # as \<Rightarrow> (Inr (Some a), upd_local t (\<lambda>l. l\<lparr>mark_tasks := as\<rparr>) s))"

definition try_pop_mark_task :: "nat \<Rightarrow> ('v rt, usize option) act" where
  "try_pop_mark_task t =
     bind (atomic_read (\<lambda>s. mark_tasks (locals s t))) (\<lambda>tasks.
     if tasks \<noteq> [] then seq (record_mt_modification t) (pop_mark_task t) else ret None)"

section \<open>Hazard pointers\<close>

text \<open>The hazard array is never empty, so that doubling it zero-fills all of the new half.\<close>

definition grow_hazards :: "nat \<Rightarrow> ('v rt, unit) act" where
  "grow_hazards t =
     bind (gets (\<lambda>s. hazards (locals s t))) (\<lambda>old_ref.
     let half = length old_ref;
         new = old_ref @ replicate (max half 1 * 2 - half) 0
     in seq (atomic_write (upd_local t (\<lambda>l. l\<lparr>hazards := new\<rparr>)))
            (modify (upd_local t (\<lambda>l. l\<lparr>
               hazards_marker := take (half * 2) (hazards_marker l @ replicate (half * 2) False),
               available_hids := available_hids l @ [half..<half * 2]\<rparr>))))"

definition pop_hid :: "nat \<Rightarrow> ('v rt, nat option) act" where
  "pop_hid t =
     bind (gets (\<lambda>s. available_hids (locals s t))) (\<lambda>hids.
     if hids = [] then ret None
     else seq (modify (upd_local t (\<lambda>l. l\<lparr>available_hids := butlast hids\<rparr>))) (ret (Some (last hids))))"

definition acquire_hp :: "nat \<Rightarrow> ('v rt, nat) act" where
  "acquire_hp t =
     bind (pop_hid t) (\<lambda>r. case r of
       Some hid \<Rightarrow> ret hid
     | None \<Rightarrow> seq (grow_hazards t) (bind (pop_hid t) (\<lambda>r'. case r' of
         Some hid \<Rightarrow> ret hid
       | None \<Rightarrow> raise UnwrapNone)))"

definition release_hp :: "nat \<Rightarrow> nat \<Rightarrow> ('v rt, unit) act" where
  "release_hp t hid = modify (upd_local t (\<lambda>l. l\<lparr>available_hids := available_hids l @ [hid]\<rparr>))"

text \<open>\<^verbatim>\<open>HazardPointer\<close>: a slot of a participant.\<close>

record hazard_pointer =
  hp_local :: nat
  hp_hid :: nat

definition hazard_new :: "nat \<Rightarrow> ('v rt, hazard_pointer) act" where
  "hazard_new t = bind (acquire_hp t) (\<lambda>hid. ret \<lparr>hp_local = t, hp_hid = hid\<rparr>)"

definition hazard_protect :: "nat \<Rightarrow> hazard_pointer \<Rightarrow> man_ptr \<Rightarrow> ('v rt, unit) act" where
  "hazard_protect k hp addr =
     seq (atomic_write (upd_local (hp_local hp)
            (\<lambda>l. l\<lparr>hazards := (hazards l)[hp_hid hp := as_ptr k addr]\<rparr>)))
         (modify (upd_local (hp_local hp)
            (\<lambda>l. l\<lparr>hazards_marker := (hazards_marker l)[hp_hid hp := \<not> ptr_is_null k addr]\<rparr>)))"

definition hazard_clear :: "hazard_pointer \<Rightarrow> ('v rt, unit) act" where
  "hazard_clear hp =
     seq (atomic_write (upd_local (hp_local hp) (\<lambda>l. l\<lparr>hazards := (hazards l)[hp_hid hp := 0]\<rparr>)))
         (modify (upd_local (hp_local hp)
            (\<lambda>l. l\<lparr>hazards_marker := (hazards_marker l)[hp_hid hp := False]\<rparr>)))"

definition hazard_drop :: "hazard_pointer \<Rightarrow> ('v rt, unit) act" where
  "hazard_drop hp = seq (hazard_clear hp) (release_hp (hp_local hp) (hp_hid hp))"

text \<open>
  \<^verbatim>\<open>collect_hps\<close>: every hazard slot of every participant in use, read one after the other; the set is a
  list here.
\<close>

definition load_hazard :: "nat \<Rightarrow> nat \<Rightarrow> ('v rt, usize) act" where
  "load_hazard t i = atomic_read (\<lambda>s. if i < length (hazards (locals s t)) then hazards (locals s t) ! i else 0)"

definition collect_hps :: "('v rt, usize list) act" where
  "collect_hps =
     iter_using (\<lambda>t acc.
       bind (atomic_read (\<lambda>s. length (hazards (locals s t)))) (\<lambda>n.
       bind (act_map (load_hazard t) [0..<n]) (\<lambda>hs. ret (Inl (acc @ hs))))) []"

definition scan_or_reuse_hazards :: "nat \<Rightarrow> ('v rt, usize list) act" where
  "scan_or_reuse_hazards t =
     bind (pinned_epoch t) (\<lambda>epoch.
     bind (gets (\<lambda>s. cached_hazards (locals s t))) (\<lambda>cached.
     let rescan =
       bind collect_hps (\<lambda>new_hazards.
       seq (modify (upd_local t (\<lambda>l. l\<lparr>cached_hazards := Some (new_hazards, epoch)\<rparr>)))
           (ret new_hazards))
     in case cached of
          Some (hs, prev_epoch) \<Rightarrow> if prev_epoch = epoch then ret hs else rescan
        | None \<Rightarrow> rescan))"

section \<open>Registration of types\<close>

definition MAX_TYPE_ID :: nat where "MAX_TYPE_ID = 2 ^ TYPE_ID_BITS"
definition ID_UNSET :: u32 where "ID_UNSET = - 1"

text \<open>
  \<^verbatim>\<open>TYPE_SET.get_or_insert\<close> as the hash set promises it: the entry of the type, and whether this call
  has inserted it; a full table panics.
\<close>

definition type_set_get_or_insert :: "nat \<Rightarrow> ('v rt, bool) act" where
  "type_set_get_or_insert ty = atomic (\<lambda>s.
     if map_of (type_set s) ty \<noteq> None then (Inr False, s)
     else if length (type_set s) < MAX_TYPE_ID
     then (Inr True, s\<lparr>type_set := (ty, ID_UNSET) # type_set s\<rparr>)
     else (Inl HashSetFull, s))"

definition load_type_id :: "nat \<Rightarrow> ('v rt, u32) act" where
  "load_type_id ty = atomic_read (\<lambda>s. case map_of (type_set s) ty of Some i \<Rightarrow> i | None \<Rightarrow> ID_UNSET)"

partial_function (option) spin_type_id ::
  "nat \<Rightarrow> 'v rt \<times> 'v rt env \<Rightarrow> (u8 outcome \<times> 'v rt \<times> 'v rt env) option" where
  "spin_type_id ty se =
     bind (load_type_id ty) (\<lambda>i. if i \<noteq> ID_UNSET then ret (ucast i) else spin_type_id ty) se"

declare spin_type_id.simps [code]

definition register_type :: "nat \<Rightarrow> ('v rt, u8) act" where
  "register_type ty =
     bind (type_set_get_or_insert ty) (\<lambda>inserted.
     if inserted then
       bind (atomic (\<lambda>s. (Inr (next_type_id s), s\<lparr>next_type_id := next_type_id s + 1\<rparr>))) (\<lambda>new_id.
       if unat new_id < MAX_TYPE_ID then
         seq (atomic_write (\<lambda>s. s\<lparr>shade_fns := (shade_fns s)(unat new_id := Some ty)\<rparr>)) (
         seq (atomic_write (\<lambda>s. s\<lparr>type_set := map (\<lambda>(t, i). if t = ty then (t, ucast new_id) else (t, i)) (type_set s)\<rparr>))
             (ret (ucast new_id)))
       else raise RegistryOverflow)
     else
       bind (load_type_id ty) (\<lambda>i.
       if i = ID_UNSET then spin_type_id ty else ret (ucast i)))"

definition get_shade_fn :: "u8 \<Rightarrow> ('v rt, nat) act" where
  "get_shade_fn tid =
     bind (atomic_read (\<lambda>s. shade_fns s (unat tid))) (\<lambda>r. case r of
       None \<Rightarrow> raise NullShadeFn | Some ty \<Rightarrow> ret ty)"

end
