(* ===== verification/Tracing.thy ===== *)
theory Tracing
  imports Runtime
begin

text \<open>
  Marking and tracing: the methods of \<^verbatim>\<open>ManObj\<close>, \<^verbatim>\<open>ManPtr\<close> and of the \<^verbatim>\<open>TracePtr\<close> and \<^verbatim>\<open>MarkObj\<close>
  implementations in \<^verbatim>\<open>src/src/pointers.rs\<close> that the collector calls (\<^verbatim>\<open>mark\<close>, \<^verbatim>\<open>shade\<close>,
  \<^verbatim>\<open>unroot\<close>, \<^verbatim>\<open>shade_pointee\<close>), with the colours of a guard from \<^verbatim>\<open>src/src/guards.rs\<close>.
\<close>

section \<open>Colours and phases of a guard\<close>

definition guard_epoch :: "guard \<Rightarrow> ('v rt, epoch) act" where
  "guard_epoch g = pinned_epoch (g_local g)"

definition guard_phase :: "guard \<Rightarrow> ('v rt, phase) act" where
  "guard_phase g = bind (guard_epoch g) (\<lambda>e. lift_outcome (epoch_phase e))"

definition white_color :: "guard \<Rightarrow> ('v rt, color) act" where
  "white_color g = bind (guard_epoch g) (\<lambda>e. ret (epoch_color e))"

definition black_color :: "guard \<Rightarrow> ('v rt, color) act" where
  "black_color g = bind (white_color g) (\<lambda>c. ret (flip c))"

definition alloc_color :: "guard \<Rightarrow> ('v rt, color) act" where
  "alloc_color g = pinned_alloc_color (g_local g)"

definition global_phase_with_fence :: "('v rt, phase) act" where
  "global_phase_with_fence = bind load_epoch (\<lambda>e. lift_outcome (epoch_phase e))"

definition guard_alloc :: "nat \<Rightarrow> 'v mobj \<Rightarrow> guard \<Rightarrow> ('v rt, usize) act" where
  "guard_alloc k obj g = local_alloc k obj g"

section \<open>Headers in the heap\<close>

definition obj_increment_root_count :: "usize \<Rightarrow> ('v rt, usize) act" where
  "obj_increment_root_count a = fetch_header a increment_root_count"

definition obj_decrement_root_count :: "usize \<Rightarrow> ('v rt, usize) act" where
  "obj_decrement_root_count a = fetch_header a decrement_root_count"

definition is_marked :: "usize \<Rightarrow> guard \<Rightarrow> ('v rt, bool) act" where
  "is_marked a g =
     bind (read_header a) (\<lambda>h. bind (black_color g) (\<lambda>black. ret (marked h = black)))"

definition header_compare_exchange ::
  "usize \<Rightarrow> obj_meta \<Rightarrow> obj_meta \<Rightarrow> ('v rt, obj_meta + obj_meta) act" where
  "header_compare_exchange a current new =
     fetch_header a (\<lambda>h. compare_exchange h current new)"

partial_function (option) mark_header_loop ::
  "usize \<Rightarrow> guard \<Rightarrow> obj_meta \<Rightarrow> 'v rt \<times> 'v rt env \<Rightarrow> (unit outcome \<times> 'v rt \<times> 'v rt env) option" where
  "mark_header_loop a g meta se =
     bind (black_color g) (\<lambda>black.
     if marked meta \<noteq> black then
       bind (header_compare_exchange a meta (with_marked black meta)) (\<lambda>r.
       case r of
         Inr _ \<Rightarrow> ret ()
       | Inl current \<Rightarrow> mark_header_loop a g current)
     else ret ()) se"

declare mark_header_loop.simps [code]

definition mark_header :: "usize \<Rightarrow> guard \<Rightarrow> ('v rt, unit) act" where
  "mark_header a g = bind (read_header a) (\<lambda>meta. mark_header_loop a g meta)"

section \<open>Shading\<close>

definition shade_pointee :: "nat \<Rightarrow> man_ptr \<Rightarrow> guard \<Rightarrow> ('v rt, bool) act" where
  "shade_pointee k p g =
     (case as_ref k p of
        None \<Rightarrow> ret False
      | Some mobj \<Rightarrow>
          bind (is_marked mobj g) (\<lambda>m.
          if m then ret False else seq (schedule_mark mobj g) (ret True)))"

definition shade_erased :: "usize \<Rightarrow> guard \<Rightarrow> ('v rt, unit) act" where
  "shade_erased mobj g =
     bind (is_marked mobj g) (\<lambda>m. if m then ret () else schedule_mark mobj g)"

text \<open>\<^verbatim>\<open>TracePtr::shade\<close> of the link at \<open>l\<close>.\<close>

partial_function (option) shade_loop ::
  "nat \<Rightarrow> loc \<Rightarrow> guard \<Rightarrow> man_ptr \<Rightarrow> 'v rt \<times> 'v rt env \<Rightarrow> (unit outcome \<times> 'v rt \<times> 'v rt env) option"
  where
  "shade_loop k l g ptr se =
     bind (black_color g) (\<lambda>black.
     if ptr_meta_of ptr = Unrooted black then ret ()
     else
       bind (shade_pointee k ptr g) (\<lambda>_.
       bind (link_compare_exchange l ptr (with_meta (Unrooted black) ptr)) (\<lambda>r.
       case r of
         Inr _ \<Rightarrow> ret ()
       | Inl current \<Rightarrow> shade_loop k l g current))) se"

declare shade_loop.simps [code]

definition shade :: "nat \<Rightarrow> loc \<Rightarrow> guard \<Rightarrow> ('v rt, unit) act" where
  "shade k l g = bind (link_load l) (\<lambda>ptr. shade_loop k l g ptr)"

text \<open>\<^verbatim>\<open>TracePtr::unroot\<close> of the link at \<open>l\<close>.\<close>

definition unroot :: "nat \<Rightarrow> loc \<Rightarrow> guard \<Rightarrow> ('v rt, unit) act" where
  "unroot k l g =
     bind (link_load l) (\<lambda>ptr.
     seq (case as_ref k ptr of
            None \<Rightarrow> ret ()
          | Some obj \<Rightarrow>
              bind (obj_decrement_root_count obj) (\<lambda>count.
              if count = 1 then
                bind global_phase_with_fence (\<lambda>phase.
                act_when (phase \<noteq> N) (bind (shade_pointee k ptr g) (\<lambda>_. ret ())))
              else ret ())) (
     bind (alloc_color g) (\<lambda>color.
     link_store l (with_meta (Unrooted color) ptr))))"

section \<open>Objects\<close>

text \<open>
  The visitors that \<^verbatim>\<open>#[derive(TraceObj)]\<close> generates: the same action on every managed pointer field
  in order.
\<close>

definition outgoings :: "usize \<Rightarrow> ('v rt, loc list) act" where
  "outgoings a = bind (gets (\<lambda>s. heap s a)) (\<lambda>r. case r of
     None \<Rightarrow> raise UseAfterFree
   | Some obj \<Rightarrow> ret (map (Field a) [0..<length (links obj)]))"

definition shade_outgoings :: "nat \<Rightarrow> usize \<Rightarrow> guard \<Rightarrow> ('v rt, unit) act" where
  "shade_outgoings k a g = bind (outgoings a) (\<lambda>ls. for_each ls (\<lambda>l. shade k l g))"

definition unroot_outgoings :: "nat \<Rightarrow> usize \<Rightarrow> guard \<Rightarrow> ('v rt, unit) act" where
  "unroot_outgoings k a g = bind (outgoings a) (\<lambda>ls. for_each ls (\<lambda>l. unroot k l g))"

text \<open>\<^verbatim>\<open>ManObj::mark\<close>, the body of a mark task.\<close>

definition obj_mark :: "nat \<Rightarrow> usize \<Rightarrow> guard \<Rightarrow> ('v rt, unit) act" where
  "obj_mark k a g =
     bind (is_marked a g) (\<lambda>m.
     act_when (\<not> m) (seq (shade_outgoings k a g) (mark_header a g)))"

text \<open>The implementation of \<^verbatim>\<open>MarkObj\<close>, through which the collector sees objects of unknown type.\<close>

definition dyn_mark :: "nat \<Rightarrow> usize \<Rightarrow> guard \<Rightarrow> ('v rt, unit) act" where
  "dyn_mark k a g = seq (shade_outgoings k a g) (mark_header a g)"

definition dyn_color :: "usize \<Rightarrow> ('v rt, color) act" where
  "dyn_color a = bind (read_header a) (\<lambda>h. ret (marked h))"

definition dyn_root_count :: "usize \<Rightarrow> ('v rt, usize) act" where
  "dyn_root_count a = bind (read_header a) (\<lambda>h. ret (root_count h))"

text \<open>\<^verbatim>\<open>ManObj::new\<close>, with the type's key, its value and the words of its pointer fields.\<close>

definition man_obj_new ::
  "nat \<Rightarrow> 'v \<Rightarrow> man_ptr list \<Rightarrow> usize \<Rightarrow> color \<Rightarrow> usize \<Rightarrow> ('v rt, 'v mobj) act" where
  "man_obj_new ty v ls sz color rc =
     bind (register_type ty) (\<lambda>tid.
     ret \<lparr>header = new_with_type_id color rc tid, links = ls, item_val = v, obj_size = sz\<rparr>)"

text \<open>
  Dropping a boxed object drops its fields first. The drop of a managed pointer that is not rooted does
  nothing; an object of the managed heap has no rooted field, which the lemmas show.
\<close>

definition drop_box :: "nat \<Rightarrow> usize \<Rightarrow> ('v rt, unit) act" where
  "drop_box k a = atomic (\<lambda>s. case heap s a of
     None \<Rightarrow> (Inl UseAfterFree, s)
   | Some obj \<Rightarrow>
       if (\<forall>p\<in>set (links obj). ptr_meta_of p \<noteq> Rooted \<or> ptr_is_null k p)
       then (Inr (), s\<lparr>heap := (heap s)(a := None)\<rparr>)
       else (Inl RootedHeapEdge, s))"

end
