(* ===== verification/Guards.thy ===== *)
theory Guards
  imports Tracing
begin

text \<open>
  Guards and handles (\<^verbatim>\<open>src/src/guards.rs\<close>) with the pinning of \<^verbatim>\<open>src/src/internal.rs\<close>: entering and
  leaving a critical section, the phase barrier, and the help that mutators give the collector
  (sweeping in the normal phase, scanning roots and draining mark tasks while tracing).
\<close>

definition HELP_NORMAL_MAX_TRIAL :: nat where "HELP_NORMAL_MAX_TRIAL = 2"
definition HELP_TRACING_MAX_TRIAL :: nat where "HELP_TRACING_MAX_TRIAL = 4"

definition call_without_recursion ::
  "nat \<Rightarrow> (participant \<Rightarrow> bool) \<Rightarrow> (bool \<Rightarrow> participant \<Rightarrow> participant) \<Rightarrow> ('v rt, unit) act \<Rightarrow> ('v rt, unit) act"
  where
  "call_without_recursion t get set_flag f =
     bind (gets (\<lambda>s. get (locals s t))) (\<lambda>flag.
     if flag then ret ()
     else seq (modify (upd_local t (set_flag True))) (
          seq f (
          modify (upd_local t (set_flag False)))))"

text \<open>\<^verbatim>\<open>Queue::try_pop\<close> and \<^verbatim>\<open>Queue::push\<close> on the shards.\<close>

definition pop_fresh :: "color \<Rightarrow> nat \<Rightarrow> ('v rt, obj_batch option) act" where
  "pop_fresh c q = atomic (\<lambda>s. case fresh_objs s c q of
     [] \<Rightarrow> (Inr None, s)
   | b # bs \<Rightarrow> (Inr (Some b), s\<lparr>fresh_objs := (fresh_objs s)(c := (fresh_objs s c)(q := bs))\<rparr>))"

definition pop_marked :: "color \<Rightarrow> nat \<Rightarrow> ('v rt, obj_batch option) act" where
  "pop_marked c q = atomic (\<lambda>s. case marked_objs s c q of
     [] \<Rightarrow> (Inr None, s)
   | b # bs \<Rightarrow> (Inr (Some b), s\<lparr>marked_objs := (marked_objs s)(c := (marked_objs s c)(q := bs))\<rparr>))"

definition push_marked :: "color \<Rightarrow> nat \<Rightarrow> obj_batch \<Rightarrow> ('v rt, unit) act" where
  "push_marked c q b = atomic_write (\<lambda>s.
     s\<lparr>marked_objs := (marked_objs s)(c := (marked_objs s c)(q := marked_objs s c q @ [b]))\<rparr>)"

section \<open>Helping the sweep\<close>

text \<open>One object of a batch: reclaimed if it still has the white colour of the last cycle.\<close>

definition sweep_or_keep :: "nat \<Rightarrow> nat \<Rightarrow> color \<Rightarrow> usize \<Rightarrow> ('v rt, usize) act" where
  "sweep_or_keep k t prev_white obj =
     bind (dyn_color obj) (\<lambda>c.
     if prev_white = c then
       bind (size_of_val obj) (\<lambda>sz. seq (drop_box k obj) (ret sz))
     else seq (push_fresh_obj t obj False) (ret 0))"

fun sweep_batch :: "nat \<Rightarrow> nat \<Rightarrow> color \<Rightarrow> obj_batch \<Rightarrow> usize \<Rightarrow> ('v rt, usize) act" where
  "sweep_batch k t prev_white [] reclaimed_bytes = ret reclaimed_bytes"
| "sweep_batch k t prev_white (obj # batch) reclaimed_bytes =
     bind (sweep_or_keep k t prev_white obj) (\<lambda>n.
     sweep_batch k t prev_white batch (reclaimed_bytes + n))"

definition add_reclaimed :: "usize \<Rightarrow> ('v rt, unit) act" where
  "add_reclaimed n = atomic_write (\<lambda>s. s\<lparr>total_reclaimed := total_reclaimed s + n\<rparr>)"

text \<open>
  The \<^verbatim>\<open>while let\<close> loop on one shard, for the trials that are left; the result is the new trial count.
\<close>

fun help_normal_shard :: "nat \<Rightarrow> nat \<Rightarrow> nat \<Rightarrow> color \<Rightarrow> nat \<Rightarrow> nat \<Rightarrow> ('v rt, nat) act" where
  "help_normal_shard 0 k t prev_white q_idx trial_count = ret trial_count"
| "help_normal_shard (Suc left) k t prev_white q_idx trial_count =
     bind (pop_marked prev_white q_idx) (\<lambda>r.
     case r of
       None \<Rightarrow> ret trial_count
     | Some batch \<Rightarrow>
         bind (sweep_batch k t prev_white batch 0) (\<lambda>reclaimed_bytes.
         seq (add_reclaimed reclaimed_bytes)
             (help_normal_shard left k t prev_white q_idx (Suc trial_count))))"

fun help_normal_shards :: "nat \<Rightarrow> guard \<Rightarrow> nat list \<Rightarrow> nat \<Rightarrow> ('v rt, unit) act" where
  "help_normal_shards k g [] trial_count = ret ()"
| "help_normal_shards k g (q_idx # qs) trial_count =
     bind (black_color g) (\<lambda>prev_white.
     bind (help_normal_shard (HELP_NORMAL_MAX_TRIAL - trial_count) k (g_local g) prev_white q_idx
             trial_count) (\<lambda>n.
     if n \<ge> HELP_NORMAL_MAX_TRIAL then ret () else help_normal_shards k g qs n))"

definition help_normal_inner :: "nat \<Rightarrow> guard \<Rightarrow> ('v rt, unit) act" where
  "help_normal_inner k g =
     bind generate_shard_permut (\<lambda>permut. help_normal_shards k g permut 0)"

definition help_normal :: "nat \<Rightarrow> guard \<Rightarrow> ('v rt, unit) act" where
  "help_normal k g =
     bind (guard_phase g) (\<lambda>phase.
     if phase \<noteq> N then ret ()
     else call_without_recursion (g_local g) is_helping_normal
            (\<lambda>b l. l\<lparr>is_helping_normal := b\<rparr>) (help_normal_inner k g))"

section \<open>Helping the tracing\<close>

definition is_tracing_synced :: "('v rt, bool) act" where
  "is_tracing_synced =
     iter_using (\<lambda>t _.
       bind (atomic_read (\<lambda>s. atomic_epoch_load (local_epoch (locals s t)))) (\<lambda>other_epoch.
       if \<not> is_pinned other_epoch then ret (Inl True)
       else bind (lift_outcome (epoch_phase other_epoch)) (\<lambda>phase.
            ret (if phase \<noteq> N then Inl True else Inr False)))) True"

text \<open>
  \<^verbatim>\<open>help_root_tracing\<close>: the hazard pointers are scanned when the first object without a root count
  asks for them (\<^verbatim>\<open>LazyCell\<close>); \<open>hps\<close> is what has been scanned so far.
\<close>

fun help_root_batch ::
  "nat \<Rightarrow> guard \<Rightarrow> obj_batch \<Rightarrow> usize list option \<Rightarrow> ('v rt, usize list option) act" where
  "help_root_batch k g [] hps = ret hps"
| "help_root_batch k g (obj # batch) hps =
     bind (dyn_root_count obj) (\<lambda>n.
     if n > 0 then seq (dyn_mark k obj g) (help_root_batch k g batch hps)
     else
       bind (case hps of Some hs \<Rightarrow> ret hs | None \<Rightarrow> scan_or_reuse_hazards (g_local g)) (\<lambda>hs.
       seq (act_when (obj \<in> set hs) (dyn_mark k obj g))
           (help_root_batch k g batch (Some hs))))"

fun help_root_shard ::
  "nat \<Rightarrow> nat \<Rightarrow> guard \<Rightarrow> nat \<Rightarrow> nat \<Rightarrow> usize list option \<Rightarrow> ('v rt, nat \<times> usize list option) act" where
  "help_root_shard 0 k g q_idx trial_count hps = ret (trial_count, hps)"
| "help_root_shard (Suc left) k g q_idx trial_count hps =
     bind (white_color g) (\<lambda>white.
     bind (pop_fresh white q_idx) (\<lambda>r.
     case r of
       None \<Rightarrow> ret (trial_count, hps)
     | Some batch \<Rightarrow>
         bind (help_root_batch k g batch hps) (\<lambda>hps'.
         bind select_obj_shard (\<lambda>marked_q_idx.
         seq (push_marked white marked_q_idx batch)
             (help_root_shard left k g q_idx (Suc trial_count) hps')))))"

fun help_root_shards ::
  "nat \<Rightarrow> guard \<Rightarrow> nat list \<Rightarrow> nat \<Rightarrow> usize list option \<Rightarrow> ('v rt, unit) act" where
  "help_root_shards k g [] trial_count hps = ret ()"
| "help_root_shards k g (q_idx # qs) trial_count hps =
     bind (help_root_shard (HELP_TRACING_MAX_TRIAL - trial_count) k g q_idx trial_count hps) (\<lambda>(n, hps').
     if n \<ge> HELP_TRACING_MAX_TRIAL then ret () else help_root_shards k g qs n hps')"

definition help_root_tracing :: "nat \<Rightarrow> guard \<Rightarrow> ('v rt, unit) act" where
  "help_root_tracing k g =
     bind (guard_phase g) (\<lambda>phase.
     if phase \<noteq> RT then ret ()
     else bind generate_shard_permut (\<lambda>permut. help_root_shards k g permut 0 None))"

fun drain_some :: "nat \<Rightarrow> nat \<Rightarrow> guard \<Rightarrow> ('v rt, unit) act" where
  "drain_some 0 k g = ret ()"
| "drain_some (Suc n) k g =
     bind (try_pop_mark_task (g_local g)) (\<lambda>r.
     case r of
       Some task \<Rightarrow> seq (obj_mark k task g) (drain_some n k g)
     | None \<Rightarrow> ret ())"

definition help_draining_mark_tasks_inner :: "nat \<Rightarrow> guard \<Rightarrow> ('v rt, unit) act" where
  "help_draining_mark_tasks_inner k g =
     bind (atomic_read (\<lambda>s. length (mark_tasks (locals s (g_local g))))) (\<lambda>mt_len.
     drain_some (max (mt_len div 2) (OBJ_BATCH_SIZE div 2)) k g)"

definition help_tracing :: "nat \<Rightarrow> guard \<Rightarrow> ('v rt, unit) act" where
  "help_tracing k g =
     bind (guard_phase g) (\<lambda>phase.
     if phase \<noteq> RT \<and> phase \<noteq> CT then ret ()
     else
       bind is_tracing_synced (\<lambda>synced.
       if \<not> synced then ret ()
       else
         seq (call_without_recursion (g_local g) is_helping_root_tracing
                (\<lambda>b l. l\<lparr>is_helping_root_tracing := b\<rparr>) (help_root_tracing k g))
             (call_without_recursion (g_local g) is_helping_draining_mark_tasks
                (\<lambda>b l. l\<lparr>is_helping_draining_mark_tasks := b\<rparr>) (help_draining_mark_tasks_inner k g))))"

definition help_collect :: "nat \<Rightarrow> guard \<Rightarrow> ('v rt, unit) act" where
  "help_collect k g =
     bind (guard_phase g) (\<lambda>phase.
     case phase of N \<Rightarrow> help_normal k g | RT \<Rightarrow> help_tracing k g | CT \<Rightarrow> help_tracing k g)"

definition help_collect_if_scheduled :: "nat \<Rightarrow> guard \<Rightarrow> ('v rt, unit) act" where
  "help_collect_if_scheduled k g =
     bind (gets (\<lambda>s. should_help s (g_flag g))) (\<lambda>b.
     act_when b (
       seq (modify (\<lambda>s. s\<lparr>should_help := (should_help s)(g_flag g := False)\<rparr>))
           (help_collect k g)))"

section \<open>Pinning\<close>

text \<open>\<^verbatim>\<open>Guard::new\<close> and the drop of a guard; \<open>f\<close> is the identity of the new guard's own flag.\<close>

definition guard_new :: "nat \<Rightarrow> nat \<Rightarrow> ('v rt, guard) act" where
  "guard_new t f =
     seq (modify (\<lambda>s. s\<lparr>should_help := (should_help s)(f := False)\<rparr>)) (ret \<lparr>g_local = t, g_flag = f\<rparr>)"

definition participant_is_pinned :: "nat \<Rightarrow> ('v rt, bool) act" where
  "participant_is_pinned t = gets (\<lambda>s. guard_count (locals s t) > 0)"

text \<open>The counter of \<^verbatim>\<open>pin_inner\<close>: its value before the increment, which panics on overflow.\<close>

definition count_guard :: "nat \<Rightarrow> ('v rt, usize) act" where
  "count_guard t =
     bind (gets (\<lambda>s. guard_count (locals s t))) (\<lambda>count.
     case checked_add count 1 of
       None \<Rightarrow> raise UnwrapNone
     | Some n \<Rightarrow> seq (modify (upd_local t (\<lambda>l. l\<lparr>guard_count := n\<rparr>))) (ret count))"

definition unpin_inner :: "nat \<Rightarrow> ('v rt, unit) act" where
  "unpin_inner t =
     bind (gets (\<lambda>s. guard_count (locals s t))) (\<lambda>count.
     seq (modify (upd_local t (\<lambda>l. l\<lparr>guard_count := count - 1\<rparr>)))
         (act_when (count = 1)
            (atomic_write (upd_local t (\<lambda>l. l\<lparr>local_epoch := atomic_epoch_store starting (local_epoch l)\<rparr>)))))"

definition guard_drop :: "nat \<Rightarrow> guard \<Rightarrow> ('v rt, unit) act" where
  "guard_drop k g = seq (help_collect_if_scheduled k g) (unpin_inner (g_local g))"

text \<open>
  The marker of a hazard slot marks the object under a guard of its own. It runs while the thread is
  pinned already, so its pin only counts.
\<close>

definition nested_pin :: "nat \<Rightarrow> nat \<Rightarrow> ('v rt, guard) act" where
  "nested_pin t f =
     bind (guard_new t f) (\<lambda>g.
     bind (count_guard t) (\<lambda>count. if count = 0 then raise FreshPinExpected else ret g))"

definition hazard_mark :: "nat \<Rightarrow> nat \<Rightarrow> nat \<Rightarrow> usize \<Rightarrow> ('v rt, unit) act" where
  "hazard_mark k t f ptr =
     bind (nested_pin t f) (\<lambda>g. seq (obj_mark k ptr g) (guard_drop k g))"

definition phase_barrier :: "nat \<Rightarrow> nat \<Rightarrow> nat \<Rightarrow> ('v rt, unit) act" where
  "phase_barrier k t f =
     bind (gets (\<lambda>s. zip (hazards (locals s t)) (hazards_marker (locals s t)))) (\<lambda>slots.
     for_each slots (\<lambda>(ptr, mark).
       if ptr = 0 then ret ()
       else if mark then hazard_mark k t f ptr
       else raise UnwrapNone))"

partial_function (option) publish_epoch ::
  "nat \<Rightarrow> epoch \<Rightarrow> 'v rt \<times> 'v rt env \<Rightarrow> (epoch outcome \<times> 'v rt \<times> 'v rt env) option" where
  "publish_epoch t curr_epoch se =
     bind (atomic_write (upd_local t
             (\<lambda>l. l\<lparr>local_epoch := atomic_epoch_store (pinned curr_epoch) (local_epoch l)\<rparr>))) (\<lambda>_.
     bind load_epoch (\<lambda>new_epoch.
     if curr_epoch = new_epoch then ret curr_epoch else publish_epoch t new_epoch)) se"

declare publish_epoch.simps [code]

definition pin_freshly :: "nat \<Rightarrow> nat \<Rightarrow> nat \<Rightarrow> ('v rt, unit) act" where
  "pin_freshly k t f =
     bind load_epoch (\<lambda>epoch0.
     bind (publish_epoch t epoch0) (\<lambda>curr_epoch.
     bind (gets (\<lambda>s. last_observed (locals s t))) (\<lambda>last.
     seq (if timestamp last \<noteq> timestamp curr_epoch
          then bind (lift_outcome (epoch_phase curr_epoch)) (\<lambda>phase.
               act_when (phase = RT) (phase_barrier k t f))
          else ret ())
         (modify (upd_local t (\<lambda>l. l\<lparr>last_observed := curr_epoch\<rparr>))))))"

definition pin_inner :: "nat \<Rightarrow> nat \<Rightarrow> nat \<Rightarrow> ('v rt, unit) act" where
  "pin_inner k t f =
     bind (count_guard t) (\<lambda>count. act_when (count = 0) (pin_freshly k t f))"

definition repin_inner :: "nat \<Rightarrow> nat \<Rightarrow> nat \<Rightarrow> ('v rt, unit) act" where
  "repin_inner k t f = seq (unpin_inner t) (pin_inner k t f)"

text \<open>
  The methods of \<^verbatim>\<open>Handle\<close> and \<^verbatim>\<open>Guard\<close>: \<open>f\<close> names the flag of the guard that \<^verbatim>\<open>pin\<close> makes, \<open>f'\<close> those
  of the guards that the phase barrier makes.
\<close>

definition handle_pin :: "nat \<Rightarrow> nat \<Rightarrow> nat \<Rightarrow> nat \<Rightarrow> ('v rt, guard) act" where
  "handle_pin k t f f' = bind (guard_new t f) (\<lambda>g. seq (pin_inner k t f') (ret g))"

definition guard_repin :: "nat \<Rightarrow> guard \<Rightarrow> nat \<Rightarrow> ('v rt, unit) act" where
  "guard_repin k g f' = seq (help_collect_if_scheduled k g) (repin_inner k (g_local g) f')"

definition handle_help_collect :: "nat \<Rightarrow> nat \<Rightarrow> nat \<Rightarrow> nat \<Rightarrow> ('v rt, unit) act" where
  "handle_help_collect k t f f' =
     bind (handle_pin k t f f') (\<lambda>g. seq (help_collect k g) (guard_drop k g))"

text \<open>\<^verbatim>\<open>Protector::protect\<close> of a handle: a new hazard pointer to the object.\<close>

definition handle_protect :: "nat \<Rightarrow> nat \<Rightarrow> man_ptr \<Rightarrow> ('v rt, hazard_pointer) act" where
  "handle_protect k t ptr =
     bind (hazard_new t) (\<lambda>hp. seq (hazard_protect k hp ptr) (ret hp))"

end
