(* ===== verification/Pointers.thy ===== *)
theory Pointers
  imports Guards
begin

text \<open>
  The managed pointer types of \<^verbatim>\<open>src/src/pointers.rs\<close>: \<^verbatim>\<open>AtomicSharedOption\<close>, \<^verbatim>\<open>AtomicShared\<close>,
  \<^verbatim>\<open>Shared\<close> and \<^verbatim>\<open>Local\<close>. A pointer of the first three types is the link word at a location; an
  owned pointer that is being passed around is its word. A \<^verbatim>\<open>Local\<close> is the address of its object.
  Every operation is an action, so each of its accesses may be preceded by what other threads do.
\<close>

type_synonym tagged_local = "local_ptr option \<times> usize"

text \<open>Locations and flags of the guards that an operation makes for itself while \<open>g\<close> is alive.\<close>

definition nested_flag :: "guard \<Rightarrow> nat" where
  "nested_flag g = Suc (g_flag g)"

section \<open>Allocation\<close>

definition alloc_rooted ::
  "nat \<Rightarrow> nat \<Rightarrow> 'v \<Rightarrow> man_ptr list \<Rightarrow> usize \<Rightarrow> color \<Rightarrow> usize \<Rightarrow> guard \<Rightarrow> ('v rt, man_ptr) act" where
  "alloc_rooted k ty v ls sz color rc g =
     bind (man_obj_new ty v ls sz color rc) (\<lambda>obj.
     bind (guard_alloc k obj g) (\<lambda>addr.
     ret (with_meta Rooted (man_ptr_from addr))))"

definition alloc_unrooted ::
  "nat \<Rightarrow> nat \<Rightarrow> 'v \<Rightarrow> man_ptr list \<Rightarrow> usize \<Rightarrow> color \<Rightarrow> guard \<Rightarrow> ('v rt, man_ptr) act" where
  "alloc_unrooted k ty v ls sz color g =
     bind (man_obj_new ty v ls sz color 0) (\<lambda>obj.
     bind (guard_alloc k obj g) (\<lambda>addr.
     ret (with_meta (Unrooted color) (man_ptr_from addr))))"

section \<open>Root counts\<close>

text \<open>\<^verbatim>\<open>Drop for AtomicSharedOption\<close>, for a pointer that thread \<open>t\<close> drops.\<close>

definition drop_ptr :: "nat \<Rightarrow> nat \<Rightarrow> nat \<Rightarrow> man_ptr \<Rightarrow> ('v rt, unit) act" where
  "drop_ptr k t f ptr =
     (if ptr_meta_of ptr \<noteq> Rooted then ret ()
      else if ptr_is_null k ptr then ret ()
      else
        bind (handle_pin k t f (Suc f)) (\<lambda>g.
        bind (obj_decrement_root_count (as_ptr k ptr)) (\<lambda>count.
        seq (if count = 1 then
               bind global_phase_with_fence (\<lambda>phase.
               act_when (phase \<noteq> N) (
                 bind (read_header (as_ptr k ptr)) (\<lambda>meta.
                 bind (get_shade_fn (type_id meta)) (\<lambda>shade_fn.
                 shade_erased (as_ptr k ptr) g))))
             else ret ())
            (guard_drop k g))))"

text \<open>\<^verbatim>\<open>Shared::try_inc_raw\<close>: an owned pointer to the same object, unless it is null.\<close>

definition try_inc_raw :: "nat \<Rightarrow> man_ptr \<Rightarrow> ('v rt, man_ptr option) act" where
  "try_inc_raw k ptr =
     (case as_ref k ptr of
        None \<Rightarrow> ret None
      | Some obj \<Rightarrow>
          bind (obj_increment_root_count obj) (\<lambda>_. ret (Some (with_meta Rooted ptr))))"

definition drop_shared_option :: "nat \<Rightarrow> guard \<Rightarrow> man_ptr option \<Rightarrow> ('v rt, unit) act" where
  "drop_shared_option k g r =
     (case r of None \<Rightarrow> ret () | Some ptr \<Rightarrow> drop_ptr k (g_local g) (nested_flag g) ptr)"

section \<open>Compare-and-exchange on one link\<close>

definition dijkstra_insertion_barrier :: "nat \<Rightarrow> man_ptr \<Rightarrow> guard \<Rightarrow> ('v rt, unit) act" where
  "dijkstra_insertion_barrier k new g = bind (shade_pointee k new g) (\<lambda>_. ret ())"

definition yuasa_deletion_barrier :: "nat \<Rightarrow> man_ptr \<Rightarrow> guard \<Rightarrow> ('v rt, unit) act" where
  "yuasa_deletion_barrier k old g = bind (shade_pointee k old g) (\<lambda>_. ret ())"

text \<open>\<open>weak\<close>: \<open>None\<close> for the strong exchange, \<open>Some spurious\<close> for the weak one.\<close>

definition link_cas :: "bool option \<Rightarrow> loc \<Rightarrow> man_ptr \<Rightarrow> man_ptr \<Rightarrow> ('v rt, man_ptr + man_ptr) act" where
  "link_cas weak l current new =
     (case weak of
        None \<Rightarrow> link_compare_exchange l current new
      | Some spurious \<Rightarrow> link_compare_exchange_weak spurious l current new)"

definition internal_cmpxchg_rooted ::
  "nat \<Rightarrow> bool option \<Rightarrow> loc \<Rightarrow> man_ptr \<Rightarrow> man_ptr \<Rightarrow> guard \<Rightarrow> ('v rt, man_ptr + man_ptr) act" where
  "internal_cmpxchg_rooted k weak l old new_rooted g =
     bind (link_cas weak l old new_rooted) (\<lambda>cas.
     case cas of
       Inl current \<Rightarrow> ret (Inl current)
     | Inr _ \<Rightarrow>
         (case as_ref k old of
            None \<Rightarrow> ret (Inr old)
          | Some old_ref \<Rightarrow>
              bind (obj_decrement_root_count old_ref) (\<lambda>count.
              seq (if count = 1 then
                     bind global_phase_with_fence (\<lambda>phase.
                     act_when (phase \<noteq> N) (bind (shade_pointee k old g) (\<lambda>_. ret ())))
                   else ret ())
                  (ret (Inr old)))))"

definition internal_cmpxchg_unrooted_once ::
  "nat \<Rightarrow> bool option \<Rightarrow> loc \<Rightarrow> man_ptr \<Rightarrow> man_ptr \<Rightarrow> guard \<Rightarrow> ('v rt, man_ptr + man_ptr) act" where
  "internal_cmpxchg_unrooted_once k weak l old new g =
     (let old_color = unrooted_color_unchecked old;
          ptrs_differ = (as_ptr k old \<noteq> as_ptr k new)
      in
      bind (black_color g) (\<lambda>black.
      seq (act_when (ptrs_differ \<and> old_color = black) (dijkstra_insertion_barrier k new g)) (
      bind (link_cas weak l old (with_meta (Unrooted old_color) new)) (\<lambda>cas.
      case cas of
        Inl current \<Rightarrow> ret (Inl current)
      | Inr _ \<Rightarrow>
          bind (white_color g) (\<lambda>white.
          seq (if ptrs_differ \<and> old_color = white then
                 bind global_phase_with_fence (\<lambda>phase.
                 act_when (phase \<noteq> N) (yuasa_deletion_barrier k old g))
               else ret ())
              (ret (Inr old)))))))"

partial_function (option) internal_cmpxchg_unrooted ::
  "nat \<Rightarrow> loc \<Rightarrow> man_ptr \<Rightarrow> man_ptr \<Rightarrow> guard \<Rightarrow>
     'v rt \<times> 'v rt env \<Rightarrow> ((man_ptr + man_ptr) outcome \<times> 'v rt \<times> 'v rt env) option" where
  "internal_cmpxchg_unrooted k l old new g se =
     bind (internal_cmpxchg_unrooted_once k None l old new g) (\<lambda>r.
     case r of
       Inr o' \<Rightarrow> ret (Inr o')
     | Inl current \<Rightarrow>
         if without_meta current = without_meta old
         then internal_cmpxchg_unrooted k l current new g
         else ret (Inl current)) se"

declare internal_cmpxchg_unrooted.simps [code]

section \<open>Swap\<close>

partial_function (option) swap_rooted_loop ::
  "nat \<Rightarrow> loc \<Rightarrow> man_ptr \<Rightarrow> man_ptr \<Rightarrow> guard \<Rightarrow>
     'v rt \<times> 'v rt env \<Rightarrow> ((man_ptr + man_ptr) outcome \<times> 'v rt \<times> 'v rt env) option" where
  "swap_rooted_loop k l old new_rooted g se =
     (if ptr_meta_of old = Rooted then
        bind (internal_cmpxchg_rooted k None l old new_rooted g) (\<lambda>r.
        case r of
          Inr current \<Rightarrow> ret (Inr current)
        | Inl current \<Rightarrow> swap_rooted_loop k l current new_rooted g)
      else ret (Inl old)) se"

declare swap_rooted_loop.simps [code]

partial_function (option) swap_unrooted_loop ::
  "nat \<Rightarrow> loc \<Rightarrow> man_ptr \<Rightarrow> man_ptr \<Rightarrow> guard \<Rightarrow>
     'v rt \<times> 'v rt env \<Rightarrow> (man_ptr outcome \<times> 'v rt \<times> 'v rt env) option" where
  "swap_unrooted_loop k l old new g se =
     bind (internal_cmpxchg_unrooted k l old new g) (\<lambda>r.
     case r of
       Inr current \<Rightarrow> ret current
     | Inl current \<Rightarrow> swap_unrooted_loop k l current new g) se"

declare swap_unrooted_loop.simps [code]

definition internal_swap :: "nat \<Rightarrow> loc \<Rightarrow> man_ptr \<Rightarrow> guard \<Rightarrow> ('v rt, man_ptr) act" where
  "internal_swap k l new g =
     bind (link_load l) (\<lambda>old.
     if ptr_meta_of old = Rooted then
       bind (try_inc_raw k new) (\<lambda>new_shared.
       bind (swap_rooted_loop k l old (with_meta Rooted new) g) (\<lambda>r.
       case r of
         Inr current \<Rightarrow> ret current
       | Inl old' \<Rightarrow>
           seq (drop_shared_option k g new_shared) (swap_unrooted_loop k l old' new g)))
     else swap_unrooted_loop k l old new g)"

section \<open>AtomicSharedOption\<close>

definition atomic_none :: man_ptr where
  "atomic_none = man_ptr_from 0"

definition atomic_none_with_tag :: "nat \<Rightarrow> usize \<Rightarrow> man_ptr" where
  "atomic_none_with_tag k tag = null_rooted_with_tag k tag"

definition atomic_some ::
  "nat \<Rightarrow> nat \<Rightarrow> 'v \<Rightarrow> man_ptr list \<Rightarrow> usize \<Rightarrow> guard \<Rightarrow> ('v rt, man_ptr) act" where
  "atomic_some k ty v ls sz g =
     bind (alloc_color g) (\<lambda>color.
     bind (alloc_rooted k ty v ls sz color 1 g) (\<lambda>ptr.
     seq (unroot_outgoings k (as_ptr k ptr) g) (ret ptr)))"

definition atomic_some_with_tag ::
  "nat \<Rightarrow> nat \<Rightarrow> 'v \<Rightarrow> man_ptr list \<Rightarrow> usize \<Rightarrow> usize \<Rightarrow> guard \<Rightarrow> ('v rt, man_ptr) act" where
  "atomic_some_with_tag k ty v ls sz tag g =
     bind (alloc_color g) (\<lambda>color.
     bind (alloc_rooted k ty v ls sz color 1 g) (\<lambda>ptr.
     seq (unroot_outgoings k (as_ptr k ptr) g) (ret (with_tag k tag ptr))))"

definition load_with_tag :: "nat \<Rightarrow> loc \<Rightarrow> ('v rt, tagged_local) act" where
  "load_with_tag k l = bind (link_load l) (\<lambda>ptr. ret (as_local_with_tag k ptr))"

definition load :: "nat \<Rightarrow> loc \<Rightarrow> ('v rt, local_ptr option) act" where
  "load k l = bind (load_with_tag k l) (\<lambda>r. ret (fst r))"

definition swap_with_tag ::
  "nat \<Rightarrow> loc \<Rightarrow> local_ptr option \<Rightarrow> usize \<Rightarrow> guard \<Rightarrow> ('v rt, tagged_local) act" where
  "swap_with_tag k l new tag g =
     bind (internal_swap k l (with_tag k tag (man_ptr_from_local new)) g) (\<lambda>ptr.
     ret (as_local_with_tag k ptr))"

definition swap :: "nat \<Rightarrow> loc \<Rightarrow> local_ptr option \<Rightarrow> guard \<Rightarrow> ('v rt, local_ptr option) act" where
  "swap k l new g = bind (swap_with_tag k l new 0 g) (\<lambda>r. ret (fst r))"

definition store_with_tag ::
  "nat \<Rightarrow> loc \<Rightarrow> local_ptr option \<Rightarrow> usize \<Rightarrow> guard \<Rightarrow> ('v rt, unit) act" where
  "store_with_tag k l new tag g = bind (swap_with_tag k l new tag g) (\<lambda>_. ret ())"

definition store :: "nat \<Rightarrow> loc \<Rightarrow> local_ptr option \<Rightarrow> guard \<Rightarrow> ('v rt, unit) act" where
  "store k l new g = store_with_tag k l new 0 g"

definition take_with_tag :: "nat \<Rightarrow> loc \<Rightarrow> guard \<Rightarrow> ('v rt, tagged_local) act" where
  "take_with_tag k l g = swap_with_tag k l None 0 g"

definition take_ptr :: "nat \<Rightarrow> loc \<Rightarrow> guard \<Rightarrow> ('v rt, local_ptr option) act" where
  "take_ptr k l g = bind (take_with_tag k l g) (\<lambda>r. ret (fst r))"

text \<open>
  The rooted branch of the strong exchange: \<open>Inl\<close> is a result to return (\<^verbatim>\<open>Break\<close>), \<open>Inr\<close> the unrooted
  word to go on with (\<^verbatim>\<open>Continue\<close>). The owned pointer made for the exchange is dropped on every path
  but the successful one.
\<close>

definition internal_cmpxchg_strong_rooted ::
  "nat \<Rightarrow> loc \<Rightarrow> man_ptr \<Rightarrow> tagged_local \<Rightarrow> tagged_local \<Rightarrow> guard \<Rightarrow>
     ('v rt, (tagged_local + tagged_local) + man_ptr) act" where
  "internal_cmpxchg_strong_rooted k l old current_tag new_tag g =
     bind (try_inc_raw k (man_ptr_from_local (fst new_tag))) (\<lambda>new_shared.
     let new_rooted = with_meta Rooted (man_ptr_from_local_tag k new_tag) in
     bind (internal_cmpxchg_rooted k None l old new_rooted g) (\<lambda>r.
     case r of
       Inr current \<Rightarrow> ret (Inl (Inr (as_local_with_tag k current)))
     | Inl current \<Rightarrow>
         seq (drop_shared_option k g new_shared) (
         ret (if ptr_meta_of current = Rooted then Inl (Inl (as_local_with_tag k current))
              else if without_meta current \<noteq> man_ptr_from_local_tag k current_tag
              then Inl (Inl (as_local_with_tag k current))
              else Inr current))))"

definition cas_result :: "nat \<Rightarrow> man_ptr + man_ptr \<Rightarrow> tagged_local + tagged_local" where
  "cas_result k r = map_sum (as_local_with_tag k) (as_local_with_tag k) r"

definition compare_exchange_with_tag ::
  "nat \<Rightarrow> loc \<Rightarrow> tagged_local \<Rightarrow> tagged_local \<Rightarrow> guard \<Rightarrow> ('v rt, tagged_local + tagged_local) act" where
  "compare_exchange_with_tag k l current_tag new_tag g =
     bind (link_load l) (\<lambda>old.
     if without_meta old \<noteq> man_ptr_from_local_tag k current_tag
     then ret (Inl (as_local_with_tag k old))
     else
       bind (if ptr_meta_of old = Rooted
             then internal_cmpxchg_strong_rooted k l old current_tag new_tag g
             else ret (Inr old)) (\<lambda>flow.
       case flow of
         Inl result \<Rightarrow> ret result
       | Inr old' \<Rightarrow>
           bind (internal_cmpxchg_unrooted k l old' (man_ptr_from_local_tag k new_tag) g) (\<lambda>r.
           ret (cas_result k r))))"

definition cas_without_tag :: "tagged_local + tagged_local \<Rightarrow> local_ptr option + local_ptr option" where
  "cas_without_tag r = map_sum fst fst r"

definition compare_exchange_ptr ::
  "nat \<Rightarrow> loc \<Rightarrow> local_ptr option \<Rightarrow> local_ptr option \<Rightarrow> guard \<Rightarrow>
     ('v rt, local_ptr option + local_ptr option) act" where
  "compare_exchange_ptr k l current new g =
     bind (compare_exchange_with_tag k l (current, 0) (new, 0) g) (\<lambda>r. ret (cas_without_tag r))"

definition internal_cmpxchg_weak_rooted ::
  "nat \<Rightarrow> bool \<Rightarrow> loc \<Rightarrow> man_ptr \<Rightarrow> tagged_local \<Rightarrow> guard \<Rightarrow>
     ('v rt, tagged_local + tagged_local) act" where
  "internal_cmpxchg_weak_rooted k spurious l old new_tag g =
     bind (try_inc_raw k (man_ptr_from_local (fst new_tag))) (\<lambda>new_shared.
     let new_rooted = with_meta Rooted (man_ptr_from_local_tag k new_tag) in
     bind (internal_cmpxchg_rooted k (Some spurious) l old new_rooted g) (\<lambda>r.
     case r of
       Inr current \<Rightarrow> ret (Inr (as_local_with_tag k current))
     | Inl current \<Rightarrow>
         seq (drop_shared_option k g new_shared) (ret (Inl (as_local_with_tag k current)))))"

definition compare_exchange_weak_with_tag ::
  "nat \<Rightarrow> bool \<Rightarrow> loc \<Rightarrow> tagged_local \<Rightarrow> tagged_local \<Rightarrow> guard \<Rightarrow>
     ('v rt, tagged_local + tagged_local) act" where
  "compare_exchange_weak_with_tag k spurious l current_tag new_tag g =
     bind (link_load l) (\<lambda>old.
     if without_meta old \<noteq> man_ptr_from_local_tag k current_tag
     then ret (Inl (as_local_with_tag k old))
     else if ptr_meta_of old = Rooted
     then internal_cmpxchg_weak_rooted k spurious l old new_tag g
     else bind (internal_cmpxchg_unrooted_once k (Some spurious) l old
                  (man_ptr_from_local_tag k new_tag) g) (\<lambda>r.
          ret (cas_result k r)))"

definition compare_exchange_weak_ptr ::
  "nat \<Rightarrow> bool \<Rightarrow> loc \<Rightarrow> local_ptr option \<Rightarrow> local_ptr option \<Rightarrow> guard \<Rightarrow>
     ('v rt, local_ptr option + local_ptr option) act" where
  "compare_exchange_weak_ptr k spurious l current new g =
     bind (compare_exchange_weak_with_tag k spurious l (current, 0) (new, 0) g) (\<lambda>r.
     ret (cas_without_tag r))"

definition fetch_tag_and :: "nat \<Rightarrow> loc \<Rightarrow> usize \<Rightarrow> ('v rt, tagged_local) act" where
  "fetch_tag_and k l tag =
     bind (link_fetch l (\<lambda>w. w AND (tag AND LOW_BITS k))) (\<lambda>p. ret (as_local_with_tag k p))"

definition fetch_tag_or :: "nat \<Rightarrow> loc \<Rightarrow> usize \<Rightarrow> ('v rt, tagged_local) act" where
  "fetch_tag_or k l tag =
     bind (link_fetch l (\<lambda>w. w OR (tag AND LOW_BITS k))) (\<lambda>p. ret (as_local_with_tag k p))"

definition fetch_tag_xor :: "nat \<Rightarrow> loc \<Rightarrow> usize \<Rightarrow> ('v rt, tagged_local) act" where
  "fetch_tag_xor k l tag =
     bind (link_fetch l (\<lambda>w. w XOR (tag AND LOW_BITS k))) (\<lambda>p. ret (as_local_with_tag k p))"

section \<open>Local\<close>

definition local_new ::
  "nat \<Rightarrow> nat \<Rightarrow> 'v \<Rightarrow> man_ptr list \<Rightarrow> usize \<Rightarrow> guard \<Rightarrow> ('v rt, local_ptr) act" where
  "local_new k ty v ls sz g =
     bind (alloc_color g) (\<lambda>color.
     bind (alloc_unrooted k ty v ls sz color g) (\<lambda>p.
     let ptr = without_meta p in
     seq (unroot_outgoings k (as_ptr k ptr) g) (ret (as_ptr k ptr))))"

definition local_as_man_ptr :: "local_ptr \<Rightarrow> man_ptr" where
  "local_as_man_ptr a = man_ptr_from a"

definition local_as_atomic_shared :: "nat \<Rightarrow> local_ptr \<Rightarrow> ('v rt, man_ptr) act" where
  "local_as_atomic_shared k a =
     (let ptr = local_as_man_ptr a in
      bind (obj_increment_root_count (as_ptr k ptr)) (\<lambda>_. ret (with_meta Rooted ptr)))"

definition local_as_shared :: "nat \<Rightarrow> local_ptr \<Rightarrow> ('v rt, man_ptr) act" where
  "local_as_shared k a = local_as_atomic_shared k a"

definition local_from_raw :: "nat \<Rightarrow> man_ptr \<Rightarrow> local_ptr" where
  "local_from_raw k ptr = as_ptr k ptr"

text \<open>\<^verbatim>\<open>Local::protect\<close> with a handle: the same address and a hazard pointer to it.\<close>

definition local_protect :: "nat \<Rightarrow> local_ptr \<Rightarrow> nat \<Rightarrow> ('v rt, local_ptr \<times> hazard_pointer) act" where
  "local_protect k a t =
     bind (handle_protect k t (local_as_man_ptr a)) (\<lambda>hp. ret (a, hp))"

definition local_ptr_eq :: "local_ptr \<Rightarrow> local_ptr \<Rightarrow> bool" where
  "local_ptr_eq a b \<longleftrightarrow> a = b"

definition local_opt_ptr_eq :: "local_ptr option \<Rightarrow> local_ptr option \<Rightarrow> bool" where
  "local_opt_ptr_eq x y =
     (case (x, y) of (None, None) \<Rightarrow> True | (Some l1, Some l2) \<Rightarrow> local_ptr_eq l1 l2 | _ \<Rightarrow> False)"

definition read_item :: "usize \<Rightarrow> ('v rt, 'v) act" where
  "read_item a = bind (gets (\<lambda>s. heap s a)) (\<lambda>r. case r of
     None \<Rightarrow> raise UseAfterFree | Some obj \<Rightarrow> ret (item_val obj))"

definition local_deref :: "nat \<Rightarrow> local_ptr \<Rightarrow> ('v rt, 'v) act" where
  "local_deref k a =
     (case as_ref k (local_as_man_ptr a) of None \<Rightarrow> raise UnwrapUncheckedNone | Some obj \<Rightarrow> read_item obj)"

text \<open>\<^verbatim>\<open>PartialEq\<close>, \<^verbatim>\<open>PartialOrd\<close> and \<^verbatim>\<open>Ord\<close> of pointers compare the items by the item type's own \<open>cmp\<close>.\<close>

definition local_cmp :: "nat \<Rightarrow> ('v \<Rightarrow> 'v \<Rightarrow> 'c) \<Rightarrow> local_ptr \<Rightarrow> local_ptr \<Rightarrow> ('v rt, 'c) act" where
  "local_cmp k cmp a b = bind (local_deref k a) (\<lambda>x. bind (local_deref k b) (\<lambda>y. ret (cmp x y)))"

section \<open>Shared\<close>

definition shared_new ::
  "nat \<Rightarrow> nat \<Rightarrow> 'v \<Rightarrow> man_ptr list \<Rightarrow> usize \<Rightarrow> guard \<Rightarrow> ('v rt, man_ptr) act" where
  "shared_new k ty v ls sz g = atomic_some k ty v ls sz g"

definition shared_as_man_ptr :: "loc \<Rightarrow> ('v rt, man_ptr) act" where
  "shared_as_man_ptr l = link_load l"

definition shared_ptr_eq :: "loc \<Rightarrow> loc \<Rightarrow> ('v rt, bool) act" where
  "shared_ptr_eq l1 l2 =
     bind (shared_as_man_ptr l1) (\<lambda>p. bind (shared_as_man_ptr l2) (\<lambda>q.
     ret (without_meta p = without_meta q)))"

definition shared_opt_ptr_eq :: "loc option \<Rightarrow> loc option \<Rightarrow> ('v rt, bool) act" where
  "shared_opt_ptr_eq x y =
     (case (x, y) of
        (None, None) \<Rightarrow> ret True
      | (Some l1, Some l2) \<Rightarrow> shared_ptr_eq l1 l2
      | _ \<Rightarrow> ret False)"

definition shared_as_local :: "nat \<Rightarrow> loc \<Rightarrow> ('v rt, local_ptr) act" where
  "shared_as_local k l = bind (shared_as_man_ptr l) (\<lambda>p. ret (local_from_raw k p))"

definition shared_clone :: "nat \<Rightarrow> loc \<Rightarrow> ('v rt, man_ptr) act" where
  "shared_clone k l =
     bind (link_load l) (\<lambda>ptr.
     bind (obj_increment_root_count (as_ptr k ptr)) (\<lambda>_. ret (with_meta Rooted ptr)))"

definition shared_deref :: "nat \<Rightarrow> loc \<Rightarrow> ('v rt, 'v) act" where
  "shared_deref k l =
     bind (shared_as_man_ptr l) (\<lambda>p.
     case as_ref k p of None \<Rightarrow> raise UnwrapUncheckedNone | Some obj \<Rightarrow> read_item obj)"

definition shared_cmp :: "nat \<Rightarrow> ('v \<Rightarrow> 'v \<Rightarrow> 'c) \<Rightarrow> loc \<Rightarrow> loc \<Rightarrow> ('v rt, 'c) act" where
  "shared_cmp k cmp l1 l2 = bind (shared_deref k l1) (\<lambda>x. bind (shared_deref k l2) (\<lambda>y. ret (cmp x y)))"

section \<open>Conversions\<close>

definition atomic_from_shared_option :: "man_ptr option \<Rightarrow> man_ptr" where
  "atomic_from_shared_option r = (case r of Some shared \<Rightarrow> shared | None \<Rightarrow> atomic_none)"

definition atomic_from_shared_ref :: "nat \<Rightarrow> loc option \<Rightarrow> ('v rt, man_ptr) act" where
  "atomic_from_shared_ref k r =
     (case r of Some l \<Rightarrow> shared_clone k l | None \<Rightarrow> ret atomic_none)"

definition atomic_from_local :: "nat \<Rightarrow> local_ptr \<Rightarrow> ('v rt, man_ptr) act" where
  "atomic_from_local k a = local_as_atomic_shared k a"

definition atomic_from_local_option :: "nat \<Rightarrow> local_ptr option \<Rightarrow> ('v rt, man_ptr) act" where
  "atomic_from_local_option k r =
     (case r of Some a \<Rightarrow> atomic_from_local k a | None \<Rightarrow> ret atomic_none)"

section \<open>AtomicShared\<close>

text \<open>The non-null pointer: the operations of \<^verbatim>\<open>AtomicSharedOption\<close> with the result unwrapped unchecked.\<close>

definition unwrap_local :: "local_ptr option \<Rightarrow> ('v rt, local_ptr) act" where
  "unwrap_local r = (case r of None \<Rightarrow> raise UnwrapUncheckedNone | Some a \<Rightarrow> ret a)"

definition unwrap_tagged :: "tagged_local \<Rightarrow> ('v rt, local_ptr \<times> usize) act" where
  "unwrap_tagged r = bind (unwrap_local (fst r)) (\<lambda>a. ret (a, snd r))"

definition unwrap_cas ::
  "('a \<Rightarrow> ('v rt, 'b) act) \<Rightarrow> 'a + 'a \<Rightarrow> ('v rt, 'b + 'b) act" where
  "unwrap_cas u r =
     (case r of
        Inr l \<Rightarrow> bind (u l) (\<lambda>a. ret (Inr a))
      | Inl l \<Rightarrow> bind (u l) (\<lambda>a. ret (Inl a)))"

definition as_new ::
  "nat \<Rightarrow> nat \<Rightarrow> 'v \<Rightarrow> man_ptr list \<Rightarrow> usize \<Rightarrow> guard \<Rightarrow> ('v rt, man_ptr) act" where
  "as_new k ty v ls sz g = atomic_some k ty v ls sz g"

definition as_new_with_tag ::
  "nat \<Rightarrow> nat \<Rightarrow> 'v \<Rightarrow> man_ptr list \<Rightarrow> usize \<Rightarrow> usize \<Rightarrow> guard \<Rightarrow> ('v rt, man_ptr) act" where
  "as_new_with_tag k ty v ls sz tag g = atomic_some_with_tag k ty v ls sz tag g"

definition as_load :: "nat \<Rightarrow> loc \<Rightarrow> ('v rt, local_ptr) act" where
  "as_load k l = bind (load k l) unwrap_local"

definition as_load_with_tag :: "nat \<Rightarrow> loc \<Rightarrow> ('v rt, local_ptr \<times> usize) act" where
  "as_load_with_tag k l = bind (load_with_tag k l) unwrap_tagged"

definition as_store :: "nat \<Rightarrow> loc \<Rightarrow> local_ptr \<Rightarrow> guard \<Rightarrow> ('v rt, unit) act" where
  "as_store k l new g = store k l (Some new) g"

definition as_store_with_tag :: "nat \<Rightarrow> loc \<Rightarrow> local_ptr \<Rightarrow> usize \<Rightarrow> guard \<Rightarrow> ('v rt, unit) act" where
  "as_store_with_tag k l new tag g = store_with_tag k l (Some new) tag g"

definition as_swap :: "nat \<Rightarrow> loc \<Rightarrow> local_ptr \<Rightarrow> guard \<Rightarrow> ('v rt, local_ptr) act" where
  "as_swap k l new g = bind (swap k l (Some new) g) unwrap_local"

definition as_swap_with_tag ::
  "nat \<Rightarrow> loc \<Rightarrow> local_ptr \<Rightarrow> usize \<Rightarrow> guard \<Rightarrow> ('v rt, local_ptr \<times> usize) act" where
  "as_swap_with_tag k l new tag g = bind (swap_with_tag k l (Some new) tag g) unwrap_tagged"

definition as_compare_exchange ::
  "nat \<Rightarrow> loc \<Rightarrow> local_ptr \<Rightarrow> local_ptr \<Rightarrow> guard \<Rightarrow> ('v rt, local_ptr + local_ptr) act" where
  "as_compare_exchange k l current new g =
     bind (compare_exchange_ptr k l (Some current) (Some new) g) (unwrap_cas unwrap_local)"

definition as_compare_exchange_with_tag ::
  "nat \<Rightarrow> loc \<Rightarrow> local_ptr \<times> usize \<Rightarrow> local_ptr \<times> usize \<Rightarrow> guard \<Rightarrow>
     ('v rt, (local_ptr \<times> usize) + (local_ptr \<times> usize)) act" where
  "as_compare_exchange_with_tag k l current_tag new_tag g =
     bind (compare_exchange_with_tag k l (Some (fst current_tag), snd current_tag)
             (Some (fst new_tag), snd new_tag) g) (unwrap_cas unwrap_tagged)"

definition as_compare_exchange_weak ::
  "nat \<Rightarrow> bool \<Rightarrow> loc \<Rightarrow> local_ptr \<Rightarrow> local_ptr \<Rightarrow> guard \<Rightarrow> ('v rt, local_ptr + local_ptr) act" where
  "as_compare_exchange_weak k spurious l current new g =
     bind (compare_exchange_weak_ptr k spurious l (Some current) (Some new) g) (unwrap_cas unwrap_local)"

definition as_compare_exchange_weak_with_tag ::
  "nat \<Rightarrow> bool \<Rightarrow> loc \<Rightarrow> local_ptr \<times> usize \<Rightarrow> local_ptr \<times> usize \<Rightarrow> guard \<Rightarrow>
     ('v rt, (local_ptr \<times> usize) + (local_ptr \<times> usize)) act" where
  "as_compare_exchange_weak_with_tag k spurious l current_tag new_tag g =
     bind (compare_exchange_weak_with_tag k spurious l (Some (fst current_tag), snd current_tag)
             (Some (fst new_tag), snd new_tag) g) (unwrap_cas unwrap_tagged)"

definition as_fetch_tag_and :: "nat \<Rightarrow> loc \<Rightarrow> usize \<Rightarrow> ('v rt, local_ptr \<times> usize) act" where
  "as_fetch_tag_and k l tag = bind (fetch_tag_and k l tag) unwrap_tagged"

definition as_fetch_tag_or :: "nat \<Rightarrow> loc \<Rightarrow> usize \<Rightarrow> ('v rt, local_ptr \<times> usize) act" where
  "as_fetch_tag_or k l tag = bind (fetch_tag_or k l tag) unwrap_tagged"

definition as_fetch_tag_xor :: "nat \<Rightarrow> loc \<Rightarrow> usize \<Rightarrow> ('v rt, local_ptr \<times> usize) act" where
  "as_fetch_tag_xor k l tag = bind (fetch_tag_xor k l tag) unwrap_tagged"

end
