(* ===== verification/Progress.thy ===== *)
theory Progress
  imports Pointers
begin

text \<open>
  Every operation of a mutator returns, whatever finitely many steps the other threads take in
  between: the retry loops of the pointer operations, of pinning and of marking repeat a round only
  if another thread has changed what they read. The other threads are assumed to leave alone what the
  code keeps thread-local: the local epoch and the batch a pinned thread allocates into.
\<close>

section \<open>What other threads leave alone\<close>

definition thread_epoch :: "'v rt \<Rightarrow> nat \<Rightarrow> epoch" where
  "thread_epoch s t = atomic_epoch_load_non_atomic (local_epoch (locals s t))"

definition thread_alloc_color :: "'v rt \<Rightarrow> nat \<Rightarrow> color outcome" where
  "thread_alloc_color s t =
     (case epoch_phase (thread_epoch s t) of
        Inl e \<Rightarrow> Inl e
      | Inr N \<Rightarrow> Inr (epoch_color (thread_epoch s t))
      | Inr _ \<Rightarrow> Inr (flip (epoch_color (thread_epoch s t))))"

definition own_kept :: "nat \<Rightarrow> 'v rt \<Rightarrow> 'v rt \<Rightarrow> bool" where
  "own_kept t s s' \<longleftrightarrow>
     local_epoch (locals s' t) = local_epoch (locals s t) \<and>
     (\<forall>c. thread_alloc_color s t = Inr c \<longrightarrow> objs (locals s' t) c = objs (locals s t) c)"

lemma pinned_epoch_run [act_simps]: "pinned_epoch t (s, es) = Some (Inr (thread_epoch s t), s, es)"
  by (simp add: pinned_epoch_def thread_epoch_def act_simps)

lemma lift_outcome_run [act_simps]: "lift_outcome r (s, es) = Some (r, s, es)"
  by (cases r) (simp_all add: lift_outcome_def act_simps)

lemma pinned_alloc_color_run [act_simps]:
  "pinned_alloc_color t (s, es) = Some (thread_alloc_color s t, s, es)"
proof (cases "epoch_phase (thread_epoch s t)")
  case (Inr p)
  then show ?thesis
    by (cases p) (simp_all add: pinned_alloc_color_def thread_alloc_color_def act_simps)
qed (simp add: pinned_alloc_color_def thread_alloc_color_def act_simps)

lemma guard_colors_run [act_simps]:
  "guard_epoch g (s, es) = Some (Inr (thread_epoch s (g_local g)), s, es)"
  "white_color g (s, es) = Some (Inr (epoch_color (thread_epoch s (g_local g))), s, es)"
  "black_color g (s, es) = Some (Inr (flip (epoch_color (thread_epoch s (g_local g)))), s, es)"
  "alloc_color g (s, es) = Some (thread_alloc_color s (g_local g), s, es)"
  by (simp_all add: guard_epoch_def white_color_def black_color_def alloc_color_def act_simps)

section \<open>Accesses\<close>

lemma returns_outcome [returns_intros]: "returns R (lift_outcome r)"
  by (cases r) (simp_all add: lift_outcome_def returns_basic)

lemmas access_defs =
  load_epoch_def pinned_epoch_def pinned_alloc_color_def guard_epoch_def guard_phase_def
  white_color_def black_color_def alloc_color_def global_phase_with_fence_def read_header_def
  fetch_header_def link_load_def link_store_def link_compare_exchange_def link_fetch_def
  obj_increment_root_count_def obj_decrement_root_count_def header_compare_exchange_def
  size_of_val_def select_obj_shard_def generate_shard_permut_def read_item_def outgoings_def

lemma returns_access [returns_intros]:
  "returns R load_epoch" "returns R (pinned_epoch t)" "returns R (pinned_alloc_color t)"
  "returns R (guard_epoch g)" "returns R (guard_phase g)" "returns R (white_color g)"
  "returns R (black_color g)" "returns R (alloc_color g)" "returns R global_phase_with_fence"
  "returns R (read_header a)" "returns R (fetch_header a f)" "returns R (link_load l)"
  "returns R (link_store l p)" "returns R (link_compare_exchange l p q)" "returns R (link_fetch l u)"
  "returns R (obj_increment_root_count a)" "returns R (obj_decrement_root_count a)"
  "returns R (header_compare_exchange a m m')" "returns R (size_of_val a)"
  "returns R select_obj_shard" "returns R generate_shard_permut" "returns R (read_item a)"
  "returns R (outgoings a)"
  unfolding access_defs by (intro returns_intros)+

lemma returns_link_cas [returns_intros]: "returns R (link_cas weak l p q)"
  unfolding link_cas_def link_compare_exchange_weak_def by (intro returns_intros)

lemma returns_schedule [returns_intros]:
  "returns R (schedule_helping_collect g)" "returns R (record_mt_modification t)"
  "returns R (schedule_mark a g)" "returns R (pop_mark_task t)" "returns R (try_pop_mark_task t)"
proof -
  show r: "returns R (record_mt_modification t)" for t
    unfolding record_mt_modification_def by (intro returns_intros)
  show h: "returns R (schedule_helping_collect g)"
    unfolding schedule_helping_collect_def by (intro returns_intros)
  show "returns R (schedule_mark a g)"
    unfolding schedule_mark_def Let_def by (intro returns_intros r h)
  show p: "returns R (pop_mark_task t)" unfolding pop_mark_task_def by (intro returns_intros)
  show "returns R (try_pop_mark_task t)"
    unfolding try_pop_mark_task_def by (intro returns_intros r p)
qed

lemma returns_marked [returns_intros]:
  "returns R (is_marked a g)" "returns R (shade_pointee k p g)" "returns R (shade_erased a g)"
proof -
  show m: "returns R (is_marked a g)" for a unfolding is_marked_def by (intro returns_intros)
  show "returns R (shade_pointee k p g)" unfolding shade_pointee_def by (intro returns_intros m)
  show "returns R (shade_erased a g)" unfolding shade_erased_def by (intro returns_intros m)
qed

section \<open>Retry loops on headers and links\<close>

lemma bind_if: "bind (if b then m else n) f = (if b then bind m f else bind n f)"
  by simp

lemma bind_cong: "(\<And>x. f x = g x) \<Longrightarrow> bind m f se = bind m g se"
  by (rule arg_cong [where f = "\<lambda>f. bind m f se"]) (rule ext)

lemma bind_cong_fun: "(\<And>x. f x = g x) \<Longrightarrow> bind m f = bind m g"
  by (rule arg_cong [where f = "bind m"]) (rule ext)

lemma fetch_header_run:
  "fetch_header a f (s, es) = (case interfere es s of (s1, es1) \<Rightarrow>
     (case heap s1 a of
        None \<Rightarrow> Some (Inl UseAfterFree, s1, es1)
      | Some obj \<Rightarrow> Some (Inr (snd (f (header obj))), set_header a (fst (f (header obj))) s1, es1)))"
  by (auto simp: fetch_header_def atomic_def split: prod.splits option.splits)

lemma interfere_drop: "interfere es s = (s1, es1) \<Longrightarrow> es1 = drop 1 es"
  by (cases es) auto

lemma interfere_cases: "\<exists>s1. interfere es s = (s1, drop 1 es) \<and> (es = [] \<longrightarrow> s1 = s)"
  by (cases es) auto

lemma compare_exchange_retry: "snd (compare_exchange c p q) = Inl x \<longleftrightarrow> c \<noteq> p \<and> x = c"
  by (auto simp: compare_exchange_def)

lemma compare_exchange_fst: "c \<noteq> p \<Longrightarrow> fst (compare_exchange c p q) = c"
  by (simp add: compare_exchange_def)

lemma returns_mark_header_loop [returns_intros]: "returns R (mark_header_loop a g meta)"
proof (rule returns_retry [where fin = "\<lambda>_. ret ()"
      and settles = "\<lambda>meta s. \<exists>obj. heap s a = Some obj \<and> header obj = meta"])
  let ?body = "\<lambda>meta. bind (black_color g) (\<lambda>black.
     if marked meta \<noteq> black
     then header_compare_exchange a meta (with_marked black meta) else ret (Inr meta))"
  show "mark_header_loop a g meta se =
      bind (?body meta) (\<lambda>r. case r of Inl x' \<Rightarrow> mark_header_loop a g x' | Inr y \<Rightarrow> ret ()) se" for meta se
    by (subst mark_header_loop.simps) (simp add: bind_assoc bind_if act_simps sum.case_eq_if if_distribR cong: if_cong)
  show "retry_body R (\<lambda>meta s. \<exists>obj. heap s a = Some obj \<and> header obj = meta) ?body"
  proof (rule retry_bodyI)
    fix meta s and es :: "'a rt env"
    obtain s1 where i: "interfere es s = (s1, drop 1 es)" "es = [] \<longrightarrow> s1 = s"
      using interfere_cases [of es s] by (elim exE conjE)
    show "\<exists>n r s'. ?body meta (s, es) = Some (r, s', drop n es) \<and>
        (\<forall>x'. r = Inr (Inl x') \<longrightarrow> (es \<noteq> [] \<longrightarrow> 0 < n) \<and>
          (es = [] \<longrightarrow> \<not> (\<exists>obj. heap s a = Some obj \<and> header obj = meta) \<and>
            (\<exists>obj. heap s' a = Some obj \<and> header obj = x')))"
    proof (cases "heap s1 a")
      case None
      then show ?thesis
        by (auto simp: act_simps header_compare_exchange_def fetch_header_run i intro: exI [of _ 0] exI [of _ 1])
    next
      case (Some obj)
      then show ?thesis using i(2)
        by (auto simp: act_simps header_compare_exchange_def fetch_header_run i(1) set_header_def
            compare_exchange_retry compare_exchange_fst intro: exI [of _ 0] exI [of _ 1])
    qed
  qed
qed (intro returns_intros)

section \<open>Scheduling does not touch memory\<close>

lemma preserves_outcome [preserves_intros]: "preserves f (lift_outcome r)"
  by (cases r) (simp_all add: lift_outcome_def preserves_basic)

abbreviation memory :: "'v rt \<Rightarrow> (usize \<rightharpoonup> 'v mobj) \<times> (nat \<rightharpoonup> man_ptr)" where
  "memory s \<equiv> (heap s, cells s)"

lemma upd_local_fields [simp]:
  "heap (upd_local t f s) = heap s" "cells (upd_local t f s) = cells s"
  "pool (upd_local t f s) = pool s" "global_epoch (upd_local t f s) = global_epoch s"
  "fresh_objs (upd_local t f s) = fresh_objs s" "marked_objs (upd_local t f s) = marked_objs s"
  "n_locals (upd_local t f s) = n_locals s" "in_use (upd_local t f s) = in_use s"
  "should_help (upd_local t f s) = should_help s" "type_set (upd_local t f s) = type_set s"
  "total_allocated (upd_local t f s) = total_allocated s"
  "total_reclaimed (upd_local t f s) = total_reclaimed s"
  "collector_threads (upd_local t f s) = collector_threads s"
  "shade_fns (upd_local t f s) = shade_fns s" "rng (upd_local t f s) = rng s"
  "locals (upd_local t f s) = (locals s)(t := f (locals s t))"
  by (simp_all add: upd_local_def)

lemma read_link_memory: "memory s' = memory s \<Longrightarrow> read_link l s' = read_link l s"
  by (cases l) (simp_all add: read_link_def)

lemma preserves_schedule [preserves_intros]:
  "preserves memory (schedule_helping_collect g)" "preserves memory (record_mt_modification t)"
  "preserves memory (schedule_mark a g)" "preserves memory (is_marked a g)"
  "preserves memory (shade_pointee k p g)" "preserves memory (shade_erased a g)"
proof -
  show r: "preserves memory (record_mt_modification t)" for t
    unfolding record_mt_modification_def pinned_epoch_def by (intro preserves_intros) simp
  show h: "preserves memory (schedule_helping_collect g)"
    unfolding schedule_helping_collect_def by (intro preserves_intros) simp
  show sm: "preserves memory (schedule_mark a g)" for a
    unfolding schedule_mark_def Let_def by (intro preserves_intros r h) simp_all
  show m: "preserves memory (is_marked a g)" for a
    unfolding is_marked_def read_header_def black_color_def white_color_def guard_epoch_def pinned_epoch_def
    by (intro preserves_intros) (simp split: option.splits)
  show "preserves memory (shade_pointee k p g)"
    unfolding shade_pointee_def by (intro preserves_intros m sm)
  show "preserves memory (shade_erased a g)"
    unfolding shade_erased_def by (intro preserves_intros m sm)
qed

section \<open>Retry loops on links\<close>

lemma link_compare_exchange_run:
  "link_compare_exchange l p q (s, es) = (case interfere es s of (s1, es1) \<Rightarrow>
     (case read_link l s1 of
        Inl e \<Rightarrow> Some (Inl e, s1, es1)
      | Inr w \<Rightarrow> if w = p then Some (Inr (Inr w), write_link l q s1, es1)
                else Some (Inr (Inl w), s1, es1)))"
  by (auto simp: link_compare_exchange_def atomic_def compare_exchange_def split: prod.splits sum.splits)

text \<open>
  \<open>link_round R l p m\<close>: the action \<open>m\<close> is a round of a retry loop that has read the word \<open>p\<close> in the
  link \<open>l\<close>; it asks for another round only with the word that is in the link.
\<close>

definition link_round ::
  "('v rt \<Rightarrow> 'v rt \<Rightarrow> bool) \<Rightarrow> loc \<Rightarrow> man_ptr \<Rightarrow> ('v rt, man_ptr + 'y) act \<Rightarrow> bool" where
  "link_round R l p m \<longleftrightarrow>
     (\<forall>s es. env_ok R es \<longrightarrow> (\<exists>n r s'. m (s, es) = Some (r, s', drop n es) \<and>
        (\<forall>w. r = Inr (Inl w) \<longrightarrow> (es \<noteq> [] \<longrightarrow> 0 < n) \<and>
           (es = [] \<longrightarrow> read_link l s \<noteq> Inr p \<and> read_link l s' = Inr w))))"

definition ends :: "('s, 'x + 'y) act \<Rightarrow> bool" where
  "ends m \<longleftrightarrow> (\<forall>s es w s' es'. m (s, es) \<noteq> Some (Inr (Inl w), s', es'))"

lemma endsI: "(\<And>x. ends (f x)) \<Longrightarrow> ends (bind m f)"
  "ends (ret (Inr y))" "ends (raise err)"
  unfolding ends_def
  by (auto simp: bind_def act_simps split: option.splits sum.splits)

lemma ends_seq: "ends n \<Longrightarrow> ends (seq m n)"
  unfolding seq_def by (rule endsI(1))

lemma retry_link_body:
  "(\<And>p. link_round R l p (body p)) \<Longrightarrow> retry_body R (\<lambda>p s. read_link l s = Inr p) body"
  unfolding link_round_def retry_body_def by blast

lemma link_round_cas: "link_round R l p (link_compare_exchange l p q)"
  unfolding link_round_def
proof (intro allI impI)
  fix s and es :: "'a rt env"
  obtain s1 where i: "interfere es s = (s1, drop 1 es)" "es = [] \<longrightarrow> s1 = s"
    using interfere_cases [of es s] by (elim exE conjE)
  show "\<exists>n r s'. link_compare_exchange l p q (s, es) = Some (r, s', drop n es) \<and>
      (\<forall>w. r = Inr (Inl w) \<longrightarrow> (es \<noteq> [] \<longrightarrow> 0 < n) \<and>
        (es = [] \<longrightarrow> read_link l s \<noteq> Inr p \<and> read_link l s' = Inr w))"
    using i(2) by (cases "read_link l s1")
      (auto simp: link_compare_exchange_run i(1) intro!: exI [of _ 1])
qed

lemma link_round_bind:
  assumes m: "returns R m" "preserves memory m" and f: "\<And>x. link_round R l p (f x)"
  shows "link_round R l p (bind m f)"
  unfolding link_round_def
proof (intro allI impI)
  fix s and es :: "'a rt env"
  assume es: "env_ok R es"
  obtain n r1 s1 where 1: "m (s, es) = Some (r1, s1, drop n es)"
    using m(1) es by (rule returnsD)
  have keep: "read_link l s1 = read_link l s" if "es = []"
    using 1 that m(2) unfolding preserves_def by (metis drop_Nil read_link_memory)
  show "\<exists>n r s'. bind m f (s, es) = Some (r, s', drop n es) \<and>
      (\<forall>w. r = Inr (Inl w) \<longrightarrow> (es \<noteq> [] \<longrightarrow> 0 < n) \<and>
        (es = [] \<longrightarrow> read_link l s \<noteq> Inr p \<and> read_link l s' = Inr w))"
  proof (cases r1)
    case (Inl err)
    then show ?thesis using 1 by (auto simp: act_simps)
  next
    case (Inr x)
    obtain j r2 s2 where 2: "f x (s1, drop n es) = Some (r2, s2, drop j (drop n es))"
      and again: "\<And>w. r2 = Inr (Inl w) \<Longrightarrow> (drop n es \<noteq> [] \<longrightarrow> 0 < j) \<and>
        (drop n es = [] \<longrightarrow> read_link l s1 \<noteq> Inr p \<and> read_link l s2 = Inr w)"
      using f env_ok_drop [OF es] unfolding link_round_def by blast
    have "bind m f (s, es) = Some (r2, s2, drop (j + n) es)"
      using 1 2 Inr by (simp add: act_simps)
    moreover have "es \<noteq> [] \<longrightarrow> 0 < j + n" if "r2 = Inr (Inl w)" for w
      using again [OF that] by (cases n) auto
    moreover have "es = [] \<longrightarrow> read_link l s \<noteq> Inr p \<and> read_link l s2 = Inr w" if "r2 = Inr (Inl w)" for w
      using again [OF that] keep by auto
    ultimately show ?thesis by blast
  qed
qed

lemma link_round_stop: "returns R m \<Longrightarrow> ends m \<Longrightarrow> link_round R l p m"
  unfolding link_round_def returns_def ends_def by metis

lemma link_round_then:
  assumes m: "link_round R l p m" and fin: "\<And>y. returns R (fin y)" "\<And>y. ends (fin y)"
  shows "link_round R l p (bind m (\<lambda>r. case r of Inl w \<Rightarrow> ret (Inl w) | Inr y \<Rightarrow> fin y))"
  unfolding link_round_def
proof (intro allI impI)
  fix s and es :: "'a rt env"
  assume es: "env_ok R es"
  obtain n r1 s1 where 1: "m (s, es) = Some (r1, s1, drop n es)"
    and again: "\<And>w. r1 = Inr (Inl w) \<Longrightarrow> (es \<noteq> [] \<longrightarrow> 0 < n) \<and>
      (es = [] \<longrightarrow> read_link l s \<noteq> Inr p \<and> read_link l s1 = Inr w)"
    using m es unfolding link_round_def by blast
  consider (err) e where "r1 = Inl e" | (more) w where "r1 = Inr (Inl w)" | (stop) y where "r1 = Inr (Inr y)"
    by (metis sum.exhaust)
  then show "\<exists>n r s'. bind m (\<lambda>r. case r of Inl w \<Rightarrow> ret (Inl w) | Inr y \<Rightarrow> fin y) (s, es) =
      Some (r, s', drop n es) \<and> (\<forall>w. r = Inr (Inl w) \<longrightarrow> (es \<noteq> [] \<longrightarrow> 0 < n) \<and>
        (es = [] \<longrightarrow> read_link l s \<noteq> Inr p \<and> read_link l s' = Inr w))"
  proof cases
    case err
    then show ?thesis using 1 by (auto simp: act_simps)
  next
    case more
    then show ?thesis using 1 again by (auto simp: act_simps)
  next
    case stop
    obtain j r' s2 where "fin y (s1, drop n es) = Some (r', s2, drop j (drop n es))"
      using fin(1) env_ok_drop [OF es] by (rule returnsD)
    then show ?thesis using 1 stop fin(2) [of y] by (auto simp: act_simps ends_def)
  qed
qed

lemma link_round_if: "link_round R l p m \<Longrightarrow> link_round R l p n \<Longrightarrow> link_round R l p (if b then m else n)"
  by simp

lemma preserves_colors [preserves_intros]:
  "preserves f (black_color g)" "preserves f (white_color g)" "preserves f (alloc_color g)"
  "preserves f (pinned_epoch t)" "preserves f load_epoch" "preserves f global_phase_with_fence"
  by (simp_all add: preserves_def act_simps load_epoch_def global_phase_with_fence_def)

lemma returns_shade_loop [returns_intros]: "returns R (shade_loop k l g ptr)"
proof (rule returns_retry [where fin = "\<lambda>_. ret ()" and settles = "\<lambda>p s. read_link l s = Inr p"])
  let ?body = "\<lambda>ptr. bind (black_color g) (\<lambda>black.
     if ptr_meta_of ptr = Unrooted black then ret (Inr ptr)
     else bind (shade_pointee k ptr g) (\<lambda>_. link_compare_exchange l ptr (with_meta (Unrooted black) ptr)))"
  show "shade_loop k l g ptr se =
      bind (?body ptr) (\<lambda>r. case r of Inl x' \<Rightarrow> shade_loop k l g x' | Inr y \<Rightarrow> ret ()) se" for ptr se
    by (subst shade_loop.simps) (simp add: bind_assoc bind_if act_simps sum.case_eq_if cong: if_cong)
  show "retry_body R (\<lambda>p s. read_link l s = Inr p) ?body"
    by (intro retry_link_body link_round_bind link_round_if link_round_cas link_round_stop endsI
        returns_intros preserves_intros)
qed (intro returns_intros)

lemma returns_barriers [returns_intros]:
  "returns R (dijkstra_insertion_barrier k p g)" "returns R (yuasa_deletion_barrier k p g)"
  unfolding dijkstra_insertion_barrier_def yuasa_deletion_barrier_def by (intro returns_intros)+

lemma preserves_barriers [preserves_intros]:
  "preserves memory (dijkstra_insertion_barrier k p g)" "preserves memory (yuasa_deletion_barrier k p g)"
  unfolding dijkstra_insertion_barrier_def yuasa_deletion_barrier_def by (intro preserves_intros)+

lemma returns_cmpxchg_once [returns_intros]:
  "returns R (internal_cmpxchg_rooted k weak l old new g)"
  "returns R (internal_cmpxchg_unrooted_once k weak l old new g)"
  unfolding internal_cmpxchg_rooted_def internal_cmpxchg_unrooted_once_def Let_def
  by (intro returns_intros)+

lemma link_round_rooted: "link_round R l old (internal_cmpxchg_rooted k None l old new g)"
  unfolding internal_cmpxchg_rooted_def link_cas_def option.case
  by (intro link_round_then link_round_cas)
    (auto intro!: returns_intros endsI ends_seq split: option.split)

lemma link_round_unrooted: "link_round R l old (internal_cmpxchg_unrooted_once k None l old new g)"
  unfolding internal_cmpxchg_unrooted_once_def Let_def link_cas_def option.case seq_def
  by (intro link_round_bind link_round_then link_round_cas)
    (auto intro!: returns_intros preserves_intros endsI)

lemma link_round_post:
  assumes "link_round R l p m" "\<And>y. returns R (f y)" "\<And>y. ends (f (Inr y))"
    and "\<And>w. f (Inl w) = (if P w then ret (Inl w) else n w)" "\<And>w. ends (n w)" "\<And>w. returns R (n w)"
  shows "link_round R l p (bind m f)"
  unfolding link_round_def
proof (intro allI impI)
  fix s and es :: "'a rt env"
  assume es: "env_ok R es"
  obtain n' r1 s1 where 1: "m (s, es) = Some (r1, s1, drop n' es)"
    and again: "\<And>w. r1 = Inr (Inl w) \<Longrightarrow> (es \<noteq> [] \<longrightarrow> 0 < n') \<and>
      (es = [] \<longrightarrow> read_link l s \<noteq> Inr p \<and> read_link l s1 = Inr w)"
    using assms(1) es unfolding link_round_def by blast
  consider (err) e where "r1 = Inl e" | (more) w where "r1 = Inr (Inl w)" "P w"
    | (stop) y where "r1 = Inr y" "ends (f y)"
  proof (cases r1)
    case (Inr y)
    then show thesis using assms(3,4,5) that by (cases y) metis+
  qed (use that in blast)
  then show "\<exists>n r s'. bind m f (s, es) = Some (r, s', drop n es) \<and>
      (\<forall>w. r = Inr (Inl w) \<longrightarrow> (es \<noteq> [] \<longrightarrow> 0 < n) \<and>
        (es = [] \<longrightarrow> read_link l s \<noteq> Inr p \<and> read_link l s' = Inr w))"
  proof cases
    case err
    then show ?thesis using 1 by (auto simp: act_simps)
  next
    case more
    then show ?thesis using 1 again assms(4) by (auto simp: act_simps)
  next
    case stop
    obtain j r' s2 where "f y (s1, drop n' es) = Some (r', s2, drop j (drop n' es))"
      using assms(2) env_ok_drop [OF es] by (rule returnsD)
    then show ?thesis using 1 stop by (auto simp: act_simps ends_def)
  qed
qed

lemma returns_cmpxchg_unrooted [returns_intros]: "returns R (internal_cmpxchg_unrooted k l old new g)"
proof (rule returns_retry [where fin = ret and loop = "\<lambda>old. internal_cmpxchg_unrooted k l old new g"
      and settles = "\<lambda>p s. read_link l s = Inr p"])
  let ?body = "\<lambda>old. bind (internal_cmpxchg_unrooted_once k None l old new g) (\<lambda>r.
     case r of
       Inr o' \<Rightarrow> ret (Inr (Inr o'))
     | Inl w \<Rightarrow> if without_meta w = without_meta old then ret (Inl w) else ret (Inr (Inl w)))"
  show "internal_cmpxchg_unrooted k l old new g se =
      bind (?body old) (\<lambda>r. case r of Inl x' \<Rightarrow> internal_cmpxchg_unrooted k l x' new g | Inr y \<Rightarrow> ret y) se"
    for old se
    by (subst internal_cmpxchg_unrooted.simps)
      (auto simp: bind_assoc bind_if act_simps intro!: bind_cong split: sum.split)
  show "retry_body R (\<lambda>p s. read_link l s = Inr p) ?body"
    by (intro retry_link_body link_round_post [where P = "\<lambda>w. without_meta w = without_meta old" for old]
        link_round_unrooted) (auto intro!: returns_intros endsI split: sum.split)
qed (intro returns_intros)

lemma returns_swap_rooted [returns_intros]: "returns R (swap_rooted_loop k l old new g)"
proof (rule returns_retry [where fin = ret and loop = "\<lambda>old. swap_rooted_loop k l old new g"
      and settles = "\<lambda>p s. read_link l s = Inr p"])
  let ?body = "\<lambda>old. if ptr_meta_of old = Rooted
     then bind (internal_cmpxchg_rooted k None l old new g) (\<lambda>r.
            case r of Inl w \<Rightarrow> ret (Inl w) | Inr c \<Rightarrow> ret (Inr (Inr c)))
     else ret (Inr (Inl old))"
  show "swap_rooted_loop k l old new g se =
      bind (?body old) (\<lambda>r. case r of Inl x' \<Rightarrow> swap_rooted_loop k l x' new g | Inr y \<Rightarrow> ret y) se"
    for old se
    by (subst swap_rooted_loop.simps)
      (auto simp: bind_assoc bind_if act_simps intro!: bind_cong split: sum.split)
  show "retry_body R (\<lambda>p s. read_link l s = Inr p) ?body"
    by (intro retry_link_body link_round_if link_round_then link_round_rooted link_round_stop
        returns_intros endsI)
qed (intro returns_intros)

text \<open>The two nested loops of the unrooted swap are one retry loop of single exchanges.\<close>

lemma swap_unrooted_unfold:
  "swap_unrooted_loop k l old new g se =
     bind (internal_cmpxchg_unrooted_once k None l old new g) (\<lambda>r.
       case r of Inl w \<Rightarrow> swap_unrooted_loop k l w new g | Inr c \<Rightarrow> ret c) se"
proof -
  have nest: "swap_unrooted_loop k l w new g =
      bind (internal_cmpxchg_unrooted k l w new g) (\<lambda>r.
        case r of Inl w' \<Rightarrow> swap_unrooted_loop k l w' new g | Inr c \<Rightarrow> ret c)" for w
    by (rule ext) (simp add: swap_unrooted_loop.simps)
  have unr: "internal_cmpxchg_unrooted k l old new g =
      bind (internal_cmpxchg_unrooted_once k None l old new g) (\<lambda>r.
        case r of Inr o' \<Rightarrow> ret (Inr o')
        | Inl w \<Rightarrow> if without_meta w = without_meta old then internal_cmpxchg_unrooted k l w new g
                   else ret (Inl w))"
    by (rule ext) (subst internal_cmpxchg_unrooted.simps, rule refl)
  have step: "bind (case r of Inr o' \<Rightarrow> ret (Inr o')
        | Inl w \<Rightarrow> if without_meta w = without_meta old then internal_cmpxchg_unrooted k l w new g
                   else ret (Inl w))
      (\<lambda>r. case r of Inl w' \<Rightarrow> swap_unrooted_loop k l w' new g | Inr c \<Rightarrow> ret c) =
      (case r of Inl w \<Rightarrow> swap_unrooted_loop k l w new g | Inr c \<Rightarrow> ret c)" for r
    by (cases r) (simp_all add: act_simps bind_if nest [symmetric])
  show ?thesis
    by (subst nest, subst unr) (simp only: bind_assoc step)
qed

lemma returns_swap_unrooted [returns_intros]: "returns R (swap_unrooted_loop k l old new g)"
  by (rule returns_retry [where fin = ret and loop = "\<lambda>old. swap_unrooted_loop k l old new g"
        and settles = "\<lambda>p s. read_link l s = Inr p"
        and body = "\<lambda>old. internal_cmpxchg_unrooted_once k None l old new g"])
    (intro retry_link_body link_round_unrooted returns_intros swap_unrooted_unfold)+

section \<open>Pinning and helping\<close>

lemma returns_publish_epoch [returns_intros]: "returns R (publish_epoch t e)"
proof (rule returns_retry [where fin = ret and loop = "publish_epoch t"
      and settles = "\<lambda>e s. atomic_epoch_load (global_epoch s) = e"])
  let ?body = "\<lambda>e. bind (atomic_write (upd_local t
       (\<lambda>l. l\<lparr>local_epoch := atomic_epoch_store (pinned e) (local_epoch l)\<rparr>))) (\<lambda>_.
     bind load_epoch (\<lambda>e'. if e = e' then ret (Inr e) else ret (Inl e')))"
  show "publish_epoch t e se =
      bind (?body e) (\<lambda>r. case r of Inl x' \<Rightarrow> publish_epoch t x' | Inr y \<Rightarrow> ret y) se" for e se
    by (subst publish_epoch.simps)
      (auto simp: bind_assoc bind_if act_simps intro!: bind_cong)
  show "retry_body R (\<lambda>e s. atomic_epoch_load (global_epoch s) = e) ?body"
  proof (rule retry_bodyI)
    fix e s and es :: "'a rt env"
    let ?s1 = "\<lambda>s. upd_local t (\<lambda>l. l\<lparr>local_epoch := atomic_epoch_store (pinned e) (local_epoch l)\<rparr>) s"
    show "\<exists>n r s'. ?body e (s, es) = Some (r, s', drop n es) \<and>
        (\<forall>x'. r = Inr (Inl x') \<longrightarrow> (es \<noteq> [] \<longrightarrow> 0 < n) \<and>
          (es = [] \<longrightarrow> atomic_epoch_load (global_epoch s) \<noteq> e \<and> atomic_epoch_load (global_epoch s') = x'))"
    proof (cases es rule: list.exhaust)
      case Nil
      then show ?thesis by (auto simp: act_simps load_epoch_def)
    next
      case (Cons e1 es1)
      then show ?thesis
        by (cases es1) (auto simp: act_simps load_epoch_def intro: exI [of _ 1] exI [of _ 2])
    qed
  qed
qed (intro returns_intros)

lemma thread_epoch_cong:
  "local_epoch (locals s' t) = local_epoch (locals s t) \<Longrightarrow> thread_epoch s' t = thread_epoch s t"
  "local_epoch (locals s' t) = local_epoch (locals s t) \<Longrightarrow> thread_alloc_color s' t = thread_alloc_color s t"
proof -
  assume e: "local_epoch (locals s' t) = local_epoch (locals s t)"
  then show "thread_epoch s' t = thread_epoch s t" by (simp add: thread_epoch_def)
  then show "thread_alloc_color s' t = thread_alloc_color s t" by (simp only: thread_alloc_color_def)
qed

definition batch_flushed :: "nat \<Rightarrow> color \<Rightarrow> 'v rt \<Rightarrow> bool" where
  "batch_flushed t c s \<longleftrightarrow> thread_alloc_color s t = Inr c \<and> objs (locals s t) c = ([], 0)"

lemma batch_flushed_env: "own_kept t s s' \<Longrightarrow> batch_flushed t c s \<Longrightarrow> batch_flushed t c s'"
  using thread_epoch_cong(2) [of s' t s] by (auto simp: batch_flushed_def own_kept_def)

lemma batch_flushed_cong: "locals s' = locals s \<Longrightarrow> batch_flushed t c s' = batch_flushed t c s"
  using thread_epoch_cong(2) [of s' t s] by (auto simp: batch_flushed_def)

lemma atomic_write_flushed:
  assumes "env_ok (own_kept t) es" "batch_flushed t c s" "\<And>s. locals (u s) = locals s"
  shows "\<exists>n s'. atomic_write u (s, es) = Some (Inr (), s', drop n es) \<and> batch_flushed t c s'"
proof (cases es)
  case Nil
  then show ?thesis using assms by (auto simp: act_simps batch_flushed_cong [OF assms(3)])
next
  case (Cons e es1)
  then have "batch_flushed t c (e s)" using assms(1,2) batch_flushed_env [of t s "e s" c] by simp
  then show ?thesis using Cons
    by (auto simp: act_simps batch_flushed_cong [OF assms(3)] intro!: exI [of _ 1])
qed

lemma push_fresh_objs_flushed:
  assumes es: "env_ok (own_kept t) es" and s: "batch_flushed t c s"
  shows "\<exists>n s'. push_fresh_objs b sz c' q (s, es) = Some (Inr (), s', drop n es) \<and> batch_flushed t c s'"
proof -
  let ?u1 = "\<lambda>s :: 'a rt. s\<lparr>fresh_objs := (fresh_objs s)(c' := (fresh_objs s c')(q := fresh_objs s c' q @ [b]))\<rparr>"
  let ?u2 = "\<lambda>s :: 'a rt. s\<lparr>total_allocated := total_allocated s + sz\<rparr>"
  obtain n s1 where 1: "atomic_write ?u1 (s, es) = Some (Inr (), s1, drop n es)" "batch_flushed t c s1"
    using atomic_write_flushed [OF es s, of ?u1, simplified] by blast
  obtain j s2 where 2: "atomic_write ?u2 (s1, drop n es) = Some (Inr (), s2, drop j (drop n es))"
    "batch_flushed t c s2"
    using atomic_write_flushed [OF env_ok_drop [OF es, of n] 1(2), of ?u2] by force
  show ?thesis unfolding push_fresh_objs_def using 1 2 by (auto simp: act_simps)
qed

text \<open>After a flush the batch of the allocation colour is empty, so the second push succeeds.\<close>

lemma push_fresh_loop_returns:
  assumes es: "env_ok (own_kept t) es" and c: "thread_alloc_color s t = Inr c"
  shows "\<exists>n r s'. push_fresh_loop t c obj sz new (s, es) = Some (r, s', drop n es)"
proof (cases "length (fst (objs (locals s t) c)) < OBJ_BATCH_SIZE")
  case True
  then show ?thesis
    by (subst push_fresh_loop.simps)
      (auto simp: act_simps push_within_capacity_def intro: exI [of _ 0])
next
  case False
  let ?b = "objs (locals s t) c"
  let ?s1 = "upd_local t (\<lambda>l. l\<lparr>objs := (objs l)(c := ([], 0))\<rparr>) s"
  let ?s2 = "?s1\<lparr>rng := tl (rng ?s1)\<rparr>"
  have "fst ?b \<noteq> []" using False by (auto simp: OBJ_BATCH_SIZE_def)
  then have flush: "flush_objs t (s, es) = push_fresh_objs (fst ?b) (snd ?b) c
      (case rng s of [] \<Rightarrow> 0 | x # _ \<Rightarrow> x mod OBJ_BATCHES_SHARD) (?s2, es)"
    by (simp add: flush_objs_def take_obj_batch_def select_obj_shard_def act_simps c split: prod.splits)
  have "batch_flushed t c ?s2"
    using c thread_epoch_cong(2) [of ?s2 t s] by (simp add: batch_flushed_def)
  then obtain n s3 where "flush_objs t (s, es) = Some (Inr (), s3, drop n es)" "batch_flushed t c s3"
    unfolding flush using push_fresh_objs_flushed [OF es] by blast
  then show ?thesis
    using False
    by (subst push_fresh_loop.simps)
      (auto simp: act_simps push_within_capacity_def, subst push_fresh_loop.simps,
       auto simp: act_simps push_within_capacity_def OBJ_BATCH_SIZE_def batch_flushed_def)
qed

lemma returns_push_fresh_obj [returns_intros]: "returns (own_kept t) (push_fresh_obj t obj new)"
proof (rule returnsI)
  fix s :: "'a rt" and es :: "'a rt env"
  assume es: "env_ok (own_kept t) es"
  show "\<exists>n r s'. push_fresh_obj t obj new (s, es) = Some (r, s', drop n es)"
  proof (cases "heap s obj")
    case None
    then show ?thesis by (auto simp: push_fresh_obj_def size_of_val_def act_simps intro: exI [of _ 0])
  next
    case (Some ob)
    show ?thesis
    proof (cases "thread_alloc_color s t")
      case (Inl e)
      then show ?thesis using Some
        by (auto simp: push_fresh_obj_def size_of_val_def act_simps intro: exI [of _ 0])
    next
      case (Inr c)
      then show ?thesis using Some push_fresh_loop_returns [OF es Inr]
        by (simp add: push_fresh_obj_def size_of_val_def act_simps)
    qed
  qed
qed

lemma returns_marking [returns_intros]:
  "returns R (mark_header a g)" "returns R (shade k l g)" "returns R (unroot k l g)"
  "returns R (shade_outgoings k a g)" "returns R (unroot_outgoings k a g)"
  "returns R (obj_mark k a g)" "returns R (dyn_mark k a g)" "returns R (dyn_color a)"
  "returns R (dyn_root_count a)" "returns R (drop_box k a)"
proof -
  show h: "returns R (mark_header a g)" for a unfolding mark_header_def by (intro returns_intros)
  show s: "returns R (shade k l g)" for l unfolding shade_def by (intro returns_intros)
  show u: "returns R (unroot k l g)" for l unfolding unroot_def by (intro returns_intros)
  show so: "returns R (shade_outgoings k a g)" for a
    unfolding shade_outgoings_def by (intro returns_intros s)
  show "returns R (unroot_outgoings k a g)" unfolding unroot_outgoings_def by (intro returns_intros u)
  show "returns R (obj_mark k a g)" unfolding obj_mark_def by (intro returns_intros h so)
  show "returns R (dyn_mark k a g)" unfolding dyn_mark_def by (intro returns_intros h so)
  show "returns R (dyn_color a)" "returns R (dyn_root_count a)" "returns R (drop_box k a)"
    unfolding dyn_color_def dyn_root_count_def drop_box_def by (intro returns_intros)+
qed

text \<open>The walk over the participants ends: without interference the list does not grow.\<close>

lemma returns_slot_iter:
  assumes c: "\<And>i. returns R (cond i)" "\<And>i. preserves n_locals (cond i)"
    and b: "\<And>i acc. returns R (body i acc)" "\<And>i acc. preserves n_locals (body i acc)"
  shows "returns R (slot_iter cond body node acc)"
proof -
  let ?rest = "\<lambda>i acc nx. bind (cond i) (\<lambda>c.
     if c then bind (body i acc) (\<lambda>r. ret (case r of Inl acc' \<Rightarrow> Inl (nx, acc') | Inr acc' \<Rightarrow> Inr acc'))
     else ret (Inl (nx, acc)))"
  let ?step = "\<lambda>(node, acc). case node of None \<Rightarrow> ret (Inr acc) | Some i \<Rightarrow>
     bind (atomic_read (node_at (Suc i))) (?rest i acc)"
  let ?\<mu> = "\<lambda>(node, acc) s. case node of None \<Rightarrow> 0 | Some i \<Rightarrow> Suc (n_locals s - i)"
  have rest: "returns R (?rest i acc nx)" "preserves n_locals (?rest i acc nx)" for i acc nx
    by (intro returns_intros preserves_intros c b)+
  have nxt: "\<exists>acc'. x' = (nx, acc')" if "?rest i acc nx se = Some (Inr (Inl x'), se')" for i acc nx x' se se'
    using that by (auto simp: bind_def act_simps ret_def split: option.splits sum.splits if_splits)
  have "measured_body R ?\<mu> ?step"
  proof (rule measured_bodyI)
    fix x :: "nat option \<times> 'b" and s and es :: "'a rt env"
    assume es: "env_ok R es"
    obtain node acc where x: "x = (node, acc)" by (cases x)
    show "\<exists>n r s'. ?step x (s, es) = Some (r, s', drop n es) \<and>
        (\<forall>x'. r = Inr (Inl x') \<longrightarrow> (es \<noteq> [] \<longrightarrow> 0 < n) \<and> (es = [] \<longrightarrow> ?\<mu> x' s' < ?\<mu> x s))"
    proof (cases node)
      case None
      then show ?thesis by (auto simp: x act_simps intro: exI [of _ 0])
    next
      case (Some i)
      obtain s1 where s1: "interfere es s = (s1, drop 1 es)" "es = [] \<longrightarrow> s1 = s"
        using interfere_cases [of es s] by (elim exE conjE)
      have rd: "atomic_read (node_at (Suc i)) (s, es) = Some (Inr (node_at (Suc i) s1), s1, drop 1 es)"
        by (simp add: atomic_read_def atomic_def s1(1))
      obtain n r s' where run: "?rest i acc (node_at (Suc i) s1) (s1, drop 1 es) = Some (r, s', drop n (drop 1 es))"
        using rest(1) env_ok_drop [OF es] by (rule returnsD)
      have "?step x (s, es) = Some (r, s', drop (Suc n) es)"
        using rd run by (simp add: x Some act_simps)
      moreover have "?\<mu> x' s' < ?\<mu> x s" if r: "r = Inr (Inl x')" and e: "es = []" for x'
      proof -
        have "n_locals s' = n_locals s" using preservesD [OF rest(2)] run s1(2) e by fastforce
        moreover obtain acc' where "x' = (node_at (Suc i) s, acc')"
          using nxt [OF run [unfolded r]] s1(2) e by auto
        ultimately show ?thesis by (auto simp: x Some node_at_def)
      qed
      ultimately show ?thesis by blast
    qed
  qed
  then have "returns R ((\<lambda>(node, acc). slot_iter cond body node acc) (node, acc))"
  proof (rule returns_measure [where fin = ret and loop = "\<lambda>(node, acc). slot_iter cond body node acc"])
    fix x se
    show "(\<lambda>(node, acc). slot_iter cond body node acc) x se =
        bind (?step x) (\<lambda>r. case r of Inl x' \<Rightarrow> (\<lambda>(node, acc). slot_iter cond body node acc) x' | Inr y \<Rightarrow> ret y) se"
      by (cases x, simp only: prod.case, subst slot_iter.simps)
        (auto simp: bind_assoc bind_if act_simps intro!: bind_cong bind_cong_fun split: option.split sum.split)
  qed (intro returns_intros)
  then show ?thesis by simp
qed

lemma returns_iter [returns_intros]:
  assumes "\<And>i acc. returns R (body i acc)" "\<And>i acc. preserves n_locals (body i acc)"
  shows "returns R (iter_all body acc)" "returns R (iter_using body acc)"
  unfolding iter_all_def iter_using_def
  by (intro returns_intros returns_slot_iter preserves_intros assms)+

lemma returns_queues [returns_intros]:
  "returns R (pop_fresh c q)" "returns R (pop_marked c q)" "returns R (push_marked c q b)"
  "returns R (add_reclaimed n)" "returns R collect_hps" "returns R (scan_or_reuse_hazards t)"
proof -
  show c: "returns R collect_hps"
    unfolding collect_hps_def load_hazard_def by (intro returns_intros preserves_intros)
  show "returns R (scan_or_reuse_hazards t)"
    unfolding scan_or_reuse_hazards_def Let_def by (intro returns_intros c)
  show "returns R (pop_fresh c q)" "returns R (pop_marked c q)" "returns R (push_marked c q b)"
    "returns R (add_reclaimed n)"
    unfolding pop_fresh_def pop_marked_def push_marked_def add_reclaimed_def by (intro returns_intros)+
qed

lemma returns_call_without_recursion [returns_intros]:
  "returns R f \<Longrightarrow> returns R (call_without_recursion t get set_flag f)"
  unfolding call_without_recursion_def by (intro returns_intros)

lemma returns_sweep_batch [returns_intros]:
  "returns (own_kept t) (sweep_batch k t c batch n)"
  by (induction batch arbitrary: n) (auto simp: sweep_or_keep_def intro!: returns_intros)

lemma returns_help_normal_shard [returns_intros]:
  "returns (own_kept t) (help_normal_shard left k t c q n)"
  by (induction left arbitrary: n) (auto intro!: returns_intros)

lemma returns_help_normal [returns_intros]: "returns (own_kept (g_local g)) (help_normal k g)"
proof -
  have "returns (own_kept (g_local g)) (help_normal_shards k g qs n)" for qs n
    by (induction qs arbitrary: n) (auto intro!: returns_intros)
  then show ?thesis
    unfolding help_normal_def help_normal_inner_def by (intro returns_intros)
qed

lemma returns_help_root_batch [returns_intros]: "returns R (help_root_batch k g batch hps)"
  by (induction batch arbitrary: hps) (auto intro!: returns_intros)

lemma returns_help_root_shard [returns_intros]: "returns R (help_root_shard left k g q n hps)"
  by (induction left arbitrary: n hps) (auto intro!: returns_intros)

lemma returns_help_root_shards [returns_intros]: "returns R (help_root_shards k g qs n hps)"
  by (induction qs arbitrary: n hps) (auto intro!: returns_intros)

lemma returns_drain_some [returns_intros]: "returns R (drain_some n k g)"
  by (induction n) (auto intro!: returns_intros)

lemma returns_help_tracing [returns_intros]: "returns R (help_tracing k g)"
  unfolding help_tracing_def is_tracing_synced_def help_root_tracing_def help_draining_mark_tasks_inner_def
  by (intro returns_intros preserves_intros)

lemma returns_help_collect [returns_intros]:
  "returns (own_kept (g_local g)) (help_collect k g)"
  "returns (own_kept (g_local g)) (help_collect_if_scheduled k g)"
proof -
  have p: "returns (own_kept (g_local g)) (case p of N \<Rightarrow> help_normal k g | RT \<Rightarrow> help_tracing k g
      | CT \<Rightarrow> help_tracing k g)" for p
    by (cases p) (auto intro: returns_intros)
  show h: "returns (own_kept (g_local g)) (help_collect k g)"
    unfolding help_collect_def by (intro returns_intros p)
  show "returns (own_kept (g_local g)) (help_collect_if_scheduled k g)"
    unfolding help_collect_if_scheduled_def by (intro returns_intros h)
qed

lemma returns_pinning [returns_intros]:
  "returns R (guard_new t f)" "returns R (count_guard t)" "returns R (unpin_inner t)"
  unfolding guard_new_def count_guard_def unpin_inner_def by (intro returns_intros)+

lemma returns_guard_drop [returns_intros]: "returns (own_kept (g_local g)) (guard_drop k g)"
  unfolding guard_drop_def by (intro returns_intros)

lemma bind_guard_new:
  "bind (guard_new t f) h =
     seq (modify (\<lambda>s. s\<lparr>should_help := (should_help s)(f := False)\<rparr>)) (h \<lparr>g_local = t, g_flag = f\<rparr>)"
  by (simp add: guard_new_def seq_def bind_assoc bind_ret)

lemma returns_guard_drop_of [returns_intros]:
  "returns (own_kept t) (guard_drop k \<lparr>g_local = t, g_flag = f\<rparr>)"
  using returns_guard_drop [of "\<lparr>g_local = t, g_flag = f\<rparr>"] by simp

lemma hazard_mark_unfold:
  "hazard_mark k t f ptr =
     seq (modify (\<lambda>s. s\<lparr>should_help := (should_help s)(f := False)\<rparr>)) (
     bind (count_guard t) (\<lambda>count. if count = 0 then raise FreshPinExpected
       else seq (obj_mark k ptr \<lparr>g_local = t, g_flag = f\<rparr>) (guard_drop k \<lparr>g_local = t, g_flag = f\<rparr>)))"
  unfolding hazard_mark_def nested_pin_def bind_guard_new
  by (simp add: seq_def bind_assoc bind_if act_simps cong: if_cong)

lemma returns_hazard_mark [returns_intros]: "returns (own_kept t) (hazard_mark k t f ptr)"
  unfolding hazard_mark_unfold by (intro returns_intros)

lemma returns_pin [returns_intros]:
  "returns (own_kept t) (phase_barrier k t f)" "returns (own_kept t) (pin_freshly k t f)"
  "returns (own_kept t) (pin_inner k t f)" "returns (own_kept t) (handle_pin k t f f')"
proof -
  show b: "returns (own_kept t) (phase_barrier k t f)" for f
    unfolding phase_barrier_def by (intro returns_intros)
  show p: "returns (own_kept t) (pin_freshly k t f)" for f
    unfolding pin_freshly_def by (intro returns_intros b)
  show i: "returns (own_kept t) (pin_inner k t f)" for f
    unfolding pin_inner_def by (intro returns_intros p)
  show "returns (own_kept t) (handle_pin k t f f')"
    unfolding handle_pin_def by (intro returns_intros i)
qed

section \<open>Pointer operations\<close>

lemma bind_handle_pin:
  "bind (handle_pin k t f f') h =
     seq (modify (\<lambda>s. s\<lparr>should_help := (should_help s)(f := False)\<rparr>)) (
     seq (pin_inner k t f') (h \<lparr>g_local = t, g_flag = f\<rparr>))"
  by (simp add: handle_pin_def bind_guard_new) (simp add: seq_def bind_assoc bind_ret)

lemma returns_get_shade_fn [returns_intros]: "returns R (get_shade_fn tid)"
  unfolding get_shade_fn_def by (intro returns_intros)

lemma returns_drop_ptr [returns_intros]: "returns (own_kept t) (drop_ptr k t f ptr)"
  unfolding drop_ptr_def bind_handle_pin by (intro returns_intros)

lemma returns_shared_option [returns_intros]:
  "returns R (try_inc_raw k ptr)" "returns (own_kept (g_local g)) (drop_shared_option k g r)"
  unfolding try_inc_raw_def drop_shared_option_def by (intro returns_intros)+

lemma returns_internal_swap [returns_intros]:
  "returns (own_kept (g_local g)) (internal_swap k l new g)"
  unfolding internal_swap_def by (intro returns_intros)

lemma returns_strong_rooted [returns_intros]:
  "returns (own_kept (g_local g)) (internal_cmpxchg_strong_rooted k l old cur new g)"
  "returns (own_kept (g_local g)) (internal_cmpxchg_weak_rooted k sp l old new g)"
  unfolding internal_cmpxchg_strong_rooted_def internal_cmpxchg_weak_rooted_def Let_def
  by (intro returns_intros)+

lemma returns_cas [returns_intros]:
  "returns (own_kept (g_local g)) (compare_exchange_with_tag k l cur new g)"
  "returns (own_kept (g_local g)) (compare_exchange_weak_with_tag k sp l cur new g)"
  unfolding compare_exchange_with_tag_def compare_exchange_weak_with_tag_def
  by (intro returns_intros)+

lemma returns_swap_with_tag [returns_intros]:
  "returns (own_kept (g_local g)) (swap_with_tag k l new tag g)"
  unfolding swap_with_tag_def by (intro returns_intros)

section \<open>Properties\<close>

text \<open>
  C14: no pointer operation of a pinned mutator runs forever: whatever finitely many steps the other
  threads take, swap, store, take, compare-exchange (strong and weak) and the drop of an owned pointer
  come to an end.
\<close>

theorem pointer_operations_return:
  "returns (own_kept (g_local g)) (swap_with_tag k l new tag g) \<and>
   returns (own_kept (g_local g)) (store_with_tag k l new tag g) \<and>
   returns (own_kept (g_local g)) (take_with_tag k l g) \<and>
   returns (own_kept (g_local g)) (compare_exchange_with_tag k l cur_tag new_tag g) \<and>
   returns (own_kept (g_local g)) (compare_exchange_weak_with_tag k spurious l cur_tag new_tag g) \<and>
   returns (own_kept (g_local g)) (drop_ptr k (g_local g) f ptr)"
  unfolding store_with_tag_def take_with_tag_def by (intro conjI returns_intros)

text \<open>
  C15: entering a critical section, helping the collector and leaving the critical section come to an
  end as well; in particular the loop that publishes the local epoch and the phase barrier do.
\<close>

theorem guards_return:
  "returns (own_kept t) (handle_pin k t f f') \<and>
   returns (own_kept (g_local g)) (help_collect k g) \<and>
   returns (own_kept (g_local g)) (guard_drop k g)"
  by (intro conjI returns_intros)

end
