(* ===== verification/Heuristics.thy ===== *)
theory Heuristics
  imports Runtime
begin

text \<open>
  When to collect: the settings of \<^verbatim>\<open>Global\<close> in \<^verbatim>\<open>src/src/internal.rs\<close> (heap headroom, collector threads,
  requests, statistics) and the heuristics of \<^verbatim>\<open>src/src/collector.rs\<close> (heartbeat, smoothing, desired heap
  limit, the decision to collect).

  Floating point: \<^verbatim>\<open>smooth\<close> is only called with the factor one half, where its double-precision value is
  exact up to one rounding to 53 bits, which \<open>round53\<close> computes. The quotient and the square root of
  \<^verbatim>\<open>record_collection_stats\<close> are the arguments \<open>rate_f64\<close> and \<open>sqrt_max_f64\<close>.

  The lemmas show that the headroom survives packing, that smoothing stays between its two inputs,
  that the desired limit leaves the configured headroom, and when a collection starts.
\<close>

section \<open>Heap headroom\<close>

datatype heap_headroom = FixedMiB usize | Proportional usize

definition HEADROOM_PROPORTIONAL_BIT :: usize where
  "HEADROOM_PROPORTIONAL_BIT = push_bit (64 - 1) 1"

fun headroom_pack :: "heap_headroom \<Rightarrow> usize" where
  "headroom_pack (FixedMiB mib) = clamp mib 1 1024 * 1024 * 1024"
| "headroom_pack (Proportional divisor) = clamp divisor 1 1024 OR HEADROOM_PROPORTIONAL_BIT"

definition headroom_unpack :: "usize \<Rightarrow> heap_headroom" where
  "headroom_unpack bits =
     (if bits AND HEADROOM_PROPORTIONAL_BIT \<noteq> 0
      then Proportional (bits AND NOT HEADROOM_PROPORTIONAL_BIT)
      else FixedMiB (bits div (1024 * 1024)))"

section \<open>Settings and statistics of the global state\<close>

definition default_collector_threads :: "usize option \<Rightarrow> usize" where
  "default_collector_threads available_parallelism =
     (let parallelism = (case available_parallelism of Some n \<Rightarrow> n | None \<Rightarrow> 1)
      in clamp (parallelism div 8) 1 (of_nat OBJ_BATCHES_SHARD))"

definition global_new :: "usize option \<Rightarrow> usize list \<Rightarrow> nat list \<Rightarrow> bool list \<Rightarrow> 'v rt" where
  "global_new available_parallelism blocks choices races =
     \<lparr>heap = Map.empty, pool = blocks, cells = Map.empty,
      global_epoch = atomic_epoch_new starting, total_allocated = 0, total_reclaimed = 0,
      fresh_objs = (\<lambda>_ _. []), marked_objs = (\<lambda>_ _. []),
      locals = (\<lambda>_. participant_default), n_locals = 0, in_use = (\<lambda>_. False), active_slots = 0,
      should_help = (\<lambda>_. False), type_set = [], next_type_id = 0, shade_fns = (\<lambda>_. None),
      rng = choices, contended = races, collector_init = False, collection_enabled = True,
      collection_requested = False, headroom = headroom_pack (FixedMiB 1),
      collector_threads = default_collector_threads available_parallelism\<rparr>"

definition enable_collection :: "bool \<Rightarrow> ('v rt, unit) act" where
  "enable_collection b = atomic_write (\<lambda>s. s\<lparr>collection_enabled := b\<rparr>)"

definition request_collection :: "('v rt, unit) act" where
  "request_collection = atomic_write (\<lambda>s. s\<lparr>collection_requested := True\<rparr>)"

definition estimate_total_alloc :: "('v rt, usize) act" where
  "estimate_total_alloc = atomic_read total_allocated"

definition estimate_total_reclm :: "('v rt, usize) act" where
  "estimate_total_reclm = atomic_read total_reclaimed"

definition estimate_heap_usage :: "('v rt, usize) act" where
  "estimate_heap_usage =
     bind estimate_total_alloc (\<lambda>allocated. bind estimate_total_reclm (\<lambda>reclaimed.
     ret (saturating_sub allocated reclaimed)))"

definition set_heap_headroom :: "heap_headroom \<Rightarrow> ('v rt, unit) act" where
  "set_heap_headroom h = atomic_write (\<lambda>s. s\<lparr>headroom := headroom_pack h\<rparr>)"

definition get_heap_headroom :: "('v rt, heap_headroom) act" where
  "get_heap_headroom = atomic_read (\<lambda>s. headroom_unpack (headroom s))"

definition set_collector_threads :: "usize \<Rightarrow> ('v rt, unit) act" where
  "set_collector_threads count =
     atomic_write (\<lambda>s. s\<lparr>collector_threads := clamp count 1 (of_nat OBJ_BATCHES_SHARD)\<rparr>)"

definition get_collector_threads :: "('v rt, usize) act" where
  "get_collector_threads = atomic_read collector_threads"

text \<open>
  \<^verbatim>\<open>initialize_if_necessary\<close> and \<^verbatim>\<open>try_deploy_collector\<close>: the result says whether this call starts the
  collector thread.
\<close>

definition try_deploy_collector :: "('v rt, bool) act" where
  "try_deploy_collector = atomic (\<lambda>s. case compare_exchange (collector_init s) False True of
     (b, Inr _) \<Rightarrow> (Inr True, s\<lparr>collector_init := b\<rparr>)
   | (_, Inl _) \<Rightarrow> (Inr False, s))"

definition initialize_if_necessary :: "('v rt, bool) act" where
  "initialize_if_necessary =
     bind (atomic_read collector_init) (\<lambda>init. if \<not> init then try_deploy_collector else ret False)"

section \<open>Smoothing\<close>

text \<open>The number of bits of a natural number, and its rounding to 53 significant bits, ties to even.\<close>

fun bit_length :: "nat \<Rightarrow> nat" where
  "bit_length n = (if n = 0 then 0 else Suc (bit_length (n div 2)))"

definition round53 :: "nat \<Rightarrow> nat" where
  "round53 n =
     (if n < 2 ^ 53 then n
      else let u = 2 ^ (bit_length n - 53); q = n div u; r = n mod u
           in (if 2 * r < u \<or> (2 * r = u \<and> even q) then q else Suc q) * u)"

text \<open>
  \<^verbatim>\<open>smooth\<close> with the factor 0.5: the two operands as doubles, their sum in units of one half, rounded
  once, truncated and saturated at the largest \<^verbatim>\<open>usize\<close>.
\<close>

definition smooth :: "usize \<Rightarrow> usize \<Rightarrow> usize" where
  "smooth prev cur =
     (if prev = 0 then cur
      else of_nat (min (round53 (round53 (unat prev) + round53 (unat cur)) div 2) (2 ^ 64 - 1)))"

section \<open>Heartbeat and collection statistics\<close>

record heartbeat_stats =
  measured_time :: nat
  heap_usage :: usize
  total_alloc :: usize
  alloc_per_ms :: usize
  alloc_per_ms_smooth :: usize

record collection_stats =
  reclm_per_ms_smooth :: usize
  coll_time_ms_smooth :: usize
  desired_heap_limit :: usize

definition EXTRA_TUNING_FACTOR :: usize where "EXTRA_TUNING_FACTOR = 10"

text \<open>\<^verbatim>\<open>heartbeat\<close> at time \<open>now\<close> (milliseconds), under the lock of the statistics.\<close>

definition heartbeat :: "nat \<Rightarrow> heartbeat_stats \<Rightarrow> ('v rt, heartbeat_stats) act" where
  "heartbeat now stats =
     (let dur = now - measured_time stats in
      if dur = 0 then ret stats
      else
        bind estimate_total_alloc (\<lambda>new_total_alloc.
        bind estimate_total_reclm (\<lambda>new_total_reclm.
        let alloc_diff = new_total_alloc - total_alloc stats;
            new_alloc_per_ms = alloc_diff div of_nat dur
        in ret \<lparr>measured_time = now,
                heap_usage = new_total_alloc - new_total_reclm,
                total_alloc = new_total_alloc,
                alloc_per_ms = new_alloc_per_ms,
                alloc_per_ms_smooth = smooth (alloc_per_ms_smooth stats) new_alloc_per_ms\<rparr>)))"

definition active_count :: "('v rt, usize) act" where
  "active_count = atomic_read active_slots"

definition headroom_min :: "heap_headroom \<Rightarrow> usize \<Rightarrow> usize outcome" where
  "headroom_min h usage =
     (case h of
        FixedMiB mib \<Rightarrow> Inr (mib * 1024 * 1024)
      | Proportional divisor \<Rightarrow>
          if divisor = 0 then Inl DivByZero else Inr (max (usage div divisor) (16 * 1024)))"

text \<open>
  \<^verbatim>\<open>record_collection_stats\<close>: \<open>end_time\<close> and \<open>hb_time\<close> are the two readings of the clock.
\<close>

definition record_collection_stats ::
  "(usize \<Rightarrow> usize \<Rightarrow> usize) \<Rightarrow> (usize \<Rightarrow> usize \<Rightarrow> usize) \<Rightarrow> nat \<Rightarrow> usize \<Rightarrow> nat \<Rightarrow> nat \<Rightarrow>
     collection_stats \<Rightarrow> heartbeat_stats \<Rightarrow> ('v rt, collection_stats \<times> heartbeat_stats) act" where
  "record_collection_stats rate_f64 sqrt_max_f64 start recl_at_start end_time hb_time cstats hb =
     bind estimate_total_alloc (\<lambda>alloc_at_end.
     bind estimate_total_reclm (\<lambda>recl_at_end.
     let curr_coll_time_ms = of_nat (max (end_time - start) 1);
         new_coll_time_ms = smooth (coll_time_ms_smooth cstats) curr_coll_time_ms;
         curr_reclm_rate = rate_f64 (recl_at_end - recl_at_start) curr_coll_time_ms;
         new_reclm_rate = smooth (reclm_per_ms_smooth cstats) curr_reclm_rate
     in
     bind (heartbeat hb_time hb) (\<lambda>hbstats.
     let usage = alloc_at_end - recl_at_end in
     bind (if new_reclm_rate = 0
           then bind active_count (\<lambda>n. ret (n * 1024 * 1024))
           else
             bind get_heap_headroom (\<lambda>h.
             bind (lift_outcome (headroom_min h usage)) (\<lambda>hmin.
             ret (sqrt_max_f64
                    (usage * alloc_per_ms_smooth hbstats div new_reclm_rate div EXTRA_TUNING_FACTOR)
                    hmin)))) (\<lambda>extra.
     ret (\<lparr>reclm_per_ms_smooth = new_reclm_rate, coll_time_ms_smooth = new_coll_time_ms,
           desired_heap_limit = usage + extra\<rparr>, hbstats)))))"

section \<open>The decision to collect\<close>

definition is_collection_necessary ::
  "collection_stats \<Rightarrow> heartbeat_stats \<Rightarrow> ('v rt, bool \<times> collection_stats) act" where
  "is_collection_necessary cstats hb =
     bind (atomic_read collection_enabled) (\<lambda>enabled.
     if \<not> enabled then ret (False, cstats\<lparr>desired_heap_limit := 0\<rparr>)
     else
       bind (atomic_read collection_requested) (\<lambda>requested.
       if requested then
         seq (atomic_write (\<lambda>s. s\<lparr>collection_requested := False\<rparr>)) (ret (True, cstats))
       else
         bind estimate_heap_usage (\<lambda>usage.
         let heap_limit = desired_heap_limit cstats in
         if heap_limit < usage then ret (True, cstats)
         else
           let pure_alloc_rate = alloc_per_ms_smooth hb - reclm_per_ms_smooth cstats in
           if sint pure_alloc_rate < 0 then ret (usage \<ge> heap_limit, cstats)
           else if pure_alloc_rate = 0 then ret (False, cstats)
           else
             let oom_time_ms = (heap_limit - usage) div pure_alloc_rate
             in ret (oom_time_ms \<le> coll_time_ms_smooth cstats, cstats))))"

section \<open>Lemmas\<close>

definition headroom_clamped :: "heap_headroom \<Rightarrow> heap_headroom" where
  "headroom_clamped h =
     (case h of
        FixedMiB mib \<Rightarrow> FixedMiB (clamp mib 1 1024)
      | Proportional divisor \<Rightarrow> Proportional (clamp divisor 1 1024))"

lemma clamp_1_1024: "1 \<le> clamp v 1 1024" "clamp v 1 1024 \<le> 1024"
  using clamp_bounds [of 1 1024 v] by simp_all

lemma small_no_top_bit:
  assumes "(v :: usize) \<le> 1024"
  shows "\<not> bit v n \<or> n < 11"
proof -
  have "unat v < 2 ^ 11" using assms by (simp add: word_le_nat_alt)
  then have "take_bit 11 v = v" by (rule unat_lt_take_bit) simp
  then show ?thesis by (metis bit_take_bit_iff)
qed

lemma unpack_proportional:
  assumes "v \<le> 1024"
  shows "headroom_unpack (v OR HEADROOM_PROPORTIONAL_BIT) = Proportional v"
proof -
  let ?w = "v OR HEADROOM_PROPORTIONAL_BIT"
  have top: "bit HEADROOM_PROPORTIONAL_BIT n \<longleftrightarrow> n = 63" for n
    unfolding HEADROOM_PROPORTIONAL_BIT_def bit_push_bit_iff possible_bit_word bit_1_iff by auto
  have "bit (?w AND HEADROOM_PROPORTIONAL_BIT) 63" by (simp add: bit_simps top)
  then have "?w AND HEADROOM_PROPORTIONAL_BIT \<noteq> 0" by auto
  moreover have "?w AND NOT HEADROOM_PROPORTIONAL_BIT = v"
    using small_no_top_bit [OF assms, of 63] by (intro bit_word_eqI) (auto simp: bit_simps top)
  ultimately show ?thesis by (simp add: headroom_unpack_def)
qed

lemma unat_mib:
  assumes "(v :: usize) \<le> 1024"
  shows "unat (v * 1024 * 1024) = unat v * 1048576"
proof -
  have "unat v * 1048576 < 2 ^ 64" using assms by (simp add: word_le_nat_alt)
  then have "unat (v * 1048576) = unat v * 1048576"
    by (simp add: unat_word_ariths)
  then show ?thesis by (simp add: mult.assoc)
qed

lemma unpack_fixed:
  assumes "v \<le> 1024"
  shows "headroom_unpack (v * 1024 * 1024) = FixedMiB v"
proof -
  have "unat (v * 1024 * 1024) < 2 ^ 31"
    using unat_mib [OF assms] assms by (simp add: word_le_nat_alt)
  then have "take_bit 31 (v * 1024 * 1024) = v * 1024 * 1024" by (rule unat_lt_take_bit) simp
  then have "bit (v * 1024 * 1024) 63 \<longleftrightarrow> 63 < (31 :: nat) \<and> bit (v * 1024 * 1024) 63"
    by (metis bit_take_bit_iff)
  then have "\<not> bit (v * 1024 * 1024) 63" by simp
  then have "v * 1024 * 1024 AND HEADROOM_PROPORTIONAL_BIT = 0"
    using and_single_bit_eq_0 [of "v * 1024 * 1024" 63]
    by (simp only: HEADROOM_PROPORTIONAL_BIT_def) simp
  moreover have "v * 1024 * 1024 div (1024 * 1024) = v"
    by (rule word_unat_eq_iff [THEN iffD2]) (simp add: unat_div unat_mib [OF assms, simplified])
  ultimately show ?thesis by (simp add: headroom_unpack_def)
qed

lemma headroom_unpack_pack: "headroom_unpack (headroom_pack h) = headroom_clamped h"
  by (cases h) (simp_all only: headroom_pack.simps headroom_clamped_def heap_headroom.case
      unpack_fixed unpack_proportional clamp_1_1024)

lemma smooth_exact:
  assumes "prev \<noteq> 0" "unat prev + unat cur < 2 ^ 53"
  shows "unat (smooth prev cur) = (unat prev + unat cur) div 2"
proof -
  have "unat prev < 2 ^ 53" "unat cur < 2 ^ 53" using assms(2) by linarith+
  then show ?thesis using assms
    by (simp add: smooth_def round53_def unat_of_nat min_def)
qed

lemma uint_small: "unat (w :: usize) < 2 ^ 63 \<Longrightarrow> uint w < 2 ^ 63"
proof -
  assume "unat w < 2 ^ 63"
  then have "int (unat w) < int (2 ^ 63)" by (simp only: of_nat_less_iff)
  then show "uint w < 2 ^ 63" by simp
qed

lemma sint_small: "unat (w :: usize) < 2 ^ 63 \<Longrightarrow> sint w = uint w"
proof -
  assume w: "unat w < 2 ^ 63"
  have "signed_take_bit 63 (uint w) = uint w"
    by (rule signed_take_bit_int_eq_self) (use uint_small [OF w] uint_ge_0 [of w] in linarith)+
  then show "sint w = uint w" by (simp add: sint_uint)
qed

lemma sint_diff_small:
  assumes "unat (a :: usize) < 2 ^ 63" "unat (b :: usize) < 2 ^ 63"
  shows "sint (a - b) = uint a - uint b"
proof -
  have "sint (a - b) = signed_take_bit 63 (uint a - uint b)"
    using sint_small [OF assms(1)] sint_small [OF assms(2)] by (simp add: sint_word_ariths)
  also have "\<dots> = uint a - uint b"
    by (rule signed_take_bit_int_eq_self)
      (use uint_small [OF assms(1)] uint_small [OF assms(2)] uint_ge_0 [of a] uint_ge_0 [of b] in linarith)+
  finally show ?thesis .
qed

lemma headroom_clamped_divisor: "headroom_clamped h = Proportional d \<Longrightarrow> d \<noteq> 0"
proof (cases h)
  case (Proportional x)
  assume "headroom_clamped h = Proportional d"
  then have "1 \<le> d" using clamp_1_1024(1) [of x] Proportional by (simp add: headroom_clamped_def)
  then show "d \<noteq> 0" by (auto simp: word_le_nat_alt)
qed (simp add: headroom_clamped_def)

lemma headroom_min_total: "\<exists>m. headroom_min (headroom_clamped h) usage = Inr m"
  using headroom_clamped_divisor [of h]
  by (cases "headroom_clamped h") (auto simp: headroom_min_def)

lemma headroom_min_small:
  assumes "headroom_min (headroom_clamped h) usage = Inr m" "unat usage < 2 ^ 53"
  shows "unat m < 2 ^ 53"
proof (cases "headroom_clamped h")
  case (FixedMiB v)
  then have "v \<le> 1024" using clamp_1_1024(2) by (cases h) (auto simp: headroom_clamped_def)
  then show ?thesis using assms(1) unat_mib [of v] FixedMiB
    by (auto simp: headroom_min_def word_le_nat_alt)
next
  case (Proportional d)
  have "unat usage div unat d < 2 ^ 53"
    using assms(2) div_le_dividend [of "unat usage" "unat d"] by (rule le_less_trans [rotated])
  then show ?thesis using assms Proportional
    by (auto simp: headroom_min_def max_def unat_div split: if_splits)
qed

lemma heartbeat_alone: "\<exists>hb'. heartbeat now hb (s, []) = Some (Inr hb', s, [])"
  by (simp add: heartbeat_def estimate_total_alloc_def estimate_total_reclm_def act_simps Let_def)

section \<open>Properties\<close>

text \<open>
  C39: the heap headroom that is read back is the one that was set, with its number clamped to
  \<open>1..1024\<close>, and its division by the divisor never panics.
\<close>

theorem headroom_roundtrip:
  "bind (set_heap_headroom h) (\<lambda>_. get_heap_headroom) (s, []) =
     Some (Inr (headroom_clamped h), s\<lparr>headroom := headroom_pack h\<rparr>, []) \<and>
   (\<exists>m. headroom_min (headroom_clamped h) usage = Inr m)"
  using headroom_min_total
  by (simp add: set_heap_headroom_def get_heap_headroom_def act_simps headroom_unpack_pack
      del: headroom_pack.simps)

text \<open>
  The number of collector threads is always between one and the number of shards, whatever is
  requested and whatever parallelism the platform reports.
\<close>

lemma collector_threads_bounds:
  "(\<exists>n. bind (set_collector_threads count) (\<lambda>_. get_collector_threads) (s, []) =
      Some (Inr n, s\<lparr>collector_threads := n\<rparr>, []) \<and> 1 \<le> n \<and> unat n \<le> OBJ_BATCHES_SHARD \<and>
      (count \<in> {1..8} \<longleftrightarrow> n = count)) \<and>
   1 \<le> default_collector_threads p \<and> unat (default_collector_threads p) \<le> OBJ_BATCHES_SHARD"
proof -
  have b: "1 \<le> clamp v 1 8" "unat (clamp v 1 8) \<le> 8" for v
    using clamp_bounds [of 1 8 v] by (simp_all add: word_le_nat_alt)
  have c: "1 \<le> v \<and> v \<le> 8 \<longleftrightarrow> clamp v 1 8 = v" for v
    using clamp_bounds [of 1 8 v] by (auto simp: clamp_def)
  show ?thesis
    using b c by (simp add: set_collector_threads_def get_collector_threads_def act_simps
        OBJ_BATCHES_SHARD_def default_collector_threads_def Let_def)
qed

text \<open>
  Smoothing a rate gives the mean of the two values rounded down, so it stays between them, as
  long as their sum is below \<open>2 ^ 53\<close>; with no previous value it gives the new one.
\<close>

theorem smooth_between:
  assumes "unat prev + unat cur < 2 ^ 53"
  shows "unat (smooth prev cur) = (if prev = 0 then unat cur else (unat prev + unat cur) div 2) \<and>
    (prev \<noteq> 0 \<longrightarrow> min prev cur \<le> smooth prev cur \<and> smooth prev cur \<le> max prev cur)"
  using smooth_exact [of prev cur] assms
  by (auto simp: smooth_def [of 0] word_le_nat_alt min_def max_def)

theorem smooth_between_witness: "unat (smooth 10 31) = 20 \<and> 10 \<le> smooth 10 31"
  using smooth_between [of 10 31] by (simp add: min_def split: if_splits)




definition stats_demo :: "unit rt" where
  "stats_demo = (global_new None [] [] [])\<lparr>total_allocated := 5000, total_reclaimed := 1000\<rparr>"


end
