(* ===== verification/Pointer_Spec.thy ===== *)
theory Pointer_Spec
  imports Progress Heuristics
begin

text \<open>
  What the pointer operations do when they are not disturbed: an exchange of one link word, with the
  root counts and the scheduled marks that go with it, and nothing else.
\<close>

section \<open>Links\<close>

lemma read_write_link: "read_link l s = Inr p \<Longrightarrow> read_link l (write_link l q s) = Inr q"
  by (cases l) (auto simp: read_link_def write_link_def split: option.splits if_splits)

lemma read_write_other: "l \<noteq> l' \<Longrightarrow> read_link l' (write_link l q s) = read_link l' s"
  by (cases l; cases l') (auto simp: read_link_def write_link_def split: option.splits if_splits)

lemma write_link_fields [simp]:
  "locals (write_link l p s) = locals s" "global_epoch (write_link l p s) = global_epoch s"
  "should_help (write_link l p s) = should_help s"
  by (cases l; simp add: write_link_def split: option.splits)+

lemma write_link_header:
  "map_option header (heap (write_link l p s) a) = map_option header (heap s a)"
  by (cases l) (auto simp: write_link_def split: option.splits)

lemma write_write_link: "write_link l q (write_link l p s) = write_link l q s"
  by (cases l) (auto simp: write_link_def split: option.splits)

section \<open>Scheduled marks\<close>

text \<open>
  \<open>scheduled g as s s'\<close>: the state \<open>s'\<close> is \<open>s\<close> with the marking of \<open>as\<close> scheduled by the thread of
  \<open>g\<close>; besides its mark queue only its counters and the help flags may have changed.
\<close>

definition without_scheduling :: "guard \<Rightarrow> 'v rt \<Rightarrow> 'v rt" where
  "without_scheduling g s =
     s\<lparr>should_help := (\<lambda>_. False),
       locals := (locals s)(g_local g :=
         (locals s (g_local g))\<lparr>mt_modified_ts := 0, sched_count := 0, mark_tasks := []\<rparr>)\<rparr>"

definition scheduled :: "guard \<Rightarrow> usize list \<Rightarrow> 'v rt \<Rightarrow> 'v rt \<Rightarrow> bool" where
  "scheduled g as s s' \<longleftrightarrow>
     without_scheduling g s' = without_scheduling g s \<and>
     mark_tasks (locals s' (g_local g)) = mark_tasks (locals s (g_local g)) @ as"

lemma scheduled_refl [simp]: "scheduled g [] s s"
  by (simp add: scheduled_def)

lemma scheduled_trans: "scheduled g as s s' \<Longrightarrow> scheduled g bs s' s'' \<Longrightarrow> scheduled g (as @ bs) s s''"
  by (simp add: scheduled_def)

lemma scheduled_fields:
  assumes "scheduled g as s s'"
  shows "heap s' = heap s" "cells s' = cells s" "global_epoch s' = global_epoch s"
    "thread_epoch s' u = thread_epoch s u"
    "mark_tasks (locals s' (g_local g)) = mark_tasks (locals s (g_local g)) @ as"
proof -
  have w: "without_scheduling g s' = without_scheduling g s"
    and "mark_tasks (locals s' (g_local g)) = mark_tasks (locals s (g_local g)) @ as"
    using assms by (auto simp: scheduled_def)
  show "heap s' = heap s" using arg_cong [OF w, of heap] by (simp add: without_scheduling_def)
  show "cells s' = cells s" using arg_cong [OF w, of cells] by (simp add: without_scheduling_def)
  show "global_epoch s' = global_epoch s"
    using arg_cong [OF w, of global_epoch] by (simp add: without_scheduling_def)
  show "thread_epoch s' u = thread_epoch s u"
    using arg_cong [OF w, of "\<lambda>s. local_epoch (locals s u)"]
    by (intro thread_epoch_cong(1)) (simp add: without_scheduling_def split: if_splits)
qed (use assms in \<open>simp add: scheduled_def\<close>)

lemma scheduled_memory: "scheduled g as s s' \<Longrightarrow> read_link l s' = read_link l s"
  by (intro read_link_memory) (simp add: scheduled_fields(1,2))

abbreviation black_of :: "'v rt \<Rightarrow> guard \<Rightarrow> color" where
  "black_of s g \<equiv> flip (epoch_color (thread_epoch s (g_local g)))"

lemma schedule_mark_alone:
  "\<exists>s'. schedule_mark a g (s, []) = Some (Inr (), s', []) \<and> scheduled g [a] s s'"
proof -
  let ?t = "g_local g"
  have r: "\<exists>s'. record_mt_modification ?t (s, []) = Some (Inr (), s', []) \<and> scheduled g [] s s'"
    by (auto simp: record_mt_modification_def act_simps scheduled_def without_scheduling_def upd_local_def)
  then obtain s1 where 1: "record_mt_modification ?t (s, []) = Some (Inr (), s1, [])" "scheduled g [] s s1"
    by blast
  have "\<exists>s'. schedule_mark a g (s, []) = Some (Inr (), s', []) \<and> scheduled g [a] s1 s'"
    by (auto simp: schedule_mark_def Let_def act_simps 1(1) act_when_def schedule_helping_collect_def
        scheduled_def without_scheduling_def upd_local_def)
  then show ?thesis using scheduled_trans [OF 1(2)] by fastforce
qed


lemma is_marked_alone:
  "heap s a = Some obj \<Longrightarrow> is_marked a g (s, []) = Some (Inr (marked (header obj) = black_of s g), s, [])"
  by (simp add: is_marked_def read_header_def act_simps)

text \<open>What a barrier on the pointer \<open>p\<close> schedules: its object, unless it is null or already marked.\<close>

definition to_shade :: "nat \<Rightarrow> man_ptr \<Rightarrow> guard \<Rightarrow> 'v rt \<Rightarrow> usize list" where
  "to_shade k p g s =
     (case as_ref k p of
        None \<Rightarrow> []
      | Some a \<Rightarrow>
          (case heap s a of
             None \<Rightarrow> []
           | Some obj \<Rightarrow> if marked (header obj) = black_of s g then [] else [a]))"

definition valid_ptr :: "nat \<Rightarrow> man_ptr \<Rightarrow> 'v rt \<Rightarrow> bool" where
  "valid_ptr k p s \<longleftrightarrow> (case as_ref k p of None \<Rightarrow> True | Some a \<Rightarrow> heap s a \<noteq> None)"

lemma shade_pointee_alone:
  assumes "valid_ptr k p s"
  shows "\<exists>s'. shade_pointee k p g (s, []) = Some (Inr (to_shade k p g s \<noteq> []), s', []) \<and>
    scheduled g (to_shade k p g s) s s'"
proof (cases "as_ref k p")
  case None
  then show ?thesis by (simp add: shade_pointee_def to_shade_def act_simps)
next
  case (Some a)
  then obtain obj where obj: "heap s a = Some obj" using assms by (auto simp: valid_ptr_def)
  obtain s' where "schedule_mark a g (s, []) = Some (Inr (), s', [])" "scheduled g [a] s s'"
    using schedule_mark_alone by blast
  then show ?thesis using Some obj
    by (auto simp: shade_pointee_def to_shade_def is_marked_alone act_simps)
qed

lemma barrier_alone:
  assumes "valid_ptr k p s"
  shows "\<exists>s'. bind (shade_pointee k p g) (\<lambda>_. ret ()) (s, []) = Some (Inr (), s', []) \<and>
    scheduled g (to_shade k p g s) s s'"
  using shade_pointee_alone [OF assms, of g] by (auto simp: act_simps)

section \<open>Counting the references of a link\<close>

definition adjust_count :: "nat \<Rightarrow> (obj_meta \<Rightarrow> obj_meta) \<Rightarrow> man_ptr \<Rightarrow> 'v rt \<Rightarrow> 'v rt" where
  "adjust_count k f p s =
     (case as_ref k p of
        None \<Rightarrow> s
      | Some a \<Rightarrow> (case heap s a of None \<Rightarrow> s | Some obj \<Rightarrow> set_header a (f (header obj)) s))"

abbreviation count_up :: "nat \<Rightarrow> man_ptr \<Rightarrow> 'v rt \<Rightarrow> 'v rt" where
  "count_up k \<equiv> adjust_count k (\<lambda>h. fst (increment_root_count h))"

abbreviation count_down :: "nat \<Rightarrow> man_ptr \<Rightarrow> 'v rt \<Rightarrow> 'v rt" where
  "count_down k \<equiv> adjust_count k (\<lambda>h. fst (decrement_root_count h))"

text \<open>The header at an address, and the number of roots that it counts.\<close>

definition header_at :: "'v rt \<Rightarrow> usize \<Rightarrow> obj_meta option" where
  "header_at s a = map_option header (heap s a)"

definition roots_at :: "'v rt \<Rightarrow> usize \<Rightarrow> usize option" where
  "roots_at s a = map_option root_count (header_at s a)"

definition color_at :: "'v rt \<Rightarrow> usize \<Rightarrow> color option" where
  "color_at s a = map_option marked (header_at s a)"

lemma set_header_fields [simp]:
  "cells (set_header a h s) = cells s" "locals (set_header a h s) = locals s"
  "global_epoch (set_header a h s) = global_epoch s"
  "thread_epoch (set_header a h s) u = thread_epoch s u"
  by (auto simp: set_header_def thread_epoch_def split: option.splits)

lemma adjust_count_fields [simp]:
  "cells (adjust_count k f p s) = cells s" "locals (adjust_count k f p s) = locals s"
  "global_epoch (adjust_count k f p s) = global_epoch s"
  "thread_epoch (adjust_count k f p s) u = thread_epoch s u"
  by (auto simp: adjust_count_def split: option.splits)

lemma header_at_adjust:
  "header_at (adjust_count k f p s) a =
     (if as_ref k p = Some a then map_option f (header_at s a) else header_at s a)"
  by (auto simp: header_at_def adjust_count_def set_header_def split: option.splits)

lemma header_at_write_link [simp]: "header_at (write_link l p s) a = header_at s a"
  by (simp add: header_at_def write_link_header)

lemma read_link_set_header: "read_link l (set_header a h s) = read_link l s"
  by (cases l) (auto simp: read_link_def set_header_def split: option.splits)

lemma read_link_adjust [simp]: "read_link l (adjust_count k f p s) = read_link l s"
  by (auto simp: adjust_count_def read_link_set_header split: option.splits)

lemma header_at_scheduled: "scheduled g as s s' \<Longrightarrow> header_at s' a = header_at s a"
  by (simp add: header_at_def scheduled_fields(1))

lemma valid_ptr_header: "valid_ptr k p s \<longleftrightarrow> (\<forall>a. as_ref k p = Some a \<longrightarrow> header_at s a \<noteq> None)"
  by (auto simp: valid_ptr_def header_at_def split: option.splits)

lemma to_shade_header:
  "to_shade k p g s =
     (case as_ref k p of None \<Rightarrow> [] | Some a \<Rightarrow>
        if color_at s a = Some (black_of s g) \<or> header_at s a = None then [] else [a])"
  by (auto simp: to_shade_def color_at_def header_at_def split: option.splits)


lemma color_at_adjust:
  "(\<And>h. header_at s a = Some h \<Longrightarrow> marked (f h) = marked h) \<Longrightarrow> color_at (adjust_count k f p s) a = color_at s a"
  by (cases "header_at s a") (auto simp: color_at_def header_at_adjust)

lemma fetch_header_alone:
  "heap s a = Some obj \<Longrightarrow>
   fetch_header a f (s, []) = Some (Inr (snd (f (header obj))), set_header a (fst (f (header obj))) s, [])"
  by (simp add: fetch_header_run)

abbreviation global_phase :: "'v rt \<Rightarrow> phase outcome" where
  "global_phase s \<equiv> epoch_phase (atomic_epoch_load (global_epoch s))"

lemma global_phase_alone [act_simps]: "global_phase_with_fence (s, []) = Some (global_phase s, s, [])"
  by (simp add: global_phase_with_fence_def load_epoch_def act_simps)

section \<open>One exchange of a rooted link\<close>

text \<open>
  What the loss of a reference by a rooted link schedules: the object, if this was its last root and
  the collector is tracing.
\<close>

definition deletion_marks :: "nat \<Rightarrow> man_ptr \<Rightarrow> guard \<Rightarrow> 'v rt \<Rightarrow> usize list" where
  "deletion_marks k old g s =
     (if (\<exists>a. as_ref k old = Some a \<and> roots_at s a = Some 1) \<and> global_phase s \<noteq> Inr N
      then to_shade k old g s else [])"

text \<open>Headers whose count is positive and headers whose count can still be incremented.\<close>

definition counted :: "nat \<Rightarrow> man_ptr \<Rightarrow> 'v rt \<Rightarrow> bool" where
  "counted k p s \<longleftrightarrow> (\<forall>a. as_ref k p = Some a \<longrightarrow> (\<exists>h. header_at s a = Some h \<and> 0 < root_count h))"

definition countable_ptr :: "nat \<Rightarrow> man_ptr \<Rightarrow> 'v rt \<Rightarrow> bool" where
  "countable_ptr k p s \<longleftrightarrow>
     (\<forall>a. as_ref k p = Some a \<longrightarrow> (\<exists>h. header_at s a = Some h \<and> root_count h < ROOT_COUNT_MASK))"

lemma counted_valid: "counted k p s \<Longrightarrow> valid_ptr k p s"
  by (auto simp: counted_def valid_ptr_header)

lemma countable_valid: "countable_ptr k p s \<Longrightarrow> valid_ptr k p s"
  by (auto simp: countable_ptr_def valid_ptr_header)

lemma to_shade_count_down:
  assumes "counted k p s"
  shows "to_shade k p g (count_down k p s) = to_shade k p g s"
proof (cases "as_ref k p")
  case (Some a)
  then obtain h where h: "header_at s a = Some h" "0 < root_count h"
    using assms by (auto simp: counted_def)
  have "marked (fst (decrement_root_count h)) = marked h"
    using decrement_root_count_fields(3) [OF h(2)] by (metis prod.collapse)
  then have "color_at (count_down k p s) a = color_at s a"
    using h by (intro color_at_adjust) simp
  then show ?thesis using Some h
    by (simp add: to_shade_header header_at_adjust)
qed (simp add: to_shade_header)

lemma decrement_alone:
  assumes "as_ref k p = Some a" "heap s a = Some obj"
  shows "obj_decrement_root_count a (s, []) = Some (Inr (root_count (header obj)), count_down k p s, [])"
  using assms
  by (simp add: obj_decrement_root_count_def fetch_header_alone adjust_count_def)
    (simp add: decrement_root_count_def)

lemma increment_alone:
  assumes "as_ref k p = Some a" "heap s a = Some obj"
  shows "obj_increment_root_count a (s, []) = Some (Inr (root_count (header obj)), count_up k p s, [])"
  using assms
  by (simp add: obj_increment_root_count_def fetch_header_alone adjust_count_def)
    (simp add: increment_root_count_def)

lemma try_inc_raw_alone:
  assumes "valid_ptr k p s"
  shows "try_inc_raw k p (s, []) = Some (Inr (map_option (\<lambda>_. with_meta Rooted p) (as_ref k p)), count_up k p s, [])"
proof (cases "as_ref k p")
  case None
  then show ?thesis by (simp add: try_inc_raw_def act_simps adjust_count_def)
next
  case (Some a)
  then obtain obj where "heap s a = Some obj" using assms by (auto simp: valid_ptr_def)
  from increment_alone [OF Some this] show ?thesis
    using Some by (simp add: try_inc_raw_def act_simps)
qed

lemma release_alone:
  assumes "counted k old s" "global_phase s = Inr ph" "as_ref k old = Some a"
  shows "\<exists>s'. bind (obj_decrement_root_count a) (\<lambda>count.
      seq (if count = 1 then
             bind global_phase_with_fence (\<lambda>phase.
             act_when (phase \<noteq> N) (bind (shade_pointee k old g) (\<lambda>_. ret ())))
           else ret ())
          (ret r)) (s, []) = Some (Inr r, s', []) \<and>
    scheduled g (deletion_marks k old g s) (count_down k old s) s'"
proof -
  obtain obj where obj: "heap s a = Some obj"
    using counted_valid [OF assms(1)] assms(3) by (auto simp: valid_ptr_def)
  have "valid_ptr k old (count_down k old s)"
    using counted_valid [OF assms(1)] by (auto simp: valid_ptr_header header_at_adjust)
  then obtain s' where b: "bind (shade_pointee k old g) (\<lambda>_. ret ()) (count_down k old s, []) = Some (Inr (), s', [])"
    "scheduled g (to_shade k old g s) (count_down k old s) s'"
    using barrier_alone [of k old "count_down k old s" g] to_shade_count_down [OF assms(1), of g]
    by (auto simp del: bind_run)
  have "deletion_marks k old g s = (if root_count (header obj) = 1 \<and> ph \<noteq> N then to_shade k old g s else [])"
    using obj assms by (simp add: deletion_marks_def roots_at_def header_at_def)
  then show ?thesis
    using b assms(2) by (auto simp: act_simps decrement_alone [OF assms(3) obj])
qed

lemma cmpxchg_rooted_alone:
  assumes "read_link l s = Inr old" "counted k old s" "global_phase s = Inr ph"
  shows "\<exists>s'. internal_cmpxchg_rooted k None l old new g (s, []) = Some (Inr (Inr old), s', []) \<and>
    scheduled g (deletion_marks k old g s) (count_down k old (write_link l new s)) s'"
proof -
  let ?s = "write_link l new s"
  have w: "counted k old ?s" "global_phase ?s = Inr ph" "thread_epoch ?s u = thread_epoch s u" for u
    using assms by (simp_all add: counted_def thread_epoch_def)
  then have m: "deletion_marks k old g ?s = deletion_marks k old g s"
    by (simp add: deletion_marks_def to_shade_header roots_at_def color_at_def split: option.split)
  have cas: "link_cas None l old new (s, []) = Some (Inr (Inr old), ?s, [])"
    using assms(1) by (simp add: link_cas_def link_compare_exchange_run)
  show ?thesis
  proof (cases "as_ref k old")
    case None
    then show ?thesis
      by (simp add: internal_cmpxchg_rooted_def act_simps cas deletion_marks_def adjust_count_def)
  next
    case (Some a)
    then show ?thesis
      using release_alone [OF w(1,2) Some, of g "Inr old"]
      by (simp add: internal_cmpxchg_rooted_def bind_run(1) cas m)
  qed
qed


section \<open>One exchange of an unrooted link\<close>

text \<open>
  What an exchange of an unrooted link schedules: nothing if the address stays the same; the new
  object if the link is already black (Dijkstra's insertion barrier); the old object if the link is
  still white and the collector is tracing (Yuasa's deletion barrier).
\<close>

definition barrier_marks :: "nat \<Rightarrow> man_ptr \<Rightarrow> man_ptr \<Rightarrow> guard \<Rightarrow> 'v rt \<Rightarrow> usize list" where
  "barrier_marks k old new g s =
     (if as_ptr k old = as_ptr k new then []
      else if unrooted_color_unchecked old = black_of s g then to_shade k new g s
      else if global_phase s \<noteq> Inr N then to_shade k old g s
      else [])"

lemma scheduled_write_link:
  assumes "scheduled g as s s'"
  shows "scheduled g as (write_link l w s) (write_link l w s')"
proof -
  have c: "without_scheduling g (write_link l w s) = write_link l w (without_scheduling g s)" for s :: "'v rt"
    by (cases l) (simp_all add: without_scheduling_def write_link_def split: option.splits)
  show ?thesis using assms by (simp add: scheduled_def c)
qed

lemma neq_flip_iff: "(c :: color) \<noteq> flip d \<longleftrightarrow> c = d"
  by (cases c; cases d) simp_all

lemma cmpxchg_unrooted_once_alone:
  assumes l: "read_link l s = Inr old" and v: "valid_ptr k old s" "valid_ptr k new s"
    and ph: "global_phase s = Inr ph"
  shows "\<exists>s'. internal_cmpxchg_unrooted_once k None l old new g (s, []) = Some (Inr (Inr old), s', []) \<and>
    scheduled g (barrier_marks k old new g s)
      (write_link l (with_meta (Unrooted (unrooted_color_unchecked old)) new) s) s'"
proof -
  let ?c = "unrooted_color_unchecked old" and ?differ = "as_ptr k old \<noteq> as_ptr k new"
  let ?w = "with_meta (Unrooted ?c) new"
  have cas: "read_link l s1 = Inr old \<Longrightarrow> link_cas None l old q (s1, []) = Some (Inr (Inr old), write_link l q s1, [])"
    for s1 :: "'a rt" and q
    by (simp add: link_cas_def link_compare_exchange_run)
  show ?thesis
  proof (cases "?c = black_of s g")
    case black: True
    have nw: "?c \<noteq> epoch_color (thread_epoch s (g_local g))" using black by (cases ?c) auto
    obtain s1 where s1: "bind (shade_pointee k new g) (\<lambda>_. ret ()) (s, []) = Some (Inr (), s1, [])"
      "scheduled g (to_shade k new g s) s s1"
      using barrier_alone [OF v(2)] by blast
    let ?s1 = "if ?differ then s1 else s"
    have sch: "scheduled g (barrier_marks k old new g s) s ?s1"
      using s1(2) black by (simp add: barrier_marks_def)
    then have r: "read_link l ?s1 = Inr old" and e: "thread_epoch ?s1 u = thread_epoch s u" for u
      using l scheduled_memory scheduled_fields(4) by metis+
    have "act_when (?differ \<and> ?c = black_of s g) (dijkstra_insertion_barrier k new g) (s, []) =
        Some (Inr (), ?s1, [])"
      using black s1(1) by (simp add: act_simps dijkstra_insertion_barrier_def)
    then have "internal_cmpxchg_unrooted_once k None l old new g (s, []) =
        Some (Inr (Inr old), write_link l ?w ?s1, [])"
      using cas [OF r] nw e [of "g_local g"]
      by (simp add: internal_cmpxchg_unrooted_once_def Let_def act_simps thread_epoch_def)
    then show ?thesis using scheduled_write_link [OF sch] by blast
  next
    case white: False
    then have wc: "?c = epoch_color (thread_epoch s (g_local g))" by (simp add: neq_flip_iff)
    let ?s1 = "write_link l ?w s"
    have "valid_ptr k old ?s1" using v(1) by (simp add: valid_ptr_header)
    then obtain s2 where s2: "bind (shade_pointee k old g) (\<lambda>_. ret ()) (?s1, []) = Some (Inr (), s2, [])"
      "scheduled g (to_shade k old g ?s1) ?s1 s2"
      using barrier_alone by blast
    have t: "to_shade k old g ?s1 = to_shade k old g s"
      by (simp add: to_shade_header color_at_def thread_epoch_def split: option.split)
    have "internal_cmpxchg_unrooted_once k None l old new g (s, []) =
        Some (Inr (Inr old), if ?differ \<and> ph \<noteq> N then s2 else ?s1, [])"
      using cas [OF l] wc white s2(1) ph
      by (simp add: internal_cmpxchg_unrooted_once_def Let_def act_simps thread_epoch_def
          yuasa_deletion_barrier_def)
    moreover have "scheduled g (barrier_marks k old new g s) ?s1 (if ?differ \<and> ph \<noteq> N then s2 else ?s1)"
      using s2(2) white ph by (simp add: barrier_marks_def t)
    ultimately show ?thesis by blast
  qed
qed

lemma cmpxchg_unrooted_alone:
  assumes "read_link l s = Inr old" "valid_ptr k old s" "valid_ptr k new s" "global_phase s = Inr ph"
  shows "\<exists>s'. internal_cmpxchg_unrooted k l old new g (s, []) = Some (Inr (Inr old), s', []) \<and>
    scheduled g (barrier_marks k old new g s)
      (write_link l (with_meta (Unrooted (unrooted_color_unchecked old)) new) s) s'"
  using cmpxchg_unrooted_once_alone [OF assms, of g]
  by (subst internal_cmpxchg_unrooted.simps) (auto simp: act_simps)

section \<open>Swap\<close>

lemma internal_swap_unrooted_alone:
  assumes "read_link l s = Inr old" "ptr_meta_of old \<noteq> Rooted"
    "valid_ptr k old s" "valid_ptr k new s" "global_phase s = Inr ph"
  shows "\<exists>s'. internal_swap k l new g (s, []) = Some (Inr old, s', []) \<and>
    scheduled g (barrier_marks k old new g s)
      (write_link l (with_meta (Unrooted (unrooted_color_unchecked old)) new) s) s'"
proof -
  obtain s' where "internal_cmpxchg_unrooted k l old new g (s, []) = Some (Inr (Inr old), s', [])"
    "scheduled g (barrier_marks k old new g s)
      (write_link l (with_meta (Unrooted (unrooted_color_unchecked old)) new) s) s'"
    using cmpxchg_unrooted_alone [OF assms(1,3,4,5)] by blast
  then show ?thesis using assms(1,2)
    by (auto simp: internal_swap_def link_load_def act_simps swap_unrooted_loop.simps)
qed

lemma root_count_succ: "root_count h + 1 \<noteq> 0"
  using root_count_le [of h] by (auto simp: add_eq_0_iff2 unsigned_minus_1_eq_mask mask_eq_exp_minus_1)

lemma counted_count_up:
  assumes "counted k p s" "countable_ptr k q s"
  shows "counted k p (count_up k q s)"
  unfolding counted_def
proof (intro allI impI)
  fix a assume a: "as_ref k p = Some a"
  then obtain h where h: "header_at s a = Some h" "0 < root_count h"
    using assms(1) by (auto simp: counted_def)
  show "\<exists>h. header_at (count_up k q s) a = Some h \<and> 0 < root_count h"
  proof (cases "as_ref k q = Some a")
    case True
    then have "root_count h < ROOT_COUNT_MASK" using h assms(2) by (auto simp: countable_ptr_def)
    then have "root_count (fst (increment_root_count h)) = root_count h + 1" "root_count h + 1 \<noteq> 0"
      using increment_root_count_fields(2) [of h] root_count_succ [of h] by (metis prod.collapse)+
    then show ?thesis using True h by (simp add: header_at_adjust word_gt_0)
  qed (use h in \<open>simp add: header_at_adjust\<close>)
qed

lemma internal_swap_rooted_alone:
  assumes l: "read_link l s = Inr old" and m: "ptr_meta_of old = Rooted"
    and c: "counted k old s" "countable_ptr k new s" and ph: "global_phase s = Inr ph"
  shows "\<exists>s'. internal_swap k l new g (s, []) = Some (Inr old, s', []) \<and>
    scheduled g (deletion_marks k old g (count_up k new s))
      (count_down k old (write_link l (with_meta Rooted new) (count_up k new s))) s'"
proof -
  let ?s = "count_up k new s"
  obtain s' where "internal_cmpxchg_rooted k None l old (with_meta Rooted new) g (?s, []) = Some (Inr (Inr old), s', [])"
    "scheduled g (deletion_marks k old g ?s) (count_down k old (write_link l (with_meta Rooted new) ?s)) s'"
    using cmpxchg_rooted_alone [of l ?s old k ph "with_meta Rooted new" g] l ph counted_count_up [OF c]
    by auto
  then show ?thesis using l m try_inc_raw_alone [OF countable_valid [OF c(2)]]
    by (auto simp: internal_swap_def link_load_def act_simps swap_rooted_loop.simps)
qed


section \<open>The pointer that is stored\<close>

definition local_ok :: "nat \<Rightarrow> local_ptr option \<Rightarrow> bool" where
  "local_ok k new \<longleftrightarrow> (case new of None \<Rightarrow> True | Some a \<Rightarrow> addr_ok k a)"

lemma as_ref_updates [ptr_simps]:
  "as_ref k (with_meta m p) = as_ref k p" "as_ref k (with_tag k t p) = as_ref k p"
  "as_ref k (without_meta p) = as_ref k p"
  by (simp_all add: as_ref_def ptr_is_null_def ptr_simps)

lemma as_ref_local: "local_ok k new \<Longrightarrow> as_ref k (man_ptr_from_local new) = new"
  by (auto simp: as_ref_def ptr_is_null_def local_ok_def addr_ok_def man_ptr_from_local_def as_ptr_def
      null_base_def man_ptr_from_def split: option.splits)

lemma adjust_count_cong: "as_ref k p = as_ref k q \<Longrightarrow> adjust_count k f p s = adjust_count k f q s"
  by (simp add: adjust_count_def)

lemma roots_at_count_up:
  assumes "countable_ptr k p s"
  shows "roots_at (count_up k p s) a = map_option (\<lambda>n. n + of_bool (as_ref k p = Some a)) (roots_at s a)"
    and "color_at (count_up k p s) a = color_at s a"
proof -
  have f: "root_count (fst (increment_root_count h)) = root_count h + 1 \<and> marked (fst (increment_root_count h)) = marked h"
    if "as_ref k p = Some a" "header_at s a = Some h" for h
    using assms that increment_root_count_fields(2,3) [of h] by (metis countable_ptr_def option.inject prod.collapse)
  show "roots_at (count_up k p s) a = map_option (\<lambda>n. n + of_bool (as_ref k p = Some a)) (roots_at s a)"
    "color_at (count_up k p s) a = color_at s a"
    using f by (cases "header_at s a"; simp add: roots_at_def color_at_def header_at_adjust)+
qed

lemma roots_at_count_down:
  assumes "counted k p s"
  shows "roots_at (count_down k p s) a = map_option (\<lambda>n. n - of_bool (as_ref k p = Some a)) (roots_at s a)"
    and "color_at (count_down k p s) a = color_at s a"
proof -
  have f: "root_count (fst (decrement_root_count h)) = root_count h - 1 \<and> marked (fst (decrement_root_count h)) = marked h"
    if "as_ref k p = Some a" "header_at s a = Some h" for h
    using assms that decrement_root_count_fields(2,3) [of h] by (metis counted_def option.inject prod.collapse)
  show "roots_at (count_down k p s) a = map_option (\<lambda>n. n - of_bool (as_ref k p = Some a)) (roots_at s a)"
    "color_at (count_down k p s) a = color_at s a"
    using f by (cases "header_at s a"; simp add: roots_at_def color_at_def header_at_adjust)+
qed

lemma load_stored:
  assumes "align_ok k" "local_ok k new" "read_link l s = Inr (with_meta m (with_tag k tag (man_ptr_from_local new)))"
  shows "load_with_tag k l (s, []) = Some (Inr (new, take_bit k tag), s, [])"
  using assms as_local_with_tag_from [of k new m tag]
  by (cases new) (auto simp: load_with_tag_def link_load_def act_simps man_ptr_from_local_tag_def
      align_ok_def local_ok_def)

lemma deletion_marks_count_up:
  assumes "countable_ptr k new s" "global_phase s = Inr ph"
  shows "deletion_marks k old g (count_up k new s) =
    (case as_ref k old of
       None \<Rightarrow> []
     | Some a \<Rightarrow>
         if roots_at (count_up k new s) a = Some 1 \<and> ph \<noteq> N \<and> color_at s a \<noteq> Some (black_of s g)
         then [a] else [])"
  using assms roots_at_count_up(2) [OF assms(1)]
  by (auto simp: deletion_marks_def to_shade_header roots_at_def split: option.split)

text \<open>A word that fits in the count stays apart from its neighbours.\<close>

lemma count_stays_one:
  assumes "counted k old s" "countable_ptr k new s" "as_ref k old = Some a"
  shows "roots_at (count_up k new s) a = Some 1 \<longleftrightarrow> roots_at s a = Some 1 \<and> as_ref k new \<noteq> Some a"
proof -
  obtain h where "header_at s a = Some h" "0 < root_count h" using assms(1,3) by (auto simp: counted_def)
  then show ?thesis using roots_at_count_up(1) [OF assms(2), of a]
    by (cases "as_ref k new = Some a") (auto simp: roots_at_def)
qed

section \<open>Bitwise updates of a link word\<close>

lemma link_fetch_alone:
  "read_link l s = Inr p \<Longrightarrow>
   link_fetch l f (s, []) = Some (Inr p, write_link l (man_ptr_from (f (ptr_data p))) s, [])"
  by (simp add: link_fetch_def act_simps)

lemma low_bits_or:
  assumes "k < 62"
  shows "as_ptr k (man_ptr_from (ptr_data p OR (tag AND LOW_BITS k))) = as_ptr k p"
    "ptr_meta_of (man_ptr_from (ptr_data p OR (tag AND LOW_BITS k))) = ptr_meta_of p"
    "ptr_tag k (man_ptr_from (ptr_data p OR (tag AND LOW_BITS k))) = ptr_tag k p OR take_bit k tag"
  using assms by (auto simp: ptr_bits man_ptr_from_def ptr_layout(3) bit_simps intro!: bit_word_eqI)

lemma low_bits_xor:
  assumes "k < 62"
  shows "as_ptr k (man_ptr_from (ptr_data p XOR (tag AND LOW_BITS k))) = as_ptr k p"
    "ptr_meta_of (man_ptr_from (ptr_data p XOR (tag AND LOW_BITS k))) = ptr_meta_of p"
    "ptr_tag k (man_ptr_from (ptr_data p XOR (tag AND LOW_BITS k))) = ptr_tag k p XOR take_bit k tag"
  using assms by (auto simp: ptr_bits man_ptr_from_def ptr_layout(3) bit_simps intro!: bit_word_eqI)

lemma low_bits_and:
  assumes "k < 62"
  shows "as_ptr k (man_ptr_from (ptr_data p AND (tag AND LOW_BITS k))) = 0"
    "ptr_meta_of (man_ptr_from (ptr_data p AND (tag AND LOW_BITS k))) = Rooted"
    "ptr_tag k (man_ptr_from (ptr_data p AND (tag AND LOW_BITS k))) = ptr_tag k p AND tag"
  using assms by (auto simp: ptr_bits man_ptr_from_def ptr_layout(3) bit_simps intro!: bit_word_eqI)

section \<open>Compare-exchange\<close>

text \<open>When the link holds the expected word, both exchanges end like a swap.\<close>

lemma cas_rooted_alone:
  assumes l: "read_link l s = Inr old" and ph: "global_phase s = Inr ph" and m: "ptr_meta_of old = Rooted"
    and c: "counted k old s" "countable_ptr k (man_ptr_from_local (fst new_tag)) s"
    and same: "without_meta old = man_ptr_from_local_tag k cur_tag"
  shows "\<exists>s'. swap_with_tag k l (fst new_tag) (snd new_tag) g (s, []) = Some (Inr (as_local_with_tag k old), s', []) \<and>
    compare_exchange_with_tag k l cur_tag new_tag g (s, []) = Some (Inr (Inr (as_local_with_tag k old)), s', []) \<and>
    compare_exchange_weak_with_tag k False l cur_tag new_tag g (s, []) = Some (Inr (Inr (as_local_with_tag k old)), s', [])"
proof -
  let ?raw = "man_ptr_from_local (fst new_tag)" and ?new = "man_ptr_from_local_tag k new_tag"
  let ?s = "count_up k ?new s" and ?w = "with_meta Rooted ?new"
  have new: "?new = with_tag k (snd new_tag) ?raw" by (simp add: man_ptr_from_local_tag_def)
  have load: "link_load l (s, []) = Some (Inr old, s, [])" using l by (simp add: link_load_def act_simps)
  have cn: "countable_ptr k ?new s" using c(2) by (simp add: new countable_ptr_def ptr_simps)
  have up: "count_up k ?raw s = ?s" by (rule adjust_count_cong) (simp add: new ptr_simps)
  obtain s' where x: "internal_cmpxchg_rooted k None l old ?w g (?s, []) = Some (Inr (Inr old), s', [])"
    using cmpxchg_rooted_alone [of l ?s old k ph ?w g] l ph counted_count_up [OF c(1) cn] by auto
  then have w: "internal_cmpxchg_rooted k (Some False) l old ?w g (?s, []) = Some (Inr (Inr old), s', [])"
    by (simp add: internal_cmpxchg_rooted_def link_cas_def link_compare_exchange_weak_def)
  have inc: "try_inc_raw k ?raw (s, []) = Some (Inr (map_option (\<lambda>_. with_meta Rooted ?raw) (as_ref k ?raw)), ?s, [])"
    "try_inc_raw k ?new (s, []) = Some (Inr (map_option (\<lambda>_. ?w) (as_ref k ?new)), ?s, [])"
    using try_inc_raw_alone [OF countable_valid [OF c(2)]] try_inc_raw_alone [OF countable_valid [OF cn]] up
    by simp_all
  have "swap_with_tag k l (fst new_tag) (snd new_tag) g (s, []) = Some (Inr (as_local_with_tag k old), s', [])"
    using m x load inc(2)
    by (simp add: swap_with_tag_def internal_swap_def act_simps swap_rooted_loop.simps new [symmetric])
  moreover have "compare_exchange_with_tag k l cur_tag new_tag g (s, []) = Some (Inr (Inr (as_local_with_tag k old)), s', [])"
    using m x load inc(1) same
    by (simp add: compare_exchange_with_tag_def internal_cmpxchg_strong_rooted_def Let_def act_simps)
  moreover have "compare_exchange_weak_with_tag k False l cur_tag new_tag g (s, []) =
      Some (Inr (Inr (as_local_with_tag k old)), s', [])"
    using m w load inc(1) same
    by (simp add: compare_exchange_weak_with_tag_def internal_cmpxchg_weak_rooted_def Let_def act_simps)
  ultimately show ?thesis by blast
qed

lemma cas_unrooted_alone:
  assumes l: "read_link l s = Inr old" and ph: "global_phase s = Inr ph" and m: "ptr_meta_of old \<noteq> Rooted"
    and v: "valid_ptr k old s" "valid_ptr k (man_ptr_from_local (fst new_tag)) s"
    and same: "without_meta old = man_ptr_from_local_tag k cur_tag"
  shows "\<exists>s'. swap_with_tag k l (fst new_tag) (snd new_tag) g (s, []) = Some (Inr (as_local_with_tag k old), s', []) \<and>
    compare_exchange_with_tag k l cur_tag new_tag g (s, []) = Some (Inr (Inr (as_local_with_tag k old)), s', []) \<and>
    compare_exchange_weak_with_tag k False l cur_tag new_tag g (s, []) = Some (Inr (Inr (as_local_with_tag k old)), s', [])"
proof -
  let ?new = "man_ptr_from_local_tag k new_tag"
  have new: "?new = with_tag k (snd new_tag) (man_ptr_from_local (fst new_tag))"
    by (simp add: man_ptr_from_local_tag_def)
  have load: "link_load l (s, []) = Some (Inr old, s, [])" using l by (simp add: link_load_def act_simps)
  have vn: "valid_ptr k ?new s" using v(2) by (simp add: new valid_ptr_header ptr_simps)
  obtain s' where x: "internal_cmpxchg_unrooted_once k None l old ?new g (s, []) = Some (Inr (Inr old), s', [])"
    using cmpxchg_unrooted_once_alone [OF l v(1) vn ph] by blast
  then have w: "internal_cmpxchg_unrooted_once k (Some False) l old ?new g (s, []) = Some (Inr (Inr old), s', [])"
    by (simp add: internal_cmpxchg_unrooted_once_def link_cas_def link_compare_exchange_weak_def)
  have u: "internal_cmpxchg_unrooted k l old ?new g (s, []) = Some (Inr (Inr old), s', [])"
    using x by (subst internal_cmpxchg_unrooted.simps) (simp add: act_simps)
  have "swap_with_tag k l (fst new_tag) (snd new_tag) g (s, []) = Some (Inr (as_local_with_tag k old), s', [])"
    using m u load
    by (simp add: swap_with_tag_def internal_swap_def act_simps swap_unrooted_loop.simps new [symmetric])
  moreover have "compare_exchange_with_tag k l cur_tag new_tag g (s, []) = Some (Inr (Inr (as_local_with_tag k old)), s', [])"
    using m u load same by (simp add: compare_exchange_with_tag_def cas_result_def act_simps)
  moreover have "compare_exchange_weak_with_tag k False l cur_tag new_tag g (s, []) =
      Some (Inr (Inr (as_local_with_tag k old)), s', [])"
    using m w load same by (simp add: compare_exchange_weak_with_tag_def cas_result_def act_simps)
  ultimately show ?thesis by blast
qed

section \<open>An example state\<close>

text \<open>
  A small state for the witnesses: two objects with one root each, a rooted cell that points to the
  first, each object pointing to the other one, and a collector that is tracing.
\<close>

definition demo_obj :: "usize \<Rightarrow> nat \<Rightarrow> nat mobj" where
  "demo_obj a v = \<lparr>header = new_with_type_id C0 1 0, links = [with_meta (Unrooted C0) (man_ptr_from a)],
     item_val = v, obj_size = 32\<rparr>"

definition demo_rt :: "nat rt" where
  "demo_rt = (global_new None [] [] [])
     \<lparr>heap := [0x1000 \<mapsto> demo_obj 0x2000 7, 0x2000 \<mapsto> demo_obj 0x1000 8],
      cells := [0 \<mapsto> man_ptr_from 0x1000],
      global_epoch := atomic_epoch_new (with_phase RT starting)\<rparr>"

definition demo_guard :: guard where
  "demo_guard = \<lparr>g_local = 0, g_flag = 0\<rparr>"

lemma demo_words:
  "align_ok 3" "addr_ok 3 0x1000" "addr_ok 3 0x2000"
  "ptr_meta_of (man_ptr_from 0x1000) = Rooted"
  "as_local_with_tag 3 (man_ptr_from 0x1000) = (Some 0x1000, 0)"
  "as_ref 3 (man_ptr_from 0x1000) = Some 0x1000"
  "as_ref 3 (man_ptr_from 0x2000) = Some 0x2000"
  by code_simp+

lemma demo_epochs:
  "global_phase demo_rt = Inr RT" "epoch_color (thread_epoch demo_rt u) = C0" "g_local demo_guard = 0"
proof -
  have "epoch_phase (atomic_epoch_load (atomic_epoch_new (with_phase RT starting))) = Inr RT"
    "epoch_color (atomic_epoch_load_non_atomic (atomic_epoch_new starting)) = C0"
    by code_simp+
  then show "global_phase demo_rt = Inr RT" "epoch_color (thread_epoch demo_rt u) = C0"
    by (simp_all add: demo_rt_def global_new_def thread_epoch_def participant_default_def)
qed (simp add: demo_guard_def)

lemma demo_headers:
  "header_at demo_rt a = (if a = 0x1000 \<or> a = 0x2000 then Some (new_with_type_id C0 1 0) else None)"
  "roots_at demo_rt a = (if a = 0x1000 \<or> a = 0x2000 then Some 1 else None)"
  "color_at demo_rt a = (if a = 0x1000 \<or> a = 0x2000 then Some C0 else None)"
  by (auto simp: roots_at_def color_at_def header_at_def demo_rt_def demo_obj_def meta_simps)

lemma demo_counts:
  "as_ref 3 p = Some 0x1000 \<or> as_ref 3 p = Some 0x2000 \<Longrightarrow>
     counted 3 p demo_rt \<and> countable_ptr 3 p demo_rt \<and> valid_ptr 3 p demo_rt"
  by (auto simp: counted_def countable_ptr_def valid_ptr_header demo_headers meta_simps
      ROOT_COUNT_MASK_def meta_layout(4) push_bit_of_1)

lemma demo_tasks: "mark_tasks (locals demo_rt u) = []"
  by (simp add: demo_rt_def global_new_def participant_default_def)

section \<open>Properties\<close>

text \<open>
  C11: a swap on a rooted link that is not disturbed returns the previous pointer and tag; the link
  then holds the new pointer and tag and every other link what it held; the new object counts one
  root more and the old one one less, all other counts and all colours are unchanged; and the old
  object is scheduled for marking exactly when it lost its last root while the collector is tracing
  and it is not marked.
\<close>

theorem swap_rooted_spec:
  assumes "align_ok k" "local_ok k new"
    and "read_link l s = Inr old" "ptr_meta_of old = Rooted"
    and "counted k old s" "countable_ptr k (man_ptr_from_local new) s" "global_phase s = Inr ph"
  shows "\<exists>s'. swap_with_tag k l new tag g (s, []) = Some (Inr (as_local_with_tag k old), s', []) \<and>
    load_with_tag k l (s', []) = Some (Inr (new, take_bit k tag), s', []) \<and>
    (\<forall>l'. l' \<noteq> l \<longrightarrow> read_link l' s' = read_link l' s) \<and>
    (\<forall>a. roots_at s' a =
       map_option (\<lambda>n. n + of_bool (new = Some a) - of_bool (as_ref k old = Some a)) (roots_at s a)) \<and>
    (\<forall>a. color_at s' a = color_at s a) \<and>
    mark_tasks (locals s' (g_local g)) = mark_tasks (locals s (g_local g)) @
      (case as_ref k old of
         None \<Rightarrow> []
       | Some a \<Rightarrow> if roots_at s a = Some 1 \<and> new \<noteq> Some a \<and> ph \<noteq> N \<and> color_at s a \<noteq> Some (black_of s g)
                   then [a] else [])"
proof -
  let ?new = "with_tag k tag (man_ptr_from_local new)"
  let ?up = "count_up k ?new s"
  let ?w = "write_link l (with_meta Rooted ?new) ?up"
  have ref: "as_ref k ?new = new" using as_ref_local [OF assms(2)] by (simp add: ptr_simps)
  have cn: "countable_ptr k ?new s" using assms(6) by (simp add: countable_ptr_def ptr_simps)
  obtain s' where s': "internal_swap k l ?new g (s, []) = Some (Inr old, s', [])"
    "scheduled g (deletion_marks k old g ?up) (count_down k old ?w) s'"
    using internal_swap_rooted_alone [OF assms(3-5) cn assms(7)] by blast
  have rl: "read_link l' s' = read_link l' ?w" for l' using scheduled_memory [OF s'(2)] by simp
  have cw: "counted k old ?w" using counted_count_up [OF assms(5) cn] by (simp add: counted_def)
  have hd: "roots_at s' a = roots_at (count_down k old ?w) a" "color_at s' a = color_at (count_down k old ?w) a"
    "roots_at ?w a = roots_at ?up a" "color_at ?w a = color_at ?up a" for a
    using header_at_scheduled [OF s'(2)] by (simp_all add: roots_at_def color_at_def)
  have "read_link l ?up = Inr old" using assms(3) by simp
  then have "read_link l s' = Inr (with_meta Rooted ?new)"
    unfolding rl by (rule read_write_link)
  moreover have "read_link l' s' = read_link l' s" if "l' \<noteq> l" for l'
    unfolding rl using that by (simp add: read_write_other)
  moreover have "roots_at s' a = map_option (\<lambda>n. n + of_bool (new = Some a) - of_bool (as_ref k old = Some a)) (roots_at s a)"
    "color_at s' a = color_at s a" for a
    using hd roots_at_count_down [OF cw] roots_at_count_up [OF cn]
    by (simp_all add: ref option.map_comp comp_def)
  moreover have "deletion_marks k old g ?up = (case as_ref k old of None \<Rightarrow> []
      | Some a \<Rightarrow> if roots_at s a = Some 1 \<and> new \<noteq> Some a \<and> ph \<noteq> N \<and> color_at s a \<noteq> Some (black_of s g)
                  then [a] else [])"
    using deletion_marks_count_up [OF cn assms(7), of old g] count_stays_one [OF assms(5) cn]
    by (auto simp: ref split: option.split)
  ultimately show ?thesis
    using s' load_stored [OF assms(1,2)] scheduled_fields(5) [OF s'(2)]
    by (auto simp: swap_with_tag_def act_simps)
qed


theorem swap_rooted_spec_witness:
  "\<exists>s'. swap_with_tag 3 (Root_Cell 0) (Some 0x2000) 5 demo_guard (demo_rt, []) =
      Some (Inr (Some 0x1000, 0), s', []) \<and>
    load_with_tag 3 (Root_Cell 0) (s', []) = Some (Inr (Some 0x2000, 5), s', []) \<and>
    roots_at s' 0x1000 = Some 0 \<and> roots_at s' 0x2000 = Some 2 \<and>
    mark_tasks (locals s' 0) = [0x1000]"
proof -
  have "read_link (Root_Cell 0) demo_rt = Inr (man_ptr_from 0x1000)"
    by (simp add: read_link_def demo_rt_def)
  moreover have "local_ok 3 (Some 0x2000)" "man_ptr_from_local (Some 0x2000) = man_ptr_from 0x2000"
    using demo_words(3) by (simp_all add: local_ok_def man_ptr_from_local_def)
  ultimately show ?thesis
    using swap_rooted_spec [of 3 "Some 0x2000" "Root_Cell 0" demo_rt "man_ptr_from 0x1000" RT 5 demo_guard]
      demo_counts [of "man_ptr_from 0x1000"] demo_counts [of "man_ptr_from 0x2000"]
    by (auto simp: demo_words demo_epochs demo_headers demo_tasks)
qed

text \<open>
  C12: a swap on an unrooted link that is not disturbed returns the previous pointer and tag; the link
  keeps its colour and holds the new pointer and tag, every other link and every header is unchanged.
  If the address changes, exactly one barrier applies: a black link schedules the new object (if it is
  not marked), a white link the old object if the collector is tracing (if it is not marked).
\<close>

theorem swap_unrooted_spec:
  assumes "align_ok k" "local_ok k new"
    and "read_link l s = Inr old" "ptr_meta_of old = Unrooted c"
    and "valid_ptr k old s" "valid_ptr k (man_ptr_from_local new) s" "global_phase s = Inr ph"
  shows "\<exists>s'. swap_with_tag k l new tag g (s, []) = Some (Inr (as_local_with_tag k old), s', []) \<and>
    load_with_tag k l (s', []) = Some (Inr (new, take_bit k tag), s', []) \<and>
    (\<exists>w. read_link l s' = Inr w \<and> ptr_meta_of w = Unrooted c) \<and>
    (\<forall>l'. l' \<noteq> l \<longrightarrow> read_link l' s' = read_link l' s) \<and>
    (\<forall>a. header_at s' a = header_at s a) \<and>
    mark_tasks (locals s' (g_local g)) = mark_tasks (locals s (g_local g)) @
      (if as_ref k old = new then []
       else if c = black_of s g then
         (case new of None \<Rightarrow> [] | Some a \<Rightarrow> if color_at s a = Some (black_of s g) then [] else [a])
       else if ph \<noteq> N then
         (case as_ref k old of None \<Rightarrow> [] | Some a \<Rightarrow> if color_at s a = Some (black_of s g) then [] else [a])
       else [])"
proof -
  let ?new = "with_tag k tag (man_ptr_from_local new)"
  let ?w = "with_meta (Unrooted c) ?new"
  have ref: "as_ref k ?new = new" using as_ref_local [OF assms(2)] by (simp add: ptr_simps)
  have vn: "valid_ptr k ?new s" using assms(6) by (simp add: valid_ptr_header ptr_simps)
  have col: "unrooted_color_unchecked old = c" using assms(4) by (rule unrooted_color_meta)
  obtain s' where s': "internal_swap k l ?new g (s, []) = Some (Inr old, s', [])"
    "scheduled g (barrier_marks k old ?new g s) (write_link l ?w s) s'"
    using internal_swap_unrooted_alone [OF assms(3) _ assms(5) vn assms(7)] assms(4) by (auto simp: col)
  have rl: "read_link l' s' = read_link l' (write_link l ?w s)" for l'
    using scheduled_memory [OF s'(2)] .
  have "read_link l s' = Inr ?w" unfolding rl using assms(3) by (rule read_write_link)
  moreover have "read_link l' s' = read_link l' s" if "l' \<noteq> l" for l'
    unfolding rl using that by (simp add: read_write_other)
  moreover have "header_at s' a = header_at s a" for a
    using header_at_scheduled [OF s'(2)] by simp
  moreover have "as_ptr k old = as_ptr k ?new \<longleftrightarrow> as_ref k old = new"
    using ref by (auto simp: as_ref_def ptr_is_null_def split: if_splits)
  then have "barrier_marks k old ?new g s = (if as_ref k old = new then []
       else if c = black_of s g then
         (case new of None \<Rightarrow> [] | Some a \<Rightarrow> if color_at s a = Some (black_of s g) then [] else [a])
       else if ph \<noteq> N then
         (case as_ref k old of None \<Rightarrow> [] | Some a \<Rightarrow> if color_at s a = Some (black_of s g) then [] else [a])
       else [])"
    using assms(5,7) vn by (auto simp: barrier_marks_def col to_shade_header ref valid_ptr_header split: option.split)
  ultimately show ?thesis
    using s' load_stored [OF assms(1,2)] scheduled_fields(5) [OF s'(2)]
    by (auto simp: swap_with_tag_def act_simps ptr_simps thread_epoch_def)
qed

theorem swap_unrooted_spec_witness:
  "\<exists>s'. swap_with_tag 3 (Field 0x1000 0) None 5 demo_guard (demo_rt, []) =
      Some (Inr (Some 0x2000, 0), s', []) \<and>
    load_with_tag 3 (Field 0x1000 0) (s', []) = Some (Inr (None, 5), s', []) \<and>
    mark_tasks (locals s' 0) = [0x2000]"
proof -
  let ?old = "with_meta (Unrooted C0) (man_ptr_from 0x2000)"
  have "read_link (Field 0x1000 0) demo_rt = Inr ?old"
    by (simp add: read_link_def demo_rt_def demo_obj_def)
  moreover have "as_ref 3 ?old = Some 0x2000" "as_local_with_tag 3 ?old = (Some 0x2000, 0)"
    by code_simp+
  moreover have "local_ok 3 None" "valid_ptr 3 (man_ptr_from_local None) demo_rt"
    using as_ref_local [of 3 None] by (simp_all add: local_ok_def valid_ptr_header)
  ultimately show ?thesis
    using swap_unrooted_spec [of 3 None "Field 0x1000 0" demo_rt ?old C0 RT 5 demo_guard]
      demo_counts [of ?old]
    by (auto simp: demo_words demo_epochs demo_headers demo_tasks ptr_simps)
qed

text \<open>
  C13: an undisturbed strong compare-exchange either finds another pointer or tag than the expected one,
  returns it as the error and changes nothing at all, or it does exactly what a swap does; and so does
  the weak one when it does not fail spuriously.
\<close>

theorem compare_exchange_spec:
  assumes "read_link l s = Inr old" "global_phase s = Inr ph"
    and "if ptr_meta_of old = Rooted
         then counted k old s \<and> countable_ptr k (man_ptr_from_local (fst new_tag)) s
         else valid_ptr k old s \<and> valid_ptr k (man_ptr_from_local (fst new_tag)) s"
  shows "compare_exchange_with_tag k l cur_tag new_tag g (s, []) =
      (if without_meta old \<noteq> man_ptr_from_local_tag k cur_tag
       then Some (Inr (Inl (as_local_with_tag k old)), s, [])
       else Some (Inr (Inr (as_local_with_tag k old)), as_env (swap_with_tag k l (fst new_tag) (snd new_tag) g) s, []))
    \<and> compare_exchange_weak_with_tag k False l cur_tag new_tag g (s, []) =
      compare_exchange_with_tag k l cur_tag new_tag g (s, [])"
proof (cases "without_meta old = man_ptr_from_local_tag k cur_tag")
  case True
  then obtain s' where "swap_with_tag k l (fst new_tag) (snd new_tag) g (s, []) = Some (Inr (as_local_with_tag k old), s', [])"
    "compare_exchange_with_tag k l cur_tag new_tag g (s, []) = Some (Inr (Inr (as_local_with_tag k old)), s', [])"
    "compare_exchange_weak_with_tag k False l cur_tag new_tag g (s, []) = Some (Inr (Inr (as_local_with_tag k old)), s', [])"
    using assms cas_rooted_alone [of l s old ph k new_tag cur_tag g] cas_unrooted_alone [of l s old ph k new_tag cur_tag g]
    by (cases "ptr_meta_of old = Rooted") auto
  then show ?thesis using True by (simp add: as_env_def run_def)
next
  case False
  then show ?thesis using assms(1)
    by (simp add: compare_exchange_with_tag_def compare_exchange_weak_with_tag_def link_load_def act_simps)
qed

theorem compare_exchange_spec_witness:
  "compare_exchange_with_tag 3 (Root_Cell 0) (Some 0x2000, 0) (None, 0) demo_guard (demo_rt, []) =
     Some (Inr (Inl (Some 0x1000, 0)), demo_rt, [])"
proof -
  have "read_link (Root_Cell 0) demo_rt = Inr (man_ptr_from 0x1000)"
    by (simp add: read_link_def demo_rt_def)
  moreover have "without_meta (man_ptr_from 0x1000) \<noteq> man_ptr_from_local_tag 3 (Some 0x2000, 0)"
    by code_simp
  moreover have "countable_ptr 3 (man_ptr_from_local None) demo_rt"
    using as_ref_local [of 3 None] by (simp add: local_ok_def countable_ptr_def)
  ultimately show ?thesis
    using compare_exchange_spec [of "Root_Cell 0" demo_rt "man_ptr_from 0x1000" RT 3 "(None, 0)"
        "(Some 0x2000, 0)" demo_guard] demo_counts [of "man_ptr_from 0x1000"]
    by (simp add: demo_words demo_epochs)
qed


text \<open>
  C26: \<^verbatim>\<open>fetch_tag_or\<close> and \<^verbatim>\<open>fetch_tag_xor\<close> return the previous pointer and tag and change only the
  tag of the link: its address and its meta bits stay.
\<close>

theorem fetch_tag_or_xor_spec:
  assumes "align_ok k" "read_link l s = Inr p"
  shows "(\<exists>q s'. fetch_tag_or k l tag (s, []) = Some (Inr (as_local_with_tag k p), s', []) \<and>
      read_link l s' = Inr q \<and> as_ptr k q = as_ptr k p \<and> ptr_meta_of q = ptr_meta_of p \<and>
      ptr_tag k q = ptr_tag k p OR take_bit k tag) \<and>
    (\<exists>q s'. fetch_tag_xor k l tag (s, []) = Some (Inr (as_local_with_tag k p), s', []) \<and>
      read_link l s' = Inr q \<and> as_ptr k q = as_ptr k p \<and> ptr_meta_of q = ptr_meta_of p \<and>
      ptr_tag k q = ptr_tag k p XOR take_bit k tag)"
  using assms link_fetch_alone [OF assms(2)] read_write_link [OF assms(2)]
  by (auto simp: fetch_tag_or_def fetch_tag_xor_def act_simps low_bits_or low_bits_xor align_ok_def)

theorem fetch_tag_or_xor_spec_witness:
  "\<exists>q s'. fetch_tag_or 3 (Root_Cell 0) 13 (demo_rt, []) = Some (Inr (Some 0x1000, 0), s', []) \<and>
     read_link (Root_Cell 0) s' = Inr q \<and> as_ptr 3 q = 0x1000 \<and> ptr_tag 3 q = 5"
proof -
  have "read_link (Root_Cell 0) demo_rt = Inr (man_ptr_from 0x1000)"
    by (simp add: read_link_def demo_rt_def)
  moreover have "as_ptr 3 (man_ptr_from 0x1000) = 0x1000" "ptr_tag 3 (man_ptr_from 0x1000) OR take_bit 3 13 = 5"
    by code_simp+
  ultimately show ?thesis
    using fetch_tag_or_xor_spec [of 3 "Root_Cell 0" demo_rt "man_ptr_from 0x1000" 13]
    by (auto simp: demo_words)
qed

text \<open>
  C27: \<^verbatim>\<open>fetch_tag_and\<close> is documented to leave the address alone, but it masks the whole link word:
  afterwards the link is a rooted null pointer with the combined tag, so that a load finds no object
  and, on an \<^verbatim>\<open>AtomicShared\<close>, unwraps \<^verbatim>\<open>None\<close> without a check.
\<close>

theorem fetch_tag_and_loses_address:
  assumes "align_ok k" "read_link l s = Inr p"
  shows "\<exists>s'. fetch_tag_and k l tag (s, []) = Some (Inr (as_local_with_tag k p), s', []) \<and>
    load_with_tag k l (s', []) = Some (Inr (None, ptr_tag k p AND tag), s', []) \<and>
    as_load k l (s', []) = Some (Inl UnwrapUncheckedNone, s', []) \<and>
    (\<exists>q. read_link l s' = Inr q \<and> ptr_meta_of q = Rooted)"
proof -
  let ?q = "man_ptr_from (ptr_data p AND (tag AND LOW_BITS k))"
  have "read_link l (write_link l ?q s) = Inr ?q" using assms(2) by (rule read_write_link)
  then show ?thesis
    using assms(1) link_fetch_alone [OF assms(2)] low_bits_and [of k p tag]
    by (auto simp: fetch_tag_and_def load_with_tag_def as_load_def load_def link_load_def unwrap_local_def
        as_local_with_tag_def ptr_is_null_def align_ok_def act_simps)
qed

theorem fetch_tag_and_loses_address_witness:
  "\<exists>s'. fetch_tag_and 3 (Root_Cell 0) 7 (demo_rt, []) = Some (Inr (Some 0x1000, 0), s', []) \<and>
     as_load 3 (Root_Cell 0) (s', []) = Some (Inl UnwrapUncheckedNone, s', [])"
proof -
  have "read_link (Root_Cell 0) demo_rt = Inr (man_ptr_from 0x1000)"
    by (simp add: read_link_def demo_rt_def)
  then show ?thesis
    using fetch_tag_and_loses_address [of 3 "Root_Cell 0" demo_rt "man_ptr_from 0x1000" 7]
    by (auto simp: demo_words)
qed

end
