(* ===== verification/Collector.thy ===== *)
theory Collector
  imports Guards
begin

text \<open>
  The collection cycle of \<^verbatim>\<open>src/src/collector.rs\<close>: phase transitions, the scan of the allocated objects
  for roots, the draining of mark tasks, the check for completion, and the sweep. The work of the
  parallel workers is run one worker after the other; what they and the mutators do at the same time
  is the interference of each action. The number of tasks that one steal moves
  (\<^verbatim>\<open>Stealer::steal_batch_with_limit_and_pop\<close> of crossbeam) is the argument \<open>steal_count\<close>.
\<close>

definition LOCAL_MARK_TASKS_BATCH_LIMIT :: nat where "LOCAL_MARK_TASKS_BATCH_LIMIT = 2048"

section \<open>Parallel work on the shards\<close>

text \<open>The contiguous range of shards of one worker; the last one takes the remainder.\<close>

definition shard_range :: "nat \<Rightarrow> nat \<Rightarrow> nat list" where
  "shard_range num_threads thread_idx =
     (let base = OBJ_BATCHES_SHARD div num_threads;
          start = thread_idx * base;
          stop = (if thread_idx = num_threads - 1 then OBJ_BATCHES_SHARD else start + base)
      in [start..<stop])"

definition parallel_shard_work :: "nat \<Rightarrow> (nat \<Rightarrow> nat list \<Rightarrow> ('v rt, unit) act) \<Rightarrow> ('v rt, unit) act" where
  "parallel_shard_work num_threads work =
     for_each [0..<num_threads] (\<lambda>i. work i (shard_range num_threads i))"

section \<open>Phase transitions\<close>

partial_function (option) wait_unpin ::
  "usize \<Rightarrow> nat \<Rightarrow> 'v rt \<times> 'v rt env \<Rightarrow> (unit outcome \<times> 'v rt \<times> 'v rt env) option" where
  "wait_unpin new_ts t se =
     bind (atomic_read (\<lambda>s. atomic_epoch_load (local_epoch (locals s t)))) (\<lambda>local_epoch.
     if \<not> is_pinned local_epoch \<or> new_ts \<le> timestamp local_epoch then ret ()
     else wait_unpin new_ts t) se"

declare wait_unpin.simps [code]

definition wait_all_mutators_unpin :: "usize \<Rightarrow> ('v rt, unit) act" where
  "wait_all_mutators_unpin new_ts =
     iter_using (\<lambda>t _. bind (wait_unpin new_ts t) (\<lambda>_. ret (Inl ()))) ()"

definition store_epoch :: "epoch \<Rightarrow> ('v rt, unit) act" where
  "store_epoch e = atomic_write (\<lambda>s. s\<lparr>global_epoch := atomic_epoch_store e (global_epoch s)\<rparr>)"

definition phase_trans :: "phase \<Rightarrow> ('v rt, unit) act" where
  "phase_trans new =
     bind load_epoch (\<lambda>epoch.
     let new_epoch = with_phase new (with_timestamp (timestamp epoch + 1) epoch) in
     seq (store_epoch new_epoch) (wait_all_mutators_unpin (timestamp new_epoch)))"

section \<open>Root tracing\<close>

definition flush_pending :: "color \<Rightarrow> nat \<Rightarrow> ('v rt, unit) act" where
  "flush_pending white u =
     bind (take_obj_batch u white) (\<lambda>r.
     case r of
       None \<Rightarrow> ret ()
     | Some (batch, size_bytes) \<Rightarrow>
         bind select_obj_shard (\<lambda>shard. push_fresh_objs batch size_bytes white shard))"

definition mark_if_root :: "nat \<Rightarrow> guard \<Rightarrow> usize list \<Rightarrow> usize \<Rightarrow> ('v rt, unit) act" where
  "mark_if_root k g hps obj =
     bind (dyn_root_count obj) (\<lambda>n.
     act_when (n > 0 \<or> obj \<in> set hps) (dyn_mark k obj g))"

partial_function (option) scan_shard ::
  "nat \<Rightarrow> guard \<Rightarrow> usize list \<Rightarrow> color \<Rightarrow> nat \<Rightarrow>
     'v rt \<times> 'v rt env \<Rightarrow> (unit outcome \<times> 'v rt \<times> 'v rt env) option" where
  "scan_shard k g hps white q_idx se =
     bind (pop_fresh white q_idx) (\<lambda>r.
     case r of
       None \<Rightarrow> ret ()
     | Some batch \<Rightarrow>
         bind (for_each batch (mark_if_root k g hps)) (\<lambda>_.
         bind select_obj_shard (\<lambda>marked_q_idx.
         bind (push_marked white marked_q_idx batch) (\<lambda>_.
         scan_shard k g hps white q_idx)))) se"

declare scan_shard.simps [code]

definition scan_worker ::
  "nat \<Rightarrow> (nat \<Rightarrow> nat) \<Rightarrow> nat \<Rightarrow> usize list \<Rightarrow> color \<Rightarrow> nat \<Rightarrow> nat list \<Rightarrow> ('v rt, unit) act" where
  "scan_worker k worker f hps white i shards =
     bind (handle_pin k (worker i) f (Suc f)) (\<lambda>g.
     seq (for_each shards (\<lambda>q_idx. scan_shard k g hps white q_idx)) (guard_drop k g))"

definition scan_allocated_objs :: "nat \<Rightarrow> (nat \<Rightarrow> nat) \<Rightarrow> nat \<Rightarrow> nat \<Rightarrow> ('v rt, unit) act" where
  "scan_allocated_objs k worker t f =
     bind (handle_pin k t f (Suc f)) (\<lambda>g.
     bind (white_color g) (\<lambda>white.
     seq (iter_all (\<lambda>u _. bind (flush_pending white u) (\<lambda>_. ret (Inl ()))) ()) (
     bind collect_hps (\<lambda>hps.
     bind (atomic_read collector_threads) (\<lambda>num_threads.
     seq (parallel_shard_work (unat num_threads) (scan_worker k worker (f + 2) hps white))
         (guard_drop k g))))))"

section \<open>Draining the mark tasks\<close>

datatype steal_result = Empty | Retry | Success usize

definition next_contended :: "('v rt, bool) act" where
  "next_contended =
     bind (gets (\<lambda>s. contended s \<noteq> [] \<and> hd (contended s))) (\<lambda>b.
     seq (modify (\<lambda>s. s\<lparr>contended := tl (contended s)\<rparr>)) (ret b))"

definition steal_batch_and_pop :: "(nat \<Rightarrow> nat \<Rightarrow> nat) \<Rightarrow> nat \<Rightarrow> nat \<Rightarrow> ('v rt, steal_result) act" where
  "steal_batch_and_pop steal_count t u =
     bind next_contended (\<lambda>lost.
     atomic (\<lambda>s. case mark_tasks (locals s u) of
       [] \<Rightarrow> (Inr Empty, s)
     | a # as \<Rightarrow>
         if lost then (Inr Retry, s)
         else let n = steal_count LOCAL_MARK_TASKS_BATCH_LIMIT (length (a # as)) - 1 in
           (Inr (Success a),
            upd_local t (\<lambda>l. l\<lparr>mark_tasks := mark_tasks l @ take n as\<rparr>)
              (upd_local u (\<lambda>l. l\<lparr>mark_tasks := drop n as\<rparr>) s))))"

text \<open>Collecting the attempts: the first success wins, otherwise a retry wins over empty.\<close>

definition steal_from_all :: "(nat \<Rightarrow> nat \<Rightarrow> nat) \<Rightarrow> nat \<Rightarrow> ('v rt, steal_result) act" where
  "steal_from_all steal_count t =
     iter_all (\<lambda>u acc. bind (steal_batch_and_pop steal_count t u) (\<lambda>r.
       ret (case r of Success a \<Rightarrow> Inr (Success a) | Retry \<Rightarrow> Inl Retry | Empty \<Rightarrow> Inl acc))) Empty"

partial_function (option) steal_until ::
  "(nat \<Rightarrow> nat \<Rightarrow> nat) \<Rightarrow> nat \<Rightarrow> 'v rt \<times> 'v rt env \<Rightarrow>
     (usize option outcome \<times> 'v rt \<times> 'v rt env) option" where
  "steal_until steal_count t se =
     bind (steal_from_all steal_count t) (\<lambda>r.
     case r of
       Success a \<Rightarrow> ret (Some a)
     | Empty \<Rightarrow> ret None
     | Retry \<Rightarrow> steal_until steal_count t) se"

declare steal_until.simps [code]

definition find_task :: "(nat \<Rightarrow> nat \<Rightarrow> nat) \<Rightarrow> nat \<Rightarrow> ('v rt, usize option) act" where
  "find_task steal_count t =
     bind (pop_mark_task t) (\<lambda>r. case r of Some a \<Rightarrow> ret (Some a) | None \<Rightarrow> steal_until steal_count t)"

partial_function (option) drain_loop ::
  "nat \<Rightarrow> (nat \<Rightarrow> nat \<Rightarrow> nat) \<Rightarrow> guard \<Rightarrow> bool \<Rightarrow>
     'v rt \<times> 'v rt env \<Rightarrow> (bool outcome \<times> 'v rt \<times> 'v rt env) option" where
  "drain_loop k steal_count g executed se =
     bind (find_task steal_count (g_local g)) (\<lambda>r.
     case r of
       None \<Rightarrow> ret executed
     | Some task \<Rightarrow> bind (obj_mark k task g) (\<lambda>_. drain_loop k steal_count g True)) se"

declare drain_loop.simps [code]

definition drain_mark_tasks :: "nat \<Rightarrow> (nat \<Rightarrow> nat \<Rightarrow> nat) \<Rightarrow> nat \<Rightarrow> nat \<Rightarrow> ('v rt, bool) act" where
  "drain_mark_tasks k steal_count t f =
     bind (handle_pin k t f (Suc f)) (\<lambda>g.
     bind (drain_loop k steal_count g False) (\<lambda>executed.
     seq (guard_drop k g) (ret executed)))"

definition root_tracing ::
  "nat \<Rightarrow> (nat \<Rightarrow> nat \<Rightarrow> nat) \<Rightarrow> (nat \<Rightarrow> nat) \<Rightarrow> nat \<Rightarrow> nat \<Rightarrow> ('v rt, unit) act" where
  "root_tracing k steal_count worker t f =
     seq (phase_trans RT) (
     seq (scan_allocated_objs k worker t f)
         (bind (drain_mark_tasks k steal_count t f) (\<lambda>_. ret ())))"

section \<open>Completion\<close>

definition any_modified :: "usize \<Rightarrow> ('v rt, bool) act" where
  "any_modified curr_ts =
     iter_all (\<lambda>u _. bind (atomic_read (\<lambda>s. mt_modified_ts (locals s u))) (\<lambda>ts.
       ret (if ts = curr_ts then Inr True else Inl False))) False"

definition any_pending :: "('v rt, bool) act" where
  "any_pending =
     iter_all (\<lambda>u _. bind (atomic_read (\<lambda>s. mark_tasks (locals s u))) (\<lambda>tasks.
       ret (if tasks \<noteq> [] then Inr True else Inl False))) False"

definition try_confirm_completion :: "('v rt, bool) act" where
  "try_confirm_completion =
     bind load_epoch (\<lambda>e.
     let curr_ts = timestamp e in
     bind (any_modified curr_ts) (\<lambda>b1.
     if b1 then ret False
     else
       bind any_pending (\<lambda>b2.
       if b2 then ret False
       else bind (any_modified curr_ts) (\<lambda>b3. ret (\<not> b3)))))"

definition completion_tracing ::
  "nat \<Rightarrow> (nat \<Rightarrow> nat \<Rightarrow> nat) \<Rightarrow> nat \<Rightarrow> nat \<Rightarrow> ('v rt, bool) act" where
  "completion_tracing k steal_count t f =
     seq (phase_trans CT) (
     bind try_confirm_completion (\<lambda>fin.
     if fin then ret True
     else bind (drain_mark_tasks k steal_count t f) (\<lambda>_. ret False)))"

partial_function (option) complete_loop ::
  "nat \<Rightarrow> (nat \<Rightarrow> nat \<Rightarrow> nat) \<Rightarrow> nat \<Rightarrow> nat \<Rightarrow>
     'v rt \<times> 'v rt env \<Rightarrow> (unit outcome \<times> 'v rt \<times> 'v rt env) option" where
  "complete_loop k steal_count t f se =
     bind (completion_tracing k steal_count t f) (\<lambda>fin.
     if fin then ret () else complete_loop k steal_count t f) se"

declare complete_loop.simps [code]

section \<open>Sweep\<close>

definition push_survivors :: "color \<Rightarrow> obj_batch \<Rightarrow> ('v rt, unit) act" where
  "push_survivors next_white batch =
     bind select_obj_shard (\<lambda>shard.
     atomic_write (\<lambda>s. s\<lparr>fresh_objs := (fresh_objs s)(next_white :=
       (fresh_objs s next_white)(shard := fresh_objs s next_white shard @ [batch]))\<rparr>))"

text \<open>One object of a batch, with the survivors collected so far and the bytes reclaimed so far.\<close>

definition sweep_obj ::
  "nat \<Rightarrow> color \<Rightarrow> usize \<Rightarrow> obj_batch \<times> usize \<Rightarrow> ('v rt, obj_batch \<times> usize) act" where
  "sweep_obj k prev_white obj acc =
     (case acc of (survived, reclaimed_bytes) \<Rightarrow>
      bind (dyn_color obj) (\<lambda>c.
      if prev_white = c then
        bind (size_of_val obj) (\<lambda>sz. seq (drop_box k obj) (ret (survived, reclaimed_bytes + sz)))
      else
        case push_within_capacity obj survived of
          Some survived' \<Rightarrow> ret (survived', reclaimed_bytes)
        | None \<Rightarrow> seq (push_survivors (flip prev_white) survived) (ret ([obj], reclaimed_bytes))))"

fun sweep_objs ::
  "nat \<Rightarrow> color \<Rightarrow> obj_batch \<Rightarrow> obj_batch \<times> usize \<Rightarrow> ('v rt, obj_batch \<times> usize) act" where
  "sweep_objs k prev_white [] acc = ret acc"
| "sweep_objs k prev_white (obj # batch) acc =
     bind (sweep_obj k prev_white obj acc) (sweep_objs k prev_white batch)"

partial_function (option) sweep_shard ::
  "nat \<Rightarrow> color \<Rightarrow> nat \<Rightarrow> obj_batch \<times> usize \<Rightarrow>
     'v rt \<times> 'v rt env \<Rightarrow> ((obj_batch \<times> usize) outcome \<times> 'v rt \<times> 'v rt env) option" where
  "sweep_shard k prev_white q_idx acc se =
     bind (pop_marked prev_white q_idx) (\<lambda>r.
     case r of
       None \<Rightarrow> ret acc
     | Some batch \<Rightarrow>
         bind (sweep_objs k prev_white batch acc) (\<lambda>acc'. sweep_shard k prev_white q_idx acc')) se"

declare sweep_shard.simps [code]

fun sweep_shards :: "nat \<Rightarrow> color \<Rightarrow> nat list \<Rightarrow> obj_batch \<times> usize \<Rightarrow> ('v rt, obj_batch \<times> usize) act" where
  "sweep_shards k prev_white [] acc = ret acc"
| "sweep_shards k prev_white (q # qs) acc =
     bind (sweep_shard k prev_white q acc) (sweep_shards k prev_white qs)"

definition sweep_worker :: "nat \<Rightarrow> color \<Rightarrow> nat \<Rightarrow> nat list \<Rightarrow> ('v rt, unit) act" where
  "sweep_worker k prev_white i shards =
     bind (sweep_shards k prev_white shards ([], 0)) (\<lambda>(survived, reclaimed_bytes).
     seq (act_when (survived \<noteq> []) (push_survivors (flip prev_white) survived))
         (add_reclaimed reclaimed_bytes))"

definition sweep :: "nat \<Rightarrow> color \<Rightarrow> ('v rt, unit) act" where
  "sweep k prev_white =
     bind (atomic_read collector_threads) (\<lambda>num_threads.
     parallel_shard_work (unat num_threads) (sweep_worker k prev_white))"

definition next_normal :: "nat \<Rightarrow> ('v rt, unit) act" where
  "next_normal k =
     bind load_epoch (\<lambda>prev_epoch.
     let new_epoch = with_color (flip (epoch_color prev_epoch))
           (with_phase N (with_timestamp (timestamp prev_epoch + 1) prev_epoch)) in
     seq (store_epoch new_epoch) (
     seq (sweep k (epoch_color prev_epoch))
         (wait_all_mutators_unpin (timestamp new_epoch))))"

text \<open>The collection work of one turn of \<^verbatim>\<open>collector_loop\<close>.\<close>

definition collection_cycle ::
  "nat \<Rightarrow> (nat \<Rightarrow> nat \<Rightarrow> nat) \<Rightarrow> (nat \<Rightarrow> nat) \<Rightarrow> nat \<Rightarrow> nat \<Rightarrow> ('v rt, unit) act" where
  "collection_cycle k steal_count worker t f =
     seq (root_tracing k steal_count worker t f) (
     bind (complete_loop k steal_count t f) (\<lambda>_. next_normal k))"

end
