(* ===== verification/Sweep_Spec.thy ===== *)
theory Sweep_Spec
  imports Pointer_Spec Collector "HOL-Library.Multiset"
begin

text \<open>
  The sweep of \<^verbatim>\<open>src/src/collector.rs\<close>: it reclaims exactly the objects of the marked batches that
  still have the white colour, keeps every other one in a batch of the next cycle, and accounts for the
  reclaimed bytes.
\<close>

section \<open>The work of the threads covers the shards\<close>

lemma shard_range_upt:
  assumes "1 \<le> n" "n \<le> OBJ_BATCHES_SHARD"
  shows "concat (map (shard_range n) [0..<n]) = [0..<OBJ_BATCHES_SHARD]"
proof -
  have "n \<in> set [1, 2, 3, 4, 5, 6, 7, 8]" using assms by (auto simp: OBJ_BATCHES_SHARD_def)
  moreover have "\<forall>n\<in>set [1, 2, 3, 4, 5, 6, 7, 8]. concat (map (shard_range n) [0..<n]) = [0..<OBJ_BATCHES_SHARD]"
    by code_simp
  ultimately show ?thesis by blast
qed

section \<open>Objects in the shards\<close>

definition all_objs :: "(nat \<Rightarrow> obj_batch list) \<Rightarrow> usize list" where
  "all_objs f = concat (map (\<lambda>q. concat (f q)) [0..<OBJ_BATCHES_SHARD])"

lemma mset_concat_upd:
  assumes "q \<in> set qs" "distinct qs"
  shows "mset (concat (map (\<lambda>i. concat ((f(q := f q @ [b])) i)) qs)) =
    mset (concat (map (\<lambda>i. concat (f i)) qs)) + mset b"
  using assms
proof (induction qs)
  case (Cons i qs)
  show ?case
  proof (cases "i = q")
    case True
    then have "concat (map (\<lambda>i. concat ((f(q := f q @ [b])) i)) qs) = concat (map (\<lambda>i. concat (f i)) qs)"
      using Cons.prems by (intro arg_cong [where f = concat] map_cong) auto
    then show ?thesis using True by simp
  next
    case False
    then show ?thesis using Cons by (simp add: ac_simps)
  qed
qed simp

lemma mset_all_objs_push:
  "q < OBJ_BATCHES_SHARD \<Longrightarrow> mset (all_objs (f(q := f q @ [b]))) = mset (all_objs f) + mset b"
  unfolding all_objs_def by (rule mset_concat_upd) simp_all

section \<open>The state of a sweep\<close>

text \<open>
  \<open>sweeping c s0 P acc s\<close>: starting from \<open>s0\<close> the objects \<open>P\<close> have been swept, with the survivors and
  the bytes in \<open>acc\<close> not yet pushed and not yet added.
\<close>

definition is_white :: "color \<Rightarrow> 'v rt \<Rightarrow> usize \<Rightarrow> bool" where
  "is_white c s a \<longleftrightarrow> color_at s a = Some c"

definition size_at :: "'v rt \<Rightarrow> usize \<Rightarrow> usize" where
  "size_at s a = (case heap s a of None \<Rightarrow> 0 | Some obj \<Rightarrow> obj_size obj)"

definition white_bytes :: "color \<Rightarrow> 'v rt \<Rightarrow> usize list \<Rightarrow> usize" where
  "white_bytes c s P = sum_list (map (size_at s) (filter (is_white c s) P))"

definition without_swept :: "color \<Rightarrow> 'v rt \<Rightarrow> usize list \<Rightarrow> usize \<rightharpoonup> 'v mobj" where
  "without_swept c s P = (\<lambda>a. if a \<in> set P \<and> is_white c s a then None else heap s a)"

definition sweep_frame :: "color \<Rightarrow> 'v rt \<Rightarrow> 'v rt" where
  "sweep_frame c s = s\<lparr>heap := Map.empty, rng := [], total_reclaimed := 0,
     fresh_objs := (fresh_objs s)(flip c := (\<lambda>_. [])), marked_objs := (marked_objs s)(c := (\<lambda>_. []))\<rparr>"

definition sweeping :: "color \<Rightarrow> 'v rt \<Rightarrow> usize list \<Rightarrow> obj_batch \<times> usize \<Rightarrow> 'v rt \<Rightarrow> bool" where
  "sweeping c s0 P acc s \<longleftrightarrow>
     heap s = without_swept c s0 P \<and>
     mset (all_objs (fresh_objs s (flip c))) + mset (fst acc) =
       mset (all_objs (fresh_objs s0 (flip c))) + mset (filter (\<lambda>a. \<not> is_white c s0 a) P) \<and>
     total_reclaimed s + snd acc = total_reclaimed s0 + white_bytes c s0 P \<and>
     sweep_frame c s = sweep_frame c s0"

text \<open>Objects that can be swept: allocated, and without rooted edges.\<close>

definition sweepable :: "nat \<Rightarrow> 'v rt \<Rightarrow> usize \<Rightarrow> bool" where
  "sweepable k s a \<longleftrightarrow>
     (case heap s a of
        None \<Rightarrow> False
      | Some obj \<Rightarrow> \<forall>p\<in>set (links obj). ptr_meta_of p \<noteq> Rooted \<or> ptr_is_null k p)"

definition next_shard :: "'v rt \<Rightarrow> nat" where
  "next_shard s = (case rng s of [] \<Rightarrow> 0 | x # _ \<Rightarrow> x mod OBJ_BATCHES_SHARD)"

lemma next_shard_less: "next_shard s < OBJ_BATCHES_SHARD"
  by (simp add: next_shard_def OBJ_BATCHES_SHARD_def split: list.split)

lemma select_obj_shard_run [act_simps]:
  "select_obj_shard (s, es) = Some (Inr (next_shard s), s\<lparr>rng := tl (rng s)\<rparr>, es)"
  by (simp add: select_obj_shard_def next_shard_def act_simps)

lemma push_survivors_alone:
  "\<exists>s' q. push_survivors c b (s, []) = Some (Inr (), s', []) \<and> q < OBJ_BATCHES_SHARD \<and>
     s' = s\<lparr>rng := tl (rng s), fresh_objs := (fresh_objs s)(c := (fresh_objs s c)(q := fresh_objs s c q @ [b]))\<rparr>"
  using next_shard_less [of s] by (auto simp: push_survivors_def act_simps)

lemma sweeping_push:
  assumes "sweeping c s0 P (b, n) s"
  shows "\<exists>s'. push_survivors (flip c) b (s, []) = Some (Inr (), s', []) \<and> sweeping c s0 P ([], n) s' \<and>
    marked_objs s' = marked_objs s"
proof -
  obtain s' q where p: "push_survivors (flip c) b (s, []) = Some (Inr (), s', [])" "q < OBJ_BATCHES_SHARD"
    "s' = s\<lparr>rng := tl (rng s), fresh_objs := (fresh_objs s)(flip c := (fresh_objs s (flip c))(q := fresh_objs s (flip c) q @ [b]))\<rparr>"
    using push_survivors_alone by blast
  have "sweep_frame c s' = sweep_frame c s" by (simp add: p(3) sweep_frame_def)
  then have "sweeping c s0 P ([], n) s'"
    using assms mset_all_objs_push [OF p(2), of "fresh_objs s (flip c)" b]
    by (simp add: sweeping_def p(3))
  then show ?thesis using p by auto
qed

lemma sweep_obj_alone:
  assumes s: "sweeping c s0 P acc s" and a: "a \<notin> set P" "sweepable k s0 a"
  shows "\<exists>acc' s'. sweep_obj k c a acc (s, []) = Some (Inr acc', s', []) \<and>
    sweeping c s0 (P @ [a]) acc' s' \<and> marked_objs s' = marked_objs s"
proof -
  obtain surv n where acc: "acc = (surv, n)" by (cases acc)
  obtain obj where obj: "heap s0 a = Some obj" and e: "\<forall>p\<in>set (links obj). ptr_meta_of p \<noteq> Rooted \<or> ptr_is_null k p"
    using a(2) by (auto simp: sweepable_def split: option.splits)
  have hs: "heap s a = Some obj" using s a(1) obj by (simp add: sweeping_def without_swept_def)
  have w: "is_white c s0 a \<longleftrightarrow> marked (header obj) = c"
    using obj by (simp add: is_white_def color_at_def header_at_def)
  have col: "dyn_color a (s, []) = Some (Inr (marked (header obj)), s, [])"
    using hs by (simp add: dyn_color_def read_header_def act_simps)
  have sz: "size_of_val a (s, []) = Some (Inr (obj_size obj), s, [])"
    using hs by (simp add: size_of_val_def act_simps)
  show ?thesis
  proof (cases "is_white c s0 a")
    case True
    let ?s = "s\<lparr>heap := (heap s)(a := None)\<rparr>"
    have "drop_box k a (s, []) = Some (Inr (), ?s, [])"
      using hs e by (simp add: drop_box_def act_simps)
    then have "sweep_obj k c a acc (s, []) = Some (Inr (surv, n + obj_size obj), ?s, [])"
      using True w col sz by (simp add: sweep_obj_def acc act_simps)
    moreover have "sweeping c s0 (P @ [a]) (surv, n + obj_size obj) ?s"
      using s True obj
      by (auto simp: sweeping_def acc without_swept_def white_bytes_def size_at_def sweep_frame_def
          algebra_simps fun_eq_iff)
    ultimately show ?thesis by auto
  next
    case False
    have next_s: "sweeping c s0 (P @ [a]) (b @ [a], n) s'" if "sweeping c s0 P (b, n) s'" for b s'
      using that False by (auto simp: sweeping_def without_swept_def white_bytes_def fun_eq_iff)
    show ?thesis
    proof (cases "length surv < OBJ_BATCH_SIZE")
      case True
      then show ?thesis using False w col next_s [of surv s] s
        by (simp add: sweep_obj_def acc act_simps push_within_capacity_def)
    next
      case full: False
      obtain s' where "push_survivors (flip c) surv (s, []) = Some (Inr (), s', [])"
        "sweeping c s0 P ([], n) s'" "marked_objs s' = marked_objs s"
        using sweeping_push s acc by blast
      then show ?thesis using False w col full next_s [of "[]" s']
        by (simp add: sweep_obj_def acc act_simps push_within_capacity_def)
    qed
  qed
qed


section \<open>Batches, shards and workers\<close>

lemma sweep_objs_alone:
  assumes "sweeping c s0 P acc s" "distinct (P @ as)" "\<forall>a\<in>set as. sweepable k s0 a"
  shows "\<exists>acc' s'. sweep_objs k c as acc (s, []) = Some (Inr acc', s', []) \<and>
    sweeping c s0 (P @ as) acc' s' \<and> marked_objs s' = marked_objs s"
  using assms
proof (induction as arbitrary: P acc s)
  case Nil
  then show ?case by (simp add: act_simps)
next
  case (Cons a as)
  obtain acc1 s1 where 1: "sweep_obj k c a acc (s, []) = Some (Inr acc1, s1, [])"
    "sweeping c s0 (P @ [a]) acc1 s1" "marked_objs s1 = marked_objs s"
    using sweep_obj_alone [of c s0 P acc s a k] Cons.prems by auto
  obtain acc2 s2 where "sweep_objs k c as acc1 (s1, []) = Some (Inr acc2, s2, [])"
    "sweeping c s0 ((P @ [a]) @ as) acc2 s2" "marked_objs s2 = marked_objs s1"
    using Cons.IH [OF 1(2)] Cons.prems by auto
  then show ?case using 1 by (simp add: act_simps)
qed

lemma sweep_shard_alone:
  assumes "sweeping c s0 P acc s" "distinct (P @ concat (marked_objs s c q))"
    "\<forall>a\<in>set (concat (marked_objs s c q)). sweepable k s0 a"
  shows "\<exists>acc' s'. sweep_shard k c q acc (s, []) = Some (Inr acc', s', []) \<and>
    sweeping c s0 (P @ concat (marked_objs s c q)) acc' s' \<and>
    marked_objs s' = (marked_objs s)(c := (marked_objs s c)(q := []))"
  using assms
proof (induction "marked_objs s c q" arbitrary: P acc s)
  case Nil
  then show ?case by (subst sweep_shard.simps) (auto simp: pop_marked_def act_simps fun_upd_idem)
next
  case (Cons b bs)
  let ?s = "s\<lparr>marked_objs := (marked_objs s)(c := (marked_objs s c)(q := bs))\<rparr>"
  have q: "marked_objs s c q = b # bs" using Cons.hyps(2) by simp
  have pop: "pop_marked c q (s, []) = Some (Inr (Some b), ?s, [])"
    by (simp add: pop_marked_def act_simps q)
  have "sweeping c s0 P acc ?s" using Cons.prems(1) by (simp add: sweeping_def sweep_frame_def)
  then obtain acc1 s1 where 1: "sweep_objs k c b acc (?s, []) = Some (Inr acc1, s1, [])"
    "sweeping c s0 (P @ b) acc1 s1" "marked_objs s1 = marked_objs ?s"
    using sweep_objs_alone [of c s0 P acc ?s b k] Cons.prems(2,3) by (auto simp: q Int_Un_distrib)
  have bs: "marked_objs s1 c q = bs" using 1(3) by simp
  obtain acc2 s2 where "sweep_shard k c q acc1 (s1, []) = Some (Inr acc2, s2, [])"
    "sweeping c s0 ((P @ b) @ concat bs) acc2 s2"
    "marked_objs s2 = (marked_objs s1)(c := (marked_objs s1 c)(q := []))"
    using Cons.hyps(1) [of s1 "P @ b" acc1] 1(2) Cons.prems(2,3) by (auto simp: q bs)
  then show ?case using 1 pop
    by (subst sweep_shard.simps) (simp add: act_simps q)
qed

lemma sweep_shards_alone:
  assumes "sweeping c s0 P acc s" "distinct qs" "\<forall>q\<in>set qs. marked_objs s c q = marked_objs s0 c q"
    "distinct (P @ concat (map (\<lambda>q. concat (marked_objs s0 c q)) qs))"
    "\<forall>a\<in>set (concat (map (\<lambda>q. concat (marked_objs s0 c q)) qs)). sweepable k s0 a"
  shows "\<exists>acc' s'. sweep_shards k c qs acc (s, []) = Some (Inr acc', s', []) \<and>
    sweeping c s0 (P @ concat (map (\<lambda>q. concat (marked_objs s0 c q)) qs)) acc' s' \<and>
    marked_objs s' = (marked_objs s)(c := (\<lambda>q. if q \<in> set qs then [] else marked_objs s c q))"
  using assms
proof (induction qs arbitrary: P acc s)
  case Nil
  then show ?case by (simp add: act_simps)
next
  case (Cons q qs)
  have q: "marked_objs s c q = marked_objs s0 c q" using Cons.prems(3) by simp
  obtain acc1 s1 where 1: "sweep_shard k c q acc (s, []) = Some (Inr acc1, s1, [])"
    "sweeping c s0 (P @ concat (marked_objs s0 c q)) acc1 s1"
    "marked_objs s1 = (marked_objs s)(c := (marked_objs s c)(q := []))"
    using sweep_shard_alone [of c s0 P acc s q k] Cons.prems(1,4,5) by (auto simp: q Int_Un_distrib)
  have d: "distinct qs" "\<forall>q'\<in>set qs. marked_objs s1 c q' = marked_objs s0 c q'"
    "distinct ((P @ concat (marked_objs s0 c q)) @ concat (map (\<lambda>q. concat (marked_objs s0 c q)) qs))"
    "\<forall>a\<in>set (concat (map (\<lambda>q. concat (marked_objs s0 c q)) qs)). sweepable k s0 a"
    using 1(3) Cons.prems(2-5) by auto
  then obtain acc2 s2 where 2: "sweep_shards k c qs acc1 (s1, []) = Some (Inr acc2, s2, [])"
    "sweeping c s0 ((P @ concat (marked_objs s0 c q)) @ concat (map (\<lambda>q. concat (marked_objs s0 c q)) qs)) acc2 s2"
    "marked_objs s2 = (marked_objs s1)(c := (\<lambda>q. if q \<in> set qs then [] else marked_objs s1 c q))"
    using Cons.IH [OF 1(2) d] by blast
  have "sweep_shards k c (q # qs) acc (s, []) = Some (Inr acc2, s2, [])"
    using 1(1) 2(1) by (simp add: act_simps)
  moreover have "marked_objs s2 = (marked_objs s)(c := (\<lambda>q'. if q' \<in> set (q # qs) then [] else marked_objs s c q'))"
    unfolding 2(3) 1(3) by (auto simp: fun_eq_iff)
  moreover have "sweeping c s0 (P @ concat (map (\<lambda>q. concat (marked_objs s0 c q)) (q # qs))) acc2 s2"
    using 2(2) by simp
  ultimately show ?case by blast
qed

lemma sweep_worker_alone:
  assumes "sweeping c s0 P ([], 0) s" "distinct qs" "\<forall>q\<in>set qs. marked_objs s c q = marked_objs s0 c q"
    "distinct (P @ concat (map (\<lambda>q. concat (marked_objs s0 c q)) qs))"
    "\<forall>a\<in>set (concat (map (\<lambda>q. concat (marked_objs s0 c q)) qs)). sweepable k s0 a"
  shows "\<exists>s'. sweep_worker k c i qs (s, []) = Some (Inr (), s', []) \<and>
    sweeping c s0 (P @ concat (map (\<lambda>q. concat (marked_objs s0 c q)) qs)) ([], 0) s' \<and>
    marked_objs s' = (marked_objs s)(c := (\<lambda>q. if q \<in> set qs then [] else marked_objs s c q))"
proof -
  let ?P = "P @ concat (map (\<lambda>q. concat (marked_objs s0 c q)) qs)"
  obtain b n s1 where 1: "sweep_shards k c qs ([], 0) (s, []) = Some (Inr (b, n), s1, [])"
    "sweeping c s0 ?P (b, n) s1"
    "marked_objs s1 = (marked_objs s)(c := (\<lambda>q. if q \<in> set qs then [] else marked_objs s c q))"
    using sweep_shards_alone [OF assms] by force
  obtain s2 where 2: "act_when (b \<noteq> []) (push_survivors (flip c) b) (s1, []) = Some (Inr (), s2, [])"
    "sweeping c s0 ?P ([], n) s2" "marked_objs s2 = marked_objs s1"
    using sweeping_push [OF 1(2)] 1(2) by (cases "b = []") (auto simp: act_simps)
  let ?s = "s2\<lparr>total_reclaimed := total_reclaimed s2 + n\<rparr>"
  have "sweeping c s0 ?P ([], 0) ?s" using 2(2) by (simp add: sweeping_def sweep_frame_def)
  then show ?thesis using 1 2
    by (simp add: sweep_worker_def add_reclaimed_def act_simps)
qed


lemma sweep_workers_alone:
  assumes "sweeping c s0 P ([], 0) s" "distinct (concat qss)"
    "\<forall>q\<in>set (concat qss). marked_objs s c q = marked_objs s0 c q"
    "distinct (P @ concat (map (\<lambda>q. concat (marked_objs s0 c q)) (concat qss)))"
    "\<forall>a\<in>set (concat (map (\<lambda>q. concat (marked_objs s0 c q)) (concat qss))). sweepable k s0 a"
    "map f is = qss"
  shows "\<exists>s'. for_each is (\<lambda>i. sweep_worker k c i (f i)) (s, []) = Some (Inr (), s', []) \<and>
    sweeping c s0 (P @ concat (map (\<lambda>q. concat (marked_objs s0 c q)) (concat qss))) ([], 0) s' \<and>
    marked_objs s' = (marked_objs s)(c := (\<lambda>q. if q \<in> set (concat qss) then [] else marked_objs s c q))"
  using assms
proof (induction qss arbitrary: P s "is")
  case Nil
  then show ?case by (simp add: act_simps)
next
  case (Cons qs qss)
  obtain i js where "is": "is = i # js" "f i = qs" "map f js = qss" using Cons.prems(6) by auto
  let ?P = "P @ concat (map (\<lambda>q. concat (marked_objs s0 c q)) qs)"
  have d: "distinct qs" "\<forall>q\<in>set qs. marked_objs s c q = marked_objs s0 c q" "distinct ?P"
    "\<forall>a\<in>set (concat (map (\<lambda>q. concat (marked_objs s0 c q)) qs)). sweepable k s0 a"
    using Cons.prems(2-5) by (auto simp: Int_Un_distrib)
  obtain s1 where 1: "sweep_worker k c i qs (s, []) = Some (Inr (), s1, [])" "sweeping c s0 ?P ([], 0) s1"
    "marked_objs s1 = (marked_objs s)(c := (\<lambda>q. if q \<in> set qs then [] else marked_objs s c q))"
    using sweep_worker_alone [OF Cons.prems(1) d] by blast
  have e: "distinct (concat qss)" "\<forall>q\<in>set (concat qss). marked_objs s1 c q = marked_objs s0 c q"
    "distinct (?P @ concat (map (\<lambda>q. concat (marked_objs s0 c q)) (concat qss)))"
    "\<forall>a\<in>set (concat (map (\<lambda>q. concat (marked_objs s0 c q)) (concat qss))). sweepable k s0 a"
    using Cons.prems(2-5) 1(3) by auto
  obtain s2 where 2: "for_each js (\<lambda>i. sweep_worker k c i (f i)) (s1, []) = Some (Inr (), s2, [])"
    "sweeping c s0 (?P @ concat (map (\<lambda>q. concat (marked_objs s0 c q)) (concat qss))) ([], 0) s2"
    "marked_objs s2 = (marked_objs s1)(c := (\<lambda>q. if q \<in> set (concat qss) then [] else marked_objs s1 c q))"
    using Cons.IH [OF 1(2) e "is"(3)] by blast
  have "for_each is (\<lambda>i. sweep_worker k c i (f i)) (s, []) = Some (Inr (), s2, [])"
    using 1(1) 2(1) by (simp add: "is" act_simps)
  moreover have "sweeping c s0 (P @ concat (map (\<lambda>q. concat (marked_objs s0 c q)) (concat (qs # qss)))) ([], 0) s2"
    using 2(2) by simp
  moreover have "marked_objs s2 = (marked_objs s)(c := (\<lambda>q. if q \<in> set (concat (qs # qss)) then [] else marked_objs s c q))"
    unfolding 2(3) 1(3) by (auto simp: fun_eq_iff)
  ultimately show ?case by blast
qed


lemma sweep_frame_fields:
  assumes "sweep_frame c s' = sweep_frame c s"
  shows "cells s' = cells s" "locals s' = locals s" "global_epoch s' = global_epoch s"
    "n_locals s' = n_locals s" "in_use s' = in_use s" "collector_threads s' = collector_threads s"
    "fresh_objs s' c = fresh_objs s c" "marked_objs s' (flip c) = marked_objs s (flip c)"
  using arg_cong [OF assms, of cells] arg_cong [OF assms, of locals] arg_cong [OF assms, of global_epoch]
    arg_cong [OF assms, of n_locals] arg_cong [OF assms, of in_use] arg_cong [OF assms, of collector_threads]
    arg_cong [OF assms, of "\<lambda>s. fresh_objs s c"] arg_cong [OF assms, of "\<lambda>s. marked_objs s (flip c)"]
  by (simp_all add: sweep_frame_def)

lemma sweep_alone:
  assumes "1 \<le> unat (collector_threads s)" "unat (collector_threads s) \<le> OBJ_BATCHES_SHARD"
    and "distinct (all_objs (marked_objs s c))" "\<forall>a\<in>set (all_objs (marked_objs s c)). sweepable k s a"
  shows "\<exists>s'. sweep k c (s, []) = Some (Inr (), s', []) \<and>
    heap s' = (\<lambda>a. if a \<in> set (all_objs (marked_objs s c)) \<and> color_at s a = Some c then None else heap s a) \<and>
    mset (all_objs (fresh_objs s' (flip c))) = mset (all_objs (fresh_objs s (flip c))) +
      mset (filter (\<lambda>a. color_at s a \<noteq> Some c) (all_objs (marked_objs s c))) \<and>
    all_objs (marked_objs s' c) = [] \<and>
    total_reclaimed s' = total_reclaimed s +
      sum_list (map (size_at s) (filter (\<lambda>a. color_at s a = Some c) (all_objs (marked_objs s c)))) \<and>
    sweep_frame c s' = sweep_frame c s"
proof -
  let ?n = "unat (collector_threads s)"
  let ?qss = "map (shard_range ?n) [0..<?n]"
  let ?P = "all_objs (marked_objs s c)"
  have qss: "concat ?qss = [0..<OBJ_BATCHES_SHARD]" using shard_range_upt assms(1,2) by blast
  then have P: "concat (map (\<lambda>q. concat (marked_objs s c q)) (concat ?qss)) = ?P"
    by (simp only: all_objs_def)
  have init: "sweeping c s [] ([], 0) s"
    by (simp add: sweeping_def without_swept_def white_bytes_def)
  obtain s' where s': "for_each [0..<?n] (\<lambda>i. sweep_worker k c i (shard_range ?n i)) (s, []) = Some (Inr (), s', [])"
    "sweeping c s ([] @ ?P) ([], 0) s'"
    "marked_objs s' = (marked_objs s)(c := (\<lambda>q. if q \<in> set (concat ?qss) then [] else marked_objs s c q))"
    using sweep_workers_alone [OF init, of ?qss k "shard_range ?n" "[0..<?n]"] assms(3,4)
    unfolding P by (auto simp: qss)
  have "sweep k c (s, []) = Some (Inr (), s', [])"
    using s'(1) by (simp add: sweep_def parallel_shard_work_def act_simps)
  moreover have "all_objs (marked_objs s' c) = []" unfolding s'(3) qss by (simp add: all_objs_def)
  ultimately show ?thesis
    using s'(2) by (simp add: sweeping_def without_swept_def is_white_def [abs_def] white_bytes_def)
qed

section \<open>Properties\<close>

text \<open>
  C7: however the shards are divided among the threads, the sweep of the previous white colour \<open>c\<close>
  returns; it reclaims the objects in the marked batches that are still white and no others, every
  other object of these batches is in a batch of the next cycle, the marked batches are gone, and the
  counter of reclaimed bytes grows by the sizes of the reclaimed objects.
\<close>

theorem sweep_reclaims_white:
  assumes "1 \<le> unat (collector_threads s)" "unat (collector_threads s) \<le> OBJ_BATCHES_SHARD"
    and "distinct (all_objs (marked_objs s c))" "\<forall>a\<in>set (all_objs (marked_objs s c)). sweepable k s a"
  shows "\<exists>s'. sweep k c (s, []) = Some (Inr (), s', []) \<and>
    heap s' = (\<lambda>a. if a \<in> set (all_objs (marked_objs s c)) \<and> color_at s a = Some c then None else heap s a) \<and>
    mset (all_objs (fresh_objs s' (flip c))) = mset (all_objs (fresh_objs s (flip c))) +
      mset (filter (\<lambda>a. color_at s a \<noteq> Some c) (all_objs (marked_objs s c))) \<and>
    all_objs (marked_objs s' c) = [] \<and>
    total_reclaimed s' = total_reclaimed s +
      sum_list (map (size_at s) (filter (\<lambda>a. color_at s a = Some c) (all_objs (marked_objs s c)))) \<and>
    cells s' = cells s \<and> locals s' = locals s \<and> global_epoch s' = global_epoch s"
  using sweep_alone [OF assms] sweep_frame_fields(1-3) by blast

definition demo_swept :: "nat rt" where
  "demo_swept = demo_rt\<lparr>marked_objs := (\<lambda>c q. if c = C0 \<and> q = 3 then [[0x1000], [0x2000]] else []),
     collector_threads := 3,
     heap := [0x1000 \<mapsto> demo_obj 0x2000 7,
       0x2000 \<mapsto> (demo_obj 0x1000 8)\<lparr>header := new_with_type_id C1 0 0\<rparr>]\<rparr>"

theorem sweep_reclaims_white_witness:
  "\<exists>s'. sweep 3 C0 (demo_swept, []) = Some (Inr (), s', []) \<and>
     heap s' 0x1000 = None \<and> heap s' 0x2000 = heap demo_swept 0x2000 \<and>
     mset (all_objs (fresh_objs s' C1)) = {#0x2000#} \<and> total_reclaimed s' = 32"
proof -
  have objs: "all_objs (marked_objs demo_swept C0) = [0x1000, 0x2000]" "all_objs (fresh_objs demo_swept C1) = []"
    by (simp_all add: all_objs_def OBJ_BATCHES_SHARD_def upt_rec demo_swept_def demo_rt_def global_new_def)
  have col: "color_at demo_swept 0x1000 = Some C0" "color_at demo_swept 0x2000 = Some C1"
    "size_at demo_swept 0x1000 = 32" "total_reclaimed demo_swept = 0" "unat (collector_threads demo_swept) = 3"
    by (simp_all add: color_at_def header_at_def size_at_def demo_swept_def demo_rt_def demo_obj_def
        global_new_def meta_simps)
  have "sweepable 3 demo_swept 0x1000" "sweepable 3 demo_swept 0x2000"
    by (simp_all add: sweepable_def demo_swept_def demo_obj_def ptr_simps)
  then show ?thesis
    using sweep_reclaims_white [of demo_swept C0 3] by (auto simp: objs col OBJ_BATCHES_SHARD_def)
qed

end
