(* ===== verification/Tricolor.thy ===== *)
theory Tricolor
  imports Sweep_Spec
begin

text \<open>
  The tri-colour invariant of the tracing phases. Relative to the state \<open>s0\<close> in which tracing began and
  the epoch \<open>e\<close> of the running phase: objects keep their contents; a black object has only black edges; a
  black edge leads to a black object or to one whose marking is scheduled; only reachable objects are
  black or scheduled; a root is black or still to be scanned; and every object of the cycle is in exactly
  one batch.
\<close>

section \<open>Reachable objects\<close>

definition edges :: "nat \<Rightarrow> 'v rt \<Rightarrow> (usize \<times> usize) set" where
  "edges k s = {(a, b). \<exists>obj p. heap s a = Some obj \<and> p \<in> set (links obj) \<and> as_ref k p = Some b}"

definition hazard_set :: "'v rt \<Rightarrow> usize set" where
  "hazard_set s = {h. \<exists>u < n_locals s. in_use s u \<and> h \<in> set (hazards (locals s u))}"

definition root_objs :: "'v rt \<Rightarrow> usize set" where
  "root_objs s = {a. \<exists>obj. heap s a = Some obj \<and> (0 < root_count (header obj) \<or> a \<in> hazard_set s)}"

definition reachable :: "nat \<Rightarrow> 'v rt \<Rightarrow> usize set" where
  "reachable k s = (edges k s)\<^sup>* `` root_objs s"

lemma reachable_root: "a \<in> root_objs s \<Longrightarrow> a \<in> reachable k s"
  by (auto simp: reachable_def)

lemma reachable_edge: "a \<in> reachable k s \<Longrightarrow> (a, b) \<in> edges k s \<Longrightarrow> b \<in> reachable k s"
  by (auto simp: reachable_def intro: rtrancl_into_rtrancl)

lemma reachable_induct [consumes 1, case_names root edge]:
  assumes "a \<in> reachable k s" "\<And>a. a \<in> root_objs s \<Longrightarrow> P a"
    "\<And>a b. a \<in> reachable k s \<Longrightarrow> P a \<Longrightarrow> (a, b) \<in> edges k s \<Longrightarrow> P b"
  shows "P a"
proof -
  obtain r where r: "r \<in> root_objs s" "(r, a) \<in> (edges k s)\<^sup>*" using assms(1) by (auto simp: reachable_def)
  have "P a \<and> a \<in> reachable k s" using r(2)
  proof (induction rule: rtrancl_induct)
    case base
    then show ?case using r(1) assms(2) reachable_root by blast
  next
    case (step a b)
    then show ?case using assms(3) reachable_edge by blast
  qed
  then show ?thesis ..
qed

section \<open>The invariant\<close>

definition same_obj :: "'v mobj \<Rightarrow> 'v mobj \<Rightarrow> bool" where
  "same_obj o1 o2 \<longleftrightarrow> item_val o1 = item_val o2 \<and> obj_size o1 = obj_size o2 \<and>
     root_count (header o1) = root_count (header o2) \<and> type_id (header o1) = type_id (header o2) \<and>
     map (with_meta Rooted) (links o1) = map (with_meta Rooted) (links o2)"

definition same_objs :: "'v rt \<Rightarrow> 'v rt \<Rightarrow> bool" where
  "same_objs s0 s \<longleftrightarrow> (\<forall>a. rel_option same_obj (heap s0 a) (heap s a))"

definition gray :: "'v rt \<Rightarrow> usize set" where
  "gray s = (\<Union>u \<in> {..<n_locals s}. set (mark_tasks (locals s u)))"

definition black_edge :: "nat \<Rightarrow> color \<Rightarrow> usize set \<Rightarrow> 'v rt \<Rightarrow> man_ptr \<Rightarrow> bool" where
  "black_edge k b G s p \<longleftrightarrow> (\<forall>c. as_ref k p = Some c \<longrightarrow> color_at s c = Some b \<or> c \<in> gray s \<union> G)"

definition shaded_obj :: "nat \<Rightarrow> color \<Rightarrow> usize set \<Rightarrow> 'v rt \<Rightarrow> 'v mobj \<Rightarrow> bool" where
  "shaded_obj k b G s obj \<longleftrightarrow>
     (\<forall>p\<in>set (links obj).
        (ptr_meta_of p = Unrooted b \<and> black_edge k b G s p) \<or>
        (ptr_meta_of p = Unrooted (flip b) \<and> marked (header obj) \<noteq> b))"

definition shaded :: "nat \<Rightarrow> color \<Rightarrow> usize set \<Rightarrow> 'v rt \<Rightarrow> bool" where
  "shaded k b G s \<longleftrightarrow> (\<forall>a obj. heap s a = Some obj \<longrightarrow> shaded_obj k b G s obj)"

definition only_reachable :: "nat \<Rightarrow> 'v rt \<Rightarrow> color \<Rightarrow> usize set \<Rightarrow> 'v rt \<Rightarrow> bool" where
  "only_reachable k s0 b G s \<longleftrightarrow> (\<forall>a. color_at s a = Some b \<or> a \<in> gray s \<union> G \<longrightarrow> a \<in> reachable k s0)"

definition pending :: "color \<Rightarrow> 'v rt \<Rightarrow> usize list" where
  "pending c s = concat (map (\<lambda>u. fst (objs (locals s u) c)) [0..<n_locals s])"

definition cycle_objs :: "color \<Rightarrow> 'v rt \<Rightarrow> usize list" where
  "cycle_objs c s = all_objs (fresh_objs s c) @ pending c s @ all_objs (marked_objs s c)"

definition lists_ok :: "'v rt \<Rightarrow> color \<Rightarrow> usize list \<Rightarrow> 'v rt \<Rightarrow> bool" where
  "lists_ok s0 w batch s \<longleftrightarrow>
     mset (cycle_objs w s) + mset batch = mset (cycle_objs w s0) \<and>
     fresh_objs s (flip w) = fresh_objs s0 (flip w) \<and> marked_objs s (flip w) = marked_objs s0 (flip w) \<and>
     (\<forall>u. objs (locals s u) (flip w) = objs (locals s0 u) (flip w))"

definition roots_ok :: "'v rt \<Rightarrow> color \<Rightarrow> usize list \<Rightarrow> 'v rt \<Rightarrow> bool" where
  "roots_ok s0 w todo s \<longleftrightarrow>
     (\<forall>a\<in>root_objs s0. color_at s a = Some (flip w) \<or>
        a \<in> set todo \<union> set (all_objs (fresh_objs s w)) \<union> set (pending w s))"

definition thread_ok :: "'v rt \<Rightarrow> epoch \<Rightarrow> (nat \<Rightarrow> usize) \<Rightarrow> 'v rt \<Rightarrow> nat \<Rightarrow> bool" where
  "thread_ok s0 e cnt s u \<longleftrightarrow>
     guard_count (locals s u) = cnt u \<and> (0 < cnt u \<longrightarrow> thread_epoch s u = pinned e) \<and>
     (cnt u = 0 \<longrightarrow> \<not> is_pinned (thread_epoch s u)) \<and> hazards (locals s u) = hazards (locals s0 u) \<and>
     mt_modified_ts (locals s u) \<le> timestamp e \<and>
     (\<forall>hs e'. cached_hazards (locals s u) = Some (hs, e') \<longrightarrow>
        timestamp e' \<le> timestamp e \<and> (e' = pinned e \<longrightarrow> set hs = hazard_set s0)) \<and>
     (n_locals s0 \<le> u \<longrightarrow> mark_tasks (locals s u) = [])"

definition traceable :: "nat \<Rightarrow> 'v rt \<Rightarrow> epoch \<Rightarrow> bool" where
  "traceable k s0 e \<longleftrightarrow>
     (\<forall>a b. (a, b) \<in> edges k s0 \<longrightarrow> heap s0 b \<noteq> None) \<and>
     (\<forall>a\<in>set (cycle_objs (epoch_color e) s0). heap s0 a \<noteq> None) \<and> (epoch_phase e = Inr RT \<or> epoch_phase e = Inr CT)"

definition global_ok :: "'v rt \<Rightarrow> epoch \<Rightarrow> 'v rt \<Rightarrow> bool" where
  "global_ok s0 e s \<longleftrightarrow>
     atomic_epoch_load (global_epoch s) = e \<and> n_locals s = n_locals s0 \<and> in_use s = in_use s0 \<and>
     cells s = cells s0 \<and> collector_threads s = collector_threads s0 \<and> total_reclaimed s = total_reclaimed s0"

text \<open>
  \<open>tracing k s0 e cnt G batch todo s\<close>: the marking of the objects \<open>G\<close> has been taken out of the mark
  queues, the \<open>batch\<close> out of the fresh batches, and its objects \<open>todo\<close> are not scanned yet. \<open>cnt\<close> counts
  the guards of each participant.
\<close>

definition tracing ::
  "nat \<Rightarrow> 'v rt \<Rightarrow> epoch \<Rightarrow> (nat \<Rightarrow> usize) \<Rightarrow> usize set \<Rightarrow> usize list \<Rightarrow> usize list \<Rightarrow> 'v rt \<Rightarrow> bool" where
  "tracing k s0 e cnt G batch todo s \<longleftrightarrow> traceable k s0 e \<and>
     same_objs s0 s \<and> shaded k (flip (epoch_color e)) G s \<and>
     only_reachable k s0 (flip (epoch_color e)) G s \<and> lists_ok s0 (epoch_color e) batch s \<and>
     roots_ok s0 (epoch_color e) todo s \<and> global_ok s0 e s \<and> (\<forall>u. thread_ok s0 e cnt s u)"

text \<open>What the invariant depends on.\<close>

definition local_view :: "participant \<Rightarrow> (usize \<times> atomic_epoch \<times> usize list \<times> usize list) \<times>
    (color \<Rightarrow> obj_batch \<times> usize) \<times> usize \<times> (usize list \<times> epoch) option" where
  "local_view l = ((guard_count l, local_epoch l, hazards l, mark_tasks l), objs l, mt_modified_ts l, cached_hazards l)"

definition trace_view :: "'v rt \<Rightarrow> ((usize \<rightharpoonup> 'v mobj) \<times> (color \<Rightarrow> nat \<Rightarrow> obj_batch list) \<times> (color \<Rightarrow> nat \<Rightarrow> obj_batch list)) \<times>
    (atomic_epoch \<times> nat \<times> (nat \<Rightarrow> bool) \<times> (nat \<rightharpoonup> man_ptr) \<times> usize \<times> usize) \<times> (nat \<Rightarrow> (usize \<times> atomic_epoch \<times> usize list \<times> usize list) \<times>
    (color \<Rightarrow> obj_batch \<times> usize) \<times> usize \<times> (usize list \<times> epoch) option)" where
  "trace_view s = ((heap s, fresh_objs s, marked_objs s),
     (global_epoch s, n_locals s, in_use s, cells s, collector_threads s, total_reclaimed s),
     \<lambda>u. local_view (locals s u))"

lemma trace_viewD:
  assumes "trace_view s' = trace_view s"
  shows "heap s' = heap s" "fresh_objs s' = fresh_objs s" "marked_objs s' = marked_objs s"
    "global_epoch s' = global_epoch s" "n_locals s' = n_locals s" "in_use s' = in_use s" "cells s' = cells s"
    "collector_threads s' = collector_threads s" "total_reclaimed s' = total_reclaimed s"
    "guard_count (locals s' u) = guard_count (locals s u)" "local_epoch (locals s' u) = local_epoch (locals s u)"
    "hazards (locals s' u) = hazards (locals s u)" "mark_tasks (locals s' u) = mark_tasks (locals s u)"
    "objs (locals s' u) = objs (locals s u)" "mt_modified_ts (locals s' u) = mt_modified_ts (locals s u)"
    "cached_hazards (locals s' u) = cached_hazards (locals s u)"
  using assms by (simp_all add: trace_view_def local_view_def fun_eq_iff)

lemma color_at_heap: "heap s' = heap s \<Longrightarrow> color_at s' = color_at s"
  by (simp add: color_at_def header_at_def fun_eq_iff)

lemma tracing_view:
  assumes "trace_view s' = trace_view s"
  shows "tracing k s0 e cnt G batch todo s' = tracing k s0 e cnt G batch todo s"
proof -
  note v = trace_viewD [OF assms]
  have c: "color_at s' = color_at s" by (rule color_at_heap [OF v(1)])
  have g: "gray s' = gray s" by (simp add: gray_def v)
  have t: "thread_epoch s' u = thread_epoch s u" for u by (simp add: thread_epoch_def v)
  have p: "pending w s' = pending w s" for w by (simp add: pending_def v)
  then have y: "cycle_objs w s' = cycle_objs w s" for w by (simp add: cycle_objs_def v)
  show ?thesis
    unfolding tracing_def same_objs_def shaded_def shaded_obj_def black_edge_def only_reachable_def lists_ok_def
      roots_ok_def global_ok_def thread_ok_def
    by (simp add: v c g t p y)
qed

text \<open>The batches, which marking does not touch.\<close>

definition lists_of :: "'v rt \<Rightarrow> (color \<Rightarrow> nat \<Rightarrow> obj_batch list) \<times> (color \<Rightarrow> nat \<Rightarrow> obj_batch list) \<times>
    (nat \<Rightarrow> color \<Rightarrow> obj_batch \<times> usize)" where
  "lists_of s = (fresh_objs s, marked_objs s, \<lambda>u. objs (locals s u))"

lemma tracingD:
  assumes "tracing k s0 e cnt G batch todo s"
  shows "same_objs s0 s" "shaded k (flip (epoch_color e)) G s" "only_reachable k s0 (flip (epoch_color e)) G s"
    "lists_ok s0 (epoch_color e) batch s" "roots_ok s0 (epoch_color e) todo s" "global_ok s0 e s" "thread_ok s0 e cnt s u"
    "traceable k s0 e"
  using assms by (auto simp: tracing_def)

section \<open>Steps of the marking\<close>

lemma same_obj_edges:
  assumes "same_objs s0 s"
  shows "edges k s = edges k s0"
proof -
  have l: "map (as_ref k) (links obj) = map (as_ref k) (links obj0)"
    if "heap s a = Some obj" "heap s0 a = Some obj0" for a obj obj0
  proof -
    have "rel_option same_obj (heap s0 a) (heap s a)" using assms by (simp add: same_objs_def)
    then have "same_obj obj0 obj" using that by simp
    then have "map (with_meta Rooted) (links obj0) = map (with_meta Rooted) (links obj)" by (simp add: same_obj_def)
    from arg_cong [OF this, of "map (as_ref k)"] show ?thesis by (simp add: comp_def ptr_simps)
  qed
  have d: "heap s a = None \<longleftrightarrow> heap s0 a = None" for a
    using assms unfolding same_objs_def by (metis option.rel_distinct(1,2) not_None_eq)
  have "(\<exists>p\<in>set (links obj). as_ref k p = Some b) \<longleftrightarrow> (\<exists>p\<in>set (links obj0). as_ref k p = Some b)"
    if "heap s a = Some obj" "heap s0 a = Some obj0" for a b obj obj0
    using arg_cong [OF l [OF that], of set] by (metis (no_types, lifting) image_iff list.set_map)
  then show ?thesis using d unfolding edges_def
    by (auto, metis not_None_eq, metis not_None_eq)
qed

lemma same_objs_dom: "same_objs s0 s \<Longrightarrow> heap s a = None \<longleftrightarrow> heap s0 a = None"
  unfolding same_objs_def by (metis option.rel_distinct(1,2) not_None_eq)

lemma reachable_heap:
  assumes "tracing k s0 e cnt G batch todo s" "a \<in> reachable k s0"
  shows "heap s a \<noteq> None"
proof -
  have "heap s0 a \<noteq> None" using assms(2)
  proof (induction rule: reachable_induct)
    case (edge a b)
    then show ?case using tracingD(8) [OF assms(1)] by (auto simp: traceable_def)
  qed (auto simp: root_objs_def)
  then show ?thesis using same_objs_dom [OF tracingD(1) [OF assms(1)], of a] by simp
qed

lemma tracing_epoch:
  assumes "tracing k s0 e cnt G batch todo s" "0 < cnt u"
  shows "thread_epoch s u = pinned e" "epoch_color (thread_epoch s u) = epoch_color e"
  using tracingD(7) [OF assms(1), of u] assms(2) by (auto simp: thread_ok_def epoch_simps)

text \<open>Moving tasks between the mark queues and the hand.\<close>

definition drop_tasks :: "'v rt \<Rightarrow> 'v rt" where
  "drop_tasks s = s\<lparr>locals := (\<lambda>u. (locals s u)\<lparr>mark_tasks := [], mt_modified_ts := 0\<rparr>)\<rparr>"

lemma drop_tasks_viewD:
  assumes "trace_view (drop_tasks s') = trace_view (drop_tasks s)"
  shows "heap s' = heap s" "fresh_objs s' = fresh_objs s" "marked_objs s' = marked_objs s"
    "global_epoch s' = global_epoch s" "n_locals s' = n_locals s" "in_use s' = in_use s" "cells s' = cells s"
    "collector_threads s' = collector_threads s" "total_reclaimed s' = total_reclaimed s"
    "guard_count (locals s' u) = guard_count (locals s u)" "local_epoch (locals s' u) = local_epoch (locals s u)"
    "hazards (locals s' u) = hazards (locals s u)" "objs (locals s' u) = objs (locals s u)"
    "cached_hazards (locals s' u) = cached_hazards (locals s u)"
  using trace_viewD [OF assms] by (simp_all add: drop_tasks_def)

lemma tracing_tasks:
  assumes tr: "tracing k s0 e cnt G batch todo s"
    and v: "trace_view (drop_tasks s') = trace_view (drop_tasks s)"
    and g: "gray s \<union> G \<subseteq> gray s' \<union> G'" "gray s' \<union> G' \<subseteq> reachable k s0 \<union> (gray s \<union> G)"
    and u: "\<And>u. n_locals s0 \<le> u \<Longrightarrow> mark_tasks (locals s' u) = []"
    and ts: "\<And>u. mt_modified_ts (locals s' u) \<le> timestamp e"
  shows "tracing k s0 e cnt G' batch todo s'"
proof -
  note v = drop_tasks_viewD [OF v]
  have c: "color_at s' = color_at s" by (rule color_at_heap [OF v(1)])
  have t: "thread_epoch s' u = thread_epoch s u" for u by (simp add: thread_epoch_def v)
  have p: "pending w s' = pending w s" for w by (simp add: pending_def v)
  then have y: "cycle_objs w s' = cycle_objs w s" for w by (simp add: cycle_objs_def v)
  have be: "black_edge k b G' s' p" if "black_edge k b G s p" for b p
    using that g(1) by (auto simp: black_edge_def c)
  have "shaded k (flip (epoch_color e)) G' s'"
    using tracingD(2) [OF tr] be unfolding shaded_def shaded_obj_def by (simp add: v) blast
  moreover have "only_reachable k s0 (flip (epoch_color e)) G' s'"
    using tracingD(3) [OF tr] g(2) by (auto simp: only_reachable_def c)
  moreover have "thread_ok s0 e cnt s' u" for u
    using tracingD(7) [OF tr, of u] u ts by (simp add: thread_ok_def t v)
  ultimately show ?thesis
    using tracingD(1,4-6,8) [OF tr]
    by (simp add: tracing_def same_objs_def lists_ok_def roots_ok_def global_ok_def v c p y)
qed

lemma tracing_gray: "tracing k s0 e cnt G batch todo s \<Longrightarrow> a \<in> gray s \<union> G \<Longrightarrow> a \<in> reachable k s0"
  by (auto simp: tracing_def only_reachable_def)

lemma scheduled_view: "scheduled g as s s' \<Longrightarrow> trace_view (drop_tasks s') = trace_view (drop_tasks s)"
proof -
  assume "scheduled g as s s'"
  then have "without_scheduling g s' = without_scheduling g s" by (simp add: scheduled_def)
  from arg_cong [OF this, of "\<lambda>s. trace_view (drop_tasks s)"] show ?thesis
    by (simp add: trace_view_def drop_tasks_def without_scheduling_def local_view_def fun_eq_iff
        split: if_splits) (metis (no_types, lifting))
qed

lemma scheduled_others: "scheduled g as s s' \<Longrightarrow> u \<noteq> g_local g \<Longrightarrow> locals s' u = locals s u"
proof -
  assume "scheduled g as s s'" and u: "u \<noteq> g_local g"
  then have "without_scheduling g s' = without_scheduling g s" by (simp add: scheduled_def)
  from arg_cong [OF this, of "\<lambda>s. locals s u"] show ?thesis using u by (simp add: without_scheduling_def)
qed

lemma scheduled_gray:
  assumes "scheduled g as s s'" "g_local g < n_locals s"
  shows "gray s' = gray s \<union> set as"
proof -
  have n: "n_locals s' = n_locals s" by (rule drop_tasks_viewD(5) [OF scheduled_view [OF assms(1)]])
  have "mark_tasks (locals s' u) = (if u = g_local g then mark_tasks (locals s u) @ as else mark_tasks (locals s u))" for u
    using scheduled_others [OF assms(1), of u] assms(1) by (simp add: scheduled_def)
  then show ?thesis using assms(2) by (auto simp: gray_def n split: if_splits)
qed

lemma schedule_mark_ts:
  assumes "schedule_mark a g (s, []) = Some (Inr (), s', [])"
  shows "mt_modified_ts (locals s' u) = mt_modified_ts (locals s u) \<or>
    mt_modified_ts (locals s' u) = timestamp (thread_epoch s (g_local g))"
proof -
  let ?t = "g_local g"
  have "\<exists>s1. record_mt_modification ?t (s, []) = Some (Inr (), s1, []) \<and>
    (s1 = s \<or> s1 = upd_local ?t (\<lambda>l. l\<lparr>mt_modified_ts := timestamp (thread_epoch s ?t)\<rparr>) s)"
    by (auto simp: record_mt_modification_def act_simps)
  then obtain s1 where 1: "record_mt_modification ?t (s, []) = Some (Inr (), s1, [])"
    "s1 = s \<or> s1 = upd_local ?t (\<lambda>l. l\<lparr>mt_modified_ts := timestamp (thread_epoch s ?t)\<rparr>) s" by blast
  have "mt_modified_ts (locals s' u) = mt_modified_ts (locals s1 u)"
    using assms 1(1)
    by (auto simp: schedule_mark_def Let_def act_simps act_when_def schedule_helping_collect_def split: if_splits)
  then show ?thesis using 1(2) by auto
qed

lemma tracing_schedule_mark:
  assumes tr: "tracing k s0 e cnt G batch todo s" and g: "0 < cnt (g_local g)" "g_local g < n_locals s0"
    and a: "a \<in> reachable k s0"
  shows "\<exists>s'. schedule_mark a g (s, []) = Some (Inr (), s', []) \<and> tracing k s0 e cnt G batch todo s' \<and>
    gray s' = insert a (gray s) \<and> heap s' = heap s \<and> lists_of s' = lists_of s"
proof -
  obtain s' where s': "schedule_mark a g (s, []) = Some (Inr (), s', [])" "scheduled g [a] s s'"
    using schedule_mark_alone by blast
  have gl: "global_ok s0 e s" by (rule tracingD(6) [OF tr])
  have gr: "gray s' = insert a (gray s)"
    using scheduled_gray [OF s'(2)] g(2) gl by (simp add: global_ok_def)
  have "mt_modified_ts (locals s' u) \<le> timestamp e" for u
    using schedule_mark_ts [OF s'(1), of u] tracingD(7) [OF tr, of u] tracing_epoch [OF tr, of "g_local g"] g(1)
    by (auto simp: thread_ok_def epoch_simps)
  moreover have "mark_tasks (locals s' u) = []" if "n_locals s0 \<le> u" for u
    using that g(2) scheduled_others [OF s'(2), of u] tracingD(7) [OF tr, of u] by (auto simp: thread_ok_def)
  ultimately have "tracing k s0 e cnt G batch todo s'"
    using a gr by (intro tracing_tasks [OF tr scheduled_view [OF s'(2)]]) auto
  moreover have "lists_of s' = lists_of s"
    using drop_tasks_viewD(2,3,13) [OF scheduled_view [OF s'(2)]] by (simp add: lists_of_def)
  ultimately show ?thesis using s'(1) gr scheduled_fields(1) [OF s'(2)] by blast
qed

text \<open>Shading a pointer of a reachable object: afterwards its edge may become black.\<close>

lemma tracing_shade_pointee:
  assumes tr: "tracing k s0 e cnt G batch todo s" and g: "0 < cnt (g_local g)" "g_local g < n_locals s0"
    and a: "\<And>c. as_ref k p = Some c \<Longrightarrow> c \<in> reachable k s0"
  shows "\<exists>r s'. shade_pointee k p g (s, []) = Some (Inr r, s', []) \<and> tracing k s0 e cnt G batch todo s' \<and>
    black_edge k (flip (epoch_color e)) G s' p \<and> heap s' = heap s \<and> lists_of s' = lists_of s"
proof (cases "as_ref k p")
  case None
  then show ?thesis using tr by (auto simp: shade_pointee_def act_simps black_edge_def)
next
  case (Some c)
  then obtain obj where obj: "heap s c = Some obj" using reachable_heap [OF tr] a by blast
  have b: "black_of s g = flip (epoch_color e)" using tracing_epoch [OF tr g(1)] by simp
  show ?thesis
  proof (cases "marked (header obj) = black_of s g")
    case True
    then have "black_edge k (flip (epoch_color e)) G s p"
      using Some obj b by (auto simp: black_edge_def color_at_def header_at_def)
    moreover have "shade_pointee k p g (s, []) = Some (Inr False, s, [])"
      using True Some obj by (simp add: shade_pointee_def is_marked_alone bind_def act_simps)
    ultimately show ?thesis using tr by blast
  next
    case False
    obtain s' where s': "schedule_mark c g (s, []) = Some (Inr (), s', [])" "tracing k s0 e cnt G batch todo s'"
      "gray s' = insert c (gray s)" "heap s' = heap s" "lists_of s' = lists_of s"
      using tracing_schedule_mark [OF tr g] a Some by blast
    then have "black_edge k (flip (epoch_color e)) G s' p" using Some by (auto simp: black_edge_def)
    moreover have "shade_pointee k p g (s, []) = Some (Inr True, s', [])"
      using False Some obj s'(1) by (simp add: shade_pointee_def is_marked_alone act_simps)
    ultimately show ?thesis using s' by blast
  qed
qed

text \<open>An edge whose target is black or scheduled becomes black.\<close>

lemma tracing_write_link:
  assumes tr: "tracing k s0 e cnt G batch todo s" and obj: "heap s a = Some obj" "i < length (links obj)"
    and be: "black_edge k (flip (epoch_color e)) G s (links obj ! i)"
  shows "tracing k s0 e cnt G batch todo
    (write_link (Field a i) (with_meta (Unrooted (flip (epoch_color e))) (links obj ! i)) s)"
proof -
  let ?b = "flip (epoch_color e)"
  let ?p = "with_meta (Unrooted ?b) (links obj ! i)"
  let ?obj = "obj\<lparr>links := (links obj)[i := ?p]\<rparr>"
  let ?s = "write_link (Field a i) ?p s"
  have s: "?s = s\<lparr>heap := (heap s)(a \<mapsto> ?obj)\<rparr>" using obj(1) by (simp add: write_link_def)
  have c: "color_at ?s = color_at s" using obj(1) by (auto simp: s color_at_def header_at_def fun_eq_iff)
  have g: "gray ?s = gray s" by (simp add: gray_def s)
  have bes: "black_edge k b G ?s p = black_edge k b G s p" for b p by (simp add: black_edge_def c g)
  have t: "thread_epoch ?s u = thread_epoch s u" for u by (simp add: thread_epoch_def s)
  have y: "pending w ?s = pending w s" "cycle_objs w ?s = cycle_objs w s" for w
    by (simp_all add: pending_def cycle_objs_def s)
  have be': "black_edge k ?b G s ?p" using be by (simp add: black_edge_def ptr_simps)
  have "shaded_obj k ?b G s obj" using tracingD(2) [OF tr] obj(1) by (simp add: shaded_def)
  then have "shaded_obj k ?b G s ?obj"
    using be' set_update_subset_insert [of "links obj" i ?p] by (force simp: shaded_obj_def ptr_simps)
  then have "shaded k ?b G ?s"
    using tracingD(2) [OF tr] unfolding shaded_def shaded_obj_def by (simp add: s bes [unfolded s])
  moreover have "map (with_meta Rooted) (links ?obj) = map (with_meta Rooted) (links obj)"
    using obj(2) by (simp add: map_update ptr_simps list_update_same_conv)
  then have "same_objs s0 ?s"
    using tracingD(1) [OF tr] obj(1) unfolding same_objs_def
    by (auto simp: s same_obj_def elim!: allE [of _ a] option.rel_cases)
  ultimately show ?thesis
    using tracingD(3-6,8) [OF tr] tracingD(7) [OF tr]
    by (simp add: tracing_def only_reachable_def lists_ok_def roots_ok_def global_ok_def thread_ok_def c g t y)
      (simp add: s)
qed

text \<open>Marking a header whose edges are all black; the object leaves the hand.\<close>

lemma tracing_set_header:
  assumes tr: "tracing k s0 e cnt G batch todo s" and obj: "heap s a = Some obj" and a: "a \<in> reachable k s0"
    and l: "\<forall>p\<in>set (links obj). ptr_meta_of p = Unrooted (flip (epoch_color e))"
  shows "tracing k s0 e cnt (G - {a}) batch todo (set_header a (with_marked (flip (epoch_color e)) (header obj)) s)"
    and "color_at (set_header a (with_marked (flip (epoch_color e)) (header obj)) s) =
      (color_at s)(a \<mapsto> flip (epoch_color e))"
proof -
  let ?b = "flip (epoch_color e)"
  let ?h = "with_marked ?b (header obj)"
  let ?obj = "obj\<lparr>header := ?h\<rparr>"
  let ?s = "set_header a ?h s"
  have s: "?s = s\<lparr>heap := (heap s)(a \<mapsto> ?obj)\<rparr>" using obj by (simp add: set_header_def)
  show c: "color_at ?s = (color_at s)(a \<mapsto> ?b)"
    by (auto simp: s color_at_def header_at_def meta_simps fun_eq_iff)
  have g: "gray ?s = gray s" by (simp add: gray_def s)
  have bes: "black_edge k ?b (G - {a}) ?s p" if "black_edge k ?b G s p" for p
    using that by (auto simp: black_edge_def c g)
  have t: "thread_epoch ?s u = thread_epoch s u" for u by (simp add: thread_epoch_def s)
  have y: "pending w ?s = pending w s" "cycle_objs w ?s = cycle_objs w s" for w
    by (simp_all add: pending_def cycle_objs_def s)
  have "shaded k ?b (G - {a}) ?s"
    unfolding shaded_def
  proof (intro allI impI)
    fix x ox assume x: "heap ?s x = Some ox"
    show "shaded_obj k ?b (G - {a}) ?s ox"
    proof (cases "x = a")
      case True
      have "shaded_obj k ?b G s obj" using tracingD(2) [OF tr] obj by (simp add: shaded_def)
      then show ?thesis using x True l bes by (auto simp: s [symmetric] shaded_obj_def) (auto simp: s)
    next
      case False
      then have "shaded_obj k ?b G s ox" using tracingD(2) [OF tr] x by (simp add: s shaded_def)
      then show ?thesis using bes by (auto simp: shaded_obj_def)
    qed
  qed
  moreover have "same_objs s0 ?s"
    using tracingD(1) [OF tr] obj unfolding same_objs_def
    by (auto simp: s same_obj_def meta_simps elim!: allE [of _ a] option.rel_cases)
  moreover have "only_reachable k s0 ?b (G - {a}) ?s"
    using tracingD(3) [OF tr] a by (auto simp: only_reachable_def c g)
  ultimately show "tracing k s0 e cnt (G - {a}) batch todo ?s"
    using tracingD(4-6,8) [OF tr] tracingD(7) [OF tr]
    by (simp add: tracing_def lists_ok_def roots_ok_def global_ok_def thread_ok_def c t y) (auto simp: s)
qed

text \<open>A black object need not stay in the hand.\<close>

lemma tracing_black:
  assumes tr: "tracing k s0 e cnt G batch todo s" and "color_at s a = Some (flip (epoch_color e))"
  shows "tracing k s0 e cnt (G - {a}) batch todo s"
proof -
  have "black_edge k (flip (epoch_color e)) (G - {a}) s p" if "black_edge k (flip (epoch_color e)) G s p" for p
    using that assms(2) by (auto simp: black_edge_def)
  then have "shaded k (flip (epoch_color e)) (G - {a}) s"
    using tracingD(2) [OF tr] unfolding shaded_def shaded_obj_def by blast
  then show ?thesis using tr by (auto simp: tracing_def only_reachable_def)
qed

lemma mark_header_alone:
  assumes "heap s a = Some obj" "black_of s g = b"
  shows "mark_header a g (s, []) =
    Some (Inr (), if marked (header obj) = b then s else set_header a (with_marked b (header obj)) s, [])"
  using assms
  by (simp add: mark_header_def read_header_def act_simps mark_header_loop.simps header_compare_exchange_def
      fetch_header_def compare_exchange_def)

lemma with_meta_id: "ptr_meta_of p = Unrooted c \<Longrightarrow> with_meta (Unrooted c) p = p"
  by (rule man_ptr_eqI) (auto simp: ptr_bits split: if_splits)

lemma shade_field:
  assumes tr: "tracing k s0 e cnt G batch todo s" and g: "0 < cnt (g_local g)" "g_local g < n_locals s0"
    and a: "a \<in> reachable k s0" and obj: "heap s a = Some obj" "i < length (links obj)"
  shows "\<exists>s'. shade k (Field a i) g (s, []) = Some (Inr (), s', []) \<and> tracing k s0 e cnt G batch todo s' \<and>
    color_at s' = color_at s \<and> lists_of s' = lists_of s \<and>
    heap s' a = Some (obj\<lparr>links := (links obj)[i := with_meta (Unrooted (flip (epoch_color e))) (links obj ! i)]\<rparr>)"
proof -
  let ?b = "flip (epoch_color e)"
  let ?p = "links obj ! i"
  have b: "black_of s g = ?b" using tracing_epoch [OF tr g(1)] by simp
  have ld: "link_load (Field a i) (s, []) = Some (Inr ?p, s, [])"
    using obj by (simp add: link_load_def read_link_def act_simps)
  show ?thesis
  proof (cases "ptr_meta_of ?p = Unrooted ?b")
    case True
    then have "with_meta (Unrooted ?b) ?p = ?p" by (rule with_meta_id)
    then show ?thesis using True ld tr obj b by (auto simp: shade_def act_simps shade_loop.simps)
  next
    case False
    have "(a, c) \<in> edges k s" if "as_ref k ?p = Some c" for c
      unfolding edges_def using that obj(1) nth_mem [OF obj(2)] by blast
    then have "c \<in> reachable k s0" if "as_ref k ?p = Some c" for c
      using that reachable_edge [OF a] same_obj_edges [OF tracingD(1) [OF tr], of k] by blast
    then obtain r s1 where s1: "shade_pointee k ?p g (s, []) = Some (Inr r, s1, [])" "tracing k s0 e cnt G batch todo s1"
      "black_edge k ?b G s1 ?p" "heap s1 = heap s" "lists_of s1 = lists_of s"
      using tracing_shade_pointee [OF tr g] by blast
    let ?s = "write_link (Field a i) (with_meta (Unrooted ?b) ?p) s1"
    have o1: "heap s1 a = Some obj" using s1(4) obj(1) by simp
    have "link_compare_exchange (Field a i) ?p (with_meta (Unrooted ?b) ?p) (s1, []) = Some (Inr (Inr ?p), ?s, [])"
      using o1 obj(2) by (simp add: link_compare_exchange_def read_link_def act_simps)
    then have "shade k (Field a i) g (s, []) = Some (Inr (), ?s, [])"
      using ld False b s1(1) by (simp add: shade_def act_simps shade_loop.simps)
    moreover have "tracing k s0 e cnt G batch todo ?s" by (rule tracing_write_link [OF s1(2) o1 obj(2) s1(3)])
    moreover have "color_at ?s = color_at s"
      using o1 s1(4) by (auto simp: write_link_def color_at_def header_at_def fun_eq_iff)
    moreover have "heap ?s a = Some (obj\<lparr>links := (links obj)[i := with_meta (Unrooted ?b) ?p]\<rparr>)"
      using o1 by (simp add: write_link_def)
    moreover have "lists_of ?s = lists_of s" using s1(5) o1 by (simp add: write_link_def lists_of_def)
    ultimately show ?thesis by blast
  qed
qed

text \<open>Shading all edges of an object, and marking it.\<close>

lemma shade_outgoings_tracing:
  assumes tr: "tracing k s0 e cnt G batch todo s" and g: "0 < cnt (g_local g)" "g_local g < n_locals s0"
    and a: "a \<in> reachable k s0" and obj: "heap s a = Some obj"
  shows "\<exists>s' obj'. shade_outgoings k a g (s, []) = Some (Inr (), s', []) \<and> tracing k s0 e cnt G batch todo s' \<and>
    color_at s' = color_at s \<and> lists_of s' = lists_of s \<and> heap s' a = Some obj' \<and> header obj' = header obj \<and>
    (\<forall>p\<in>set (links obj'). ptr_meta_of p = Unrooted (flip (epoch_color e)))"
proof -
  let ?b = "flip (epoch_color e)" and ?n = "length (links obj)"
  let ?I = "\<lambda>i s'. tracing k s0 e cnt G batch todo s' \<and> color_at s' = color_at s \<and> lists_of s' = lists_of s \<and>
    (\<exists>obj'. heap s' a = Some obj' \<and> header obj' = header obj \<and> length (links obj') = ?n \<and>
       (\<forall>j < i. ptr_meta_of (links obj' ! j) = Unrooted ?b))"
  have step: "ensures (?I i) (shade k (map (Field a) [0..<?n] ! i) g) (\<lambda>_. ?I (Suc i))"
    if i: "i < length (map (Field a) [0..<?n])" for i
  proof (rule ensuresI)
    fix s1 assume s1: "?I i s1"
    then obtain o1 where o1: "heap s1 a = Some o1" "header o1 = header obj" "length (links o1) = ?n"
      "\<forall>j < i. ptr_meta_of (links o1 ! j) = Unrooted ?b" by blast
    have l: "i < length (links o1)" using i o1(3) by simp
    obtain s2 where s2: "shade k (Field a i) g (s1, []) = Some (Inr (), s2, [])" "tracing k s0 e cnt G batch todo s2"
      "color_at s2 = color_at s1" "lists_of s2 = lists_of s1" "heap s2 a = Some (o1\<lparr>links := (links o1)[i := with_meta (Unrooted ?b) (links o1 ! i)]\<rparr>)"
      using shade_field [OF conjunct1 [OF s1] g a o1(1) l] by blast
    have "?I (Suc i) s2" using s2(2-5) s1 o1 l by (auto simp: less_Suc_eq nth_list_update ptr_simps)
    then show "\<exists>r s'. shade k (map (Field a) [0..<?n] ! i) g (s1, []) = Some (Inr r, s', []) \<and> ?I (Suc i) s'"
      using s2(1) i by auto
  qed
  have "ensures (?I 0) (for_each (map (Field a) [0..<?n]) (\<lambda>l. shade k l g)) (\<lambda>_. ?I (length (map (Field a) [0..<?n])))"
    by (rule ensures_for_each [of _ ?I]) (rule step)
  moreover have "?I 0 s" using tr obj by simp
  ultimately obtain r s' where s': "for_each (map (Field a) [0..<?n]) (\<lambda>l. shade k l g) (s, []) = Some (Inr r, s', [])"
    "?I ?n s'" by (auto elim!: ensuresE)
  then have "shade_outgoings k a g (s, []) = Some (Inr (), s', [])"
    using obj by (simp add: shade_outgoings_def outgoings_def act_simps)
  then show ?thesis using s'(2) by (metis in_set_conv_nth)
qed

lemma dyn_mark_tracing:
  assumes tr: "tracing k s0 e cnt G batch todo s" and g: "0 < cnt (g_local g)" "g_local g < n_locals s0"
    and a: "a \<in> reachable k s0"
  shows "\<exists>s'. dyn_mark k a g (s, []) = Some (Inr (), s', []) \<and> tracing k s0 e cnt (G - {a}) batch todo s' \<and>
    color_at s' = (color_at s)(a \<mapsto> flip (epoch_color e)) \<and> lists_of s' = lists_of s"
proof -
  let ?b = "flip (epoch_color e)"
  obtain obj where obj: "heap s a = Some obj" using reachable_heap [OF tr a] by blast
  obtain s1 o1 where s1: "shade_outgoings k a g (s, []) = Some (Inr (), s1, [])" "tracing k s0 e cnt G batch todo s1"
    "color_at s1 = color_at s" "heap s1 a = Some o1" "\<forall>p\<in>set (links o1). ptr_meta_of p = Unrooted ?b"
    "lists_of s1 = lists_of s"
    using shade_outgoings_tracing [OF tr g a obj] by blast
  have b: "black_of s1 g = ?b" using tracing_epoch [OF s1(2) g(1)] by simp
  note m = mark_header_alone [OF s1(4) b]
  show ?thesis
  proof (cases "marked (header o1) = ?b")
    case True
    then have c: "color_at s1 a = Some ?b" using s1(4) by (simp add: color_at_def header_at_def)
    have "dyn_mark k a g (s, []) = Some (Inr (), s1, [])"
      using s1(1) m True by (simp add: dyn_mark_def act_simps)
    moreover have "color_at s1 = (color_at s)(a \<mapsto> ?b)" using c s1(3) by (simp add: fun_upd_idem)
    ultimately show ?thesis using tracing_black [OF s1(2) c] s1(6) by blast
  next
    case False
    have "dyn_mark k a g (s, []) = Some (Inr (), set_header a (with_marked ?b (header o1)) s1, [])"
      using s1(1) m False by (simp add: dyn_mark_def act_simps)
    moreover have "lists_of (set_header a (with_marked ?b (header o1)) s1) = lists_of s"
      using s1(4,6) by (simp add: set_header_def lists_of_def)
    ultimately show ?thesis using tracing_set_header [OF s1(2,4) a s1(5)] s1(3) by metis
  qed
qed

lemma obj_mark_tracing:
  assumes tr: "tracing k s0 e cnt G batch todo s" and g: "0 < cnt (g_local g)" "g_local g < n_locals s0"
    and a: "a \<in> reachable k s0"
  shows "\<exists>s'. obj_mark k a g (s, []) = Some (Inr (), s', []) \<and> tracing k s0 e cnt (G - {a}) batch todo s' \<and>
    color_at s' = (color_at s)(a \<mapsto> flip (epoch_color e)) \<and> lists_of s' = lists_of s \<and>
    (color_at s a = Some (flip (epoch_color e)) \<longrightarrow> s' = s)"
proof -
  let ?b = "flip (epoch_color e)"
  obtain obj where obj: "heap s a = Some obj" using reachable_heap [OF tr a] by blast
  have b: "black_of s g = ?b" using tracing_epoch [OF tr g(1)] by simp
  have m: "is_marked a g (s, []) = Some (Inr (marked (header obj) = ?b), s, [])"
    using is_marked_alone [OF obj, of g] b by simp
  have c: "color_at s a = Some ?b \<longleftrightarrow> marked (header obj) = ?b" using obj by (simp add: color_at_def header_at_def)
  show ?thesis
  proof (cases "marked (header obj) = ?b")
    case True
    then have "obj_mark k a g (s, []) = Some (Inr (), s, [])" using m by (simp add: obj_mark_def act_simps)
    moreover have "color_at s = (color_at s)(a \<mapsto> ?b)" using c True by (simp add: fun_upd_idem)
    ultimately show ?thesis using tracing_black [OF tr] c True by metis
  next
    case False
    then have "obj_mark k a g (s, []) = dyn_mark k a g (s, [])"
      using m by (simp add: obj_mark_def dyn_mark_def bind_def act_simps)
    then show ?thesis using dyn_mark_tracing [OF tr g a] c False by simp
  qed
qed

end
