(* ===== verification/Cycle_Help.thy ===== *)
theory Cycle_Help
  imports Tricolor
begin

text \<open>
  The tri-colour invariant through the operations that surround marking: scanning batches for roots,
  draining mark tasks, pinning and unpinning the collector's participants, and the help that the drop of
  a guard can trigger.
\<close>

section \<open>Iterating over the participants\<close>

lemma slot_iter_ensures:
  assumes cond: "\<And>i s. cond i (s, []) = Some (Inr (c i s), s, [])"
    and n: "\<And>i acc s. I i acc s \<Longrightarrow> n_locals s = n"
    and skip: "\<And>i acc s. i < n \<Longrightarrow> I i acc s \<Longrightarrow> \<not> c i s \<Longrightarrow> I (Suc i) acc s"
    and body: "\<And>i acc s. i < n \<Longrightarrow> I i acc s \<Longrightarrow> c i s \<Longrightarrow>
      \<exists>r s'. body i acc (s, []) = Some (Inr r, s', []) \<and> (case r of Inl a \<Rightarrow> I (Suc i) a s' | Inr a \<Rightarrow> Q a s')"
    and fin: "\<And>acc s. I n acc s \<Longrightarrow> Q acc s"
  shows "I i acc s \<Longrightarrow> i \<le> n \<Longrightarrow>
    \<exists>r s'. slot_iter cond body (if i < n then Some i else None) acc (s, []) = Some (Inr r, s', []) \<and> Q r s'"
proof (induction "n - i" arbitrary: i acc s)
  case 0
  then show ?case using fin by (subst slot_iter.simps) (auto simp: act_simps)
next
  case (Suc d)
  then have i: "i < n" by simp
  have at: "node_at (Suc i) s = (if Suc i < n then Some (Suc i) else None)"
    using n [OF Suc.prems(1)] by (simp add: node_at_def)
  show ?case
  proof (cases "c i s")
    case True
    obtain r s1 where s1: "body i acc (s, []) = Some (Inr r, s1, [])"
      "case r of Inl a \<Rightarrow> I (Suc i) a s1 | Inr a \<Rightarrow> Q a s1"
      using body [OF i Suc.prems(1) True] by blast
    show ?thesis
    proof (cases r)
      case (Inl a)
      then have "\<exists>r s'. slot_iter cond body (if Suc i < n then Some (Suc i) else None) a (s1, []) = Some (Inr r, s', []) \<and> Q r s'"
        using s1(2) Suc.hyps(2) i by (intro Suc.hyps(1)) auto
      then show ?thesis using i True s1(1) Inl cond [of i s] at
        by (subst slot_iter.simps) (simp add: act_simps)
    next
      case (Inr a)
      then show ?thesis using i True s1 cond [of i s] at by (subst slot_iter.simps) (simp add: act_simps)
    qed
  next
    case False
    then have "\<exists>r s'. slot_iter cond body (if Suc i < n then Some (Suc i) else None) acc (s, []) = Some (Inr r, s', []) \<and> Q r s'"
      using skip [OF i Suc.prems(1)] Suc.hyps(2) i by (intro Suc.hyps(1)) auto
    then show ?thesis using i False cond [of i s] at
      by (subst slot_iter.simps) (simp add: act_simps bind_def)
  qed
qed

lemma iter_all_ensures:
  assumes "\<And>i acc s. I i acc s \<Longrightarrow> n_locals s = n"
    and "\<And>i acc s. i < n \<Longrightarrow> I i acc s \<Longrightarrow>
      \<exists>r s'. body i acc (s, []) = Some (Inr r, s', []) \<and> (case r of Inl a \<Rightarrow> I (Suc i) a s' | Inr a \<Rightarrow> Q a s')"
    and "\<And>acc s. I n acc s \<Longrightarrow> Q acc s" and "I 0 acc s"
  shows "\<exists>r s'. iter_all body acc (s, []) = Some (Inr r, s', []) \<and> Q r s'"
  using slot_iter_ensures [of "\<lambda>_. ret True" "\<lambda>_ _. True" I n body Q 0 acc s] assms assms(1) [OF assms(4)]
  by (simp add: iter_all_def act_simps node_at_def)

lemma iter_using_ensures:
  assumes "\<And>i acc s. I i acc s \<Longrightarrow> n_locals s = n"
    and "\<And>i acc s. i < n \<Longrightarrow> I i acc s \<Longrightarrow> \<not> in_use s i \<Longrightarrow> I (Suc i) acc s"
    and "\<And>i acc s. i < n \<Longrightarrow> I i acc s \<Longrightarrow> in_use s i \<Longrightarrow>
      \<exists>r s'. body i acc (s, []) = Some (Inr r, s', []) \<and> (case r of Inl a \<Rightarrow> I (Suc i) a s' | Inr a \<Rightarrow> Q a s')"
    and "\<And>acc s. I n acc s \<Longrightarrow> Q acc s" and "I 0 acc s"
  shows "\<exists>r s'. iter_using body acc (s, []) = Some (Inr r, s', []) \<and> Q r s'"
  using slot_iter_ensures [of "\<lambda>i. atomic_read (\<lambda>s. in_use s i)" "\<lambda>i s. in_use s i" I n body Q 0 acc s] assms
    assms(1) [OF assms(5)]
  by (simp add: iter_using_def act_simps node_at_def)

text \<open>\<^verbatim>\<open>collect_hps\<close> finds exactly the hazard pointers of the participants in use.\<close>

lemma load_hazards_alone:
  "n \<le> length (hazards (locals s t)) \<Longrightarrow>
     act_map (load_hazard t) [i..<n] (s, []) = Some (Inr (map ((!) (hazards (locals s t))) [i..<n]), s, [])"
proof (induction "n - i" arbitrary: i)
  case 0
  then show ?case by (simp add: act_simps)
next
  case (Suc d)
  then have "i < n" by simp
  then show ?case using Suc.hyps(1) [of "Suc i"] Suc.prems Suc.hyps(2)
    by (simp add: upt_conv_Cons act_simps load_hazard_def)
qed

lemma collect_hps_alone: "\<exists>hps. collect_hps (s, []) = Some (Inr hps, s, []) \<and> set hps = hazard_set s"
proof -
  let ?I = "\<lambda>i acc s'. s' = s \<and> set acc = {h. \<exists>u < i. in_use s u \<and> h \<in> set (hazards (locals s u))}"
  let ?body = "\<lambda>t acc. bind (atomic_read (\<lambda>s. length (hazards (locals s t)))) (\<lambda>n.
       bind (act_map (load_hazard t) [0..<n]) (\<lambda>hs. ret (Inl (acc @ hs))))"
  have "\<exists>r s'. iter_using ?body [] (s, []) = Some (Inr r, s', []) \<and> s' = s \<and> set r = hazard_set s"
  proof (rule iter_using_ensures [where I = ?I and n = "n_locals s"])
    fix i acc s' assume "i < n_locals s" "?I i acc s'" "in_use s' i"
    then show "\<exists>r s''. ?body i acc (s', []) = Some (Inr r, s'', []) \<and>
        (case r of Inl a \<Rightarrow> ?I (Suc i) a s'' | Inr a \<Rightarrow> s'' = s \<and> set a = hazard_set s)"
      by (simp add: act_simps load_hazards_alone map_nth) (auto simp: less_Suc_eq)
  qed (auto simp: hazard_set_def less_Suc_eq)
  then show ?thesis unfolding collect_hps_def by blast
qed

section \<open>Changes that only concern the threads\<close>

lemma tracing_threads:
  assumes tr: "tracing k s0 e cnt G batch todo s" and h: "heap s' = heap s" and l: "lists_of s' = lists_of s"
    and m: "\<And>u. mark_tasks (locals s' u) = mark_tasks (locals s u)"
    and g: "global_ok s0 e s'" and t: "\<And>u. thread_ok s0 e cnt' s' u"
  shows "tracing k s0 e cnt' G batch todo s'"
proof -
  have n: "n_locals s' = n_locals s" using g tracingD(6) [OF tr] by (simp add: global_ok_def)
  have c: "color_at s' = color_at s" by (rule color_at_heap [OF h])
  have f: "fresh_objs s' = fresh_objs s" "marked_objs s' = marked_objs s" "objs (locals s' u) = objs (locals s u)" for u
    using l by (simp_all add: lists_of_def fun_eq_iff)
  have p: "gray s' = gray s" "pending w s' = pending w s" "cycle_objs w s' = cycle_objs w s" for w
    by (simp_all add: gray_def pending_def cycle_objs_def n m f)
  have be: "black_edge k b G s' r = black_edge k b G s r" for b r by (simp add: black_edge_def c p)
  show ?thesis
    using tracingD(1-5,8) [OF tr] g t
    by (simp add: tracing_def same_objs_def shaded_def shaded_obj_def only_reachable_def lists_ok_def roots_ok_def
        h c f p be)
qed

section \<open>Moving batches\<close>

lemma mset_concat_replace:
  assumes "q \<in> set qs" "distinct qs"
  shows "mset (concat (map (\<lambda>i. concat ((f(q := x)) i)) qs)) + mset (concat (f q)) =
    mset (concat (map (\<lambda>i. concat (f i)) qs)) + mset (concat x)"
  using assms
proof (induction qs)
  case (Cons i qs)
  show ?case
  proof (cases "i = q")
    case True
    then have "concat (map (\<lambda>i. concat ((f(q := x)) i)) qs) = concat (map (\<lambda>i. concat (f i)) qs)"
      using Cons.prems by (intro arg_cong [where f = concat] map_cong) auto
    then show ?thesis using True by simp
  next
    case False
    then show ?thesis using Cons by (simp add: ac_simps)
  qed
qed simp

lemma mset_all_objs_pop:
  assumes "q < OBJ_BATCHES_SHARD" "f q = b # bs"
  shows "mset (all_objs f) = mset (all_objs (f(q := bs))) + mset b"
  using mset_concat_replace [of q "[0..<OBJ_BATCHES_SHARD]" f bs] assms
  by (simp add: all_objs_def ac_simps)

lemma set_all_objs_pop:
  "q < OBJ_BATCHES_SHARD \<Longrightarrow> f q = b # bs \<Longrightarrow> set (all_objs f) = set (all_objs (f(q := bs))) \<union> set b"
  using arg_cong [OF mset_all_objs_pop, of q f b bs set_mset] by simp

lemma tracing_pop_fresh:
  assumes tr: "tracing k s0 e cnt G [] [] s" and q: "q < OBJ_BATCHES_SHARD"
    and b: "fresh_objs s (epoch_color e) q = b # bs"
  shows "tracing k s0 e cnt G b b
    (s\<lparr>fresh_objs := (fresh_objs s)(epoch_color e := (fresh_objs s (epoch_color e))(q := bs))\<rparr>)"
proof -
  let ?w = "epoch_color e"
  let ?s = "s\<lparr>fresh_objs := (fresh_objs s)(?w := (fresh_objs s ?w)(q := bs))\<rparr>"
  have c: "color_at ?s = color_at s" by (intro color_at_heap) simp
  have p: "gray ?s = gray s" "pending x ?s = pending x s" "thread_epoch ?s u = thread_epoch s u" for x u
    by (simp_all add: gray_def pending_def thread_epoch_def)
  have be: "black_edge k x G ?s r = black_edge k x G s r" for x r by (simp add: black_edge_def c p)
  have f: "flip ?w \<noteq> ?w" by (cases ?w) simp_all
  have "lists_ok s0 ?w b ?s"
    using tracingD(4) [OF tr] mset_all_objs_pop [OF q, of "fresh_objs s ?w", OF b] f
    by (simp add: lists_ok_def cycle_objs_def p ac_simps)
  moreover have "roots_ok s0 ?w b ?s"
    using tracingD(5) [OF tr] set_all_objs_pop [OF q, of "fresh_objs s ?w", OF b]
    by (auto simp: roots_ok_def c p)
  ultimately show ?thesis
    using tracingD(1-3,6,8) [OF tr] tracingD(7) [OF tr]
    by (simp add: tracing_def same_objs_def shaded_def shaded_obj_def only_reachable_def global_ok_def thread_ok_def
        be c p)
qed

lemma tracing_push_marked:
  assumes tr: "tracing k s0 e cnt G b [] s" and q: "q < OBJ_BATCHES_SHARD"
  shows "tracing k s0 e cnt G [] []
    (s\<lparr>marked_objs := (marked_objs s)(epoch_color e := (marked_objs s (epoch_color e))(q := marked_objs s (epoch_color e) q @ [b]))\<rparr>)"
proof -
  let ?w = "epoch_color e"
  let ?s = "s\<lparr>marked_objs := (marked_objs s)(?w := (marked_objs s ?w)(q := marked_objs s ?w q @ [b]))\<rparr>"
  have c: "color_at ?s = color_at s" by (intro color_at_heap) simp
  have p: "gray ?s = gray s" "pending x ?s = pending x s" "thread_epoch ?s u = thread_epoch s u" for x u
    by (simp_all add: gray_def pending_def thread_epoch_def)
  have be: "black_edge k x G ?s r = black_edge k x G s r" for x r by (simp add: black_edge_def c p)
  have f: "flip ?w \<noteq> ?w" by (cases ?w) simp_all
  have "lists_ok s0 ?w [] ?s"
    using tracingD(4) [OF tr] mset_all_objs_push [OF q, of "marked_objs s ?w" b] f
    by (simp add: lists_ok_def cycle_objs_def p ac_simps)
  then show ?thesis
    using tracingD(1-3,5,6,8) [OF tr] tracingD(7) [OF tr]
    by (simp add: tracing_def same_objs_def shaded_def shaded_obj_def only_reachable_def global_ok_def thread_ok_def
        roots_ok_def be c p)
qed

section \<open>Scanning for roots\<close>

lemma tracing_todo:
  assumes tr: "tracing k s0 e cnt G batch (a # todo) s"
    and "color_at s a = Some (flip (epoch_color e)) \<or> a \<notin> root_objs s0"
  shows "tracing k s0 e cnt G batch todo s"
proof -
  have "roots_ok s0 (epoch_color e) todo s"
    using tracingD(5) [OF tr] assms(2) unfolding roots_ok_def by auto
  then show ?thesis using tr by (simp add: tracing_def)
qed

lemma batch_objs:
  assumes "tracing k s0 e cnt G batch todo s" "a \<in> set batch"
  shows "\<exists>obj obj0. heap s a = Some obj \<and> heap s0 a = Some obj0 \<and> root_count (header obj) = root_count (header obj0)"
proof -
  have "set_mset (mset (cycle_objs (epoch_color e) s) + mset batch) = set (cycle_objs (epoch_color e) s0)"
    using tracingD(4) [OF assms(1)] by (simp add: lists_ok_def)
  then have "a \<in> set (cycle_objs (epoch_color e) s0)" using assms(2) by auto
  then obtain obj0 where o0: "heap s0 a = Some obj0" using tracingD(8) [OF assms(1)] by (auto simp: traceable_def)
  have "rel_option same_obj (heap s0 a) (heap s a)" using tracingD(1) [OF assms(1)] by (simp add: same_objs_def)
  then show ?thesis using o0 by (auto simp: same_obj_def option_rel_Some1)
qed

lemma mark_if_root_tracing:
  assumes tr: "tracing k s0 e cnt G batch (a # todo) s" and g: "0 < cnt (g_local g)" "g_local g < n_locals s0"
    and a: "a \<in> set batch" and h: "set hps = hazard_set s0" and G: "G = {}"
  shows "\<exists>s'. mark_if_root k g hps a (s, []) = Some (Inr (), s', []) \<and> tracing k s0 e cnt {} batch todo s' \<and>
    lists_of s' = lists_of s"
proof -
  obtain obj obj0 where o: "heap s a = Some obj" "heap s0 a = Some obj0" "root_count (header obj) = root_count (header obj0)"
    using batch_objs [OF tr a] by blast
  have n: "dyn_root_count a (s, []) = Some (Inr (root_count (header obj)), s, [])"
    using o(1) by (simp add: dyn_root_count_def read_header_def act_simps)
  have root: "a \<in> root_objs s0 \<longleftrightarrow> 0 < root_count (header obj) \<or> a \<in> set hps"
    using o h by (auto simp: root_objs_def)
  show ?thesis
  proof (cases "a \<in> root_objs s0")
    case True
    obtain s' where "dyn_mark k a g (s, []) = Some (Inr (), s', [])" "tracing k s0 e cnt (G - {a}) batch (a # todo) s'"
      "color_at s' = (color_at s)(a \<mapsto> flip (epoch_color e))" "lists_of s' = lists_of s"
      using dyn_mark_tracing [OF tr g reachable_root [OF True]] by blast
    moreover from this have "tracing k s0 e cnt {} batch todo s'"
      using tracing_todo [of k s0 e cnt "G - {a}" batch a todo s'] G by simp
    moreover have "mark_if_root k g hps a (s, []) = dyn_mark k a g (s, [])"
      using n True root by (simp add: mark_if_root_def act_simps)
    ultimately show ?thesis by metis
  next
    case False
    then show ?thesis using n root tracing_todo [OF tr] G by (simp add: mark_if_root_def act_simps)
  qed
qed

lemma mark_roots_tracing:
  assumes "tracing k s0 e cnt {} batch todo s" "0 < cnt (g_local g)" "g_local g < n_locals s0"
    and "set todo \<subseteq> set batch" "set hps = hazard_set s0"
  shows "\<exists>s'. for_each todo (mark_if_root k g hps) (s, []) = Some (Inr (), s', []) \<and>
    tracing k s0 e cnt {} batch [] s' \<and> lists_of s' = lists_of s"
  using assms
proof (induction todo arbitrary: s)
  case (Cons a todo)
  obtain s1 where "mark_if_root k g hps a (s, []) = Some (Inr (), s1, [])" "tracing k s0 e cnt {} batch todo s1"
    "lists_of s1 = lists_of s"
    using mark_if_root_tracing [OF Cons.prems(1,2,3) _ Cons.prems(5)] Cons.prems(4) by auto
  then show ?case using Cons.IH [of s1] Cons.prems by (auto simp: act_simps)
qed (simp add: act_simps)

text \<open>Putting a scanned batch back: it is swept at the end of the cycle.\<close>

lemma lists_of_pending:
  assumes "lists_of s' = lists_of s" "n_locals s' = n_locals s"
  shows "fresh_objs s' = fresh_objs s" "pending w s' = pending w s"
  using assms by (auto simp: lists_of_def pending_def fun_eq_iff)

lemma tracing_n_locals: "tracing k s0 e cnt G batch todo s \<Longrightarrow> n_locals s = n_locals s0"
  by (simp add: tracing_def global_ok_def)

lemma put_back:
  assumes tr: "tracing k s0 e cnt G b [] s"
  shows "\<exists>s'. bind select_obj_shard (\<lambda>q. bind (push_marked (epoch_color e) q b) K) (s, []) = K () (s', []) \<and>
    tracing k s0 e cnt G [] [] s' \<and> fresh_objs s' = fresh_objs s \<and> pending w s' = pending w s"
proof -
  let ?s = "s\<lparr>rng := tl (rng s)\<rparr>"
  have "trace_view ?s = trace_view s" by (simp add: trace_view_def)
  then have "tracing k s0 e cnt G b [] ?s" using tr tracing_view by blast
  note t = tracing_push_marked [OF this next_shard_less [of s]]
  show ?thesis
    by (rule exI, intro conjI, rule_tac [2] t) (simp_all add: push_marked_def act_simps pending_def)
qed

lemma pop_fresh_run [act_simps]:
  "pop_fresh c q (s, []) = (case fresh_objs s c q of
     [] \<Rightarrow> Some (Inr None, s, [])
   | b # bs \<Rightarrow> Some (Inr (Some b), s\<lparr>fresh_objs := (fresh_objs s)(c := (fresh_objs s c)(q := bs))\<rparr>, []))"
  by (simp add: pop_fresh_def act_simps split: list.split)

section \<open>Helping\<close>

text \<open>
  Work on behalf of the collector keeps the invariant, adds nothing to the batches that are to be
  scanned, and schedules nothing once all is scanned and drained.
\<close>

definition no_fresh :: "color \<Rightarrow> 'v rt \<Rightarrow> bool" where
  "no_fresh w s \<longleftrightarrow> (\<forall>q < OBJ_BATCHES_SHARD. fresh_objs s w q = [])"

definition advance :: "color \<Rightarrow> 'v rt \<Rightarrow> 'v rt \<Rightarrow> bool" where
  "advance w s s' \<longleftrightarrow>
     (\<forall>q < OBJ_BATCHES_SHARD. fresh_objs s w q = [] \<longrightarrow> fresh_objs s' w q = []) \<and> (pending w s = [] \<longrightarrow> pending w s' = []) \<and>
     (no_fresh w s \<and> gray s = {} \<longrightarrow> gray s' = {})"

lemma advance_refl [simp]: "advance w s s"
  by (simp add: advance_def)

lemma advance_trans: "advance w s s' \<Longrightarrow> advance w s' s'' \<Longrightarrow> advance w s s''"
  unfolding advance_def no_fresh_def by blast

lemma advance_view:
  assumes "trace_view s' = trace_view s"
  shows "advance w s s'"
  using trace_viewD [OF assms] by (simp add: advance_def gray_def pending_def no_fresh_def)

definition helps :: "nat \<Rightarrow> 'v rt \<Rightarrow> epoch \<Rightarrow> (nat \<Rightarrow> usize) \<Rightarrow> ('v rt, 'a) act \<Rightarrow> bool" where
  "helps k s0 e cnt m \<longleftrightarrow> (\<forall>s. tracing k s0 e cnt {} [] [] s \<longrightarrow>
     (\<exists>r s'. m (s, []) = Some (Inr r, s', []) \<and> tracing k s0 e cnt {} [] [] s' \<and> advance (epoch_color e) s s'))"

named_theorems helps_intros \<open>rules for actions that help the collector\<close>

lemma helps_ret [helps_intros]: "helps k s0 e cnt (ret x)"
  by (simp add: helps_def act_simps)

lemma helps_gets [helps_intros]: "helps k s0 e cnt (gets f)" "helps k s0 e cnt (atomic_read f)"
  by (simp_all add: helps_def act_simps)

lemma helps_bind [helps_intros]:
  assumes "helps k s0 e cnt m" "\<And>x. helps k s0 e cnt (f x)"
  shows "helps k s0 e cnt (bind m f)"
  unfolding helps_def
proof (intro allI impI)
  fix s assume "tracing k s0 e cnt {} [] [] s"
  then obtain r s1 where 1: "m (s, []) = Some (Inr r, s1, [])" "tracing k s0 e cnt {} [] [] s1" "advance (epoch_color e) s s1"
    using assms(1) by (auto simp: helps_def)
  then obtain r' s2 where "f r (s1, []) = Some (Inr r', s2, [])" "tracing k s0 e cnt {} [] [] s2" "advance (epoch_color e) s1 s2"
    using assms(2) [of r] by (auto simp: helps_def)
  then show "\<exists>r s'. bind m f (s, []) = Some (Inr r, s', []) \<and> tracing k s0 e cnt {} [] [] s' \<and> advance (epoch_color e) s s'"
    using 1 advance_trans by (auto simp: bind_def)
qed

lemma helps_seq [helps_intros]: "helps k s0 e cnt m \<Longrightarrow> helps k s0 e cnt n \<Longrightarrow> helps k s0 e cnt (seq m n)"
  unfolding seq_def by (rule helps_bind)

lemma helps_if [helps_intros]:
  "(b \<Longrightarrow> helps k s0 e cnt m) \<Longrightarrow> (\<not> b \<Longrightarrow> helps k s0 e cnt n) \<Longrightarrow> helps k s0 e cnt (if b then m else n)"
  by simp

lemma helps_when [helps_intros]: "helps k s0 e cnt m \<Longrightarrow> helps k s0 e cnt (act_when b m)"
  by (cases b) (simp_all add: act_simps helps_ret)

lemma helps_modify [helps_intros]:
  assumes "\<And>s. trace_view (f s) = trace_view s"
  shows "helps k s0 e cnt (modify f)"
  unfolding helps_def using assms advance_view [OF assms] tracing_view [OF assms] by (auto simp: act_simps)

lemma trace_view_update:
  "trace_view (s\<lparr>rng := r\<rparr>) = trace_view s" "trace_view (s\<lparr>should_help := h\<rparr>) = trace_view s"
  "trace_view (s\<lparr>contended := c\<rparr>) = trace_view s"
  "local_view (f (locals s t)) = local_view (locals s t) \<Longrightarrow> trace_view (upd_local t f s) = trace_view s"
  "local_view (l\<lparr>is_helping_root_tracing := b\<rparr>) = local_view l"
  "local_view (l\<lparr>is_helping_draining_mark_tasks := b\<rparr>) = local_view l"
  by (simp_all add: trace_view_def local_view_def) (rule ext, simp)

lemma helps_flags [helps_intros]:
  "helps k s0 e cnt (modify (\<lambda>s. s\<lparr>rng := f s\<rparr>))"
  "helps k s0 e cnt (modify (\<lambda>s. s\<lparr>should_help := h s\<rparr>))"
  "helps k s0 e cnt (modify (upd_local t (\<lambda>l. l\<lparr>is_helping_root_tracing := b\<rparr>)))"
  "helps k s0 e cnt (modify (upd_local t (\<lambda>l. l\<lparr>is_helping_draining_mark_tasks := b\<rparr>)))"
  by (intro helps_modify; simp add: trace_view_update)+

lemma hazard_set_tracing:
  assumes "tracing k s0 e cnt G batch todo s"
  shows "hazard_set s = hazard_set s0"
proof -
  have "hazards (locals s u) = hazards (locals s0 u)" for u using tracingD(7) [OF assms, of u] by (simp add: thread_ok_def)
  then show ?thesis using tracingD(6) [OF assms] by (simp add: hazard_set_def global_ok_def)
qed

lemma scan_or_reuse_tracing:
  assumes tr: "tracing k s0 e cnt G batch todo s" and t: "0 < cnt t"
  shows "\<exists>hs s'. scan_or_reuse_hazards t (s, []) = Some (Inr hs, s', []) \<and> tracing k s0 e cnt G batch todo s' \<and>
    set hs = hazard_set s0 \<and> lists_of s' = lists_of s"
proof -
  have ep: "thread_epoch s t = pinned e" by (rule tracing_epoch(1) [OF tr t])
  obtain hps where hps: "collect_hps (s, []) = Some (Inr hps, s, [])" "set hps = hazard_set s0"
    using collect_hps_alone [of s] hazard_set_tracing [OF tr] by auto
  let ?s = "upd_local t (\<lambda>l. l\<lparr>cached_hazards := Some (hps, pinned e)\<rparr>) s"
  have "thread_ok s0 e cnt ?s u" for u
    using tracingD(7) [OF tr, of u] hps(2) by (auto simp: thread_ok_def thread_epoch_def epoch_simps)
  moreover have "global_ok s0 e ?s" using tracingD(6) [OF tr] by (simp add: global_ok_def)
  moreover have l: "lists_of ?s = lists_of s" by (auto simp: lists_of_def fun_eq_iff)
  ultimately have new: "tracing k s0 e cnt G batch todo ?s"
    by (intro tracing_threads [OF tr]) simp_all
  show ?thesis
  proof (cases "\<exists>hs. cached_hazards (locals s t) = Some (hs, pinned e)")
    case True
    then obtain hs where hs: "cached_hazards (locals s t) = Some (hs, pinned e)" by blast
    then have "set hs = hazard_set s0" using tracingD(7) [OF tr, of t] by (simp add: thread_ok_def)
    then show ?thesis using hs tr ep by (auto simp: scan_or_reuse_hazards_def act_simps)
  next
    case False
    then have "scan_or_reuse_hazards t (s, []) = Some (Inr hps, ?s, [])"
      using ep hps(1)
      by (cases "cached_hazards (locals s t)") (auto simp: scan_or_reuse_hazards_def Let_def act_simps)
    then show ?thesis using new l hps(2) by blast
  qed
qed

lemma help_root_batch_tracing:
  assumes "tracing k s0 e cnt {} batch todo s" "0 < cnt (g_local g)" "g_local g < n_locals s0"
    and "set todo \<subseteq> set batch" "\<And>hs. hps = Some hs \<Longrightarrow> set hs = hazard_set s0"
  shows "\<exists>hps' s'. help_root_batch k g todo hps (s, []) = Some (Inr hps', s', []) \<and>
    tracing k s0 e cnt {} batch [] s' \<and> lists_of s' = lists_of s \<and> (\<forall>hs. hps' = Some hs \<longrightarrow> set hs = hazard_set s0)"
  using assms
proof (induction todo arbitrary: s hps)
  case Nil
  then show ?case by (simp add: act_simps)
next
  case (Cons a todo)
  let ?hz = "case hps of Some hs \<Rightarrow> ret hs | None \<Rightarrow> scan_or_reuse_hazards (g_local g)"
  obtain obj obj0 where o: "heap s a = Some obj" "heap s0 a = Some obj0" "root_count (header obj) = root_count (header obj0)"
    using batch_objs [OF Cons.prems(1), of a] Cons.prems(4) by auto
  have n: "dyn_root_count a (s, []) = Some (Inr (root_count (header obj)), s, [])"
    using o(1) by (simp add: dyn_root_count_def read_header_def act_simps)
  have mark: "\<exists>s'. dyn_mark k a g (s1, []) = Some (Inr (), s', []) \<and> tracing k s0 e cnt {} batch todo s' \<and> lists_of s' = lists_of s1"
    if r: "a \<in> root_objs s0" and s1: "tracing k s0 e cnt {} batch (a # todo) s1" for s1
    using dyn_mark_tracing [OF s1 Cons.prems(2,3) reachable_root [OF r]] tracing_todo [of k s0 e cnt "{}" batch a todo]
    by fastforce
  show ?case
  proof (cases "0 < root_count (header obj)")
    case True
    then have "a \<in> root_objs s0" using o by (auto simp: root_objs_def)
    then obtain s1 where s1: "dyn_mark k a g (s, []) = Some (Inr (), s1, [])" "tracing k s0 e cnt {} batch todo s1" "lists_of s1 = lists_of s"
      using mark Cons.prems(1) by blast
    have "help_root_batch k g (a # todo) hps (s, []) = help_root_batch k g todo hps (s1, [])"
      using n True s1(1) by (simp add: act_simps)
    then show ?thesis using Cons.IH [OF s1(2) Cons.prems(2,3)] Cons.prems(4,5) s1(3) by simp
  next
    case False
    obtain hs s1 where s1: "?hz (s, []) = Some (Inr hs, s1, [])" "tracing k s0 e cnt {} batch (a # todo) s1"
      "set hs = hazard_set s0" "lists_of s1 = lists_of s"
      using scan_or_reuse_tracing [OF Cons.prems(1,2)] Cons.prems(1,5) by (cases hps) (auto simp: act_simps)
    have root: "a \<in> root_objs s0 \<longleftrightarrow> a \<in> set hs" using o False s1(3) by (auto simp: root_objs_def)
    have "\<exists>s2. act_when (a \<in> set hs) (dyn_mark k a g) (s1, []) = Some (Inr (), s2, []) \<and>
        tracing k s0 e cnt {} batch todo s2 \<and> lists_of s2 = lists_of s"
      using mark [OF _ s1(2)] tracing_todo [OF s1(2)] s1(4) root by (cases "a \<in> set hs") (auto simp: act_simps)
    then obtain s2 where s2: "act_when (a \<in> set hs) (dyn_mark k a g) (s1, []) = Some (Inr (), s2, [])"
      "tracing k s0 e cnt {} batch todo s2" "lists_of s2 = lists_of s" by blast
    have "help_root_batch k g (a # todo) hps (s, []) = help_root_batch k g todo (Some hs) (s2, [])"
      using n False s1(1) s2(1) by (simp add: act_simps)
    then show ?thesis using Cons.IH [OF s2(2) Cons.prems(2,3), of "Some hs"] Cons.prems(4) s1(3) s2(3) by simp
  qed
qed

lemma help_root_shard_tracing:
  assumes "tracing k s0 e cnt {} [] [] s" "0 < cnt (g_local g)" "g_local g < n_locals s0" "q < OBJ_BATCHES_SHARD"
    and "\<And>hs. hps = Some hs \<Longrightarrow> set hs = hazard_set s0"
  shows "\<exists>m hps' s'. help_root_shard left k g q n hps (s, []) = Some (Inr (m, hps'), s', []) \<and>
    tracing k s0 e cnt {} [] [] s' \<and> advance (epoch_color e) s s' \<and> (\<forall>hs. hps' = Some hs \<longrightarrow> set hs = hazard_set s0)"
  using assms
proof (induction left arbitrary: s n hps)
  case 0
  then show ?case by (simp add: act_simps)
next
  case (Suc left)
  let ?w = "epoch_color e"
  have w: "white_color g (s, []) = Some (Inr ?w, s, [])"
    using tracing_epoch(2) [OF Suc.prems(1,2)] by (simp add: act_simps)
  show ?case
  proof (cases "fresh_objs s ?w q")
    case Nil
    then show ?thesis using w Suc.prems(1,5) by (simp add: act_simps)
  next
    case (Cons b bs)
    let ?s = "s\<lparr>fresh_objs := (fresh_objs s)(?w := (fresh_objs s ?w)(q := bs))\<rparr>"
    have t1: "tracing k s0 e cnt {} b b ?s" by (rule tracing_pop_fresh [OF Suc.prems(1,4) Cons])
    obtain hps1 s1 where s1: "help_root_batch k g b hps (?s, []) = Some (Inr hps1, s1, [])"
      "tracing k s0 e cnt {} b [] s1" "lists_of s1 = lists_of ?s" "\<forall>hs. hps1 = Some hs \<longrightarrow> set hs = hazard_set s0"
      using help_root_batch_tracing [OF t1 Suc.prems(2,3) subset_refl Suc.prems(5)] by blast
    obtain s2 where s2: "bind select_obj_shard (\<lambda>q'. bind (push_marked ?w q' b) (\<lambda>_. help_root_shard left k g q (Suc n) hps1)) (s1, []) =
        help_root_shard left k g q (Suc n) hps1 (s2, [])"
      "tracing k s0 e cnt {} [] [] s2" "fresh_objs s2 = fresh_objs s1" "pending ?w s2 = pending ?w s1"
      using put_back [OF s1(2), of "\<lambda>_. help_root_shard left k g q (Suc n) hps1" ?w] by blast
    have l: "fresh_objs s1 = fresh_objs ?s" "pending ?w s1 = pending ?w ?s"
      using lists_of_pending [OF s1(3)] tracing_n_locals [OF s1(2)] tracing_n_locals [OF t1] by auto
    have "\<not> no_fresh ?w s" using Cons Suc.prems(4) by (auto simp: no_fresh_def)
    then have adv: "advance ?w s s2" using s2(3,4) l Cons by (auto simp: advance_def pending_def)
    have "help_root_shard (Suc left) k g q n hps (s, []) = help_root_shard left k g q (Suc n) hps1 (s2, [])"
      using w Cons s1(1) s2(1) by (simp add: act_simps seq_def)
    then show ?thesis using Suc.IH [OF s2(2) Suc.prems(2-4)] s1(4) advance_trans [OF adv] by metis
  qed
qed

lemma shuffle_subset: "set (shuffle_with rs xs) \<subseteq> set xs"
proof (induction rs xs rule: shuffle_with.induct)
  case (3 r rs x xs)
  let ?i = "r mod Suc (length xs)" and ?xs = "x # xs"
  have "?i < length ?xs" by simp
  then have "?xs ! ?i \<in> set ?xs" by (rule nth_mem)
  moreover have "set (shuffle_with rs (take ?i ?xs @ drop (Suc ?i) ?xs)) \<subseteq> set ?xs"
    using 3 [OF refl refl] set_take_subset [of ?i ?xs] set_drop_subset [of "Suc ?i" ?xs] by auto
  ultimately show ?case by (simp add: Let_def)
qed simp_all

lemma help_root_shards_tracing:
  assumes "tracing k s0 e cnt {} [] [] s" "0 < cnt (g_local g)" "g_local g < n_locals s0" "set qs \<subseteq> {..<OBJ_BATCHES_SHARD}"
    and "\<And>hs. hps = Some hs \<Longrightarrow> set hs = hazard_set s0"
  shows "\<exists>s'. help_root_shards k g qs n hps (s, []) = Some (Inr (), s', []) \<and>
    tracing k s0 e cnt {} [] [] s' \<and> advance (epoch_color e) s s'"
  using assms
proof (induction qs arbitrary: s n hps)
  case Nil
  then show ?case by (simp add: act_simps)
next
  case (Cons q qs)
  obtain m hps1 s1 where s1: "help_root_shard (HELP_TRACING_MAX_TRIAL - n) k g q n hps (s, []) = Some (Inr (m, hps1), s1, [])"
    "tracing k s0 e cnt {} [] [] s1" "advance (epoch_color e) s s1" "\<forall>hs. hps1 = Some hs \<longrightarrow> set hs = hazard_set s0"
    using help_root_shard_tracing [OF Cons.prems(1-3), of q hps "HELP_TRACING_MAX_TRIAL - n" n] Cons.prems(4,5) by auto
  show ?case
  proof (cases "m \<ge> HELP_TRACING_MAX_TRIAL")
    case True
    then show ?thesis using s1 by (simp add: act_simps)
  next
    case False
    obtain s2 where "help_root_shards k g qs m hps1 (s1, []) = Some (Inr (), s2, [])" "tracing k s0 e cnt {} [] [] s2"
      "advance (epoch_color e) s1 s2"
      using Cons.IH [OF s1(2) Cons.prems(2,3), of hps1 m] Cons.prems(4) s1(4) by auto
    then show ?thesis using s1(1) False advance_trans [OF s1(3)] by (simp add: act_simps)
  qed
qed

lemma helps_guard_phase [helps_intros]: "0 < cnt (g_local g) \<Longrightarrow> helps k s0 e cnt (guard_phase g)"
  unfolding helps_def
proof (intro allI impI)
  fix s assume p: "0 < cnt (g_local g)" and tr: "tracing k s0 e cnt {} [] [] s"
  obtain ph where "epoch_phase e = Inr ph" using tracingD(8) [OF tr] by (auto simp: traceable_def)
  then show "\<exists>r s'. guard_phase g (s, []) = Some (Inr r, s', []) \<and> tracing k s0 e cnt {} [] [] s' \<and> advance (epoch_color e) s s'"
    using tracing_epoch(1) [OF tr p] tr by (simp add: guard_phase_def guard_epoch_def act_simps epoch_simps)
qed

lemma helps_root_tracing [helps_intros]:
  assumes "0 < cnt (g_local g)" "g_local g < n_locals s0"
  shows "helps k s0 e cnt (help_root_tracing k g)"
proof -
  have "helps k s0 e cnt (bind generate_shard_permut (\<lambda>permut. help_root_shards k g permut 0 None))"
    unfolding helps_def
  proof (intro allI impI)
    fix s assume tr: "tracing k s0 e cnt {} [] [] s"
    let ?qs = "shuffle_with (rng s) [0..<OBJ_BATCHES_SHARD]" and ?s = "s\<lparr>rng := drop OBJ_BATCHES_SHARD (rng s)\<rparr>"
    have t1: "tracing k s0 e cnt {} [] [] ?s" using tr tracing_view [OF trace_view_update(1)] by blast
    have qs: "set ?qs \<subseteq> {..<OBJ_BATCHES_SHARD}" using shuffle_subset [of "rng s" "[0..<OBJ_BATCHES_SHARD]"] by auto
    obtain s' where "help_root_shards k g ?qs 0 None (?s, []) = Some (Inr (), s', [])" "tracing k s0 e cnt {} [] [] s'"
      "advance (epoch_color e) ?s s'"
      using help_root_shards_tracing [OF t1 assms qs, of None 0] by auto
    then show "\<exists>r s'. bind generate_shard_permut (\<lambda>permut. help_root_shards k g permut 0 None) (s, []) = Some (Inr r, s', []) \<and>
        tracing k s0 e cnt {} [] [] s' \<and> advance (epoch_color e) s s'"
      using advance_trans [OF advance_view, of ?s s] trace_view_update(1)
      by (auto simp: generate_shard_permut_def act_simps)
  qed
  then have "helps k s0 e cnt (if phase \<noteq> RT then ret ()
      else bind generate_shard_permut (\<lambda>permut. help_root_shards k g permut 0 None))" for phase
    by (simp add: helps_ret)
  then show ?thesis unfolding help_root_tracing_def
    by (rule helps_bind [OF helps_guard_phase [of cnt g, OF assms(1)]])
qed

section \<open>Draining\<close>

lemma in_gray: "x \<in> gray s \<longleftrightarrow> (\<exists>u < n_locals s. x \<in> set (mark_tasks (locals s u)))"
  by (auto simp: gray_def)

lemma tracing_take_task:
  assumes tr: "tracing k s0 e cnt {} [] [] s" and t: "t < n_locals s0" and a: "mark_tasks (locals s t) = a # as"
  shows "tracing k s0 e cnt {a} [] [] (upd_local t (\<lambda>l. l\<lparr>mark_tasks := as\<rparr>) s)"
proof -
  let ?s = "upd_local t (\<lambda>l. l\<lparr>mark_tasks := as\<rparr>) s"
  have n: "n_locals s = n_locals s0" by (rule tracing_n_locals [OF tr])
  have g: "gray ?s \<union> {a} = gray s"
  proof (intro set_eqI)
    fix x show "x \<in> gray ?s \<union> {a} \<longleftrightarrow> x \<in> gray s"
      using t a n unfolding Un_iff in_gray by (auto split: if_splits) (metis set_ConsD)
  qed
  have "trace_view (drop_tasks ?s) = trace_view (drop_tasks s)"
    by (simp add: trace_view_def drop_tasks_def local_view_def fun_eq_iff)
  then show ?thesis
    using g tracingD(7) [OF tr] t by (intro tracing_tasks [OF tr]) (auto simp: thread_ok_def)
qed

lemma drain_one:
  assumes tr: "tracing k s0 e cnt {} [] [] s" and g: "0 < cnt (g_local g)" "g_local g < n_locals s0"
    and t: "t < n_locals s0" and a: "mark_tasks (locals s t) = a # as"
  shows "\<exists>s'. obj_mark k a g (upd_local t (\<lambda>l. l\<lparr>mark_tasks := as\<rparr>) s, []) = Some (Inr (), s', []) \<and>
    tracing k s0 e cnt {} [] [] s' \<and> color_at s' = (color_at s)(a \<mapsto> flip (epoch_color e)) \<and> lists_of s' = lists_of s \<and>
    a \<in> reachable k s0 \<and>
    (color_at s a = Some (flip (epoch_color e)) \<longrightarrow> s' = upd_local t (\<lambda>l. l\<lparr>mark_tasks := as\<rparr>) s)"
proof -
  let ?s = "upd_local t (\<lambda>l. l\<lparr>mark_tasks := as\<rparr>) s"
  have t1: "tracing k s0 e cnt {a} [] [] ?s" by (rule tracing_take_task [OF tr t a])
  have r: "a \<in> reachable k s0" using tracing_gray [OF t1] by simp
  have c: "color_at ?s = color_at s" by (intro color_at_heap) simp
  have "lists_of ?s = lists_of s" by (auto simp: lists_of_def fun_eq_iff)
  then show ?thesis using obj_mark_tracing [OF t1 g r] r by (simp add: c)
qed

lemma lists_of_advance:
  assumes "lists_of s' = lists_of s" "n_locals s' = n_locals s" "gray s \<noteq> {}"
  shows "advance w s s'"
  using lists_of_pending [OF assms(1,2)] assms(3) by (simp add: advance_def no_fresh_def)

lemma helps_drain_some [helps_intros]:
  assumes g: "0 < cnt (g_local g)" "g_local g < n_locals s0"
  shows "helps k s0 e cnt (drain_some n k g)"
proof (induction n)
  case 0
  then show ?case by (simp add: helps_intros)
next
  case (Suc n)
  let ?t = "g_local g"
  show ?case
    unfolding helps_def
  proof (intro allI impI)
    fix s assume tr: "tracing k s0 e cnt {} [] [] s"
    show "\<exists>r s'. drain_some (Suc n) k g (s, []) = Some (Inr r, s', []) \<and> tracing k s0 e cnt {} [] [] s' \<and>
        advance (epoch_color e) s s'"
    proof (cases "mark_tasks (locals s ?t)")
      case Nil
      then show ?thesis using tr by (simp add: try_pop_mark_task_def act_simps)
    next
      case (Cons a as)
      have "a \<in> gray s" using Cons g(2) tracing_n_locals [OF tr] unfolding in_gray by auto
      then have "gray s \<noteq> {}" by blast
      let ?f = "\<lambda>l :: participant. if mt_modified_ts l = timestamp (thread_epoch s ?t) then l
        else l\<lparr>mt_modified_ts := timestamp (thread_epoch s ?t)\<rparr>"
      let ?s = "upd_local ?t ?f s"
      have rec: "record_mt_modification ?t (s, []) = Some (Inr (), ?s, [])"
        by (simp add: record_mt_modification_def act_simps upd_local_def)
      have "trace_view (drop_tasks ?s) = trace_view (drop_tasks s)"
        by (simp add: trace_view_def drop_tasks_def local_view_def fun_eq_iff)
      moreover have mt: "mark_tasks (locals ?s u) = mark_tasks (locals s u)" for u by simp
      then have "gray ?s = gray s" by (simp only: gray_def upd_local_fields)
      moreover have "mt_modified_ts (locals ?s u) \<le> timestamp e" "n_locals s0 \<le> u \<Longrightarrow> mark_tasks (locals ?s u) = []" for u
        using tracingD(7) [OF tr, of u] tracing_epoch(1) [OF tr g(1)] by (auto simp: thread_ok_def epoch_simps)
      ultimately have t1: "tracing k s0 e cnt {} [] [] ?s" by (intro tracing_tasks [OF tr]) auto
      have m: "mark_tasks (locals ?s ?t) = a # as" using Cons by simp
      obtain s2 where s2: "obj_mark k a g (upd_local ?t (\<lambda>l. l\<lparr>mark_tasks := as\<rparr>) ?s, []) = Some (Inr (), s2, [])"
        "tracing k s0 e cnt {} [] [] s2" "lists_of s2 = lists_of ?s"
        using drain_one [OF t1 g g(2) m] by blast
      have "lists_of ?s = lists_of s" by (auto simp: lists_of_def fun_eq_iff)
      then have adv: "advance (epoch_color e) s s2"
        using s2(3) tracing_n_locals [OF s2(2)] tracing_n_locals [OF tr] \<open>gray s \<noteq> {}\<close>
        by (intro lists_of_advance) simp_all
      have "drain_some (Suc n) k g (s, []) = drain_some n k g (s2, [])"
        using Cons m rec s2(1) by (simp add: try_pop_mark_task_def pop_mark_task_def act_simps)
      then show ?thesis using Suc s2(2) advance_trans [OF adv] by (auto simp: helps_def)
    qed
  qed
qed

section \<open>Help of a guard that is dropped\<close>

lemma helps_synced [helps_intros]: "helps k s0 e cnt is_tracing_synced"
  unfolding helps_def
proof (intro allI impI)
  fix s assume tr: "tracing k s0 e cnt {} [] [] s"
  let ?body = "\<lambda>t (_ :: bool). bind (atomic_read (\<lambda>s. atomic_epoch_load (local_epoch (locals s t)))) (\<lambda>other_epoch.
       if \<not> is_pinned other_epoch then ret (Inl True)
       else bind (lift_outcome (epoch_phase other_epoch)) (\<lambda>phase.
            ret (if phase \<noteq> N then Inl True else Inr False)))"
  have "\<exists>r s'. iter_using ?body True (s, []) = Some (Inr r, s', []) \<and> s' = s"
  proof (rule iter_using_ensures [where I = "\<lambda>_ _ s'. s' = s" and n = "n_locals s"])
    fix i acc s' assume s': "s' = s"
    have l: "atomic_epoch_load (local_epoch (locals s i)) = thread_epoch s i"
      by (simp add: thread_epoch_def atomic_epoch_load_def atomic_epoch_load_non_atomic_def)
    have "epoch_phase (thread_epoch s i) = Inr RT \<or> epoch_phase (thread_epoch s i) = Inr CT"
      if "is_pinned (thread_epoch s i)"
      using that tracingD(7) [OF tr, of i] tracingD(8) [OF tr]
      by (cases "cnt i = 0") (auto simp: thread_ok_def traceable_def epoch_simps word_gt_0)
    then show "\<exists>r s''. ?body i acc (s', []) = Some (Inr r, s'', []) \<and> (case r of Inl a \<Rightarrow> s'' = s | Inr a \<Rightarrow> s'' = s)"
      by (cases "is_pinned (thread_epoch s i)") (auto simp: s' act_simps l)
  qed simp_all
  then show "\<exists>r s'. is_tracing_synced (s, []) = Some (Inr r, s', []) \<and> tracing k s0 e cnt {} [] [] s' \<and> advance (epoch_color e) s s'"
    unfolding is_tracing_synced_def using tr by auto
qed

lemma helps_collect:
  assumes g: "0 < cnt (g_local g)" "g_local g < n_locals s0"
  shows "helps k s0 e cnt (help_collect k g)"
proof -
  have i: "helps k s0 e cnt (help_draining_mark_tasks_inner k g)"
    unfolding help_draining_mark_tasks_inner_def by (intro helps_bind helps_gets helps_drain_some g)
  have "helps k s0 e cnt (help_tracing k g)"
    unfolding help_tracing_def call_without_recursion_def
    by (intro helps_bind helps_seq helps_if helps_ret helps_gets helps_synced helps_flags i
        helps_root_tracing g) (rule helps_guard_phase [of cnt g, OF g(1)])
  then show ?thesis
    unfolding helps_def
  proof (intro allI impI)
    fix s assume h: "\<forall>s. tracing k s0 e cnt {} [] [] s \<longrightarrow>
        (\<exists>r s'. help_tracing k g (s, []) = Some (Inr r, s', []) \<and> tracing k s0 e cnt {} [] [] s' \<and> advance (epoch_color e) s s')"
      and tr: "tracing k s0 e cnt {} [] [] s"
    have "epoch_phase (thread_epoch s (g_local g)) = Inr RT \<or> epoch_phase (thread_epoch s (g_local g)) = Inr CT"
      using tracing_epoch(1) [OF tr g(1)] tracingD(8) [OF tr] by (auto simp: traceable_def epoch_simps)
    then have "help_collect k g (s, []) = help_tracing k g (s, [])"
      by (auto simp: help_collect_def guard_phase_def guard_epoch_def act_simps)
    then show "\<exists>r s'. help_collect k g (s, []) = Some (Inr r, s', []) \<and> tracing k s0 e cnt {} [] [] s' \<and> advance (epoch_color e) s s'"
      using h tr by simp
  qed
qed

lemma guard_drop_tracing:
  assumes g: "0 < cnt (g_local g)" "g_local g < n_locals s0" and tr: "tracing k s0 e cnt {} [] [] s"
  shows "\<exists>s'. guard_drop k g (s, []) = Some (Inr (), s', []) \<and>
    tracing k s0 e (cnt(g_local g := cnt (g_local g) - 1)) {} [] [] s' \<and> advance (epoch_color e) s s'"
proof -
  let ?t = "g_local g"
  have "helps k s0 e cnt (help_collect_if_scheduled k g)"
    unfolding help_collect_if_scheduled_def
    by (intro helps_bind helps_gets helps_when helps_seq helps_flags helps_collect g)
  then obtain r s1 where s1: "help_collect_if_scheduled k g (s, []) = Some (Inr r, s1, [])"
    "tracing k s0 e cnt {} [] [] s1" "advance (epoch_color e) s s1"
    using tr by (auto simp: helps_def)
  have c: "guard_count (locals s1 ?t) = cnt ?t" using tracingD(7) [OF s1(2), of ?t] by (simp add: thread_ok_def)
  let ?f = "\<lambda>l. if cnt ?t = 1 then l\<lparr>guard_count := cnt ?t - 1, local_epoch := atomic_epoch_store starting (local_epoch l)\<rparr>
    else l\<lparr>guard_count := cnt ?t - 1\<rparr>"
  let ?s = "upd_local ?t ?f s1"
  have "guard_drop k g (s, []) = Some (Inr (), ?s, [])"
    using s1(1) c by (cases "cnt ?t = 1") (simp_all add: guard_drop_def unpin_inner_def act_simps upd_local_def)
  moreover have "thread_ok s0 e (cnt(?t := cnt ?t - 1)) ?s u" for u
  proof (cases "u = ?t")
    case True
    have "\<not> is_pinned (atomic_epoch_load_non_atomic (atomic_epoch_store starting l))" for l
      using starting_fields(1) by (simp add: atomic_epoch_load_non_atomic_def atomic_epoch_store_def is_pinned_def)
    then show ?thesis using tracingD(7) [OF s1(2), of ?t] True g(1)
      by (cases "cnt ?t = 1") (auto simp: thread_ok_def thread_epoch_def word_gt_0)
  next
    case False
    then show ?thesis using tracingD(7) [OF s1(2), of u] by (simp add: thread_ok_def thread_epoch_def)
  qed
  moreover have l: "lists_of ?s = lists_of s1" by (auto simp: lists_of_def fun_eq_iff)
  moreover have "global_ok s0 e ?s" using tracingD(6) [OF s1(2)] by (simp add: global_ok_def)
  moreover have m: "mark_tasks (locals ?s u) = mark_tasks (locals s1 u)" for u by simp
  ultimately have "tracing k s0 e (cnt(?t := cnt ?t - 1)) {} [] [] ?s"
    by (intro tracing_threads [OF s1(2)]) simp_all
  moreover have "gray ?s = gray s1" by (simp only: gray_def upd_local_fields(7) m)
  then have "advance (epoch_color e) s1 ?s"
    using lists_of_pending [OF l] by (simp add: advance_def no_fresh_def)
  ultimately show ?thesis using \<open>guard_drop k g (s, []) = _\<close> advance_trans [OF s1(3)] by blast
qed

section \<open>Pinning\<close>

lemma for_each_idle: "(\<And>x. x \<in> set xs \<Longrightarrow> f x = ret ()) \<Longrightarrow> for_each xs f (s, []) = Some (Inr (), s, [])"
  by (induction xs) (simp_all add: act_simps)

lemma phase_barrier_idle:
  assumes "set (hazards (locals s t)) \<subseteq> {0}"
  shows "phase_barrier k t f (s, []) = Some (Inr (), s, [])"
proof -
  have "ptr = 0" if "(ptr, m) \<in> set (zip (hazards (locals s t)) (hazards_marker (locals s t)))" for ptr m
    using set_zip_leftD [OF that] assms by auto
  then show ?thesis by (auto simp: phase_barrier_def act_simps intro!: for_each_idle)
qed

lemma pin_freshly_alone:
  assumes "atomic_epoch_load (global_epoch s) = e" "epoch_phase e = Inr ph" "set (hazards (locals s t)) \<subseteq> {0}"
  shows "pin_freshly k t f (s, []) = Some (Inr (),
    upd_local t (\<lambda>l. l\<lparr>local_epoch := atomic_epoch_store (pinned e) (local_epoch l), last_observed := e\<rparr>) s, [])"
proof -
  let ?s = "upd_local t (\<lambda>l. l\<lparr>local_epoch := atomic_epoch_store (pinned e) (local_epoch l)\<rparr>) s"
  have p: "publish_epoch t e (s, []) = Some (Inr e, ?s, [])"
    using assms(1) by (simp add: publish_epoch.simps load_epoch_def act_simps)
  have l: "load_epoch (s, []) = Some (Inr e, s, [])" using assms(1) by (simp add: load_epoch_def act_simps)
  have b: "phase_barrier k t f (?s, []) = Some (Inr (), ?s, [])"
    using assms(3) by (intro phase_barrier_idle) simp
  show ?thesis using p l b assms(2)
    by (simp add: pin_freshly_def act_simps act_when_def) (simp add: upd_local_def)
qed

lemma handle_pin_tracing:
  assumes tr: "tracing k s0 e cnt {} [] [] s" and t: "cnt t = 0" "set (hazards (locals s0 t)) \<subseteq> {0}"
  shows "\<exists>s'. handle_pin k t f f' (s, []) = Some (Inr \<lparr>g_local = t, g_flag = f\<rparr>, s', []) \<and>
    tracing k s0 e (cnt(t := 1)) {} [] [] s' \<and> advance (epoch_color e) s s'"
proof -
  let ?s1 = "s\<lparr>should_help := (should_help s)(f := False)\<rparr>"
  have t1: "tracing k s0 e cnt {} [] [] ?s1" using tr tracing_view [OF trace_view_update(2)] by blast
  have th: "thread_ok s0 e cnt ?s1 t" by (rule tracingD(7) [OF t1])
  have gl: "global_ok s0 e ?s1" by (rule tracingD(6) [OF t1])
  let ?s2 = "upd_local t (\<lambda>l. l\<lparr>guard_count := 1\<rparr>) ?s1"
  have c: "count_guard t (?s1, []) = Some (Inr 0, ?s2, [])"
    using th t(1) by (simp add: count_guard_def act_simps checked_add_def thread_ok_def)
  obtain ph where ph: "epoch_phase e = Inr ph" using tracingD(8) [OF tr] by (auto simp: traceable_def)
  let ?s3 = "upd_local t (\<lambda>l. l\<lparr>local_epoch := atomic_epoch_store (pinned e) (local_epoch l), last_observed := e\<rparr>) ?s2"
  have "atomic_epoch_load (global_epoch ?s2) = e" "set (hazards (locals ?s2 t)) \<subseteq> {0}"
    using gl th t(2) by (simp_all add: global_ok_def thread_ok_def)
  then have "pin_freshly k t f' (?s2, []) = Some (Inr (), ?s3, [])" by (intro pin_freshly_alone [OF _ ph])
  then have run: "handle_pin k t f f' (s, []) = Some (Inr \<lparr>g_local = t, g_flag = f\<rparr>, ?s3, [])"
    using c by (simp add: handle_pin_def guard_new_def pin_inner_def act_simps)
  have "thread_ok s0 e (cnt(t := 1)) ?s3 u" for u
    using tracingD(7) [OF t1, of u]
    by (cases "u = t") (auto simp: thread_ok_def thread_epoch_def atomic_epoch_load_non_atomic_def atomic_epoch_store_def)
  moreover have l: "lists_of ?s3 = lists_of ?s1" by (auto simp: lists_of_def fun_eq_iff)
  moreover have m: "mark_tasks (locals ?s3 u) = mark_tasks (locals ?s1 u)" for u by simp
  moreover have "global_ok s0 e ?s3" using gl by (simp add: global_ok_def)
  ultimately have "tracing k s0 e (cnt(t := 1)) {} [] [] ?s3"
    by (intro tracing_threads [OF t1]) simp_all
  moreover have "gray ?s3 = gray ?s1" by (simp only: gray_def upd_local_fields(7) m)
  then have "advance (epoch_color e) ?s1 ?s3"
    using lists_of_pending [OF l] by (simp add: advance_def no_fresh_def)
  then have "advance (epoch_color e) s ?s3" using advance_trans [OF advance_view [OF trace_view_update(2)]] by blast
  ultimately show ?thesis using run by blast
qed

end
