(* ===== verification/Cycle_Trace.thy ===== *)
theory Cycle_Trace
  imports Cycle_Help
begin

text \<open>
  The two tasks of the tracing phases while no mutator runs. The scan of the allocated objects
  (\<^verbatim>\<open>scan_allocated_objs\<close> of \<^verbatim>\<open>src/src/collector.rs\<close>) ends, keeps the tri-colour invariant and leaves no
  batch to be scanned. The loop that drains the mark tasks (\<^verbatim>\<open>drain_mark_tasks\<close>) ends however many
  tasks a steal moves and however many steals lose a race, and leaves no task.
\<close>

section \<open>Scanning\<close>

lemma gray_cong:
  "(\<And>u. mark_tasks (locals s' u) = mark_tasks (locals s u)) \<Longrightarrow> n_locals s' = n_locals s \<Longrightarrow> gray s' = gray s"
  by (simp add: gray_def)

lemma flush_pending_tracing:
  assumes tr: "tracing k s0 e cnt {} [] [] s" and u: "u < n_locals s0"
  shows "\<exists>s'. flush_pending (epoch_color e) u (s, []) = Some (Inr (), s', []) \<and> tracing k s0 e cnt {} [] [] s' \<and>
    fst (objs (locals s' u) (epoch_color e)) = [] \<and> (\<forall>v. v \<noteq> u \<longrightarrow> objs (locals s' v) = objs (locals s v))"
proof (cases "fst (objs (locals s u) (epoch_color e)) = []")
  case True
  then show ?thesis using tr by (simp add: flush_pending_def take_obj_batch_def act_simps)
next
  case False
  let ?w = "epoch_color e"
  obtain b n where b: "objs (locals s u) ?w = (b, n)" by fastforce
  have nl: "n_locals s = n_locals s0" by (rule tracing_n_locals [OF tr])
  let ?s1 = "upd_local u (\<lambda>l. l\<lparr>objs := (objs l)(?w := ([], 0))\<rparr>) s"
  let ?q = "next_shard ?s1"
  define s' where "s' = ?s1\<lparr>rng := tl (rng ?s1),
    fresh_objs := (fresh_objs s)(?w := (fresh_objs s ?w)(?q := fresh_objs s ?w ?q @ [b])),
    total_allocated := total_allocated ?s1 + n\<rparr>"
  have run: "flush_pending ?w u (s, []) = Some (Inr (), s', [])"
    using False b by (simp add: flush_pending_def take_obj_batch_def push_fresh_objs_def act_simps s'_def)
  have fld: "heap s' = heap s" "n_locals s' = n_locals s" "marked_objs s' = marked_objs s" "in_use s' = in_use s"
    "cells s' = cells s" "collector_threads s' = collector_threads s" "total_reclaimed s' = total_reclaimed s"
    "global_epoch s' = global_epoch s" by (simp_all add: s'_def)
  have fo: "fresh_objs s' x = (if x = ?w then (fresh_objs s ?w)(?q := fresh_objs s ?w ?q @ [b]) else fresh_objs s x)" for x
    by (simp add: s'_def)
  have lo: "mark_tasks (locals s' v) = mark_tasks (locals s v)" "guard_count (locals s' v) = guard_count (locals s v)"
    "local_epoch (locals s' v) = local_epoch (locals s v)" "hazards (locals s' v) = hazards (locals s v)"
    "mt_modified_ts (locals s' v) = mt_modified_ts (locals s v)" "cached_hazards (locals s' v) = cached_hazards (locals s v)"
    "objs (locals s' v) x = (if v = u \<and> x = ?w then ([], 0) else objs (locals s v) x)" for v x
    by (simp_all add: s'_def)
  have c: "color_at s' = color_at s" by (intro color_at_heap fld)
  have f: "flip ?w \<noteq> ?w" by (cases ?w) simp_all
  have g: "gray s' = gray s" by (rule gray_cong) (simp_all add: lo fld)
  have te: "thread_epoch s' v = thread_epoch s v" for v by (simp add: thread_epoch_def lo)
  have be: "black_edge k x {} s' r = black_edge k x {} s r" for x r by (simp add: black_edge_def c g)
  let ?f = "\<lambda>v. [fst (objs (locals s v) ?w)]"
  have pend: "mset (pending ?w s') + mset b = mset (pending ?w s)"
  proof -
    have "pending ?w s = concat (map (\<lambda>v. concat (?f v)) [0..<n_locals s0])" by (simp add: pending_def nl)
    moreover have "pending ?w s' = concat (map (\<lambda>v. concat ((?f(u := [[]])) v)) [0..<n_locals s0])"
      unfolding pending_def by (intro arg_cong [where f = concat] map_cong) (auto simp: fld nl lo)
    ultimately show ?thesis
      using mset_concat_replace [of u "[0..<n_locals s0]" ?f "[[]]"] u b by simp
  qed
  have setp: "set (pending ?w s) = set (pending ?w s') \<union> set b" using arg_cong [OF pend, of set_mset] by simp
  have fr: "mset (all_objs (fresh_objs s' ?w)) = mset (all_objs (fresh_objs s ?w)) + mset b"
    using mset_all_objs_push [OF next_shard_less, of "fresh_objs s ?w" ?s1 b] by (simp add: fo)
  have setf: "set (all_objs (fresh_objs s' ?w)) = set (all_objs (fresh_objs s ?w)) \<union> set b"
    using arg_cong [OF fr, of set_mset] by simp
  have "mset (cycle_objs ?w s') = mset (cycle_objs ?w s)"
    using pend fr by (simp add: cycle_objs_def fld ac_simps)
  then have "lists_ok s0 ?w [] s'"
    using tracingD(4) [OF tr] f by (simp add: lists_ok_def fld fo lo)
  moreover have "roots_ok s0 ?w [] s'"
    using tracingD(5) [OF tr] setp setf by (auto simp: roots_ok_def c)
  moreover have "thread_ok s0 e cnt s' v" for v
    using tracingD(7) [OF tr, of v] by (simp add: thread_ok_def te lo)
  ultimately have "tracing k s0 e cnt {} [] [] s'"
    using tracingD(1-3,6,8) [OF tr]
    by (simp add: tracing_def same_objs_def shaded_def shaded_obj_def only_reachable_def global_ok_def be c g fld)
  moreover have "objs (locals s' v) = objs (locals s v)" if "v \<noteq> u" for v using that by (simp add: fun_eq_iff lo)
  ultimately show ?thesis using run lo(7) [of u ?w] by auto
qed

lemma flush_all_tracing:
  assumes tr: "tracing k s0 e cnt {} [] [] s"
  shows "\<exists>s'. iter_all (\<lambda>u _. bind (flush_pending (epoch_color e) u) (\<lambda>_. ret (Inl ()))) () (s, []) = Some (Inr (), s', []) \<and>
    tracing k s0 e cnt {} [] [] s' \<and> pending (epoch_color e) s' = []"
proof -
  let ?w = "epoch_color e"
  let ?body = "\<lambda>u (_ :: unit). bind (flush_pending ?w u) (\<lambda>_. ret (Inl () :: unit + unit))"
  let ?I = "\<lambda>i (_ :: unit) s. tracing k s0 e cnt {} [] [] s \<and> (\<forall>u < i. fst (objs (locals s u) ?w) = [])"
  have "\<exists>r s'. iter_all ?body () (s, []) = Some (Inr r, s', []) \<and> tracing k s0 e cnt {} [] [] s' \<and> pending ?w s' = []"
  proof (rule iter_all_ensures [where I = ?I and n = "n_locals s0"])
    fix i acc s1 assume i: "i < n_locals s0" and s1: "?I i acc s1"
    obtain s2 where "flush_pending ?w i (s1, []) = Some (Inr (), s2, [])" "tracing k s0 e cnt {} [] [] s2"
      "fst (objs (locals s2 i) ?w) = []" "\<forall>v. v \<noteq> i \<longrightarrow> objs (locals s2 v) = objs (locals s1 v)"
      using flush_pending_tracing [OF conjunct1 [OF s1] i] by blast
    then show "\<exists>r s'. ?body i acc (s1, []) = Some (Inr r, s', []) \<and>
        (case r of Inl a \<Rightarrow> ?I (Suc i) a s' | Inr a \<Rightarrow> tracing k s0 e cnt {} [] [] s' \<and> pending ?w s' = [])"
      using s1 by (auto simp: act_simps less_Suc_eq)
  qed (use tr in \<open>auto simp: pending_def dest: tracing_n_locals\<close>)
  then show ?thesis by auto
qed

lemma scan_shard_tracing:
  assumes "tracing k s0 e cnt {} [] [] s" "0 < cnt (g_local g)" "g_local g < n_locals s0" "q < OBJ_BATCHES_SHARD"
    and "set hps = hazard_set s0" "pending (epoch_color e) s = []"
  shows "\<exists>s'. scan_shard k g hps (epoch_color e) q (s, []) = Some (Inr (), s', []) \<and> tracing k s0 e cnt {} [] [] s' \<and>
    pending (epoch_color e) s' = [] \<and> fresh_objs s' (epoch_color e) = (fresh_objs s (epoch_color e))(q := [])"
  using assms
proof (induction "fresh_objs s (epoch_color e) q" arbitrary: s)
  case Nil
  then show ?case by (subst scan_shard.simps) (auto simp: act_simps fun_upd_idem)
next
  case (Cons b bs)
  let ?w = "epoch_color e"
  let ?s = "s\<lparr>fresh_objs := (fresh_objs s)(?w := (fresh_objs s ?w)(q := bs))\<rparr>"
  have q: "fresh_objs s ?w q = b # bs" using Cons.hyps(2) by simp
  have t1: "tracing k s0 e cnt {} b b ?s" by (rule tracing_pop_fresh [OF Cons.prems(1,4) q])
  obtain s1 where s1: "for_each b (mark_if_root k g hps) (?s, []) = Some (Inr (), s1, [])"
    "tracing k s0 e cnt {} b [] s1" "lists_of s1 = lists_of ?s"
    using mark_roots_tracing [OF t1 Cons.prems(2,3) subset_refl Cons.prems(5)] by blast
  obtain s2 where s2: "bind select_obj_shard (\<lambda>q'. bind (push_marked ?w q' b) (\<lambda>_. scan_shard k g hps ?w q)) (s1, []) =
      scan_shard k g hps ?w q (s2, [])"
    "tracing k s0 e cnt {} [] [] s2" "fresh_objs s2 = fresh_objs s1" "pending ?w s2 = pending ?w s1"
    using put_back [OF s1(2), of "\<lambda>_. scan_shard k g hps ?w q" ?w] by blast
  have l: "fresh_objs s1 = fresh_objs ?s" "pending ?w s1 = pending ?w ?s"
    using lists_of_pending [OF s1(3)] tracing_n_locals [OF s1(2)] tracing_n_locals [OF t1] by auto
  have p: "pending ?w s2 = []" using s2(4) l(2) Cons.prems(6) by (simp add: pending_def)
  have f: "fresh_objs s2 ?w = (fresh_objs s ?w)(q := bs)" using s2(3) l(1) by simp
  have "scan_shard k g hps ?w q (s, []) = scan_shard k g hps ?w q (s2, [])"
    using q s1(1) s2(1) by (subst scan_shard.simps) (simp add: act_simps)
  then show ?case using Cons.hyps(1) [of s2] s2(2) Cons.prems p f by simp
qed

lemma scan_shards_tracing:
  assumes "tracing k s0 e cnt {} [] [] s" "0 < cnt (g_local g)" "g_local g < n_locals s0" "set qs \<subseteq> {..<OBJ_BATCHES_SHARD}"
    and "set hps = hazard_set s0" "pending (epoch_color e) s = []"
  shows "\<exists>s'. for_each qs (\<lambda>q. scan_shard k g hps (epoch_color e) q) (s, []) = Some (Inr (), s', []) \<and>
    tracing k s0 e cnt {} [] [] s' \<and> pending (epoch_color e) s' = [] \<and>
    fresh_objs s' (epoch_color e) = (\<lambda>q. if q \<in> set qs then [] else fresh_objs s (epoch_color e) q)"
  using assms
proof (induction qs arbitrary: s)
  case (Cons q qs)
  obtain s1 where s1: "scan_shard k g hps (epoch_color e) q (s, []) = Some (Inr (), s1, [])" "tracing k s0 e cnt {} [] [] s1"
    "pending (epoch_color e) s1 = []" "fresh_objs s1 (epoch_color e) = (fresh_objs s (epoch_color e))(q := [])"
    using scan_shard_tracing [OF Cons.prems(1-3) _ Cons.prems(5,6), of q] Cons.prems(4) by auto
  obtain s2 where "for_each qs (\<lambda>q. scan_shard k g hps (epoch_color e) q) (s1, []) = Some (Inr (), s2, [])"
    "tracing k s0 e cnt {} [] [] s2" "pending (epoch_color e) s2 = []"
    "fresh_objs s2 (epoch_color e) = (\<lambda>q. if q \<in> set qs then [] else fresh_objs s1 (epoch_color e) q)"
    using Cons.IH [OF s1(2) Cons.prems(2,3) _ Cons.prems(5) s1(3)] Cons.prems(4) by auto
  then show ?case using s1 by (auto simp: act_simps fun_eq_iff)
qed (simp add: act_simps)

text \<open>The participants of the collector: registered, and without hazard pointers.\<close>

definition collector_thread :: "'v rt \<Rightarrow> nat \<Rightarrow> bool" where
  "collector_thread s t \<longleftrightarrow> t < n_locals s \<and> set (hazards (locals s t)) \<subseteq> {0}"

lemma scan_worker_tracing:
  assumes tr: "tracing k s0 e cnt {} [] [] s" and u: "cnt (worker i) = 0" "collector_thread s0 (worker i)"
    and qs: "set qs \<subseteq> {..<OBJ_BATCHES_SHARD}" and h: "set hps = hazard_set s0" and p: "pending (epoch_color e) s = []"
  shows "\<exists>s'. scan_worker k worker f hps (epoch_color e) i qs (s, []) = Some (Inr (), s', []) \<and>
    tracing k s0 e cnt {} [] [] s' \<and> pending (epoch_color e) s' = [] \<and>
    (\<forall>q < OBJ_BATCHES_SHARD. q \<in> set qs \<or> fresh_objs s (epoch_color e) q = [] \<longrightarrow> fresh_objs s' (epoch_color e) q = [])"
proof -
  let ?w = "epoch_color e" and ?u = "worker i"
  let ?g = "\<lparr>g_local = ?u, g_flag = f\<rparr>" and ?cnt = "cnt(?u := 1)"
  have u': "?u < n_locals s0" "set (hazards (locals s0 ?u)) \<subseteq> {0}" using u(2) by (auto simp: collector_thread_def)
  obtain s1 where s1: "handle_pin k ?u f (Suc f) (s, []) = Some (Inr ?g, s1, [])" "tracing k s0 e ?cnt {} [] [] s1"
    "advance ?w s s1"
    using handle_pin_tracing [where t = ?u, OF tr u(1) u'(2)] by blast
  have p1: "pending ?w s1 = []" using s1(3) p by (simp add: advance_def)
  have cg: "0 < ?cnt (g_local ?g)" "g_local ?g < n_locals s0" using u'(1) by simp_all
  obtain s2 where s2: "for_each qs (\<lambda>q. scan_shard k ?g hps ?w q) (s1, []) = Some (Inr (), s2, [])"
    "tracing k s0 e ?cnt {} [] [] s2" "pending ?w s2 = []" "fresh_objs s2 ?w = (\<lambda>q. if q \<in> set qs then [] else fresh_objs s1 ?w q)"
    using scan_shards_tracing [OF s1(2) cg qs h p1] by blast
  obtain s3 where s3: "guard_drop k ?g (s2, []) = Some (Inr (), s3, [])"
    "tracing k s0 e (?cnt(g_local ?g := ?cnt (g_local ?g) - 1)) {} [] [] s3" "advance ?w s2 s3"
    using guard_drop_tracing [OF cg s2(2)] by blast
  have c: "?cnt(g_local ?g := ?cnt (g_local ?g) - 1) = cnt" using u(1) by (auto simp: fun_eq_iff)
  have "scan_worker k worker f hps ?w i qs (s, []) = Some (Inr (), s3, [])"
    using s1(1) s2(1) s3(1) by (simp add: scan_worker_def act_simps)
  moreover have "fresh_objs s3 ?w q = []" if "q < OBJ_BATCHES_SHARD" "q \<in> set qs \<or> fresh_objs s ?w q = []" for q
    using that s1(3) s2(4) s3(3) by (auto simp: advance_def)
  ultimately show ?thesis using s3(2,3) s2(3) unfolding c by (auto simp: advance_def)
qed

lemma scan_workers_tracing:
  assumes tr: "tracing k s0 e cnt {} [] [] s" and h: "set hps = hazard_set s0" and p: "pending (epoch_color e) s = []"
    and u: "\<And>i. cnt (worker i) = 0" "\<And>i. collector_thread s0 (worker i)"
    and n: "1 \<le> n" "n \<le> OBJ_BATCHES_SHARD"
  shows "\<exists>s'. parallel_shard_work n (scan_worker k worker f hps (epoch_color e)) (s, []) = Some (Inr (), s', []) \<and>
    tracing k s0 e cnt {} [] [] s' \<and> pending (epoch_color e) s' = [] \<and> no_fresh (epoch_color e) s'"
proof -
  let ?w = "epoch_color e"
  let ?I = "\<lambda>i s. tracing k s0 e cnt {} [] [] s \<and> pending ?w s = [] \<and>
    (\<forall>q \<in> set (concat (map (shard_range n) [0..<i])) \<inter> {..<OBJ_BATCHES_SHARD}. fresh_objs s ?w q = [])"
  have all: "concat (map (shard_range n) [0..<n]) = [0..<OBJ_BATCHES_SHARD]" by (rule shard_range_upt [OF n])
  have qs: "set (shard_range n i) \<subseteq> {..<OBJ_BATCHES_SHARD}" if "i < n" for i
  proof -
    have "set (shard_range n i) \<subseteq> set (concat (map (shard_range n) [0..<n]))" using that by auto
    then show ?thesis unfolding all by auto
  qed
  have "ensures (?I i) (scan_worker k worker f hps ?w ([0..<n] ! i) (shard_range n ([0..<n] ! i))) (\<lambda>_. ?I (Suc i))"
    if i: "i < length [0..<n]" for i
  proof (rule ensuresI)
    fix s1 assume s1: "?I i s1"
    obtain s2 where "scan_worker k worker f hps ?w i (shard_range n i) (s1, []) = Some (Inr (), s2, [])"
      "tracing k s0 e cnt {} [] [] s2" "pending ?w s2 = []"
      "\<forall>q < OBJ_BATCHES_SHARD. q \<in> set (shard_range n i) \<or> fresh_objs s1 ?w q = [] \<longrightarrow> fresh_objs s2 ?w q = []"
      using scan_worker_tracing [where worker = worker and i = i and f = f, OF conjunct1 [OF s1] u(1) [of i] u(2) [of i] qs [of i] h conjunct1 [OF conjunct2 [OF s1]]] i by auto
    then show "\<exists>r s'. scan_worker k worker f hps ?w ([0..<n] ! i) (shard_range n ([0..<n] ! i)) (s1, []) = Some (Inr r, s', []) \<and> ?I (Suc i) s'"
      using s1 i by auto
  qed
  then have "ensures (?I 0) (for_each [0..<n] (\<lambda>i. scan_worker k worker f hps ?w i (shard_range n i))) (\<lambda>_. ?I (length [0..<n]))"
    by (rule ensures_for_each [of _ ?I])
  moreover have "?I 0 s" using tr p by simp
  ultimately obtain r s' where "for_each [0..<n] (\<lambda>i. scan_worker k worker f hps ?w i (shard_range n i)) (s, []) = Some (Inr r, s', [])"
    "?I n s'" by (auto elim!: ensuresE)
  then show ?thesis unfolding all by (auto simp: parallel_shard_work_def no_fresh_def)
qed

lemma scan_allocated_tracing:
  assumes tr: "tracing k s0 e (\<lambda>_. 0) {} [] [] s" and t: "collector_thread s0 t"
    and u: "\<And>i. collector_thread s0 (worker i)" "\<And>i. worker i \<noteq> t"
    and n: "1 \<le> unat (collector_threads s0)" "unat (collector_threads s0) \<le> OBJ_BATCHES_SHARD"
  shows "\<exists>s'. scan_allocated_objs k worker t f (s, []) = Some (Inr (), s', []) \<and>
    tracing k s0 e (\<lambda>_. 0) {} [] [] s' \<and> pending (epoch_color e) s' = [] \<and> no_fresh (epoch_color e) s'"
proof -
  let ?w = "epoch_color e" and ?g = "\<lparr>g_local = t, g_flag = f\<rparr>" and ?cnt = "(\<lambda>_. 0 :: usize)(t := 1)"
  have t': "t < n_locals s0" "set (hazards (locals s0 t)) \<subseteq> {0}" using t by (auto simp: collector_thread_def)
  obtain s1 where s1: "handle_pin k t f (Suc f) (s, []) = Some (Inr ?g, s1, [])" "tracing k s0 e ?cnt {} [] [] s1"
    using handle_pin_tracing [OF tr _ t'(2)] by blast
  have cg: "0 < ?cnt (g_local ?g)" "g_local ?g < n_locals s0" using t'(1) by simp_all
  have w: "white_color ?g (s1, []) = Some (Inr ?w, s1, [])"
    using tracing_epoch(2) [OF s1(2) cg(1)] by (simp add: act_simps)
  obtain s2 where s2: "iter_all (\<lambda>u _. bind (flush_pending ?w u) (\<lambda>_. ret (Inl ()))) () (s1, []) = Some (Inr (), s2, [])"
    "tracing k s0 e ?cnt {} [] [] s2" "pending ?w s2 = []"
    using flush_all_tracing [OF s1(2)] by blast
  obtain hps where hps: "collect_hps (s2, []) = Some (Inr hps, s2, [])" "set hps = hazard_set s0"
    using collect_hps_alone [of s2] hazard_set_tracing [OF s2(2)] by auto
  have ct: "collector_threads s2 = collector_threads s0" using tracingD(6) [OF s2(2)] by (simp add: global_ok_def)
  have cu: "?cnt (worker i) = 0" for i using u(2) by simp
  obtain s3 where s3: "parallel_shard_work (unat (collector_threads s0)) (scan_worker k worker (f + 2) hps ?w) (s2, []) = Some (Inr (), s3, [])"
    "tracing k s0 e ?cnt {} [] [] s3" "pending ?w s3 = []" "no_fresh ?w s3"
    using scan_workers_tracing [where worker = worker and f = "f + 2", OF s2(2) hps(2) s2(3) cu u(1) n] by blast
  obtain s4 where s4: "guard_drop k ?g (s3, []) = Some (Inr (), s4, [])"
    "tracing k s0 e (?cnt(g_local ?g := ?cnt (g_local ?g) - 1)) {} [] [] s4" "advance ?w s3 s4"
    using guard_drop_tracing [OF cg s3(2)] by blast
  have c: "?cnt(g_local ?g := ?cnt (g_local ?g) - 1) = (\<lambda>_. 0)" by (auto simp: fun_eq_iff)
  have "scan_allocated_objs k worker t f (s, []) = Some (Inr (), s4, [])"
    using s1(1) w s2(1) hps(1) ct s3(1) s4(1) by (simp add: scan_allocated_objs_def act_simps)
  then show ?thesis using s4(2,3) s3(3,4) unfolding c by (auto simp: advance_def no_fresh_def)
qed

section \<open>Draining all mark tasks\<close>

definition tasks :: "'v rt \<Rightarrow> usize multiset" where
  "tasks s = (\<Sum>u < n_locals s. mset (mark_tasks (locals s u)))"

definition taken :: "usize \<Rightarrow> 'v rt \<Rightarrow> 'v rt \<Rightarrow> bool" where
  "taken a s s' \<longleftrightarrow> trace_view (drop_tasks s') = trace_view (drop_tasks s) \<and> tasks s = add_mset a (tasks s') \<and>
     (\<forall>u. (n_locals s \<le> u \<longrightarrow> mark_tasks (locals s' u) = mark_tasks (locals s u)) \<and>
       mt_modified_ts (locals s' u) = mt_modified_ts (locals s u))"

lemma tasks_gray: "set_mset (tasks s) = gray s"
  by (simp add: tasks_def gray_def set_mset_sum)

lemma tasks_update:
  assumes "u < n_locals s"
  shows "tasks (upd_local u (\<lambda>l. l\<lparr>mark_tasks := f l\<rparr>) s) + mset (mark_tasks (locals s u)) = tasks s + mset (f (locals s u))"
proof -
  let ?s = "upd_local u (\<lambda>l. l\<lparr>mark_tasks := f l\<rparr>) s"
  have r: "tasks s' = mset (mark_tasks (locals s' u)) + (\<Sum>v \<in> {..<n_locals s} - {u}. mset (mark_tasks (locals s' v)))"
    if "n_locals s' = n_locals s" for s' :: "'a rt"
    unfolding tasks_def that using assms by (intro sum.remove) auto
  have "(\<Sum>v \<in> {..<n_locals s} - {u}. mset (mark_tasks (locals ?s v))) = (\<Sum>v \<in> {..<n_locals s} - {u}. mset (mark_tasks (locals s v)))"
    by (intro sum.cong) auto
  then show ?thesis using r [of ?s] r [of s] by (simp add: ac_simps)
qed

lemma taken_steal:
  assumes "t < n_locals s" "u < n_locals s" "mark_tasks (locals s u) = a # as" "s' = upd_local t (\<lambda>l. l\<lparr>mark_tasks := mark_tasks l @ take n as\<rparr>)
      (upd_local u (\<lambda>l. l\<lparr>mark_tasks := drop n as\<rparr>) s)"
  shows "taken a s s'"
proof -
  let ?s = "upd_local u (\<lambda>l. l\<lparr>mark_tasks := drop n as\<rparr>) s"
  have 1: "tasks ?s + mset (a # as) = tasks s + mset (drop n as)"
    using tasks_update [OF assms(2), of "\<lambda>_. drop n as"] unfolding assms(3) .
  have "t < n_locals ?s" using assms(1) by simp
  from tasks_update [OF this, of "\<lambda>l. mark_tasks l @ take n as"]
  have 2: "tasks s' = tasks ?s + mset (take n as)" unfolding assms(4) by (simp add: ac_simps)
  have "mset as = mset (take n as) + mset (drop n as)" by (metis append_take_drop_id mset_append)
  then have "tasks s = add_mset a (tasks s')" using 1 2 by (simp add: ac_simps)
  moreover have "trace_view (drop_tasks s') = trace_view (drop_tasks s)"
    unfolding assms(4) by (simp add: trace_view_def drop_tasks_def local_view_def fun_eq_iff)
  ultimately show ?thesis using assms(1,2) unfolding taken_def by (auto simp: assms(4))
qed

lemma taken_pop:
  assumes "t < n_locals s" "mark_tasks (locals s t) = a # as"
  shows "taken a s (upd_local t (\<lambda>l. l\<lparr>mark_tasks := as\<rparr>) s)"
proof -
  let ?s = "upd_local t (\<lambda>l. l\<lparr>mark_tasks := as\<rparr>) s"
  have "tasks ?s + mset (a # as) = tasks s + mset as"
    using tasks_update [OF assms(1), of "\<lambda>_. as"] unfolding assms(2) .
  moreover have "trace_view (drop_tasks ?s) = trace_view (drop_tasks s)"
    by (simp add: trace_view_def drop_tasks_def local_view_def fun_eq_iff)
  ultimately show ?thesis using assms(1) by (auto simp: taken_def)
qed

lemma tracing_taken:
  assumes tr: "tracing k s0 e cnt {} [] [] s" and tk: "taken a s s'"
  shows "tracing k s0 e cnt {a} [] [] s'"
proof -
  have g: "gray s = gray s' \<union> {a}" using tk tasks_gray [of s] tasks_gray [of s'] by (simp add: taken_def)
  have n: "n_locals s = n_locals s0" by (rule tracing_n_locals [OF tr])
  show ?thesis
    using tk g n tracingD(7) [OF tr] by (intro tracing_tasks [OF tr]) (auto simp: taken_def thread_ok_def)
qed

lemma taken_view: "trace_view s1 = trace_view s \<Longrightarrow> taken a s1 s' \<Longrightarrow> taken a s s'"
proof -
  assume v: "trace_view s1 = trace_view s" and tk: "taken a s1 s'"
  note f = trace_viewD [OF v]
  have "tasks s1 = tasks s" by (simp add: tasks_def f)
  moreover have "trace_view (drop_tasks s1) = trace_view (drop_tasks s)"
    by (simp add: trace_view_def drop_tasks_def local_view_def f)
  ultimately show ?thesis using tk by (simp add: taken_def f)
qed

text \<open>One attempt, and one round over all queues.\<close>

lemma next_contended_run [act_simps]:
  "next_contended (s, []) = Some (Inr (contended s \<noteq> [] \<and> hd (contended s)), s\<lparr>contended := tl (contended s)\<rparr>, [])"
  by (simp add: next_contended_def act_simps)

lemma steal_batch_and_pop_run:
  assumes "s1 = s\<lparr>contended := tl (contended s)\<rparr>"
  shows "mark_tasks (locals s u) = [] \<Longrightarrow> steal_batch_and_pop steal_count t u (s, []) = Some (Inr Empty, s1, [])"
    "mark_tasks (locals s u) = a # as \<Longrightarrow> contended s \<noteq> [] \<and> hd (contended s) \<Longrightarrow>
       steal_batch_and_pop steal_count t u (s, []) = Some (Inr Retry, s1, [])"
    "mark_tasks (locals s u) = a # as \<Longrightarrow> \<not> (contended s \<noteq> [] \<and> hd (contended s)) \<Longrightarrow>
       n = steal_count LOCAL_MARK_TASKS_BATCH_LIMIT (Suc (length as)) - 1 \<Longrightarrow>
       steal_batch_and_pop steal_count t u (s, []) = Some (Inr (Success a),
         upd_local t (\<lambda>l. l\<lparr>mark_tasks := mark_tasks l @ take n as\<rparr>) (upd_local u (\<lambda>l. l\<lparr>mark_tasks := drop n as\<rparr>) s1), [])"
  unfolding assms steal_batch_and_pop_def by (simp_all only: act_simps) (simp_all add: act_simps Let_def)

lemma steal_from_all_alone:
  assumes t: "t < n_locals s"
  shows "\<exists>r s'. steal_from_all steal_count t (s, []) = Some (Inr r, s', []) \<and>
    (case r of
       Success a \<Rightarrow> taken a s s'
     | Retry \<Rightarrow> trace_view s' = trace_view s \<and> length (contended s') < length (contended s)
     | Empty \<Rightarrow> trace_view s' = trace_view s \<and> gray s = {})"
proof -
  let ?Q = "\<lambda>r s'. case r of Success a \<Rightarrow> taken a s s'
     | Retry \<Rightarrow> trace_view s' = trace_view s \<and> length (contended s') < length (contended s)
     | Empty \<Rightarrow> trace_view s' = trace_view s \<and> gray s = {}"
  let ?I = "\<lambda>i acc s'. trace_view s' = trace_view s \<and> length (contended s') \<le> length (contended s) \<and>
    (case acc of Success a \<Rightarrow> False | Retry \<Rightarrow> length (contended s') < length (contended s)
     | Empty \<Rightarrow> \<forall>u < i. mark_tasks (locals s u) = [])"
  let ?body = "\<lambda>u acc. bind (steal_batch_and_pop steal_count t u) (\<lambda>r.
       ret (case r of Success a \<Rightarrow> Inr (Success a) | Retry \<Rightarrow> Inl Retry | Empty \<Rightarrow> Inl acc))"
  have "\<exists>r s'. iter_all ?body Empty (s, []) = Some (Inr r, s', []) \<and> ?Q r s'"
  proof (rule iter_all_ensures [where I = ?I and n = "n_locals s"])
    fix i acc s1 assume i: "i < n_locals s" and I: "?I i acc s1"
    let ?s = "s1\<lparr>contended := tl (contended s1)\<rparr>"
    note f = trace_viewD [OF conjunct1 [OF I]]
    have v: "trace_view ?s = trace_view s" using I trace_view_update(3) by metis
    show "\<exists>r s'. ?body i acc (s1, []) = Some (Inr r, s', []) \<and> (case r of Inl a \<Rightarrow> ?I (Suc i) a s' | Inr a \<Rightarrow> ?Q a s')"
    proof (cases "mark_tasks (locals s i)")
      case Nil
      then have "?body i acc (s1, []) = Some (Inr (Inl acc), ?s, [])"
        using steal_batch_and_pop_run(1) [OF refl, of s1 i] f(13) [of i] by (simp add: act_simps)
      then show ?thesis using I v Nil by (auto simp: less_Suc_eq split: steal_result.split)
    next
      case (Cons a as)
      show ?thesis
      proof (cases "contended s1 \<noteq> [] \<and> hd (contended s1)")
        case True
        then have "?body i acc (s1, []) = Some (Inr (Inl Retry), ?s, [])"
          using steal_batch_and_pop_run(2) [OF refl, of s1 i] Cons f(13) [of i] by (simp add: act_simps)
        moreover have "length (contended ?s) < length (contended s)" using True I by (cases "contended s1") auto
        ultimately show ?thesis using v by auto
      next
        case False
        let ?n = "steal_count LOCAL_MARK_TASKS_BATCH_LIMIT (length (a # as)) - 1"
        define s' where "s' = upd_local t (\<lambda>l. l\<lparr>mark_tasks := mark_tasks l @ take ?n as\<rparr>)
          (upd_local i (\<lambda>l. l\<lparr>mark_tasks := drop ?n as\<rparr>) ?s)"
        have "?body i acc (s1, []) = Some (Inr (Inr (Success a)), s', [])"
          using steal_batch_and_pop_run(3) [OF refl, of s1 i a as] Cons f(13) [of i] False by (simp add: act_simps s'_def)
        moreover have "taken a ?s s'"
          using t i Cons by (intro taken_steal [of t ?s i a as s' ?n]) (simp_all add: f s'_def)
        ultimately show ?thesis using taken_view [OF v] by auto
      qed
    qed
  qed (auto simp: gray_def dest: trace_viewD(5) split: steal_result.splits)
  then show ?thesis unfolding steal_from_all_def .
qed

lemma steal_until_alone:
  assumes "t < n_locals s"
  shows "\<exists>r s'. steal_until steal_count t (s, []) = Some (Inr r, s', []) \<and>
    (case r of Some a \<Rightarrow> taken a s s' | None \<Rightarrow> trace_view s' = trace_view s \<and> gray s = {})"
  using assms
proof (induction "length (contended s)" arbitrary: s rule: less_induct)
  case less
  obtain r s1 where s1: "steal_from_all steal_count t (s, []) = Some (Inr r, s1, [])"
    "case r of Success a \<Rightarrow> taken a s s1
     | Retry \<Rightarrow> trace_view s1 = trace_view s \<and> length (contended s1) < length (contended s)
     | Empty \<Rightarrow> trace_view s1 = trace_view s \<and> gray s = {}"
    using steal_from_all_alone [OF less.prems] by blast
  show ?case
  proof (cases r)
    case Retry
    then have v: "trace_view s1 = trace_view s" "length (contended s1) < length (contended s)" using s1(2) by simp_all
    have "gray s1 = gray s" by (simp add: gray_def trace_viewD [OF v(1)])
    moreover obtain r' s' where "steal_until steal_count t (s1, []) = Some (Inr r', s', [])"
      "case r' of Some a \<Rightarrow> taken a s1 s' | None \<Rightarrow> trace_view s' = trace_view s1 \<and> gray s1 = {}"
      using less.hyps [OF v(2)] less.prems trace_viewD(5) [OF v(1)] by auto
    ultimately show ?thesis
      using s1(1) Retry v(1) taken_view [OF v(1)]
      by (subst steal_until.simps) (auto simp: act_simps split: option.splits)
  qed (use s1 in \<open>subst steal_until.simps, auto simp: act_simps\<close>)+
qed

lemma find_task_alone:
  assumes "t < n_locals s"
  shows "\<exists>r s'. find_task steal_count t (s, []) = Some (Inr r, s', []) \<and>
    (case r of Some a \<Rightarrow> taken a s s' | None \<Rightarrow> trace_view s' = trace_view s \<and> gray s = {})"
proof (cases "mark_tasks (locals s t)")
  case Nil
  then show ?thesis using steal_until_alone [OF assms, of steal_count]
    by (simp add: find_task_def pop_mark_task_def act_simps)
next
  case (Cons a as)
  then show ?thesis using taken_pop [OF assms Cons]
    by (simp add: find_task_def pop_mark_task_def act_simps)
qed

lemma reachable_finite:
  assumes "traceable k s0 e" "finite (dom (heap s0))"
  shows "finite (reachable k s0)"
proof -
  have "a \<in> dom (heap s0)" if "a \<in> reachable k s0" for a
    using that
  proof (induction rule: reachable_induct)
    case (edge a b)
    then show ?case using assms(1) by (auto simp: traceable_def)
  qed (auto simp: root_objs_def)
  then show ?thesis using assms(2) by (meson finite_subset subsetI)
qed

text \<open>
  A task either blackens a white object or leaves one task less: the loop ends, and it ends with empty
  queues.
\<close>

lemma drain_loop_tracing:
  assumes "tracing k s0 e cnt {} [] [] s" "0 < cnt (g_local g)" "g_local g < n_locals s0" "finite (dom (heap s0))"
  shows "\<exists>b s'. drain_loop k steal_count g executed (s, []) = Some (Inr b, s', []) \<and>
    tracing k s0 e cnt {} [] [] s' \<and> gray s' = {} \<and> lists_of s' = lists_of s"
  using assms
proof (induction "(card {a \<in> reachable k s0. color_at s a \<noteq> Some (flip (epoch_color e))}, size (tasks s))"
    arbitrary: s executed rule: wf_induct_rule [OF wf_lex_prod [OF wf_less_than wf_less_than]])
  case 1
  let ?b = "flip (epoch_color e)" and ?t = "g_local g"
  let ?white = "\<lambda>s. {a \<in> reachable k s0. color_at s a \<noteq> Some ?b}"
  have fin: "finite (?white s)" for s using reachable_finite [OF tracingD(8) [OF 1(2)] 1(5)] by simp
  have "?t < n_locals s" using 1(4) tracing_n_locals [OF 1(2)] by simp
  then obtain r s1 where s1: "find_task steal_count ?t (s, []) = Some (Inr r, s1, [])"
    "case r of Some a \<Rightarrow> taken a s s1 | None \<Rightarrow> trace_view s1 = trace_view s \<and> gray s = {}"
    using find_task_alone by blast
  show ?case
  proof (cases r)
    case None
    then have v: "trace_view s1 = trace_view s" "gray s = {}" using s1(2) by simp_all
    have "tracing k s0 e cnt {} [] [] s1" using 1(2) tracing_view [OF v(1)] by blast
    moreover have "gray s1 = {}" "lists_of s1 = lists_of s"
      using v(2) by (simp_all add: gray_def lists_of_def trace_viewD [OF v(1)])
    ultimately show ?thesis using s1(1) None by (subst drain_loop.simps) (auto simp: act_simps)
  next
    case (Some a)
    then have tk: "taken a s s1" using s1(2) by simp
    then have v: "trace_view (drop_tasks s1) = trace_view (drop_tasks s)" and sz: "size (tasks s1) < size (tasks s)"
      by (auto simp: taken_def)
    note f = drop_tasks_viewD [OF v]
    have c: "color_at s1 = color_at s" by (rule color_at_heap [OF f(1)])
    have t1: "tracing k s0 e cnt {a} [] [] s1" by (rule tracing_taken [OF 1(2) tk])
    have r: "a \<in> reachable k s0" using tracing_gray [OF t1] by simp
    obtain s2 where s2: "obj_mark k a g (s1, []) = Some (Inr (), s2, [])" "tracing k s0 e cnt {} [] [] s2"
      "color_at s2 = (color_at s1)(a \<mapsto> ?b)" "lists_of s2 = lists_of s1" "color_at s1 a = Some ?b \<longrightarrow> s2 = s1"
      using obj_mark_tracing [OF t1 1(3,4) r] by auto
    have sub: "?white s2 \<subseteq> ?white s - {a}" using s2(3) c by auto
    have less: "((card (?white s2), size (tasks s2)), (card (?white s), size (tasks s))) \<in> less_than <*lex*> less_than"
    proof (cases "color_at s1 a = Some ?b")
      case True
      then show ?thesis using s2(5) c sz by simp
    next
      case False
      then have "card (?white s2) < card (?white s)"
        using sub r c by (intro psubset_card_mono [OF fin]) auto
      then show ?thesis by simp
    qed
    have "lists_of s1 = lists_of s" by (simp add: lists_of_def f)
    then show ?thesis
      using 1(1) [OF less s2(2) 1(3-5), of True] s1(1) s2(1,4) Some by (subst drain_loop.simps) (auto simp: act_simps)
  qed
qed

lemma drain_tasks_tracing:
  assumes tr: "tracing k s0 e (\<lambda>_. 0) {} [] [] s" and t: "collector_thread s0 t" and fin: "finite (dom (heap s0))"
    and p: "pending (epoch_color e) s = []" "no_fresh (epoch_color e) s"
  shows "\<exists>b s'. drain_mark_tasks k steal_count t f (s, []) = Some (Inr b, s', []) \<and>
    tracing k s0 e (\<lambda>_. 0) {} [] [] s' \<and> gray s' = {} \<and> pending (epoch_color e) s' = [] \<and> no_fresh (epoch_color e) s'"
proof -
  let ?w = "epoch_color e" and ?g = "\<lparr>g_local = t, g_flag = f\<rparr>" and ?cnt = "(\<lambda>_. 0 :: usize)(t := 1)"
  have t': "t < n_locals s0" "set (hazards (locals s0 t)) \<subseteq> {0}" using t by (auto simp: collector_thread_def)
  obtain s1 where s1: "handle_pin k t f (Suc f) (s, []) = Some (Inr ?g, s1, [])" "tracing k s0 e ?cnt {} [] [] s1"
    "advance ?w s s1"
    using handle_pin_tracing [OF tr _ t'(2)] by blast
  have cg: "0 < ?cnt (g_local ?g)" "g_local ?g < n_locals s0" using t'(1) by simp_all
  obtain b s2 where s2: "drain_loop k steal_count ?g False (s1, []) = Some (Inr b, s2, [])" "tracing k s0 e ?cnt {} [] [] s2"
    "gray s2 = {}" "lists_of s2 = lists_of s1"
    using drain_loop_tracing [OF s1(2) cg fin] by blast
  obtain s3 where s3: "guard_drop k ?g (s2, []) = Some (Inr (), s3, [])"
    "tracing k s0 e (?cnt(g_local ?g := ?cnt (g_local ?g) - 1)) {} [] [] s3" "advance ?w s2 s3"
    using guard_drop_tracing [OF cg s2(2)] by blast
  have c: "?cnt(g_local ?g := ?cnt (g_local ?g) - 1) = (\<lambda>_. 0)" by (auto simp: fun_eq_iff)
  have l: "fresh_objs s2 = fresh_objs s1" "pending ?w s2 = pending ?w s1"
    using lists_of_pending [OF s2(4)] tracing_n_locals [OF s2(2)] tracing_n_locals [OF s1(2)] by auto
  have "drain_mark_tasks k steal_count t f (s, []) = Some (Inr b, s3, [])"
    using s1(1) s2(1) s3(1) by (simp add: drain_mark_tasks_def act_simps)
  moreover have "gray s3 = {} \<and> pending ?w s3 = [] \<and> no_fresh ?w s3"
    using s1(3) s3(3) s2(3) l p by (simp add: advance_def no_fresh_def)
  ultimately show ?thesis using s3(2) unfolding c by blast
qed

end
