(* ===== verification/Cycle_Spec.thy ===== *)
theory Cycle_Spec
  imports Cycle_Trace
begin

text \<open>
  A whole collection cycle of \<^verbatim>\<open>src/src/collector.rs\<close> while no mutator runs: it ends, and what it leaves of
  the heap are exactly the objects that are reachable from the counted roots and the hazard pointers, with
  the same contents and ready for the next cycle.
\<close>

section \<open>Phase transitions\<close>

lemma wait_all_alone:
  assumes "\<And>u. \<not> is_pinned (thread_epoch s u)"
  shows "wait_all_mutators_unpin ts (s, []) = Some (Inr (), s, [])"
proof -
  let ?body = "\<lambda>t (_ :: unit). bind (wait_unpin ts t) (\<lambda>_. ret (Inl () :: unit + unit))"
  have "atomic_epoch_load (local_epoch (locals s u)) = thread_epoch s u" for u
    by (simp add: thread_epoch_def atomic_epoch_load_def atomic_epoch_load_non_atomic_def)
  then have w: "wait_unpin ts u (s, []) = Some (Inr (), s, [])" for u
    using assms by (subst wait_unpin.simps) (simp add: act_simps)
  have "\<exists>r s'. iter_using ?body () (s, []) = Some (Inr r, s', []) \<and> s' = s"
    by (rule iter_using_ensures [where I = "\<lambda>_ _ s'. s' = s" and n = "n_locals s"]) (auto simp: act_simps w)
  then show ?thesis by (auto simp: wait_all_mutators_unpin_def)
qed

lemma thread_epoch_global [simp]: "thread_epoch (s\<lparr>global_epoch := x\<rparr>) u = thread_epoch s u"
  by (simp add: thread_epoch_def)

lemma atomic_epoch_load_store [simp]: "atomic_epoch_load (atomic_epoch_store e a) = e"
  by (simp add: atomic_epoch_load_def atomic_epoch_store_def)

definition enter :: "epoch \<Rightarrow> 'v rt \<Rightarrow> 'v rt" where
  "enter e s = s\<lparr>global_epoch := atomic_epoch_store e (global_epoch s)\<rparr>"

lemma enter_fields [simp]:
  "heap (enter e s) = heap s" "fresh_objs (enter e s) = fresh_objs s" "marked_objs (enter e s) = marked_objs s"
  "locals (enter e s) = locals s" "n_locals (enter e s) = n_locals s" "in_use (enter e s) = in_use s"
  "cells (enter e s) = cells s" "collector_threads (enter e s) = collector_threads s"
  "total_reclaimed (enter e s) = total_reclaimed s" "atomic_epoch_load (global_epoch (enter e s)) = e"
  "thread_epoch (enter e s) u = thread_epoch s u" "color_at (enter e s) = color_at s" "gray (enter e s) = gray s"
  "pending w (enter e s) = pending w s" "cycle_objs w (enter e s) = cycle_objs w s"
  by (simp_all add: enter_def color_at_def header_at_def gray_def pending_def cycle_objs_def fun_eq_iff)

lemma phase_trans_alone:
  assumes "\<And>u. \<not> is_pinned (thread_epoch s u)"
    "e' = with_phase ph (with_timestamp (timestamp (atomic_epoch_load (global_epoch s)) + 1) (atomic_epoch_load (global_epoch s)))"
  shows "phase_trans ph (s, []) = Some (Inr (), enter e' s, [])"
  using wait_all_alone [of "enter e' s" "timestamp e'"] assms
  by (simp add: phase_trans_def load_epoch_def store_epoch_def act_simps Let_def enter_def)

lemma next_timestamp:
  assumes "unat (timestamp e) + 1 < 2 ^ 60"
  shows "unat (timestamp e + 1) = Suc (unat (timestamp e))" "take_bit 60 (timestamp e + 1) = timestamp e + 1"
    "timestamp e < timestamp e + 1"
proof -
  show u: "unat (timestamp e + 1) = Suc (unat (timestamp e))"
    using assms by (simp add: unat_word_ariths)
  then have "timestamp e + 1 < 2 ^ 60" using assms by (simp add: word_less_nat_alt)
  then show "take_bit 60 (timestamp e + 1) = timestamp e + 1" by (rule take_bit_60)
  show "timestamp e < timestamp e + 1" using u by (simp add: word_less_nat_alt)
qed

lemma tracing_enter:
  assumes tr: "tracing k s0 e (\<lambda>_. 0) {} [] [] s" and c: "epoch_color e' = epoch_color e" and ts: "timestamp e < timestamp e'"
    and ph: "epoch_phase e' = Inr CT"
  shows "tracing k s0 e' (\<lambda>_. 0) {} [] [] (enter e' s)"
proof -
  have "thread_ok s0 e' (\<lambda>_. 0) (enter e' s) u" for u
  proof -
    have "timestamp e1 \<le> timestamp e \<Longrightarrow> timestamp e1 \<le> timestamp e' \<and> e1 \<noteq> pinned e'" for e1
      using ts by (auto simp: epoch_simps)
    then show ?thesis using tracingD(7) [OF tr, of u] ts by (auto simp: thread_ok_def)
  qed
  then show ?thesis
    using tracingD(1-6,8) [OF tr] c ph
    by (simp add: tracing_def same_objs_def shaded_def shaded_obj_def black_edge_def only_reachable_def lists_ok_def
        roots_ok_def global_ok_def traceable_def)
qed

section \<open>Between two cycles\<close>

definition idle :: "'v rt \<Rightarrow> nat \<Rightarrow> bool" where
  "idle s u \<longleftrightarrow> guard_count (locals s u) = 0 \<and> \<not> is_pinned (thread_epoch s u) \<and> mark_tasks (locals s u) = [] \<and>
     mt_modified_ts (locals s u) \<le> timestamp (atomic_epoch_load (global_epoch s)) \<and>
     (\<forall>hs e. cached_hazards (locals s u) = Some (hs, e) \<longrightarrow> timestamp e \<le> timestamp (atomic_epoch_load (global_epoch s)))"

definition all_white :: "color \<Rightarrow> 'v rt \<Rightarrow> bool" where
  "all_white w s \<longleftrightarrow> (\<forall>a obj. heap s a = Some obj \<longrightarrow>
     marked (header obj) = w \<and> (\<forall>p\<in>set (links obj). ptr_meta_of p = Unrooted w))"

definition closed :: "nat \<Rightarrow> 'v rt \<Rightarrow> bool" where
  "closed k s \<longleftrightarrow> (\<forall>a b. (a, b) \<in> edges k s \<longrightarrow> heap s b \<noteq> None)"

definition quiescent :: "nat \<Rightarrow> 'v rt \<Rightarrow> bool" where
  "quiescent k s \<longleftrightarrow> (let w = epoch_color (atomic_epoch_load (global_epoch s)) in
     epoch_phase (atomic_epoch_load (global_epoch s)) = Inr N \<and> closed k s \<and> all_white w s \<and>
     distinct (cycle_objs w s) \<and> set (cycle_objs w s) = dom (heap s) \<and> all_objs (marked_objs s w) = [] \<and>
     cycle_objs (flip w) s = [] \<and> (\<forall>u. idle s u) \<and>
     1 \<le> unat (collector_threads s) \<and> unat (collector_threads s) \<le> OBJ_BATCHES_SHARD)"

text \<open>Entering the tracing phase.\<close>

lemma quiescent_tracing:
  assumes q: "quiescent k s" and e: "e = atomic_epoch_load (global_epoch s)"
    and e': "epoch_color e' = epoch_color e" "timestamp e < timestamp e'" "epoch_phase e' = Inr RT"
  shows "tracing k s e' (\<lambda>_. 0) {} [] [] (enter e' s)"
proof -
  let ?w = "epoch_color e"
  have id: "idle s u" for u using q by (simp add: quiescent_def Let_def)
  have g: "gray s = {}" using id by (simp add: gray_def idle_def)
  have wh: "all_white ?w s" using q by (simp add: quiescent_def Let_def e)
  have "shaded k (flip ?w) {} (enter e' s)"
    using wh by (simp add: shaded_def shaded_obj_def all_white_def)
  moreover have "only_reachable k s (flip ?w) {} (enter e' s)"
    using wh g by (auto simp: only_reachable_def all_white_def color_at_def header_at_def)
  moreover have "roots_ok s ?w [] (enter e' s)"
    using q by (auto simp: roots_ok_def root_objs_def quiescent_def Let_def e cycle_objs_def dom_def)
  moreover have "thread_ok s e' (\<lambda>_. 0) (enter e' s) u" for u
  proof -
    have "timestamp e1 \<le> timestamp e \<Longrightarrow> timestamp e1 \<le> timestamp e' \<and> e1 \<noteq> pinned e'" for e1
      using e'(2) by (auto simp: epoch_simps)
    then show ?thesis using id [of u] e'(2) by (auto simp: thread_ok_def idle_def e)
  qed
  moreover have "same_objs s (enter e' s)"
    by (auto simp: same_objs_def same_obj_def intro!: option.rel_refl)
  moreover have "traceable k s e'"
    using q e'(3) by (auto simp: traceable_def closed_def quiescent_def Let_def e e'(1) [unfolded e])
  ultimately show ?thesis
    by (simp add: tracing_def lists_ok_def global_ok_def e'(1))
qed

section \<open>Root tracing and completion\<close>

lemma unpinned_threads: "tracing k s0 e (\<lambda>_. 0) G batch todo s \<Longrightarrow> \<not> is_pinned (thread_epoch s u)"
  using tracingD(7) [of k s0 e "\<lambda>_. 0" G batch todo s u] by (simp add: thread_ok_def)

lemma epoch_of_tracing: "tracing k s0 e cnt G batch todo s \<Longrightarrow> atomic_epoch_load (global_epoch s) = e"
  by (simp add: tracing_def global_ok_def)

text \<open>The state after the marking: nothing is left to be scanned or marked.\<close>

definition traced :: "nat \<Rightarrow> 'v rt \<Rightarrow> epoch \<Rightarrow> 'v rt \<Rightarrow> bool" where
  "traced k s0 e s \<longleftrightarrow> tracing k s0 e (\<lambda>_. 0) {} [] [] s \<and> gray s = {} \<and> pending (epoch_color e) s = [] \<and>
     no_fresh (epoch_color e) s"

lemma root_tracing_alone:
  assumes q: "quiescent k s" and t: "collector_thread s t"
    and u: "\<And>i. collector_thread s (worker i)" "\<And>i. worker i \<noteq> t"
    and e: "e = atomic_epoch_load (global_epoch s)" "unat (timestamp e) + 1 < 2 ^ 60"
    and e': "e' = with_phase RT (with_timestamp (timestamp e + 1) e)"
  shows "\<exists>s'. root_tracing k steal_count worker t f (s, []) = Some (Inr (), s', []) \<and> traced k s e' s'"
proof -
  note nt = next_timestamp [OF e(2)]
  have id: "\<not> is_pinned (thread_epoch s u)" for u using q by (simp add: quiescent_def Let_def idle_def)
  have t1: "tracing k s e' (\<lambda>_. 0) {} [] [] (enter e' s)"
    using nt by (intro quiescent_tracing [OF q e(1)]) (simp_all add: e' epoch_simps)
  have p: "phase_trans RT (s, []) = Some (Inr (), enter e' s, [])"
    using id by (intro phase_trans_alone) (simp_all add: e' e(1))
  have n: "1 \<le> unat (collector_threads s)" "unat (collector_threads s) \<le> OBJ_BATCHES_SHARD"
    "finite (dom (heap s))"
    using q by (auto simp: quiescent_def Let_def simp flip: set_append)
  obtain s1 where s1: "scan_allocated_objs k worker t f (enter e' s, []) = Some (Inr (), s1, [])"
    "tracing k s e' (\<lambda>_. 0) {} [] [] s1" "pending (epoch_color e') s1 = []" "no_fresh (epoch_color e') s1"
    using scan_allocated_tracing [where worker = worker and f = f, OF t1 t u n(1,2)] by blast
  obtain b s2 where "drain_mark_tasks k steal_count t f (s1, []) = Some (Inr b, s2, [])"
    "tracing k s e' (\<lambda>_. 0) {} [] [] s2" "gray s2 = {}" "pending (epoch_color e') s2 = []" "no_fresh (epoch_color e') s2"
    using drain_tasks_tracing [OF s1(2) t n(3) s1(3,4)] by blast
  then show ?thesis using p s1(1) by (auto simp: root_tracing_def traced_def act_simps)
qed

lemma any_modified_alone:
  assumes "\<And>u. mt_modified_ts (locals s u) \<noteq> ts"
  shows "any_modified ts (s, []) = Some (Inr False, s, [])"
proof -
  let ?body = "\<lambda>u (_ :: bool). bind (atomic_read (\<lambda>s. mt_modified_ts (locals s u))) (\<lambda>ts'.
       ret (if ts' = ts then Inr True else Inl False))"
  have "\<exists>r s'. iter_all ?body False (s, []) = Some (Inr r, s', []) \<and> r = False \<and> s' = s"
    by (rule iter_all_ensures [where I = "\<lambda>_ r s'. r = False \<and> s' = s" and n = "n_locals s"]) (use assms in \<open>auto simp: act_simps\<close>)
  then show ?thesis by (auto simp: any_modified_def)
qed

lemma any_pending_alone:
  assumes "gray s = {}"
  shows "any_pending (s, []) = Some (Inr False, s, [])"
proof -
  let ?body = "\<lambda>u (_ :: bool). bind (atomic_read (\<lambda>s. mark_tasks (locals s u))) (\<lambda>tasks.
       ret (if tasks \<noteq> [] then Inr True else Inl False))"
  have "mark_tasks (locals s u) = []" if "u < n_locals s" for u using assms that by (simp add: gray_def)
  then have "\<exists>r s'. iter_all ?body False (s, []) = Some (Inr r, s', []) \<and> r = False \<and> s' = s"
    by (intro iter_all_ensures [where I = "\<lambda>_ r s'. r = False \<and> s' = s" and n = "n_locals s"]) (auto simp: act_simps)
  then show ?thesis by (auto simp: any_pending_def)
qed

text \<open>With nothing modified since the timestamp of the new phase, completion is confirmed at once.\<close>

lemma complete_loop_alone:
  assumes tr: "traced k s0 e s" and ts: "unat (timestamp e) + 1 < 2 ^ 60"
    and e': "e' = with_phase CT (with_timestamp (timestamp e + 1) e)"
  shows "complete_loop k steal_count t f (s, []) = Some (Inr (), enter e' s, []) \<and> traced k s0 e' (enter e' s)"
proof -
  note nt = next_timestamp [OF ts]
  have t0: "tracing k s0 e (\<lambda>_. 0) {} [] [] s" and g: "gray s = {}" using tr by (simp_all add: traced_def)
  have t1: "tracing k s0 e' (\<lambda>_. 0) {} [] [] (enter e' s)"
    using nt by (intro tracing_enter [OF t0]) (simp_all add: e' epoch_simps)
  have p: "phase_trans CT (s, []) = Some (Inr (), enter e' s, [])"
    using unpinned_threads [OF t0] by (intro phase_trans_alone) (simp_all add: e' epoch_of_tracing [OF t0])
  have te: "timestamp e' = timestamp e + 1" "epoch_color e' = epoch_color e" using nt by (simp_all add: e' epoch_simps)
  have "mt_modified_ts (locals (enter e' s) u) \<noteq> timestamp e'" for u
  proof -
    have "mt_modified_ts (locals s u) \<le> timestamp e" using tracingD(7) [OF t0, of u] by (simp add: thread_ok_def)
    then show ?thesis using nt(3) te by auto
  qed
  note m = any_modified_alone [OF this]
  have "try_confirm_completion (enter e' s, []) = Some (Inr True, enter e' s, [])"
    using m any_pending_alone [of "enter e' s"] g
    by (simp add: try_confirm_completion_def load_epoch_def act_simps Let_def bind_def)
  then have "completion_tracing k steal_count t f (s, []) = Some (Inr True, enter e' s, [])"
    using p by (simp add: completion_tracing_def act_simps)
  then show ?thesis
    using t1 tr te(2) by (subst complete_loop.simps) (simp add: act_simps traced_def no_fresh_def)
qed

section \<open>The sweep of a cycle\<close>

text \<open>Exactly the reachable objects are black.\<close>

lemma traced_black:
  assumes tr: "traced k s0 e s"
  shows "color_at s a = Some (flip (epoch_color e)) \<longleftrightarrow> a \<in> reachable k s0"
proof
  have t0: "tracing k s0 e (\<lambda>_. 0) {} [] [] s" and g: "gray s = {}" and p: "pending (epoch_color e) s = []" "no_fresh (epoch_color e) s"
    using tr by (simp_all add: traced_def)
  show "a \<in> reachable k s0" if "color_at s a = Some (flip (epoch_color e))"
    using that tracingD(3) [OF t0] by (simp add: only_reachable_def)
  show "color_at s a = Some (flip (epoch_color e))" if "a \<in> reachable k s0"
    using that
  proof (induction rule: reachable_induct)
    case (root a)
    have "all_objs (fresh_objs s (epoch_color e)) = []" using p(2) by (simp add: all_objs_def no_fresh_def)
    then show ?case using tracingD(5) [OF t0] p(1) root by (auto simp: roots_ok_def)
  next
    case (edge a b)
    have "(a, b) \<in> edges k s" using edge.hyps(2) same_obj_edges [OF tracingD(1) [OF t0]] by simp
    then obtain obj ptr where o: "heap s a = Some obj" "ptr \<in> set (links obj)" "as_ref k ptr = Some b"
      by (auto simp: edges_def)
    have "marked (header obj) = flip (epoch_color e)" using edge.IH o(1) by (simp add: color_at_def header_at_def)
    then have "black_edge k (flip (epoch_color e)) {} s ptr"
      using tracingD(2) [OF t0] o(1,2) unfolding shaded_def shaded_obj_def by auto
    then show ?case using o(3) g by (simp add: black_edge_def)
  qed
qed

lemma traced_links:
  assumes tr: "traced k s0 e s" and a: "a \<in> reachable k s0" "heap s a = Some obj" "ptr \<in> set (links obj)"
  shows "ptr_meta_of ptr = Unrooted (flip (epoch_color e))"
proof -
  have "marked (header obj) = flip (epoch_color e)"
    using traced_black [OF tr, of a] a(1,2) by (simp add: color_at_def header_at_def)
  moreover have "shaded k (flip (epoch_color e)) {} s" using tr by (auto simp: traced_def dest: tracingD(2))
  ultimately show ?thesis using a(2,3) unfolding shaded_def shaded_obj_def by auto
qed

lemma traced_objs:
  assumes q: "quiescent k s0" and tr: "traced k s0 e s" and w: "epoch_color e = epoch_color (atomic_epoch_load (global_epoch s0))"
  shows "distinct (all_objs (marked_objs s (epoch_color e)))" "set (all_objs (marked_objs s (epoch_color e))) = dom (heap s)"
    "all_objs (fresh_objs s (epoch_color e)) = []" "cycle_objs (flip (epoch_color e)) s = []"
    "a \<in> dom (heap s) \<Longrightarrow> color_at s a = Some (epoch_color e) \<longleftrightarrow> a \<notin> reachable k s0" "a \<in> dom (heap s) \<Longrightarrow> sweepable k s a"
    "reachable k s0 \<subseteq> dom (heap s)"
proof -
  let ?w = "epoch_color e"
  have t0: "tracing k s0 e (\<lambda>_. 0) {} [] [] s" and p: "pending ?w s = []" "no_fresh ?w s" using tr by (simp_all add: traced_def)
  have l: "lists_ok s0 ?w [] s" by (rule tracingD(4) [OF t0])
  show f: "all_objs (fresh_objs s ?w) = []" using p(2) by (simp add: all_objs_def no_fresh_def)
  then have m: "mset (all_objs (marked_objs s ?w)) = mset (cycle_objs ?w s0)"
    using l p(1) by (simp add: lists_ok_def cycle_objs_def)
  have d: "dom (heap s) = dom (heap s0)" using same_objs_dom [OF tracingD(1) [OF t0]] by (simp add: dom_def)
  have q': "distinct (cycle_objs ?w s0)" "set (cycle_objs ?w s0) = dom (heap s0)" "cycle_objs (flip ?w) s0 = []"
    using q by (simp_all add: quiescent_def Let_def w)
  show "distinct (all_objs (marked_objs s ?w))" using m q'(1) by (metis mset_eq_imp_distinct_iff)
  show "set (all_objs (marked_objs s ?w)) = dom (heap s)" using m q'(2) d by (metis mset_eq_setD)
  have "pending (flip ?w) s = pending (flip ?w) s0" using l tracing_n_locals [OF t0] by (simp add: pending_def lists_ok_def)
  then show "cycle_objs (flip ?w) s = []" using l q'(3) by (simp add: cycle_objs_def lists_ok_def)
  show "color_at s a = Some ?w \<longleftrightarrow> a \<notin> reachable k s0" if a: "a \<in> dom (heap s)"
  proof -
    obtain obj where "heap s a = Some obj" using a by blast
    then obtain c where "color_at s a = Some c" by (simp add: color_at_def header_at_def)
    then show ?thesis using traced_black [OF tr, of a] neq_iff_flip [of c ?w] by auto
  qed
  show "sweepable k s a" if "a \<in> dom (heap s)"
    using that tracingD(2) [OF t0] unfolding sweepable_def shaded_def shaded_obj_def
    by (auto split: option.split) (metis ptr_meta.distinct(1))
  show "reachable k s0 \<subseteq> dom (heap s)" using reachable_heap [OF t0] by blast
qed

text \<open>The bytes of the unreachable objects.\<close>

definition garbage_bytes :: "nat \<Rightarrow> 'v rt \<Rightarrow> usize" where
  "garbage_bytes k s = (\<Sum>a \<in> dom (heap s) - reachable k s. size_at s a)"

lemma swept_bytes:
  assumes "quiescent k s0" "traced k s0 e s" "epoch_color e = epoch_color (atomic_epoch_load (global_epoch s0))"
  shows "sum_list (map (size_at s) (filter (\<lambda>a. color_at s a = Some (epoch_color e)) (all_objs (marked_objs s (epoch_color e))))) =
    garbage_bytes k s0"
proof -
  note o = traced_objs [OF assms]
  let ?as = "filter (\<lambda>a. color_at s a = Some (epoch_color e)) (all_objs (marked_objs s (epoch_color e)))"
  have so: "same_objs s0 s" using assms(2) by (auto simp: traced_def dest: tracingD(1))
  have d: "dom (heap s) = dom (heap s0)" using same_objs_dom [OF so] by (simp add: dom_def)
  have "sum_list (map (size_at s) ?as) = sum (size_at s) (set ?as)"
    using o(1) by (intro sum_list_distinct_conv_sum_set) simp
  also have "set ?as = dom (heap s0) - reachable k s0" using o(2,5) d by auto
  also have "sum (size_at s) \<dots> = sum (size_at s0) \<dots>"
  proof (intro sum.cong refl)
    fix a
    have "rel_option same_obj (heap s0 a) (heap s a)" using so by (simp add: same_objs_def)
    then show "size_at s a = size_at s0 a" by (auto simp: size_at_def same_obj_def split: option.splits)
  qed
  finally show ?thesis by (simp add: garbage_bytes_def)
qed

text \<open>The heap of the reachable objects is closed and white in the new colour, and the threads are idle.\<close>

lemma survivors:
  assumes tr: "traced k s0 e s" and h: "heap s' = heap s |` reachable k s0"
  shows "closed k s'" "all_white (flip (epoch_color e)) s'"
proof -
  have t0: "tracing k s0 e (\<lambda>_. 0) {} [] [] s" using tr by (simp add: traced_def)
  have r: "a \<in> reachable k s0 \<and> heap s a = Some obj" if "heap s' a = Some obj" for a obj
    using that by (auto simp: h restrict_map_def split: if_splits)
  show "closed k s'"
    unfolding closed_def
  proof (intro allI impI)
    fix a b assume "(a, b) \<in> edges k s'"
    then have "a \<in> reachable k s0" "(a, b) \<in> edges k s" using r unfolding edges_def by blast+
    then have "b \<in> reachable k s0" using same_obj_edges [OF tracingD(1) [OF t0], of k] by (blast intro: reachable_edge)
    then show "heap s' b \<noteq> None" using reachable_heap [OF t0] by (simp add: h)
  qed
  show "all_white (flip (epoch_color e)) s'"
    unfolding all_white_def
  proof (intro allI impI)
    fix a obj assume "heap s' a = Some obj"
    then have a: "a \<in> reachable k s0" "heap s a = Some obj" using r by simp_all
    then show "marked (header obj) = flip (epoch_color e) \<and> (\<forall>p\<in>set (links obj). ptr_meta_of p = Unrooted (flip (epoch_color e)))"
      using traced_black [OF tr, of a] traced_links [OF tr a] by (simp add: color_at_def header_at_def)
  qed
qed

lemma traced_idle:
  assumes tr: "traced k s0 e s" and te: "\<And>u. thread_epoch s' u = thread_epoch s u"
    and l: "locals s' = locals s" and ts: "timestamp e \<le> timestamp (atomic_epoch_load (global_epoch s'))"
  shows "idle s' u"
proof -
  have t0: "tracing k s0 e (\<lambda>_. 0) {} [] [] s" and g: "gray s = {}" using tr by (simp_all add: traced_def)
  have "mark_tasks (locals s u) = []"
    using g tracingD(7) [OF t0, of u] tracing_n_locals [OF t0] by (cases "u < n_locals s") (simp_all add: gray_def thread_ok_def)
  moreover have "x \<le> timestamp e \<Longrightarrow> x \<le> timestamp (atomic_epoch_load (global_epoch s'))" for x using ts by (rule order.trans [rotated])
  ultimately show ?thesis using tracingD(7) [OF t0, of u] by (auto simp: idle_def thread_ok_def l te)
qed

lemma next_normal_alone:
  assumes q: "quiescent k s0" and tr: "traced k s0 e s" and w: "epoch_color e = epoch_color (atomic_epoch_load (global_epoch s0))"
    and ts: "unat (timestamp e) + 1 < 2 ^ 60"
  shows "\<exists>s'. next_normal k (s, []) = Some (Inr (), s', []) \<and> heap s' = heap s |` reachable k s0 \<and> quiescent k s' \<and>
    total_reclaimed s' = total_reclaimed s + garbage_bytes k s0 \<and> cells s' = cells s \<and> locals s' = locals s \<and>
    n_locals s' = n_locals s \<and> in_use s' = in_use s \<and> timestamp (atomic_epoch_load (global_epoch s')) = timestamp e + 1"
proof -
  let ?w = "epoch_color e"
  define e' where "e' = with_color (flip ?w) (with_phase N (with_timestamp (timestamp e + 1) e))"
  let ?s = "enter e' s" and ?M = "all_objs (marked_objs s ?w)"
  note o = traced_objs [OF q tr w] and nt = next_timestamp [OF ts]
  have t0: "tracing k s0 e (\<lambda>_. 0) {} [] [] s" and g: "gray s = {}" and p: "pending ?w s = []"
    using tr by (simp_all add: traced_def)
  have e1: "epoch_color e' = flip ?w" "epoch_phase e' = Inr N" "timestamp e' = timestamp e + 1"
    using nt by (simp_all add: e'_def epoch_simps)
  have n: "1 \<le> unat (collector_threads ?s)" "unat (collector_threads ?s) \<le> OBJ_BATCHES_SHARD"
    using q tracingD(6) [OF t0] by (simp_all add: quiescent_def Let_def global_ok_def)
  have sz: "size_at ?s = size_at s" "sweepable k ?s a = sweepable k s a" for a
    by (simp_all add: size_at_def sweepable_def fun_eq_iff)
  have sw: "distinct (all_objs (marked_objs ?s ?w))" "\<forall>a\<in>set (all_objs (marked_objs ?s ?w)). sweepable k ?s a"
    using o(1,2,6) sz by simp_all
  obtain s' where run: "sweep k ?w (?s, []) = Some (Inr (), s', [])"
    and h: "heap s' = (\<lambda>a. if a \<in> set ?M \<and> color_at s a = Some ?w then None else heap s a)"
    and fr: "mset (all_objs (fresh_objs s' (flip ?w))) = mset (all_objs (fresh_objs s (flip ?w))) + mset (filter (\<lambda>a. color_at s a \<noteq> Some ?w) ?M)"
    and mk: "all_objs (marked_objs s' ?w) = []"
    and re: "total_reclaimed s' = total_reclaimed s + sum_list (map (size_at s) (filter (\<lambda>a. color_at s a = Some ?w) ?M))"
    and frame: "sweep_frame ?w s' = sweep_frame ?w ?s"
    using sweep_alone [OF n sw] unfolding sz enter_fields by blast
  note ff = sweep_frame_fields [OF frame, simplified]
  have te: "thread_epoch s' u = thread_epoch s u" for u by (simp add: thread_epoch_def ff)
  have gl: "atomic_epoch_load (global_epoch s') = e'" by (simp add: ff)
  have "wait_all_mutators_unpin (timestamp e') (s', []) = Some (Inr (), s', [])"
    using unpinned_threads [OF t0] by (intro wait_all_alone) (simp add: te)
  then have fin: "next_normal k (s, []) = Some (Inr (), s', [])"
    using run epoch_of_tracing [OF t0]
    by (simp add: next_normal_def load_epoch_def store_epoch_def act_simps Let_def enter_def e'_def)
  have h': "heap s' = heap s |` reachable k s0"
    unfolding h using o(2,5,7) by (auto simp: restrict_map_def fun_eq_iff)
  have dom: "dom (heap s') = reachable k s0" using o(7) by (auto simp: h')
  have pe: "pending c s' = pending c s" for c by (simp add: pending_def ff)
  have b: "all_objs (fresh_objs s (flip ?w)) = []" "pending (flip ?w) s = []" "all_objs (marked_objs s (flip ?w)) = []"
    using o(4) by (simp_all add: cycle_objs_def)
  have cy: "mset (cycle_objs (flip ?w) s') = mset (filter (\<lambda>a. color_at s a \<noteq> Some ?w) ?M)"
    using fr b by (simp add: cycle_objs_def pe ff)
  then have "distinct (cycle_objs (flip ?w) s')" using o(1) by (metis mset_eq_imp_distinct_iff distinct_filter)
  moreover have "set (cycle_objs (flip ?w) s') = dom (heap s')"
    unfolding mset_eq_setD [OF cy] dom set_filter o(2) using o(5,7) by blast
  moreover have "cycle_objs ?w s' = []" using o(3) p mk by (simp add: cycle_objs_def pe ff)
  moreover have "all_objs (marked_objs s' (flip ?w)) = []" using b(3) by (simp add: ff)
  moreover have "idle s' u" for u using traced_idle [OF tr te] nt(3) by (simp add: ff gl e1(3))
  ultimately have "quiescent k s'"
    using n survivors [OF tr h'] by (simp add: quiescent_def Let_def gl e1 ff)
  then show ?thesis
    using fin h' re swept_bytes [OF q tr w] gl e1(3) by (auto simp: ff)
qed

section \<open>Properties\<close>

text \<open>
  C1: a collection cycle that runs while no mutator is pinned returns, whatever number of tasks a
  steal moves and whichever steals lose a race. Afterwards the heap holds exactly the objects that were reachable
  from the objects with a nonzero root count and from the hazard pointers, every one of them with the contents it had;
  the bytes of the others are added to the counter of reclaimed bytes, the pointers outside the heap are untouched,
  and the state is again one in which a cycle can start. The three timestamps of the cycle must not overflow
  their 60 bits.
\<close>

theorem collection_cycle_reclaims_unreachable:
  assumes q: "quiescent k s" and t: "collector_thread s t"
    and u: "\<And>i. collector_thread s (worker i)" "\<And>i. worker i \<noteq> t"
    and ts: "unat (timestamp (atomic_epoch_load (global_epoch s))) + 3 < 2 ^ 60"
  shows "\<exists>s'. collection_cycle k steal_count worker t f (s, []) = Some (Inr (), s', []) \<and>
    dom (heap s') = reachable k s \<and>
    (\<forall>a. a \<in> reachable k s \<longrightarrow> rel_option same_obj (heap s a) (heap s' a)) \<and>
    total_reclaimed s' = total_reclaimed s + garbage_bytes k s \<and>
    cells s' = cells s \<and> hazard_set s' = hazard_set s \<and> quiescent k s'"
proof -
  let ?e0 = "atomic_epoch_load (global_epoch s)"
  define e1 where "e1 = with_phase RT (with_timestamp (timestamp ?e0 + 1) ?e0)"
  define e2 where "e2 = with_phase CT (with_timestamp (timestamp e1 + 1) e1)"
  have ts0: "unat (timestamp ?e0) + 1 < 2 ^ 60" using ts by simp
  have ts1: "unat (timestamp e1) = unat (timestamp ?e0) + 1" and c1: "epoch_color e1 = epoch_color ?e0"
    using next_timestamp [OF ts0] by (simp_all add: e1_def epoch_simps)
  have ts1': "unat (timestamp e1) + 1 < 2 ^ 60" using ts ts1 by simp
  have ts2: "unat (timestamp e2) + 1 < 2 ^ 60" and c2: "epoch_color e2 = epoch_color ?e0"
    using next_timestamp [OF ts1'] ts ts1 c1 by (simp_all add: e2_def epoch_simps)
  obtain s1 where s1: "root_tracing k steal_count worker t f (s, []) = Some (Inr (), s1, [])" "traced k s e1 s1"
    using root_tracing_alone [where worker = worker, OF q t u refl ts0 e1_def] by blast
  note s2 = complete_loop_alone [OF s1(2) ts1' e2_def, of steal_count t f]
  obtain s' where s': "next_normal k (enter e2 s1, []) = Some (Inr (), s', [])" "heap s' = heap (enter e2 s1) |` reachable k s"
    "quiescent k s'" "total_reclaimed s' = total_reclaimed (enter e2 s1) + garbage_bytes k s" "cells s' = cells (enter e2 s1)"
    "locals s' = locals (enter e2 s1)" "n_locals s' = n_locals (enter e2 s1)" "in_use s' = in_use (enter e2 s1)"
    using next_normal_alone [OF q conjunct2 [OF s2] c2 ts2] by blast
  have t2: "tracing k s e2 (\<lambda>_. 0) {} [] [] (enter e2 s1)" using s2 by (simp add: traced_def)
  have "collection_cycle k steal_count worker t f (s, []) = Some (Inr (), s', [])"
    using s1(1) s2 s'(1) by (simp add: collection_cycle_def act_simps)
  moreover have "dom (heap s') = reachable k s" using traced_objs(7) [OF q conjunct2 [OF s2] c2] by (auto simp: s'(2))
  moreover have "rel_option same_obj (heap s a) (heap s' a)" if "a \<in> reachable k s" for a
    using that tracingD(1) [OF t2] by (simp add: s'(2) same_objs_def)
  moreover have "hazard_set s' = hazard_set s" using hazard_set_tracing [OF t2] by (simp add: hazard_set_def s'(6-8))
  ultimately show ?thesis using s'(3-5) tracingD(6) [OF t2] by (auto simp: global_ok_def)
qed

text \<open>An object with a root, one reached from it, and two that only point to each other.\<close>

definition demo_node :: "usize \<Rightarrow> usize \<Rightarrow> nat mobj" where
  "demo_node roots a = \<lparr>header = new_with_type_id C0 roots 0, links = [with_meta (Unrooted C0) (man_ptr_from a)],
     item_val = 7, obj_size = 32\<rparr>"

definition demo_cycle :: "nat rt" where
  "demo_cycle = (global_new None [] [5, 9, 2] [True, False, True])
     \<lparr>heap := [0x1000 \<mapsto> demo_node 1 0x2000, 0x2000 \<mapsto> demo_node 0 0x1000,
        0x3000 \<mapsto> demo_node 0 0x4000, 0x4000 \<mapsto> demo_node 0 0x3000],
      fresh_objs := (\<lambda>c q. if c = C0 \<and> q = 3 then [[0x3000, 0x1000], [0x2000, 0x4000]] else []),
      n_locals := 3, in_use := (\<lambda>u. u < 3), collector_threads := 2\<rparr>"

lemma demo_cycle_fields:
  "locals demo_cycle u = participant_default" "n_locals demo_cycle = 3" "in_use demo_cycle u \<longleftrightarrow> u < 3"
  "collector_threads demo_cycle = 2" "total_reclaimed demo_cycle = 0" "atomic_epoch_load (global_epoch demo_cycle) = starting"
  "heap demo_cycle = [0x1000 \<mapsto> demo_node 1 0x2000, 0x2000 \<mapsto> demo_node 0 0x1000,
     0x3000 \<mapsto> demo_node 0 0x4000, 0x4000 \<mapsto> demo_node 0 0x3000]"
  by (simp_all add: demo_cycle_def global_new_def atomic_epoch_load_def atomic_epoch_new_def)

lemma demo_cycle_words:
  "as_ref 3 (with_meta (Unrooted C0) (man_ptr_from 0x1000)) = Some 0x1000" "as_ref 3 (with_meta (Unrooted C0) (man_ptr_from 0x2000)) = Some 0x2000"
  "as_ref 3 (with_meta (Unrooted C0) (man_ptr_from 0x3000)) = Some 0x3000" "as_ref 3 (with_meta (Unrooted C0) (man_ptr_from 0x4000)) = Some 0x4000"
  "epoch_phase starting = Inr N" "epoch_color starting = C0" "timestamp starting = 0" "\<not> is_pinned starting"
  by code_simp+

lemma demo_cycle_edges: "edges 3 demo_cycle = {(0x1000, 0x2000), (0x2000, 0x1000), (0x3000, 0x4000), (0x4000, 0x3000)}"
  unfolding edges_def demo_cycle_fields
  by (auto simp: demo_node_def demo_cycle_words split: if_splits)

lemma demo_cycle_hazards: "hazard_set demo_cycle = {0}"
  by (auto simp: hazard_set_def demo_cycle_fields participant_default_def HAZARDS_INIT_COUNT_def intro: exI [of _ 0])

lemma demo_cycle_reachable: "reachable 3 demo_cycle = {0x1000, 0x2000}"
proof -
  have r: "root_objs demo_cycle = {0x1000}"
    unfolding root_objs_def demo_cycle_hazards demo_cycle_fields
    by (auto simp: demo_node_def meta_simps split: if_splits)
  have "b \<in> {0x1000, 0x2000}" if "(0x1000, b) \<in> (edges 3 demo_cycle)\<^sup>*" for b :: usize
    using that by (induction rule: rtrancl_induct) (auto simp: demo_cycle_edges)
  moreover have "(0x1000, 0x2000) \<in> (edges 3 demo_cycle)\<^sup>*" by (auto simp: demo_cycle_edges)
  ultimately show ?thesis unfolding reachable_def r by auto
qed

lemma demo_cycle_quiescent: "quiescent 3 demo_cycle"
proof -
  have o: "cycle_objs C0 demo_cycle = [0x3000, 0x1000, 0x2000, 0x4000]" "cycle_objs C1 demo_cycle = []"
    "all_objs (marked_objs demo_cycle C0) = []"
    by (simp_all add: cycle_objs_def pending_def all_objs_def OBJ_BATCHES_SHARD_def upt_rec demo_cycle_def global_new_def
        participant_default_def)
  have "closed 3 demo_cycle" by (auto simp: closed_def demo_cycle_edges demo_cycle_fields)
  moreover have "all_white C0 demo_cycle"
    unfolding all_white_def demo_cycle_fields by (auto simp: demo_node_def meta_simps ptr_simps split: if_splits)
  moreover have "dom (heap demo_cycle) = {0x3000, 0x1000, 0x2000, 0x4000}" by (auto simp: demo_cycle_fields)
  moreover have "idle demo_cycle u" for u
    using demo_cycle_words(8)
    by (simp add: idle_def thread_epoch_def demo_cycle_fields participant_default_def atomic_epoch_load_non_atomic_def atomic_epoch_new_def starting_def)
  ultimately show ?thesis
    by (simp add: quiescent_def Let_def demo_cycle_fields demo_cycle_words o OBJ_BATCHES_SHARD_def)
qed

theorem collection_cycle_reclaims_unreachable_witness:
  "\<exists>s'. collection_cycle 3 (\<lambda>_ n. n div 2) (\<lambda>_. 1) 0 0 (demo_cycle, []) = Some (Inr (), s', []) \<and>
     dom (heap s') = {0x1000, 0x2000} \<and> total_reclaimed s' = 64 \<and> quiescent 3 s'"
proof -
  have "collector_thread demo_cycle u" if "u < 3" for u
    using that by (auto simp: collector_thread_def demo_cycle_fields participant_default_def)
  moreover have "dom (heap demo_cycle) - {0x1000, 0x2000} = {0x3000, 0x4000}" by (auto simp: demo_cycle_fields)
  then have "garbage_bytes 3 demo_cycle = 64"
    by (simp add: garbage_bytes_def demo_cycle_reachable size_at_def) (simp add: demo_cycle_fields demo_node_def)
  ultimately show ?thesis
    using collection_cycle_reclaims_unreachable
      [where k = 3 and s = demo_cycle and t = 0 and worker = "\<lambda>_. 1" and f = 0 and steal_count = "\<lambda>_ n. n div 2", OF demo_cycle_quiescent]
    by (auto simp: demo_cycle_reachable demo_cycle_fields demo_cycle_words)
qed

end
