(* ===== verification/Reusable_Slots.thy ===== *)
theory Reusable_Slots
  imports Progress Heuristics
begin

text \<open>
  \<^verbatim>\<open>src/src/sync/reusable_slots.rs\<close> with the registration of a thread (\<^verbatim>\<open>Local::register\<close> in
  \<^verbatim>\<open>src/src/internal.rs\<close>): threads take a participant record from a list whose nodes are never freed, and
  give it back when they end. The nodes are those of the runtime state: a node is its position in the
  list, and the end of the list is the position after the last node.

  The lemmas show that a thread never gets a node that another thread holds, and which node it gets.
\<close>

section \<open>Acquiring and releasing a slot\<close>

definition bump_active :: "usize \<Rightarrow> ('v rt, unit) act" where
  "bump_active n = atomic_write (\<lambda>s. s\<lparr>active_slots := active_slots s + n\<rparr>)"

text \<open>The exchange of a null \<^verbatim>\<open>next\<close> pointer for a new node in use, and that of the \<^verbatim>\<open>using\<close> flag.\<close>

definition append_node :: "nat \<Rightarrow> ('v rt, bool) act" where
  "append_node i = atomic (\<lambda>s.
     if node_at i s = None
     then (Inr True, s\<lparr>n_locals := Suc i, locals := (locals s)(i := participant_default),
                       in_use := (in_use s)(i := True)\<rparr>)
     else (Inr False, s))"

definition claim_node :: "nat \<Rightarrow> ('v rt, bool) act" where
  "claim_node i = atomic (\<lambda>s.
     case compare_exchange (in_use s i) False True of
       (b, Inr _) \<Rightarrow> (Inr True, s\<lparr>in_use := (in_use s)(i := b)\<rparr>)
     | (_, Inl _) \<Rightarrow> (Inr False, s))"

partial_function (option) acquire_loop ::
  "nat \<Rightarrow> 'v rt \<times> 'v rt env \<Rightarrow> (nat outcome \<times> 'v rt \<times> 'v rt env) option" where
  "acquire_loop i se =
     bind (atomic_read (node_at i)) (\<lambda>node.
     case node of
       None \<Rightarrow>
         bind (append_node i) (\<lambda>ok. if ok then seq (bump_active 1) (ret i) else acquire_loop i)
     | Some j \<Rightarrow>
         bind (atomic_read (\<lambda>s. in_use s j)) (\<lambda>used.
         if \<not> used then
           bind (claim_node j) (\<lambda>ok. if ok then seq (bump_active 1) (ret j) else acquire_loop (Suc j))
         else acquire_loop (Suc j))) se"

declare acquire_loop.simps [code]

definition acquire_or_default :: "('v rt, nat) act" where
  "acquire_or_default = acquire_loop 0"

definition entry_drop :: "nat \<Rightarrow> ('v rt, unit) act" where
  "entry_drop i =
     seq (bump_active (- 1)) (atomic_write (\<lambda>s. s\<lparr>in_use := (in_use s)(i := False)\<rparr>))"

text \<open>\<^verbatim>\<open>Local::register\<close>: the participant of a new thread, and whether the collector is started for it.\<close>

definition register :: "('v rt, bool \<times> nat) act" where
  "register = bind initialize_if_necessary (\<lambda>start. bind acquire_or_default (\<lambda>t. ret (start, t)))"

section \<open>Running alone\<close>

text \<open>The state after node \<open>j\<close> has been taken: reused as it is, or appended with a fresh participant.\<close>

definition claimed :: "nat \<Rightarrow> 'v rt \<Rightarrow> 'v rt" where
  "claimed j s =
     (if j < n_locals s then s\<lparr>in_use := (in_use s)(j := True), active_slots := active_slots s + 1\<rparr>
      else s\<lparr>n_locals := Suc j, locals := (locals s)(j := participant_default),
             in_use := (in_use s)(j := True), active_slots := active_slots s + 1\<rparr>)"

lemma claim_node_run:
  "claim_node i (s, []) = Some (Inr (\<not> in_use s i), if in_use s i then s else s\<lparr>in_use := (in_use s)(i := True)\<rparr>, [])"
  by (simp add: claim_node_def compare_exchange_def act_simps)

lemma acquire_loop_alone:
  assumes "i \<le> n_locals s" "\<forall>m<i. in_use s m"
  shows "\<exists>j. acquire_loop i (s, []) = Some (Inr j, claimed j s, []) \<and> j \<le> n_locals s \<and>
    (\<forall>m<j. in_use s m) \<and> (j < n_locals s \<longrightarrow> \<not> in_use s j)"
  using assms
proof (induction "n_locals s - i" arbitrary: i)
  case 0
  then have "\<not> i < n_locals s" by simp
  then have "acquire_loop i (s, []) = Some (Inr i, claimed i s, [])"
    by (subst acquire_loop.simps) (simp add: act_simps append_node_def node_at_def bump_active_def claimed_def)
  then show ?case using 0 by auto
next
  case (Suc n)
  then have i: "i < n_locals s" by simp
  show ?case
  proof (cases "in_use s i")
    case True
    then have "\<forall>m<Suc i. in_use s m" using Suc.prems(2) less_Suc_eq by metis
    then obtain j where "acquire_loop (Suc i) (s, []) = Some (Inr j, claimed j s, [])" "j \<le> n_locals s"
      "\<forall>m<j. in_use s m" "j < n_locals s \<longrightarrow> \<not> in_use s j"
      using Suc.hyps(1) [of "Suc i"] Suc.hyps(2) i by force
    then show ?thesis using i True
      by (subst acquire_loop.simps) (auto simp: act_simps node_at_def)
  next
    case False
    then show ?thesis using i Suc.prems(2)
      by (subst acquire_loop.simps)
        (auto simp: act_simps node_at_def claim_node_run bump_active_def claimed_def)
  qed
qed

section \<open>Running with other threads\<close>

text \<open>Other threads only append nodes, and do not give back the nodes in \<open>H\<close>.\<close>

definition slots_kept :: "nat set \<Rightarrow> 'v rt \<Rightarrow> 'v rt \<Rightarrow> bool" where
  "slots_kept H s s' \<longleftrightarrow> n_locals s \<le> n_locals s' \<and> (\<forall>i\<in>H. in_use s i \<longrightarrow> in_use s' i)"

definition held :: "nat set \<Rightarrow> 'v rt \<Rightarrow> bool" where
  "held H s \<longleftrightarrow> (\<forall>i\<in>H. i < n_locals s \<and> in_use s i)"

lemma held_interfere:
  assumes "env_ok (slots_kept H) es" "held H s"
  shows "\<exists>s1. interfere es s = (s1, drop 1 es) \<and> held H s1 \<and> (es = [] \<longrightarrow> s1 = s)"
  using assms by (cases es) (auto simp: held_def slots_kept_def dest: less_le_trans)

lemma not_held: "held H s \<Longrightarrow> \<not> (i < n_locals s \<and> in_use s i) \<Longrightarrow> i \<notin> H"
  by (auto simp: held_def)

lemma bump_active_run: "\<exists>s'. bump_active n (s, es) = Some (Inr (), s', drop 1 es)"
  by (cases es) (auto simp: bump_active_def act_simps)

text \<open>The two ways a round can end once the node has been read.\<close>

lemma append_round:
  assumes es: "env_ok (slots_kept H) es" and h: "held H s"
  shows "(\<exists>n s'. bind (append_node i) (\<lambda>ok. if ok then seq (bump_active 1) (ret i) else m) (s, es) =
        Some (Inr i, s', drop n es) \<and> i \<notin> H) \<or>
    (\<exists>s'. bind (append_node i) (\<lambda>ok. if ok then seq (bump_active 1) (ret i) else m) (s, es) = m (s', drop 1 es) \<and>
       held H s')"
proof -
  obtain s1 where s1: "interfere es s = (s1, drop 1 es)" "held H s1"
    using held_interfere [OF es h] by blast
  show ?thesis
  proof (cases "node_at i s1")
    case None
    let ?s = "s1\<lparr>n_locals := Suc i, locals := (locals s1)(i := participant_default), in_use := (in_use s1)(i := True)\<rparr>"
    have "append_node i (s, es) = Some (Inr True, ?s, drop 1 es)"
      using None by (simp add: append_node_def atomic_def s1(1))
    moreover obtain s' where "bump_active 1 (?s, drop 1 es) = Some (Inr (), s', drop 1 (drop 1 es))"
      using bump_active_run [of 1 ?s "drop 1 es"] by blast
    moreover have "i \<notin> H" using None not_held [OF s1(2)] by (auto simp: node_at_def split: if_splits)
    ultimately show ?thesis by (auto simp: act_simps)
  next
    case (Some j)
    then have "append_node i (s, es) = Some (Inr False, s1, drop 1 es)"
      by (simp add: append_node_def atomic_def s1(1))
    then have "bind (append_node i) (\<lambda>ok. if ok then seq (bump_active 1) (ret i) else m) (s, es) = m (s1, drop 1 es)"
      by (simp add: bind_def)
    then show ?thesis using s1(2) by blast
  qed
qed

lemma claim_round:
  assumes es: "env_ok (slots_kept H) es" and h: "held H s"
  shows "(\<exists>n s'. bind (claim_node i) (\<lambda>ok. if ok then seq (bump_active 1) (ret i) else m) (s, es) =
        Some (Inr i, s', drop n es) \<and> i \<notin> H) \<or>
    (\<exists>s'. bind (claim_node i) (\<lambda>ok. if ok then seq (bump_active 1) (ret i) else m) (s, es) = m (s', drop 1 es) \<and>
       held H s')"
proof -
  obtain s1 where s1: "interfere es s = (s1, drop 1 es)" "held H s1"
    using held_interfere [OF es h] by blast
  show ?thesis
  proof (cases "in_use s1 i")
    case False
    let ?s = "s1\<lparr>in_use := (in_use s1)(i := True)\<rparr>"
    have "claim_node i (s, es) = Some (Inr True, ?s, drop 1 es)"
      using False by (simp add: claim_node_def compare_exchange_def atomic_def s1(1))
    moreover obtain s' where "bump_active 1 (?s, drop 1 es) = Some (Inr (), s', drop 1 (drop 1 es))"
      using bump_active_run [of 1 ?s "drop 1 es"] by blast
    moreover have "i \<notin> H" using False not_held [OF s1(2)] by blast
    ultimately show ?thesis by (auto simp: act_simps)
  next
    case True
    then have "claim_node i (s, es) = Some (Inr False, s1, drop 1 es)"
      by (simp add: claim_node_def compare_exchange_def atomic_def s1(1))
    then have "bind (claim_node i) (\<lambda>ok. if ok then seq (bump_active 1) (ret i) else m) (s, es) = m (s1, drop 1 es)"
      by (simp add: bind_def)
    then show ?thesis using s1(2) by blast
  qed
qed

lemma read_held:
  assumes "env_ok (slots_kept H) es" "held H s"
  shows "\<exists>s1. atomic_read f (s, es) = Some (Inr (f s1), s1, drop 1 es) \<and> held H s1"
  using held_interfere [OF assms] by (auto simp: atomic_read_def atomic_def)

text \<open>Whatever the position the walk has reached, it ends with a node outside \<open>H\<close>.\<close>

lemma acquire_loop_quiet:
  assumes "held H s"
  shows "\<exists>j s'. acquire_loop i (s, []) = Some (Inr j, s', []) \<and> j \<notin> H"
proof (induction "n_locals s - i" arbitrary: i rule: less_induct)
  case less
  have q: "env_ok (slots_kept H) []" by (simp add: env_ok_def)
  show ?case
  proof (cases "i < n_locals s")
    case False
    then show ?thesis using not_held [OF assms, of i]
      by (subst acquire_loop.simps) (auto simp: act_simps append_node_def node_at_def bump_active_def)
  next
    case True
    then obtain j s' where "acquire_loop (Suc i) (s, []) = Some (Inr j, s', [])" "j \<notin> H"
      using less [of "Suc i"] by fastforce
    then show ?thesis using True not_held [OF assms, of i]
      by (subst acquire_loop.simps) (auto simp: act_simps claim_node_run node_at_def bump_active_def)
  qed
qed

lemma acquire_loop_held:
  assumes "env_ok (slots_kept H) es" "held H s"
  shows "\<exists>n j s'. acquire_loop i (s, es) = Some (Inr j, s', drop n es) \<and> j \<notin> H"
  using assms
proof (induction "length es" arbitrary: i s es rule: less_induct)
  case less
  show ?case
  proof (cases "es = []")
    case True
    then show ?thesis using acquire_loop_quiet [OF less.prems(2)] by auto
  next
    case False
    have again: "\<exists>n j s2. acquire_loop i' (s', drop (Suc d) es) = Some (Inr j, s2, drop n es) \<and> j \<notin> H"
      if h: "held H s'" for i' s' d
    proof -
      obtain n j s2 where "acquire_loop i' (s', drop (Suc d) es) = Some (Inr j, s2, drop n (drop (Suc d) es))" "j \<notin> H"
        using less.hyps [of "drop (Suc d) es" s' i'] env_ok_drop [OF less.prems(1), of "Suc d"] h False by fastforce
      then show ?thesis by (metis drop_drop)
    qed
    obtain s1 where s1: "atomic_read (node_at i) (s, es) = Some (Inr (node_at i s1), s1, drop 1 es)" "held H s1"
      using read_held [OF less.prems] by blast
    note es1 = env_ok_drop [OF less.prems(1), of 1]
    show ?thesis
    proof (cases "node_at i s1")
      case None
      have "acquire_loop i (s, es) =
          bind (append_node i) (\<lambda>ok. if ok then seq (bump_active 1) (ret i) else acquire_loop i) (s1, drop 1 es)"
        using s1(1) None by (subst acquire_loop.simps) (simp add: act_simps)
      then show ?thesis
        using append_round [OF es1 s1(2), of i "acquire_loop i"] again [of _ i 1]
        by (auto simp del: bind_run)
    next
      case (Some j)
      obtain s2 where s2: "atomic_read (\<lambda>s. in_use s j) (s1, drop 1 es) = Some (Inr (in_use s2 j), s2, drop 1 (drop 1 es))" "held H s2"
        using read_held [OF es1 s1(2), of "\<lambda>s. in_use s j"] by blast
      have run: "acquire_loop i (s, es) =
          (if \<not> in_use s2 j
           then bind (claim_node j) (\<lambda>ok. if ok then seq (bump_active 1) (ret j) else acquire_loop (Suc j))
           else acquire_loop (Suc j)) (s2, drop 1 (drop 1 es))"
        using s1(1) s2(1) Some by (subst acquire_loop.simps) (simp add: act_simps)
      show ?thesis
        using claim_round [OF env_ok_drop [OF es1, of 1] s2(2), of j "acquire_loop (Suc j)"]
          again [of s2 "Suc j" 1] again [of _ "Suc j" "Suc 1"] s2(2)
        unfolding run by (auto simp del: bind_run)
    qed
  qed
qed


section \<open>Properties\<close>




end
