(* ===== verification/Fixed_Hash_Set.thy ===== *)
theory Fixed_Hash_Set
  imports Cdpt_Prelude
begin

text \<open>
  Models \<^verbatim>\<open>src/src/sync/hash_set.rs\<close>: the lock-free, insert-only hash set with open addressing
  and linear probing. The shared state is the array of atomic pointers and the heap boxes they
  point to; \<^verbatim>\<open>get_or_insert\<close> is a state machine with one step per shared access (a load or a
  compare-exchange of one slot), and threads interleave their steps freely. The hash function
  (\<^verbatim>\<open>DefaultHasher\<close>) is an argument.

  The lemmas show that a slot is written once, that no key is ever stored twice, that every caller
  of \<^verbatim>\<open>get_or_insert\<close> with the same key gets the same entry and at most one of them is told that
  it inserted it, and what a call that runs alone returns.
\<close>

section \<open>State\<close>

type_synonym box = nat

text \<open>
  \<open>slots\<close>: the array (\<open>None\<close> is the null pointer); \<open>boxes\<close>: the heap boxes that have been
  allocated and not freed; \<open>next_box\<close>: the next address the allocator hands out.
\<close>

record 'k hset =
  slots :: "box option list"
  boxes :: "box \<rightharpoonup> 'k"
  next_box :: box

text \<open>\<^verbatim>\<open>FixedHashSet::new\<close> asserts its capacity at compile time; \<open>None\<close> is a failed assertion.\<close>

definition hset_new :: "usize \<Rightarrow> 'k hset option" where
  "hset_new cap =
     (if cap > 0 \<and> cap AND (cap - 1) = 0
      then Some \<lparr>slots = replicate (unat cap) None, boxes = Map.empty, next_box = 0\<rparr>
      else None)"

text \<open>The index that the \<open>i\<close>-th probe of a key looks at: \<^verbatim>\<open>(hash + i) & mask\<close>, wrapping.\<close>

definition probe_idx :: "('k \<Rightarrow> usize) \<Rightarrow> usize \<Rightarrow> 'k \<Rightarrow> nat \<Rightarrow> nat" where
  "probe_idx hash_key cap key i =
     (let mask = cap - 1 in unat ((hash_key key + of_nat i) AND mask))"

definition next_idx :: "usize \<Rightarrow> nat \<Rightarrow> nat" where
  "next_idx cap idx = (let mask = cap - 1 in unat ((of_nat idx + 1) AND mask))"

section \<open>The steps of get_or_insert\<close>

text \<open>
  Where a call is: in the hot loop at probe \<open>i\<close>; in the cold loop about to load slot \<open>idx\<close>; about
  to compare-exchange it (it was read as null); returned the entry and the flag; panicked.
\<close>

datatype 'k hpc =
    Probe 'k nat
  | Claim 'k box nat
  | Cas 'k box nat
  | Done 'k box bool
  | Panicked

definition alloc_box :: "'k \<Rightarrow> 'k hset \<Rightarrow> 'k hset \<times> box" where
  "alloc_box key s =
     (s\<lparr>boxes := (boxes s)(next_box s \<mapsto> key), next_box := Suc (next_box s)\<rparr>, next_box s)"

definition free_box :: "box \<Rightarrow> 'k hset \<Rightarrow> 'k hset" where
  "free_box b s = s\<lparr>boxes := (boxes s)(b := None)\<rparr>"

text \<open>
  The hot loop: the key is compared with the entry of each slot until a null slot ends the search.
  After the loop the key is boxed and \<^verbatim>\<open>null_idx.expect(..)\<close> panics when no null slot was found.
\<close>

definition hs_probe :: "('k \<Rightarrow> usize) \<Rightarrow> usize \<Rightarrow> 'k \<Rightarrow> nat \<Rightarrow> 'k hset \<Rightarrow> 'k hset \<times> 'k hpc" where
  "hs_probe hash_key cap key i s =
     (if i < unat cap
      then let idx = probe_idx hash_key cap key i in
        (case slots s ! idx of
           None \<Rightarrow> (case alloc_box key s of (s', allocated) \<Rightarrow> (s', Claim key allocated idx))
         | Some ptr \<Rightarrow>
             if boxes s ptr = Some key then (s, Done key ptr False) else (s, Probe key (Suc i)))
      else (case alloc_box key s of (s', _) \<Rightarrow> (s', Panicked)))"

text \<open>The head of the cold loop: load the slot.\<close>

definition hs_claim :: "usize \<Rightarrow> 'k \<Rightarrow> box \<Rightarrow> nat \<Rightarrow> 'k hset \<Rightarrow> 'k hset \<times> 'k hpc" where
  "hs_claim cap key allocated idx s =
     (case slots s ! idx of
        None \<Rightarrow> (s, Cas key allocated idx)
      | Some ptr \<Rightarrow>
          if boxes s ptr = boxes s allocated
          then (free_box allocated s, Done key ptr False)
          else (s, Claim key allocated (next_idx cap idx)))"

text \<open>The compare-exchange of the cold loop, from null to the new box.\<close>

definition hs_cas :: "usize \<Rightarrow> 'k \<Rightarrow> box \<Rightarrow> nat \<Rightarrow> 'k hset \<Rightarrow> 'k hset \<times> 'k hpc" where
  "hs_cas cap key allocated idx s =
     (case slots s ! idx of
        None \<Rightarrow> (s\<lparr>slots := (slots s)[idx := Some allocated]\<rparr>, Done key allocated True)
      | Some winner \<Rightarrow>
          if boxes s winner = boxes s allocated
          then (free_box allocated s, Done key winner False)
          else (s, Claim key allocated (next_idx cap idx)))"

fun hs_thread_step ::
  "('k \<Rightarrow> usize) \<Rightarrow> usize \<Rightarrow> 'k hset \<Rightarrow> 'k hpc \<Rightarrow> 'k hset \<times> 'k hpc" where
  "hs_thread_step h cap s (Probe key i) = hs_probe h cap key i s"
| "hs_thread_step h cap s (Claim key b idx) = hs_claim cap key b idx s"
| "hs_thread_step h cap s (Cas key b idx) = hs_cas cap key b idx s"
| "hs_thread_step h cap s pc = (s, pc)"

text \<open>A call that runs alone, for at most \<open>fuel\<close> steps.\<close>

fun hs_run :: "nat \<Rightarrow> ('k \<Rightarrow> usize) \<Rightarrow> usize \<Rightarrow> 'k hset \<Rightarrow> 'k hpc \<Rightarrow> 'k hset \<times> 'k hpc" where
  "hs_run 0 h cap s pc = (s, pc)"
| "hs_run (Suc fuel) h cap s pc =
     (case hs_thread_step h cap s pc of (s', pc') \<Rightarrow> hs_run fuel h cap s' pc')"

text \<open>
  \<^verbatim>\<open>contains\<close> (a test helper of the source): the same probe sequence, read only.
\<close>

fun hs_contains_from :: "nat \<Rightarrow> nat \<Rightarrow> ('k \<Rightarrow> usize) \<Rightarrow> usize \<Rightarrow> 'k hset \<Rightarrow> 'k \<Rightarrow> bool" where
  "hs_contains_from 0 i h cap s key = False"
| "hs_contains_from (Suc n) i h cap s key =
     (case slots s ! probe_idx h cap key i of
        None \<Rightarrow> False
      | Some ptr \<Rightarrow> if boxes s ptr = Some key then True else hs_contains_from n (Suc i) h cap s key)"

definition hs_contains :: "('k \<Rightarrow> usize) \<Rightarrow> usize \<Rightarrow> 'k hset \<Rightarrow> 'k \<Rightarrow> bool" where
  "hs_contains h cap s key = hs_contains_from (unat cap) 0 h cap s key"

section \<open>Threads\<close>

text \<open>
  The whole system: the shared set, the threads that are inside a call, and the results that
  calls have returned, in order.
\<close>

record 'k hsys =
  shared :: "'k hset"
  threads :: "nat \<rightharpoonup> 'k hpc"
  returned :: "('k \<times> box \<times> bool) list"

inductive hs_step :: "('k \<Rightarrow> usize) \<Rightarrow> usize \<Rightarrow> 'k hsys \<Rightarrow> 'k hsys \<Rightarrow> bool"
  for h :: "'k \<Rightarrow> usize" and cap :: usize where
  call: "threads s t = None \<Longrightarrow>
     hs_step h cap s (s\<lparr>threads := (threads s)(t \<mapsto> Probe key 0)\<rparr>)"
| work: "threads s t = Some pc \<Longrightarrow> hs_thread_step h cap (shared s) pc = (sh, pc') \<Longrightarrow>
     hs_step h cap s (s\<lparr>shared := sh, threads := (threads s)(t \<mapsto> pc')\<rparr>)"
| return: "threads s t = Some (Done key b ins) \<Longrightarrow>
     hs_step h cap s
       (s\<lparr>threads := (threads s)(t := None), returned := returned s @ [(key, b, ins)]\<rparr>)"

inductive hs_reachable :: "('k \<Rightarrow> usize) \<Rightarrow> usize \<Rightarrow> 'k hsys \<Rightarrow> bool"
  for h :: "'k \<Rightarrow> usize" and cap :: usize where
  init: "hset_new cap = Some set0 \<Longrightarrow>
     hs_reachable h cap \<lparr>shared = set0, threads = Map.empty, returned = []\<rparr>"
| step: "hs_reachable h cap s \<Longrightarrow> hs_step h cap s s' \<Longrightarrow> hs_reachable h cap s'"

section \<open>Probe sequences\<close>

lemma and_pow2_minus_1: "(w :: usize) AND (2 ^ m - 1) = take_bit m w"
  by (simp add: take_bit_eq_mask mask_eq_exp_minus_1)

lemma probe_idx_less: "cap = 2 ^ m \<Longrightarrow> m < 64 \<Longrightarrow> probe_idx h cap k j < unat cap"
  using word_eq_take_bit_less [of m "take_bit m (h k + of_nat j)"]
  by (simp add: probe_idx_def and_pow2_minus_1 word_less_nat_alt [symmetric])

lemma take_bit_inc: "m < 64 \<Longrightarrow> take_bit m (take_bit m x + 1) = take_bit m (x + 1 :: usize)"
  by transfer (simp add: min_def, metis take_bit_add take_bit_take_bit min.idem)

lemma next_probe_idx:
  "cap = 2 ^ m \<Longrightarrow> m < 64 \<Longrightarrow> next_idx cap (probe_idx h cap k j) = probe_idx h cap k (Suc j)"
  using take_bit_inc [of m "h k + of_nat j"]
  by (simp add: next_idx_def probe_idx_def and_pow2_minus_1 add.assoc)
    (simp add: ac_simps)

section \<open>Invariant\<close>

definition slot_key :: "'k hset \<Rightarrow> nat \<Rightarrow> 'k option" where
  "slot_key s i = (case slots s ! i of None \<Rightarrow> None | Some p \<Rightarrow> boxes s p)"

definition published :: "'k hset \<Rightarrow> box \<Rightarrow> bool" where
  "published s p \<longleftrightarrow> Some p \<in> set (slots s)"

text \<open>The first \<open>j\<close> probes of key \<open>k\<close> hit occupied slots with other keys.\<close>

definition passed :: "('k \<Rightarrow> usize) \<Rightarrow> usize \<Rightarrow> 'k hset \<Rightarrow> 'k \<Rightarrow> nat \<Rightarrow> bool" where
  "passed h cap s k j \<longleftrightarrow> (\<forall>j'<j. \<exists>k'. slot_key s (probe_idx h cap k j') = Some k' \<and> k' \<noteq> k)"

definition hset_inv :: "('k \<Rightarrow> usize) \<Rightarrow> usize \<Rightarrow> 'k hset \<Rightarrow> bool" where
  "hset_inv h cap s \<longleftrightarrow>
     (\<exists>m<64. cap = 2 ^ m) \<and> length (slots s) = unat cap \<and>
     (\<forall>p. boxes s p \<noteq> None \<longrightarrow> p < next_box s) \<and>
     (\<forall>p. published s p \<longrightarrow> boxes s p \<noteq> None) \<and>
     (\<forall>i<unat cap. \<forall>k. slot_key s i = Some k \<longrightarrow>
        (\<exists>j. i = probe_idx h cap k j \<and> passed h cap s k j))"

fun pc_inv :: "('k \<Rightarrow> usize) \<Rightarrow> usize \<Rightarrow> 'k hset \<Rightarrow> 'k hpc \<Rightarrow> bool" where
  "pc_inv h cap s (Probe k i) = passed h cap s k i"
| "pc_inv h cap s (Claim k b x) =
     (boxes s b = Some k \<and> \<not> published s b \<and> (\<exists>j. x = probe_idx h cap k j \<and> passed h cap s k j))"
| "pc_inv h cap s (Cas k b x) =
     (boxes s b = Some k \<and> \<not> published s b \<and> (\<exists>j. x = probe_idx h cap k j \<and> passed h cap s k j))"
| "pc_inv h cap s (Done k p ins) = (published s p \<and> boxes s p = Some k)"
| "pc_inv h cap s Panicked = True"

text \<open>The box that a call has allocated and not yet published or freed.\<close>

fun owned :: "'k hpc \<Rightarrow> box option" where
  "owned (Claim k b x) = Some b"
| "owned (Cas k b x) = Some b"
| "owned _ = None"

text \<open>
  What a step of one call may change, as seen by everybody else: slots are only filled, and only
  with the box the call owns; a box that somebody else can hold is left alone.
\<close>

definition grows :: "box option \<Rightarrow> 'k hset \<Rightarrow> 'k hset \<Rightarrow> bool" where
  "grows own s s' \<longleftrightarrow>
     length (slots s') = length (slots s) \<and>
     (\<forall>i p. i < length (slots s) \<longrightarrow> slots s ! i = Some p \<longrightarrow> slots s' ! i = Some p) \<and>
     (\<forall>p. published s' p \<longrightarrow> published s p \<or> own = Some p) \<and>
     (\<forall>p. boxes s p \<noteq> None \<longrightarrow> own \<noteq> Some p \<longrightarrow> boxes s' p = boxes s p)"

lemma published_frame [simp]:
  "published (s\<lparr>boxes := f\<rparr>) p = published s p"
  "published (s\<lparr>boxes := f, next_box := n\<rparr>) p = published s p"
  by (simp_all add: published_def)

lemma probe_in_range: "hset_inv h cap s \<Longrightarrow> probe_idx h cap k j < length (slots s)"
  unfolding hset_inv_def by (metis probe_idx_less)

lemma published_nth: "i < length (slots s) \<Longrightarrow> slots s ! i = Some p \<Longrightarrow> published s p"
  by (metis nth_mem published_def)

lemma passed_Suc:
  "passed h cap s k (Suc j) \<longleftrightarrow>
     passed h cap s k j \<and> (\<exists>k'. slot_key s (probe_idx h cap k j) = Some k' \<and> k' \<noteq> k)"
  by (auto simp: passed_def less_Suc_eq)

lemma slot_key_grows:
  assumes "grows own s s'" "hset_inv h cap s" "\<And>p. own = Some p \<Longrightarrow> \<not> published s p"
    and "i < unat cap" "slot_key s i = Some k"
  shows "slot_key s' i = Some k"
proof -
  obtain p where p: "slots s ! i = Some p" "boxes s p = Some k"
    using assms(5) by (auto simp: slot_key_def split: option.splits)
  have "i < length (slots s)" using assms(2,4) by (simp add: hset_inv_def)
  moreover from this p have "own \<noteq> Some p"
    using assms(3) published_nth by blast
  ultimately show ?thesis
    using assms(1) p by (auto simp: grows_def slot_key_def)
qed

lemma passed_grows:
  assumes "grows own s s'" "hset_inv h cap s" "\<And>p. own = Some p \<Longrightarrow> \<not> published s p"
    and "passed h cap s k j"
  shows "passed h cap s' k j"
proof -
  obtain m where "m < 64" "cap = 2 ^ m" using assms(2) by (auto simp: hset_inv_def)
  then have "probe_idx h cap k j' < unat cap" for j' by (simp only: probe_idx_less)
  then show ?thesis
    using assms(4) slot_key_grows [OF assms(1-3)] unfolding passed_def by blast
qed

text \<open>A key sits in one slot only: both slots are on its probe sequence.\<close>

lemma slot_key_unique:
  assumes "hset_inv h cap s" "i < unat cap" "i' < unat cap"
    and "slot_key s i = Some k" "slot_key s i' = Some k"
  shows "i = i'"
proof -
  obtain j j' where j: "i = probe_idx h cap k j" "passed h cap s k j"
    and j': "i' = probe_idx h cap k j'" "passed h cap s k j'"
    using assms unfolding hset_inv_def by meson
  show ?thesis
  proof (cases j j' rule: linorder_cases)
    case less
    then show ?thesis using j' j assms(4) by (auto simp: passed_def)
  next
    case equal
    then show ?thesis using j j' by simp
  next
    case greater
    then show ?thesis using j j' assms(5) by (auto simp: passed_def)
  qed
qed

section \<open>Every step keeps the invariant\<close>

lemmas hs_step_defs = hs_probe_def hs_claim_def hs_cas_def alloc_box_def free_box_def Let_def

lemma published_update:
  "i < length (slots s) \<Longrightarrow> slots s ! i = None \<Longrightarrow>
     published (s\<lparr>slots := (slots s)[i := Some b]\<rparr>) p \<longleftrightarrow> published s p \<or> p = b"
  by (auto simp: published_def in_set_conv_nth nth_list_update split: if_splits)
    (metis option.distinct(1))

lemma hs_thread_step_grows:
  assumes "hset_inv h cap s" "pc_inv h cap s pc" "hs_thread_step h cap s pc = (s', pc')"
  shows "grows (owned pc) s s'"
proof -
  obtain m where m: "m < 64" "cap = 2 ^ m" and len: "length (slots s) = unat cap"
    and fresh: "boxes s (next_box s) = None"
    using assms(1) by (fastforce simp: hset_inv_def)
  have idx: "probe_idx h cap k j < length (slots s)" for k j
    using probe_idx_less [OF m(2,1)] len by metis
  show ?thesis
  proof (cases pc)
    case (Probe k i)
    then show ?thesis using assms(3) fresh
      by (auto simp: hs_step_defs grows_def published_def split: if_splits option.splits)
  next
    case (Claim k b x)
    then show ?thesis using assms(3)
      by (auto simp: hs_step_defs grows_def published_def split: if_splits option.splits)
  next
    case (Cas k b x)
    then have "x < length (slots s)" using assms(2) idx by auto
    then show ?thesis using assms(3) Cas
      by (auto simp: hs_step_defs grows_def published_update nth_list_update
          split: if_splits option.splits)
  qed (use assms(3) in \<open>auto simp: grows_def\<close>)
qed

lemma owned_unpublished: "pc_inv h cap s pc \<Longrightarrow> owned pc = Some p \<Longrightarrow> \<not> published s p"
  by (cases pc) auto

text \<open>A call that a step of another call does not own keeps its own assertion.\<close>

lemma pc_inv_grows:
  assumes "grows own s s'" "hset_inv h cap s" "\<And>p. own = Some p \<Longrightarrow> \<not> published s p"
    and "pc_inv h cap s pc" "own = None \<or> owned pc \<noteq> own"
  shows "pc_inv h cap s' pc"
proof -
  note passed = passed_grows [OF assms(1-3)]
  have pub: "published s' p" if "published s p" for p
    using that assms(1) by (auto simp: published_def in_set_conv_nth grows_def)
  have own: "own \<noteq> Some p" if "published s p" for p
    using that assms(3) by blast
  show ?thesis
    using assms(1,4,5) pub own
    by (cases pc) (auto simp: grows_def intro: passed)
qed


text \<open>The step of a call itself: the set stays well formed and the call keeps its assertion.\<close>

lemma hset_inv_grows:
  assumes "hset_inv h cap s" "grows own s s'" "\<And>p. own = Some p \<Longrightarrow> \<not> published s p"
    and "\<forall>p. boxes s' p \<noteq> None \<longrightarrow> p < next_box s'"
    and "\<forall>p. published s' p \<longrightarrow> boxes s' p \<noteq> None"
    and new: "\<And>i p. i < unat cap \<Longrightarrow> slots s' ! i = Some p \<Longrightarrow> slots s ! i = None \<Longrightarrow>
      \<exists>k j. boxes s' p = Some k \<and> i = probe_idx h cap k j \<and> passed h cap s k j"
  shows "hset_inv h cap s'"
proof -
  have old: "\<exists>j. i = probe_idx h cap k j \<and> passed h cap s' k j"
    if lt: "i < unat cap" and key: "slot_key s' i = Some k" for i k
  proof (cases "slots s ! i")
    case None
    obtain p where "slots s' ! i = Some p" "boxes s' p = Some k"
      using key by (auto simp: slot_key_def split: option.splits)
    then show ?thesis
      using new [OF lt _ None] passed_grows [OF assms(2,1,3)] by force
  next
    case (Some p)
    have i: "i < length (slots s)" using lt assms(1) by (simp add: hset_inv_def)
    then have "published s p" using Some by (rule published_nth)
    then obtain k' where "boxes s p = Some k'" using assms(1) by (auto simp: hset_inv_def)
    then have k': "slot_key s i = Some k'" using Some by (simp add: slot_key_def)
    then have "k' = k"
      using slot_key_grows [OF assms(2,1,3) lt k'] key by simp
    then show ?thesis
      using k' lt assms(1) passed_grows [OF assms(2,1,3)] unfolding hset_inv_def by meson
  qed
  have "length (slots s') = unat cap" "\<exists>m<64. cap = 2 ^ m"
    using assms(1,2) by (auto simp: hset_inv_def grows_def)
  then show ?thesis
    unfolding hset_inv_def using old assms(4,5) by blast
qed


lemma hs_thread_step_hset_inv:
  assumes inv: "hset_inv h cap s" and pc: "pc_inv h cap s pc"
    and step: "hs_thread_step h cap s pc = (s', pc')"
  shows "hset_inv h cap s'"
proof (rule hset_inv_grows [OF inv hs_thread_step_grows [OF inv pc step]])
  show "\<not> published s p" if "owned pc = Some p" for p
    using that pc owned_unpublished by blast
  have fresh: "\<forall>p. boxes s p \<noteq> None \<longrightarrow> p < next_box s" and pub: "\<forall>p. published s p \<longrightarrow> boxes s p \<noteq> None"
    using inv by (auto simp: hset_inv_def)
  then show "\<forall>p. boxes s' p \<noteq> None \<longrightarrow> p < next_box s'"
    using step by (cases pc) (auto simp: hs_step_defs less_Suc_eq split: if_splits option.splits)
  note idx = probe_in_range [OF inv]
  show "\<forall>p. published s' p \<longrightarrow> boxes s' p \<noteq> None"
    using step pub pc idx
    by (cases pc) (auto simp: hs_step_defs published_update split: if_splits option.splits)
  show "\<exists>k j. boxes s' p = Some k \<and> i = probe_idx h cap k j \<and> passed h cap s k j"
    if "i < unat cap" "slots s' ! i = Some p" "slots s ! i = None" for i p
    using that step pc idx
    by (cases pc) (auto simp: hs_step_defs nth_list_update split: if_splits option.splits)
qed

lemma hs_thread_step_pc_inv:
  assumes inv: "hset_inv h cap s" and pc: "pc_inv h cap s pc"
    and step: "hs_thread_step h cap s pc = (s', pc')"
  shows "pc_inv h cap s' pc'"
proof -
  obtain m where m: "m < 64" "cap = 2 ^ m" and len: "length (slots s) = unat cap"
    and pub: "\<forall>p. published s p \<longrightarrow> boxes s p \<noteq> None"
    and fresh: "\<forall>p. boxes s p \<noteq> None \<longrightarrow> p < next_box s"
    using inv by (auto simp: hset_inv_def)
  note idx = probe_in_range [OF inv]
  note passed' = passed_grows [OF hs_thread_step_grows [OF inv pc step] inv
      owned_unpublished [OF pc]]
  have hit: "\<exists>k'. slot_key s x = Some k' \<and> k' \<noteq> k"
    if "slots s ! x = Some p" "x = probe_idx h cap k j" "boxes s p \<noteq> Some k" for x p k j
    using that pub idx [of k j] published_nth [of x s p] by (auto simp: slot_key_def)
  have new: "\<not> published s (next_box s)"
    using pub fresh by blast
  have next_slot: "\<exists>j'. next_idx cap x = probe_idx h cap k j' \<and> passed h cap s k j'"
    if "x = probe_idx h cap k j" "passed h cap s k j" "slots s ! x = Some p" "boxes s p \<noteq> Some k"
    for x k j p
    using that hit [OF that(3,1,4)] next_probe_idx [OF m(2,1)] passed_Suc by metis
  show ?thesis
  proof (cases pc)
    case (Probe k i)
    then show ?thesis
      using step pc passed' [of k i] idx [of k i] hit [of "probe_idx h cap k i" _ k i] new
      by (auto simp: hs_step_defs passed_Suc published_def split: if_splits option.splits
          dest: nth_mem)
  next
    case (Claim k b x)
    then obtain j where j: "x = probe_idx h cap k j" "passed h cap s k j" "boxes s b = Some k"
      "\<not> published s b" using pc by auto
    then show ?thesis
      using step Claim next_slot [of x k j] idx [of k j] published_nth [of x s]
      by (auto simp: hs_step_defs split: if_splits option.splits)
  next
    case (Cas k b x)
    then obtain j where j: "x = probe_idx h cap k j" "passed h cap s k j" "boxes s b = Some k"
      "\<not> published s b" using pc by auto
    then show ?thesis
      using step Cas next_slot [of x k j] idx [of k j] published_nth [of x s]
      by (auto simp: hs_step_defs published_update split: if_splits option.splits)
  qed (use step pc in auto)
qed


section \<open>All interleavings\<close>

definition hsys_inv :: "('k \<Rightarrow> usize) \<Rightarrow> usize \<Rightarrow> 'k hsys \<Rightarrow> bool" where
  "hsys_inv h cap s \<longleftrightarrow>
     hset_inv h cap (shared s) \<and>
     (\<forall>t pc. threads s t = Some pc \<longrightarrow> pc_inv h cap (shared s) pc) \<and>
     (\<forall>t t' pc pc' b. t \<noteq> t' \<longrightarrow> threads s t = Some pc \<longrightarrow> threads s t' = Some pc' \<longrightarrow>
        owned pc = Some b \<longrightarrow> owned pc' \<noteq> Some b) \<and>
     (\<forall>k b ins. (k, b, ins) \<in> set (returned s) \<longrightarrow>
        published (shared s) b \<and> boxes (shared s) b = Some k)"

lemma hsys_inv_shared: "hsys_inv h cap s \<Longrightarrow> hset_inv h cap (shared s)"
  unfolding hsys_inv_def by (rule conjunct1)

text \<open>
  The calls that are told they inserted an entry: returned ones, in order, and those about to
  return. No entry is inserted twice.
\<close>

definition inserted_once :: "'k hsys \<Rightarrow> bool" where
  "inserted_once s \<longleftrightarrow>
     distinct (map (fst \<circ> snd) (filter (snd \<circ> snd) (returned s))) \<and>
     (\<forall>t k b. threads s t = Some (Done k b True) \<longrightarrow> (\<forall>k'. (k', b, True) \<notin> set (returned s))) \<and>
     (\<forall>t t' k k' b. threads s t = Some (Done k b True) \<longrightarrow> threads s t' = Some (Done k' b True) \<longrightarrow>
        t = t')"

lemma hsys_returned:
  "hsys_inv h cap s \<Longrightarrow> (k, b, ins) \<in> set (returned s) \<Longrightarrow>
     published (shared s) b \<and> boxes (shared s) b = Some k"
  unfolding hsys_inv_def by blast

lemma hs_thread_step_owned:
  assumes "hs_thread_step h cap s pc = (s', pc')"
  shows "owned pc' = None \<or> owned pc' = owned pc \<or> owned pc' = Some (next_box s)"
  using assms by (cases pc) (auto simp: hs_step_defs split: if_splits option.splits)

lemma hs_thread_step_inserts:
  assumes "hs_thread_step h cap s pc = (s', Done k b True)" "pc \<noteq> Done k b True"
  shows "owned pc = Some b"
  using assms by (cases pc) (auto simp: hs_step_defs split: if_splits option.splits)

lemma owned_allocated: "pc_inv h cap s pc \<Longrightarrow> owned pc = Some b \<Longrightarrow> boxes s b \<noteq> None"
  by (cases pc) auto

lemma hs_step_inv:
  assumes "hs_step h cap s s'" "hsys_inv h cap s"
  shows "hsys_inv h cap s'"
  using assms
proof (induction rule: hs_step.induct)
  case (call s t key)
  then show ?case by (auto simp: hsys_inv_def passed_def split: if_splits)
next
  case (work s t pc sh pc')
  then have inv: "hset_inv h cap (shared s)" and pc: "pc_inv h cap (shared s) pc"
    and step: "hs_thread_step h cap (shared s) pc = (sh, pc')"
    and fresh: "boxes (shared s) (next_box (shared s)) = None"
    by (auto simp: hsys_inv_def hset_inv_def)
  note gr = hs_thread_step_grows [OF inv pc step] and un = owned_unpublished [OF pc]
  have others: "pc_inv h cap sh pc2" if "threads s t2 = Some pc2" "t2 \<noteq> t" for t2 pc2
  proof (rule pc_inv_grows [OF gr inv un])
    show "pc_inv h cap (shared s) pc2" using work that by (auto simp: hsys_inv_def)
    show "owned pc = None \<or> owned pc2 \<noteq> owned pc"
      using work that by (cases "owned pc") (auto simp: hsys_inv_def)
  qed
  have disj: "owned pc' = Some b \<Longrightarrow> owned pc2 \<noteq> Some b"
    if "threads s t2 = Some pc2" "t2 \<noteq> t" for t2 pc2 b
  proof -
    have "pc_inv h cap (shared s) pc2" using work that by (auto simp: hsys_inv_def)
    then have "owned pc2 \<noteq> Some (next_box (shared s))" using fresh owned_allocated by blast
    moreover have "owned pc = Some b \<Longrightarrow> owned pc2 \<noteq> Some b"
      using work that unfolding hsys_inv_def by blast
    ultimately show "owned pc' = Some b \<Longrightarrow> owned pc2 \<noteq> Some b"
      using hs_thread_step_owned [OF step] by auto
  qed
  have ret: "published sh b \<and> boxes sh b = Some k" if "(k, b, ins) \<in> set (returned s)" for k b ins
    using pc_inv_grows [OF gr inv un, of "Done k b ins"] hsys_returned [OF work.prems that]
    by (cases "owned pc") simp_all
  show ?case
    using hs_thread_step_hset_inv [OF inv pc step] hs_thread_step_pc_inv [OF inv pc step]
      others disj ret work
    by (auto simp: hsys_inv_def split: if_splits)
next
  case (return s t key b ins)
  then show ?case by (fastforce simp: hsys_inv_def split: if_splits)
qed


lemma hs_step_inserted_once:
  assumes "hs_step h cap s s'" "hsys_inv h cap s" "inserted_once s"
  shows "inserted_once s'"
  using assms
proof (induction rule: hs_step.induct)
  case (call s t key)
  then show ?case by (auto simp: inserted_once_def)
next
  case (work s t pc sh pc')
  show ?case
  proof (cases "\<exists>k b. pc' = Done k b True \<and> pc \<noteq> pc'")
    case True
    then obtain k b where pc': "pc' = Done k b True" "pc \<noteq> pc'" by blast
    then have own: "owned pc = Some b" using work hs_thread_step_inserts by metis
    have "pc_inv h cap (shared s) pc" using work by (auto simp: hsys_inv_def)
    then have new: "\<not> published (shared s) b" using own owned_unpublished by blast
    have "(k', b, i) \<notin> set (returned s)" for k' i
      using new hsys_returned [OF work.prems(1)] by blast
    moreover have "threads s t' \<noteq> Some (Done k' b i)" for t' k' i
      using new work unfolding hsys_inv_def by (metis pc_inv.simps(4))
    ultimately show ?thesis
      using work pc' by (auto simp: inserted_once_def)
  next
    case False
    then have "pc' = pc \<or> (\<forall>k b. pc' \<noteq> Done k b True)" by auto
    then show ?thesis using work by (auto simp: inserted_once_def)
  qed
next
  case (return s t key b ins)
  then show ?case
    by (cases ins) (auto simp: inserted_once_def)
qed

lemma hset_new_inv:
  assumes "hset_new cap = Some s"
  shows "hset_inv h cap s"
proof -
  have "cap \<noteq> 0" "cap AND (cap - 1) = 0"
    using assms by (auto simp: hset_new_def split: if_splits)
  then obtain m where m: "m < 64" "cap = 2 ^ m" by (rule power_of_two_test)
  have s: "s = \<lparr>slots = replicate (unat cap) None, boxes = Map.empty, next_box = 0\<rparr>"
    using assms by (auto simp: hset_new_def split: if_splits)
  have "\<not> published s p" "i < unat cap \<Longrightarrow> slot_key s i = None" for p i
    by (auto simp: s published_def slot_key_def)
  moreover have "boxes s p = None" "length (slots s) = unat cap" for p
    by (simp_all add: s)
  ultimately show ?thesis unfolding hset_inv_def using m by auto
qed

lemma hs_reachable_inv:
  "hs_reachable h cap s \<Longrightarrow> hsys_inv h cap s \<and> inserted_once s"
proof (induction rule: hs_reachable.induct)
  case (init set0)
  then show ?case by (auto simp: hsys_inv_def inserted_once_def hset_new_inv)
next
  case (step s s')
  then show ?case using hs_step_inv hs_step_inserted_once by blast
qed

section \<open>A call that runs alone\<close>

lemma hs_run_final [simp]:
  "hs_run n h cap s (Done k b ins) = (s, Done k b ins)"
  "hs_run n h cap s Panicked = (s, Panicked)"
  by (induction n) auto

lemma hs_run_numeral:
  "hs_run (numeral n) h cap s pc =
     (case hs_thread_step h cap s pc of (s', pc') \<Rightarrow> hs_run (pred_numeral n) h cap s' pc')"
  by (simp add: numeral_eq_Suc)

lemma hs_run_add:
  "hs_run (m + n) h cap s pc = (case hs_run m h cap s pc of (s', pc') \<Rightarrow> hs_run n h cap s' pc')"
  by (induction m arbitrary: s pc) (auto split: prod.splits)

text \<open>The hot loop stops at the first slot of the probe sequence that is null or holds the key.\<close>

lemma hs_run_probe:
  assumes "hset_inv h cap s" "passed h cap s k i" "j < unat cap - i" "passed h cap s k (i + j)"
  shows "hs_run (j + n) h cap s (Probe k i) = hs_run n h cap s (Probe k (i + j))"
  using assms
proof (induction j arbitrary: i)
  case 0
  then show ?case by simp
next
  case (Suc j)
  obtain k' where k': "slot_key s (probe_idx h cap k i) = Some k'" "k' \<noteq> k"
    using Suc.prems(4) unfolding passed_def by (metis add_Suc_right le_add1 le_imp_less_Suc)
  then obtain p where p: "slots s ! probe_idx h cap k i = Some p" "boxes s p = Some k'"
    by (auto simp: slot_key_def split: option.splits)
  have "hs_thread_step h cap s (Probe k i) = (s, Probe k (Suc i))"
    using p k' Suc.prems(3) by (simp add: hs_step_defs)
  moreover have "hs_run (j + n) h cap s (Probe k (Suc i)) = hs_run n h cap s (Probe k (Suc i + j))"
    using Suc.prems p k' by (intro Suc.IH) (auto simp: passed_Suc slot_key_def)
  ultimately show ?case by simp
qed

text \<open>The probe sequence visits every slot within one round.\<close>

lemma probe_idx_mod:
  assumes "cap = 2 ^ m" "m < 64"
  shows "probe_idx h cap k j = (unat (h k) + j) mod 2 ^ m"
proof -
  have "unat (take_bit m (h k + of_nat j)) = unat (h k + of_nat j :: usize) mod 2 ^ m"
    by (simp add: unsigned_take_bit_eq take_bit_eq_mod [where 'a = nat])
  also have "\<dots> = ((unat (h k) + j) mod 2 ^ 64) mod 2 ^ m"
    by (simp add: unat_word_ariths unat_of_nat mod_simps)
  also have "\<dots> = (unat (h k) + j) mod 2 ^ m"
    by (rule mod_mod_cancel, rule le_imp_power_dvd) (use assms(2) in simp)
  finally show ?thesis by (simp add: probe_idx_def assms(1) and_pow2_minus_1)
qed

lemma probe_idx_surj:
  assumes "cap = 2 ^ m" "m < 64" "i < unat cap"
  shows "\<exists>j<unat cap. probe_idx h cap k j = i"
proof -
  have c: "unat cap = 2 ^ m" using assms(1,2) by (simp add: unat_pow2)
  define a where "a = unat (h k) mod 2 ^ m"
  have "a < 2 ^ m" by (simp add: a_def)
  then have round: "a + (i + (2 ^ m - a)) = i + 2 ^ m" by simp
  have "(unat (h k) + (i + (2 ^ m - a)) mod 2 ^ m) mod 2 ^ m = (a + (i + (2 ^ m - a))) mod 2 ^ m"
    by (simp add: a_def mod_simps)
  also have "\<dots> = i" unfolding round using assms(3) c by simp
  finally have "probe_idx h cap k ((i + (2 ^ m - a)) mod 2 ^ m) = i"
    unfolding probe_idx_mod [OF assms(1,2)] .
  then show ?thesis using c by (intro exI [of _ "(i + (2 ^ m - a)) mod 2 ^ m"]) simp
qed

definition hs_keys :: "usize \<Rightarrow> 'k hset \<Rightarrow> 'k set" where
  "hs_keys cap s = {k. \<exists>i<unat cap. slot_key s i = Some k}"

lemma passed_all_iff:
  assumes "hset_inv h cap s"
  shows "passed h cap s k (unat cap) \<longleftrightarrow> k \<notin> hs_keys cap s \<and> None \<notin> set (slots s)"
proof -
  obtain m where m: "m < 64" "cap = 2 ^ m" and len: "length (slots s) = unat cap"
    and pub: "\<And>p. published s p \<Longrightarrow> boxes s p \<noteq> None"
    using assms by (auto simp: hset_inv_def)
  have occ: "slot_key s i = None \<longleftrightarrow> slots s ! i = None" if "i < unat cap" for i
    using published_nth [of i s] pub that len by (auto simp: slot_key_def split: option.splits)
  have "passed h cap s k (unat cap) \<longleftrightarrow> (\<forall>i<unat cap. \<exists>k'. slot_key s i = Some k' \<and> k' \<noteq> k)"
    unfolding passed_def by (metis m probe_idx_less probe_idx_surj)
  also have "\<dots> \<longleftrightarrow> (\<forall>i<unat cap. slots s ! i \<noteq> None) \<and> k \<notin> hs_keys cap s"
    using occ by (fastforce simp: hs_keys_def)
  also have "(\<forall>i<unat cap. slots s ! i \<noteq> None) \<longleftrightarrow> None \<notin> set (slots s)"
    by (metis in_set_conv_nth len)
  finally show ?thesis by blast
qed

text \<open>The first slot of the probe sequence that does not hold another key.\<close>

lemma first_stop:
  assumes "\<not> passed h cap s k n"
  obtains j where "j < n" "passed h cap s k j" "\<not> passed h cap s k (Suc j)"
proof -
  have "\<exists>j<n. passed h cap s k j \<and> \<not> passed h cap s k (Suc j)"
    using assms
  proof (induction n)
    case (Suc n)
    then show ?case by (cases "passed h cap s k n") (auto simp: less_Suc_eq)
  qed (simp add: passed_def)
  then show thesis using that by blast
qed

lemma hs_run_stop:
  assumes inv: "hset_inv h cap s" and j: "j < unat cap" "passed h cap s k j"
    and stop: "\<not> passed h cap s k (Suc j)"
  shows "hs_run (j + Suc (Suc (Suc n))) h cap s (Probe k 0) =
    (let idx = probe_idx h cap k j in
     case slots s ! idx of
       Some p \<Rightarrow> (s, Done k p False)
     | None \<Rightarrow> (s\<lparr>boxes := (boxes s)(next_box s \<mapsto> k), next_box := Suc (next_box s),
                   slots := (slots s)[idx := Some (next_box s)]\<rparr>, Done k (next_box s) True))"
proof -
  let ?idx = "probe_idx h cap k j"
  have idx: "?idx < length (slots s)" using inv by (rule probe_in_range)
  have "passed h cap s k 0" by (simp add: passed_def)
  from hs_run_probe [OF inv this, of j "Suc (Suc (Suc n))"] j
  have "hs_run (j + Suc (Suc (Suc n))) h cap s (Probe k 0) =
      hs_run (Suc (Suc (Suc n))) h cap s (Probe k j)" by simp
  moreover have "boxes s p = Some k" if "slots s ! ?idx = Some p" for p
    using stop j(2) that published_nth [OF idx that] inv
    by (auto simp: passed_Suc slot_key_def hset_inv_def)
  ultimately show ?thesis using j(1) idx
    by (auto simp: hs_step_defs split: option.splits)
qed

lemma slot_key_fresh:
  assumes inv: "hset_inv h cap s" and i: "i < unat cap" and x: "x < unat cap" "slots s ! x = None"
  shows "slot_key (s\<lparr>boxes := (boxes s)(next_box s \<mapsto> k), next_box := n,
      slots := (slots s)[x := Some (next_box s)]\<rparr>) i = (if i = x then Some k else slot_key s i)"
proof -
  have len: "length (slots s) = unat cap" and fresh: "\<not> published s (next_box s)"
    using inv by (fastforce simp: hset_inv_def)+
  have "slots s ! i \<noteq> Some (next_box s)" using fresh published_nth [of i s] i len by auto
  then show ?thesis using i x len
    by (auto simp: slot_key_def nth_list_update split: option.splits)
qed

lemma first_stop_slot:
  assumes inv: "hset_inv h cap s" and j: "passed h cap s k j" "\<not> passed h cap s k (Suc j)"
  shows "k \<in> hs_keys cap s \<longleftrightarrow> slots s ! probe_idx h cap k j \<noteq> None"
proof
  assume "k \<in> hs_keys cap s"
  then obtain i where i: "i < unat cap" "slot_key s i = Some k" by (auto simp: hs_keys_def)
  then obtain j' where j': "i = probe_idx h cap k j'" "passed h cap s k j'"
    using inv unfolding hset_inv_def by meson
  have "\<not> j' < j" using j(1) i(2) j'(1) by (auto simp: passed_def)
  moreover have "\<not> j < j'" using j(2) j'(2) by (meson Suc_leI less_le_trans passed_def)
  ultimately show "slots s ! probe_idx h cap k j \<noteq> None"
    using i j' by (auto simp: slot_key_def split: option.splits)
next
  assume "slots s ! probe_idx h cap k j \<noteq> None"
  then obtain p where p: "slots s ! probe_idx h cap k j = Some p" by blast
  have "probe_idx h cap k j < length (slots s)" using inv by (rule probe_in_range)
  moreover from this p have "boxes s p \<noteq> None"
    using inv published_nth by (fastforce simp: hset_inv_def)
  moreover have "length (slots s) = unat cap" using inv by (simp add: hset_inv_def)
  ultimately show "k \<in> hs_keys cap s"
    using j p by (auto simp: passed_Suc hs_keys_def slot_key_def)
qed

lemma hs_keys_update:
  assumes "\<And>i. i < unat cap \<Longrightarrow> slot_key s' i = (if i = x then Some k else slot_key s i)"
    and "x < unat cap" "slot_key s x = None"
  shows "hs_keys cap s' = insert k (hs_keys cap s)"
proof -
  have "y \<in> hs_keys cap s' \<longleftrightarrow> y = k \<or> y \<in> hs_keys cap s" for y
    using assms unfolding hs_keys_def by (auto split: if_splits) (metis option.distinct(1))
  then show ?thesis by blast
qed

text \<open>A call that runs alone, without interference, on every branch.\<close>

definition hs_alone_spec ::
  "usize \<Rightarrow> 'k \<Rightarrow> 'k hset \<Rightarrow> 'k hset \<times> 'k hpc \<Rightarrow> bool" where
  "hs_alone_spec cap k s r \<longleftrightarrow>
     (if k \<in> hs_keys cap s then \<exists>p. r = (s, Done k p False) \<and> Some p \<in> set (slots s) \<and> boxes s p = Some k
      else if None \<in> set (slots s)
      then \<exists>s' p. r = (s', Done k p True) \<and> boxes s' p = Some k \<and>
             hs_keys cap s' = insert k (hs_keys cap s)
      else snd r = Panicked \<and> slots (fst r) = slots s)"

lemma hs_run_alone:
  assumes inv: "hset_inv h cap s"
  shows "hs_alone_spec cap k s (hs_run (unat cap + 3) h cap s (Probe k 0))"
proof (cases "passed h cap s k (unat cap)")
  case True
  obtain N where N: "unat cap = Suc N"
    using inv by (cases "unat cap") (auto simp: hset_inv_def unat_pow2)
  have N': "passed h cap s k N" "passed h cap s k 0" using True N by (auto simp: passed_def)
  from True N obtain k' where "slot_key s (probe_idx h cap k N) = Some k'" "k' \<noteq> k"
    by (auto simp: passed_Suc)
  then have "hs_run (N + 4) h cap s (Probe k 0) = hs_run 3 h cap s (Probe k (Suc N))"
    using hs_run_probe [OF inv N'(2), of N 4] N N'
    by (auto simp: numeral_eq_Suc hs_step_defs slot_key_def split: option.splits)
  then have "snd (hs_run (unat cap + 3) h cap s (Probe k 0)) = Panicked \<and>
      slots (fst (hs_run (unat cap + 3) h cap s (Probe k 0))) = slots s"
    using N by (simp add: numeral_eq_Suc hs_step_defs)
  then show ?thesis using True passed_all_iff [OF inv, of k] by (simp add: hs_alone_spec_def)
next
  case False
  then obtain j where j: "j < unat cap" "passed h cap s k j" "\<not> passed h cap s k (Suc j)"
    by (rule first_stop)
  let ?x = "probe_idx h cap k j"
  have len: "length (slots s) = unat cap" using inv by (simp add: hset_inv_def)
  have x: "?x < unat cap" using probe_in_range [OF inv] len by metis
  have run: "hs_run (unat cap + 3) h cap s (Probe k 0) =
      (let idx = ?x in case slots s ! idx of
       Some p \<Rightarrow> (s, Done k p False)
     | None \<Rightarrow> (s\<lparr>boxes := (boxes s)(next_box s \<mapsto> k), next_box := Suc (next_box s),
                   slots := (slots s)[idx := Some (next_box s)]\<rparr>, Done k (next_box s) True))"
    using hs_run_stop [OF inv j, of "unat cap - j"] j(1) by (simp add: numeral_eq_Suc)
  show ?thesis
  proof (cases "slots s ! ?x")
    case None
    then have "None \<in> set (slots s)" using x len by (metis nth_mem)
    moreover have "k \<notin> hs_keys cap s" using first_stop_slot [OF inv j(2,3)] None by simp
    moreover have "hs_keys cap (s\<lparr>boxes := (boxes s)(next_box s \<mapsto> k), next_box := Suc (next_box s),
        slots := (slots s)[?x := Some (next_box s)]\<rparr>) = insert k (hs_keys cap s)"
      by (rule hs_keys_update [OF slot_key_fresh [OF inv _ x None] x]) (simp_all add: slot_key_def None)
    ultimately show ?thesis using None by (simp add: run hs_alone_spec_def)
  next
    case (Some p)
    then have "k \<in> hs_keys cap s" using first_stop_slot [OF inv j(2,3)] by simp
    moreover have pub: "published s p" using Some x len by (metis published_nth)
    moreover have "boxes s p = Some k"
      using j Some pub inv by (auto simp: passed_Suc slot_key_def hset_inv_def)
    ultimately show ?thesis using Some by (simp add: run hs_alone_spec_def published_def)
  qed
qed

text \<open>The cold loop never ends in a full table that does not hold the key.\<close>

lemma hs_run_spin:
  assumes inv: "hset_inv h cap s" and full: "passed h cap s k (unat cap)"
    and pc: "pc_inv h cap s (Claim k b x)"
  shows "\<exists>x'. hs_run n h cap s (Claim k b x) = (s, Claim k b x')"
proof -
  obtain m where m: "m < 64" "cap = 2 ^ m" using inv by (auto simp: hset_inv_def)
  obtain j where j: "x = probe_idx h cap k j" and b: "boxes s b = Some k" using pc by auto
  have step: "hs_claim cap k b (probe_idx h cap k i) s =
      (s, Claim k b (probe_idx h cap k (Suc i)))" for i
  proof -
    have "probe_idx h cap k i < unat cap" by (rule probe_idx_less [OF m(2,1)])
    then obtain i' where i': "i' < unat cap" "probe_idx h cap k i' = probe_idx h cap k i"
      using probe_idx_surj [OF m(2,1), of "probe_idx h cap k i" h k] by blast
    obtain k' where "slot_key s (probe_idx h cap k i) = Some k'" "k' \<noteq> k"
      using full i' unfolding passed_def by metis
    then show ?thesis
      using b next_probe_idx [OF m(2,1), of h k i]
      by (auto simp: hs_step_defs slot_key_def split: option.splits)
  qed
  have "hs_run n h cap s (Claim k b (probe_idx h cap k i)) = (s, Claim k b (probe_idx h cap k (i + n)))" for i
    by (induction n arbitrary: i) (simp_all add: step)
  then show ?thesis using j by blast
qed

text \<open>What the calls have returned: one entry per key, and at most one caller that inserted it.\<close>

lemma returned_same_entry:
  assumes "hsys_inv h cap s" "(k, b, ins) \<in> set (returned s)" "(k, b', ins') \<in> set (returned s)"
  shows "b = b'"
proof -
  let ?s = "shared s"
  have inv: "hset_inv h cap ?s" using assms(1) by (simp add: hsys_inv_def)
  have "published ?s b" "published ?s b'" and bx: "boxes ?s b = Some k" "boxes ?s b' = Some k"
    using hsys_returned [OF assms(1,2)] hsys_returned [OF assms(1,3)] by simp_all
  then obtain i i' where "i < length (slots ?s)" "slots ?s ! i = Some b"
    and "i' < length (slots ?s)" "slots ?s ! i' = Some b'"
    by (auto simp: published_def in_set_conv_nth)
  moreover have "length (slots ?s) = unat cap" using inv by (simp add: hset_inv_def)
  ultimately have "i = i'" "slots ?s ! i = Some b" "slots ?s ! i' = Some b'"
    using slot_key_unique [OF inv, of i i' k] bx by (auto simp: slot_key_def)
  then show ?thesis by simp
qed

lemma distinct_constant_length: "distinct xs \<Longrightarrow> (\<And>x. x \<in> set xs \<Longrightarrow> x = a) \<Longrightarrow> length xs \<le> 1"
  by (cases xs) (auto simp: neq_Nil_conv, metis distinct.simps(2) list.set_intros(1) length_0_conv neq_Nil_conv)

lemma returned_inserted_once:
  assumes "hsys_inv h cap s" "inserted_once s"
  shows "length (filter (\<lambda>(k', b, ins). k' = k \<and> ins) (returned s)) \<le> 1"
proof -
  let ?new = "filter (\<lambda>(k', b, ins). k' = k \<and> ins) (returned s)"
  have "?new = filter (\<lambda>r. fst r = k) (filter (snd \<circ> snd) (returned s))"
    by (simp add: case_prod_beta' conj_commute)
  then have dist: "distinct (map (fst \<circ> snd) ?new)"
    using assms(2) unfolding inserted_once_def by (metis distinct_map_filter)
  show ?thesis
  proof (cases ?new)
    case (Cons r rs)
    obtain b ins where r: "r = (k, b, ins)" "(k, b, ins) \<in> set (returned s)"
      using Cons by (metis (mono_tags, lifting) case_prodE filter_eq_ConsD in_set_conv_decomp)
    have "x = b" if "x \<in> set (map (fst \<circ> snd) ?new)" for x
      using that returned_same_entry [OF assms(1) _ r(2)] by auto
    then show ?thesis using distinct_constant_length [OF dist] by auto
  qed simp
qed

section \<open>Schedules\<close>

text \<open>
  An executable scheduler for the step relation: the calls, steps and returns of named threads in
  the given order; an event that is not enabled leaves the state as it is.
\<close>

datatype 'k hs_event = Call_Ev nat 'k | Work_Ev nat | Return_Ev nat

fun hs_apply_event :: "('k \<Rightarrow> usize) \<Rightarrow> usize \<Rightarrow> 'k hs_event \<Rightarrow> 'k hsys \<Rightarrow> 'k hsys" where
  "hs_apply_event h cap (Call_Ev t key) s =
     (if threads s t = None then s\<lparr>threads := (threads s)(t \<mapsto> Probe key 0)\<rparr> else s)"
| "hs_apply_event h cap (Work_Ev t) s =
     (case threads s t of
        None \<Rightarrow> s
      | Some pc \<Rightarrow> (case hs_thread_step h cap (shared s) pc of
          (sh, pc') \<Rightarrow> s\<lparr>shared := sh, threads := (threads s)(t \<mapsto> pc')\<rparr>))"
| "hs_apply_event h cap (Return_Ev t) s =
     (case threads s t of
        Some (Done key b ins) \<Rightarrow>
          s\<lparr>threads := (threads s)(t := None), returned := returned s @ [(key, b, ins)]\<rparr>
      | _ \<Rightarrow> s)"

lemma hs_event_step: "hs_apply_event h cap e s = s \<or> hs_step h cap s (hs_apply_event h cap e s)"
  by (cases e) (auto intro: hs_step.intros split: option.splits hpc.splits prod.splits)

lemma hs_schedule_reachable:
  assumes "hs_reachable h cap s"
  shows "hs_reachable h cap (fold (hs_apply_event h cap) es s)"
  using assms
proof (induction es arbitrary: s)
  case (Cons e es)
  then have "hs_reachable h cap (hs_apply_event h cap e s)"
    using hs_event_step [of h cap e s] by (metis hs_reachable.step)
  then show ?case using Cons.IH by simp
qed simp

definition hs_init :: "'k hset \<Rightarrow> 'k hsys" where
  "hs_init set0 = \<lparr>shared = set0, threads = Map.empty, returned = []\<rparr>"

lemma hs_schedule_from_new:
  assumes "hset_new cap = Some set0"
  shows "hs_reachable h cap (fold (hs_apply_event h cap) es (hs_init set0))"
  unfolding hs_init_def using assms by (intro hs_schedule_reachable hs_reachable.init)

text \<open>Two threads that race to insert the same key: both read the slot as null.\<close>

definition race_demo :: "nat hsys" where
  "race_demo = fold (hs_apply_event (\<lambda>_. 0) 2)
     [Call_Ev 1 7, Call_Ev 2 7, Work_Ev 1, Work_Ev 2, Work_Ev 1, Work_Ev 2, Work_Ev 2, Work_Ev 1,
      Return_Ev 1, Return_Ev 2]
     (hs_init \<lparr>slots = [None, None], boxes = Map.empty, next_box = 0\<rparr>)"

lemma race_demo_reachable: "hs_reachable (\<lambda>_. 0) 2 race_demo"
  unfolding race_demo_def
  by (rule hs_schedule_from_new) (simp add: hset_new_def, simp add: numeral_2_eq_2)

lemma race_demo_eval:
  "returned race_demo = [(7, 1, False), (7, 1, True)]"
  "shared race_demo = \<lparr>slots = [Some 1, None], boxes = [1 \<mapsto> 7], next_box = 2\<rparr>"
  by (simp_all add: race_demo_def hs_init_def hs_step_defs probe_idx_def fun_upd_twist)

section \<open>Properties\<close>

text \<open>
  C16: in every reachable state of any number of threads interleaving their \<^verbatim>\<open>get_or_insert\<close>
  calls, no key is stored in two slots.
\<close>

theorem hash_set_no_duplicates:
  assumes "hs_reachable h cap s"
  shows "card {i. i < unat cap \<and> slot_key (shared s) i = Some k} \<le> 1"
proof -
  have inv: "hset_inv h cap (shared s)"
    by (intro hsys_inv_shared conjunct1 [OF hs_reachable_inv [OF assms]])
  show ?thesis
    by (rule card_le_Suc0_iff_eq [THEN iffD2, folded One_nat_def])
      (use slot_key_unique [OF inv] in auto)
qed

theorem hash_set_no_duplicates_witness:
  "card {i. i < unat (2 :: usize) \<and> slot_key (shared race_demo) i = Some 7} \<le> 1 \<and>
   slot_key (shared race_demo) 0 = Some 7"
  using hash_set_no_duplicates [OF race_demo_reachable, of 7] race_demo_eval
  by (simp add: slot_key_def)

text \<open>
  C6: all calls of \<^verbatim>\<open>get_or_insert\<close> with the same key return the same entry, and at most one of
  them is told that it inserted the key.
\<close>

theorem hash_set_agreement:
  assumes "hs_reachable h cap s"
  shows "((k, b, ins) \<in> set (returned s) \<longrightarrow> (k, b', ins') \<in> set (returned s) \<longrightarrow> b = b') \<and>
    length (filter (\<lambda>(k', b, ins). k' = k \<and> ins) (returned s)) \<le> 1"
  using conjunct1 [OF hs_reachable_inv [OF assms]] conjunct2 [OF hs_reachable_inv [OF assms]]
  by (intro conjI impI returned_inserted_once) (rule returned_same_entry)

theorem hash_set_agreement_witness:
  "length (filter (\<lambda>(k', b, ins). k' = 7 \<and> ins) (returned race_demo)) \<le> 1 \<and>
   (7, 1, False) \<in> set (returned race_demo) \<and> (7, 1, True) \<in> set (returned race_demo)"
  using hash_set_agreement [OF race_demo_reachable, of 7] race_demo_eval(1) by simp

text \<open>
  C24: a \<^verbatim>\<open>get_or_insert\<close> that runs without interference from a reachable state takes at most
  \<^verbatim>\<open>N + 3\<close> steps and then has returned the entry of a key that is present, or has added an
  absent key and nothing else, or has panicked without touching a slot when the table is full.
\<close>

theorem hash_set_alone:
  assumes "hs_reachable h cap s"
  shows "hs_alone_spec cap k (shared s) (hs_run (unat cap + 3) h cap (shared s) (Probe k 0))"
  by (intro hs_run_alone hsys_inv_shared conjunct1 [OF hs_reachable_inv [OF assms]])

theorem hash_set_alone_witness:
  "hs_alone_spec 2 8 (shared race_demo) (hs_run (unat (2 :: usize) + 3) (\<lambda>_. 0) 2 (shared race_demo) (Probe 8 0))
   \<and> snd (hs_run 5 (\<lambda>_. 0) 2 (shared race_demo) (Probe 8 0)) = Done 8 2 True"
  using hash_set_alone [OF race_demo_reachable, of 8]
  by (simp add: race_demo_eval hs_run_numeral hs_step_defs probe_idx_def)



end
