(* ===== verification/Trace_Derive.thy ===== *)
theory Trace_Derive
  imports Cdpt_Prelude
begin

text \<open>
  \<^verbatim>\<open>cdpt-derive/src/lib.rs\<close>: the code that \<^verbatim>\<open>#[derive(TraceObj)]\<close> generates for a type. The types and the
  items are the parts of \<^verbatim>\<open>syn\<close>'s syntax trees that the macro looks at, the generated tokens are a
  small language of visitor code, and an interpreter says which managed pointers of a value the code
  visits. References are transparent: a binding by reference holds the value it refers to.

  The lemmas show that the generated code visits every managed pointer of a value once and in order, if
  the fields of types that the macro does not know contain none.
\<close>

section \<open>Types and items\<close>

text \<open>A path keeps its last segment, with its angle-bracketed arguments if it has any.\<close>

datatype ty =
    TPath string "garg list option"
  | TTuple "ty list"
  | TArray ty
  | TSlice ty
  | TReference ty
  | TOther
and garg = TypeArg ty | OtherArg

datatype fields = Named "(string \<times> ty) list" | Unnamed "ty list" | Unit

datatype data = Struct fields | Enum "(string \<times> fields) list" | Union

section \<open>The generated code\<close>

datatype expr =
    SelfField string
  | SelfIndex nat
  | Binding string
  | Index expr nat
  | Deref expr

text \<open>
  A method call on a pointer, \<^verbatim>\<open>if let Some\<close>, \<^verbatim>\<open>for\<close>, the \<^verbatim>\<open>match\<close> on a result (the code of the two
  arms, if there is one), \<^verbatim>\<open>let __inner = &\<dots>\<close>, and a sequence.
\<close>

datatype code =
    Call expr string
  | IfSome expr code
  | ForIn expr code
  | MatchResult expr "code option option" "code option option"
  | LetRef expr code
  | Seq "code list"

definition inner :: expr where "inner = Binding ''__inner''"

definition managed_idents :: "string list" where
  "managed_idents = [''Shared'', ''AtomicShared'', ''AtomicSharedOption'']"

definition vec_idents :: "string list" where
  "vec_idents = [''Vec'', ''VecDeque'', ''ArrayVec'']"

definition box_idents :: "string list" where
  "box_idents = [''Box'', ''Arc'']"

fun gen_trace_for_type :: "ty \<Rightarrow> expr \<Rightarrow> string \<Rightarrow> code option"
  and gen_trace_for_arg :: "garg \<Rightarrow> expr \<Rightarrow> string \<Rightarrow> code option"
  and gen_elems :: "ty list \<Rightarrow> nat \<Rightarrow> expr \<Rightarrow> string \<Rightarrow> code list" where
  "gen_trace_for_type (TPath ident args) e m =
     (if ident \<in> set managed_idents then Some (Call e m)
      else case args of
        Some (a # rest) \<Rightarrow>
          if ident = ''Option'' then map_option (IfSome e) (gen_trace_for_arg a inner m)
          else if ident \<in> set vec_idents then map_option (ForIn e) (gen_trace_for_arg a inner m)
          else if ident \<in> set box_idents then gen_trace_for_arg a (Deref e) m
          else if ident = ''Result'' then
            (let ok = (case a of TypeArg t \<Rightarrow> Some (gen_trace_for_type t (Binding ''__ok'') m) | OtherArg \<Rightarrow> None);
                 err = (case rest of
                    TypeArg t # _ \<Rightarrow> Some (gen_trace_for_type t (Binding ''__err'') m) | _ \<Rightarrow> None)
             in if ok = None \<and> err = None then None else Some (MatchResult e ok err))
          else None
      | _ \<Rightarrow> None)"
| "gen_trace_for_type (TTuple ts) e m =
     (case gen_elems ts 0 e m of [] \<Rightarrow> None | cs \<Rightarrow> Some (Seq cs))"
| "gen_trace_for_type (TArray t) e m = map_option (ForIn e) (gen_trace_for_type t inner m)"
| "gen_trace_for_type (TSlice t) e m = map_option (ForIn e) (gen_trace_for_type t inner m)"
| "gen_trace_for_type (TReference t) e m = map_option (LetRef e) (gen_trace_for_type t inner m)"
| "gen_trace_for_type TOther e m = None"
| "gen_trace_for_arg (TypeArg t) e m = gen_trace_for_type t e m"
| "gen_trace_for_arg OtherArg e m = None"
| "gen_elems [] i e m = []"
| "gen_elems (t # ts) i e m =
     (case gen_trace_for_type t (Index e i) m of
        None \<Rightarrow> gen_elems ts (Suc i) e m
      | Some c \<Rightarrow> c # gen_elems ts (Suc i) e m)"

text \<open>The names that a variant's unnamed fields are bound to (\<^verbatim>\<open>f0\<close>, \<^verbatim>\<open>f1\<close>, \dots).\<close>

fun digits :: "nat \<Rightarrow> string" where
  "digits n = (if n < 10 then [char_of (48 + n)] else digits (n div 10) @ [char_of (48 + n mod 10)])"

definition field_binding :: "nat \<Rightarrow> string" where
  "field_binding i = CHR ''f'' # digits i"

definition field_types :: "fields \<Rightarrow> ty list" where
  "field_types fs = (case fs of Named nts \<Rightarrow> map snd nts | Unnamed ts \<Rightarrow> ts | Unit \<Rightarrow> [])"

definition field_exprs :: "fields \<Rightarrow> bool \<Rightarrow> expr list" where
  "field_exprs fs in_variant =
     (case fs of
        Named nts \<Rightarrow> map (\<lambda>nt. if in_variant then Binding (fst nt) else SelfField (fst nt)) nts
      | Unnamed ts \<Rightarrow>
          map (\<lambda>i. if in_variant then Binding (field_binding i) else SelfIndex i) [0..<length ts]
      | Unit \<Rightarrow> [])"

definition gen_fields_trace :: "fields \<Rightarrow> string \<Rightarrow> bool \<Rightarrow> code" where
  "gen_fields_trace fs m in_variant =
     Seq (List.map_filter (\<lambda>(t, e). gen_trace_for_type t e m) (zip (field_types fs) (field_exprs fs in_variant)))"

text \<open>The names bound by the pattern of a variant.\<close>

definition pattern_names :: "fields \<Rightarrow> string list" where
  "pattern_names fs =
     (case fs of
        Named nts \<Rightarrow> map fst nts
      | Unnamed ts \<Rightarrow> map field_binding [0..<length ts]
      | Unit \<Rightarrow> [])"

text \<open>A body: code on \<^verbatim>\<open>self\<close>, or a match with a pattern and code for each variant.\<close>

datatype body = OnSelf code | MatchSelf "(string \<times> string list \<times> code) list"

definition gen_body :: "data \<Rightarrow> string \<Rightarrow> body outcome" where
  "gen_body d m =
     (case d of
        Struct fs \<Rightarrow> Inr (OnSelf (gen_fields_trace fs m False))
      | Enum vs \<Rightarrow>
          Inr (MatchSelf (map (\<lambda>(n, fs).
            (n, pattern_names fs, if fs = Unit then Seq [] else gen_fields_trace fs m True)) vs))
      | Union \<Rightarrow> Inl DeriveUnion)"

text \<open>The two methods of the generated implementation.\<close>

definition derive_trace_obj :: "data \<Rightarrow> (body \<times> body) outcome" where
  "derive_trace_obj d =
     (case gen_body d ''unroot'' of
        Inl e \<Rightarrow> Inl e
      | Inr unroot_body \<Rightarrow>
          (case gen_body d ''shade'' of
             Inl e \<Rightarrow> Inl e
           | Inr shade_body \<Rightarrow> Inr (unroot_body, shade_body)))"


section \<open>Running the generated code\<close>

text \<open>Values, with the managed pointers in them; \<open>VOther\<close> is a value of a type the macro skips.\<close>

datatype 'l val =
    VPtr 'l
  | VOpt "'l val option"
  | VSeq "'l val list"
  | VTuple "'l val list"
  | VBox "'l val"
  | VRes "'l val + 'l val"
  | VRef "'l val"
  | VOther

record 'l cenv =
  self_named :: "string \<rightharpoonup> 'l val"
  self_indexed :: "'l val list"
  bound :: "string \<rightharpoonup> 'l val"

fun eval_expr :: "'l cenv \<Rightarrow> expr \<Rightarrow> 'l val option" where
  "eval_expr env (SelfField n) = self_named env n"
| "eval_expr env (SelfIndex i) =
     (if i < length (self_indexed env) then Some (self_indexed env ! i) else None)"
| "eval_expr env (Binding n) = bound env n"
| "eval_expr env (Index e i) =
     (case eval_expr env e of
        Some (VTuple vs) \<Rightarrow> if i < length vs then Some (vs ! i) else None
      | _ \<Rightarrow> None)"
| "eval_expr env (Deref e) = (case eval_expr env e of Some (VBox v) \<Rightarrow> Some v | _ \<Rightarrow> None)"

definition bind_name :: "string \<Rightarrow> 'l val \<Rightarrow> 'l cenv \<Rightarrow> 'l cenv" where
  "bind_name n v env = env\<lparr>bound := (bound env)(n \<mapsto> v)\<rparr>"

text \<open>One after the other; \<open>None\<close> is code that does not fit the value.\<close>

fun in_order :: "'a list option list \<Rightarrow> 'a list option" where
  "in_order [] = Some []"
| "in_order (r # rs) =
     (case r of None \<Rightarrow> None | Some xs \<Rightarrow> map_option (\<lambda>ys. xs @ ys) (in_order rs))"

fun run_code :: "code \<Rightarrow> 'l cenv \<Rightarrow> (string \<times> 'l) list option" where
  "run_code (Call e m) env = (case eval_expr env e of Some (VPtr l) \<Rightarrow> Some [(m, l)] | _ \<Rightarrow> None)"
| "run_code (IfSome e c) env =
     (case eval_expr env e of
        Some (VOpt (Some v)) \<Rightarrow> run_code c (bind_name ''__inner'' v env)
      | Some (VOpt None) \<Rightarrow> Some []
      | _ \<Rightarrow> None)"
| "run_code (ForIn e c) env =
     (case eval_expr env e of
        Some (VSeq vs) \<Rightarrow> in_order (map (\<lambda>v. run_code c (bind_name ''__inner'' v env)) vs)
      | _ \<Rightarrow> None)"
| "run_code (MatchResult e ok err) env =
     (case eval_expr env e of
        Some (VRes (Inr v)) \<Rightarrow>
          (case ok of
             None \<Rightarrow> None
           | Some None \<Rightarrow> Some []
           | Some (Some c) \<Rightarrow> run_code c (bind_name ''__ok'' v env))
      | Some (VRes (Inl v)) \<Rightarrow>
          (case err of
             None \<Rightarrow> None
           | Some None \<Rightarrow> Some []
           | Some (Some c) \<Rightarrow> run_code c (bind_name ''__err'' v env))
      | _ \<Rightarrow> None)"
| "run_code (LetRef e c) env =
     (case eval_expr env e of Some (VRef v) \<Rightarrow> run_code c (bind_name ''__inner'' v env) | _ \<Rightarrow> None)"
| "run_code (Seq cs) env = in_order (map (\<lambda>c. run_code c env) cs)"

text \<open>An item is the list of its field values, with the variant's name for an enum.\<close>

datatype 'l item = StructItem "'l val list" | EnumItem string "'l val list"

definition self_env :: "fields \<Rightarrow> 'l val list \<Rightarrow> 'l cenv" where
  "self_env fs vs =
     \<lparr>self_named = (case fs of Named nts \<Rightarrow> map_of (zip (map fst nts) vs) | _ \<Rightarrow> Map.empty),
      self_indexed = (case fs of Unnamed _ \<Rightarrow> vs | _ \<Rightarrow> []), bound = Map.empty\<rparr>"

definition variant_env :: "string list \<Rightarrow> 'l val list \<Rightarrow> 'l cenv" where
  "variant_env names vs = \<lparr>self_named = Map.empty, self_indexed = [], bound = map_of (zip names vs)\<rparr>"

definition run_body :: "data \<Rightarrow> body \<Rightarrow> 'l item \<Rightarrow> (string \<times> 'l) list option" where
  "run_body d b it =
     (case (d, b, it) of
        (Struct fs, OnSelf c, StructItem vs) \<Rightarrow> run_code c (self_env fs vs)
      | (Enum _, MatchSelf arms, EnumItem n vs) \<Rightarrow>
          (case map_of arms n of
             None \<Rightarrow> None
           | Some (names, c) \<Rightarrow> run_code c (variant_env names vs))
      | _ \<Rightarrow> None)"

section \<open>What the code has to visit\<close>

fun all_ptrs :: "'l val \<Rightarrow> 'l list" where
  "all_ptrs (VPtr l) = [l]"
| "all_ptrs (VOpt o') = (case o' of None \<Rightarrow> [] | Some v \<Rightarrow> all_ptrs v)"
| "all_ptrs (VSeq vs) = concat (map all_ptrs vs)"
| "all_ptrs (VTuple vs) = concat (map all_ptrs vs)"
| "all_ptrs (VBox v) = all_ptrs v"
| "all_ptrs (VRes r) = (case r of Inl v \<Rightarrow> all_ptrs v | Inr v \<Rightarrow> all_ptrs v)"
| "all_ptrs (VRef v) = all_ptrs v"
| "all_ptrs VOther = []"

text \<open>
  The values of a type. Types that the macro does not know are assumed to hold no managed pointer; a
  \<^verbatim>\<open>Result\<close> has both its arguments.
\<close>

fun has_ty :: "ty \<Rightarrow> 'l val \<Rightarrow> bool" where
  "has_ty (TPath ident args) v =
     (if ident \<in> set managed_idents then (case v of VPtr _ \<Rightarrow> True | _ \<Rightarrow> False)
      else case args of
        Some (TypeArg t # rest) \<Rightarrow>
          if ident = ''Option'' then
            (case v of VOpt o' \<Rightarrow> (case o' of None \<Rightarrow> True | Some x \<Rightarrow> has_ty t x) | _ \<Rightarrow> False)
          else if ident \<in> set vec_idents then (case v of VSeq vs \<Rightarrow> list_all (has_ty t) vs | _ \<Rightarrow> False)
          else if ident \<in> set box_idents then (case v of VBox x \<Rightarrow> has_ty t x | _ \<Rightarrow> False)
          else if ident = ''Result'' then
            (case (v, rest) of
               (VRes (Inr x), TypeArg t' # _) \<Rightarrow> has_ty t x
             | (VRes (Inl x), TypeArg t' # _) \<Rightarrow> has_ty t' x
             | _ \<Rightarrow> False)
          else all_ptrs v = []
      | _ \<Rightarrow> ident \<noteq> ''Result'' \<and> all_ptrs v = [])"
| "has_ty (TTuple ts) v = (case v of VTuple vs \<Rightarrow> list_all2 has_ty ts vs | _ \<Rightarrow> False)"
| "has_ty (TArray t) v = (case v of VSeq vs \<Rightarrow> list_all (has_ty t) vs | _ \<Rightarrow> False)"
| "has_ty (TSlice t) v = (case v of VSeq vs \<Rightarrow> list_all (has_ty t) vs | _ \<Rightarrow> False)"
| "has_ty (TReference t) v = (case v of VRef x \<Rightarrow> has_ty t x | _ \<Rightarrow> False)"
| "has_ty TOther v = (all_ptrs v = [])"


section \<open>Every pointer is visited\<close>

lemma in_order_map:
  "(\<And>x. x \<in> set xs \<Longrightarrow> f x = Some (map h (g x))) \<Longrightarrow> in_order (map f xs) = Some (map h (concat (map g xs)))"
  by (induction xs) auto

text \<open>The generated code, if there is any, visits what the value holds; if there is none, it holds nothing.\<close>

definition visits :: "code option \<Rightarrow> string \<Rightarrow> 'l cenv \<Rightarrow> 'l val \<Rightarrow> bool" where
  "visits co m env v =
     (case co of None \<Rightarrow> all_ptrs v = [] | Some c \<Rightarrow> run_code c env = Some (map (Pair m) (all_ptrs v)))"

lemma bind_name_lookup [simp]: "bound (bind_name n v env) n = Some v"
  by (simp add: bind_name_def)

lemma eval_inner [simp]: "eval_expr (bind_name ''__inner'' v env) inner = Some v"
  by (simp add: inner_def bind_name_def)

lemma visits_for:
  assumes "eval_expr env e = Some (VSeq vs)"
    and "\<And>v. v \<in> set vs \<Longrightarrow> visits co m (bind_name ''__inner'' v env) v"
  shows "visits (map_option (ForIn e) co) m env (VSeq vs)"
  using assms by (cases co) (auto simp: visits_def intro!: in_order_map)

lemma visits_ref:
  "eval_expr env e = Some (VRef v) \<Longrightarrow> visits co m (bind_name ''__inner'' v env) v \<Longrightarrow>
   visits (map_option (LetRef e) co) m env (VRef v)"
  by (cases co) (auto simp: visits_def)

lemma visits_option:
  "eval_expr env e = Some (VOpt o') \<Longrightarrow> (\<And>v. o' = Some v \<Longrightarrow> visits co m (bind_name ''__inner'' v env) v) \<Longrightarrow>
   visits (map_option (IfSome e) co) m env (VOpt o')"
  by (cases co; cases o') (auto simp: visits_def)

lemma visits_box: "visits co m env v \<Longrightarrow> visits co m env (VBox v)"
  by (cases co) (auto simp: visits_def)

lemma visits_result:
  assumes "eval_expr env e = Some (VRes r)"
    and "\<And>v. r = Inr v \<Longrightarrow> visits ok m (bind_name ''__ok'' v env) v"
    and "\<And>v. r = Inl v \<Longrightarrow> visits err m (bind_name ''__err'' v env) v"
  shows "visits (Some (MatchResult e (Some ok) (Some err))) m env (VRes r)"
  using assms by (cases r; cases ok; cases err) (auto simp: visits_def)

lemma visits_none: "all_ptrs v = [] \<Longrightarrow> visits None m env v"
  by (simp add: visits_def)

lemma gen_trace_visits:
  "has_ty t v \<Longrightarrow> eval_expr env e = Some v \<Longrightarrow> visits (gen_trace_for_type t e m) m env v"
  "\<And>t. a = TypeArg t \<Longrightarrow> has_ty t v \<Longrightarrow> eval_expr env e = Some v \<Longrightarrow> visits (gen_trace_for_arg a e m) m env v"
  "\<And>ws vs. eval_expr env e = Some (VTuple (ws @ vs)) \<Longrightarrow> i = length ws \<Longrightarrow> list_all2 has_ty ts vs \<Longrightarrow>
     in_order (map (\<lambda>c. run_code c env) (gen_elems ts i e m)) = Some (map (Pair m) (concat (map all_ptrs vs)))"
proof (induction t e m and a e m and ts i e m arbitrary: v env and v env and env
    rule: gen_trace_for_type_gen_trace_for_arg_gen_elems.induct)
  case (1 ident args e m)
  show ?case
  proof (cases "ident \<in> set managed_idents")
    case True
    then show ?thesis using "1.prems" by (auto simp: visits_def split: val.splits)
  next
    case unmanaged: False
    consider (arg) t rest where "args = Some (TypeArg t # rest)" | (other) rest where "args = Some (OtherArg # rest)"
      | (none) "args = None \<or> args = Some []"
      by (metis garg.exhaust list.exhaust option.exhaust)
    then show ?thesis
    proof cases
      case (arg t rest)
      consider (opt) "ident = ''Option''" | (vec) "ident \<in> set vec_idents" "ident \<noteq> ''Option''"
        | (box) "ident \<in> set box_idents" "ident \<noteq> ''Option''" "ident \<notin> set vec_idents"
        | (res) "ident = ''Result''" "ident \<notin> set vec_idents" "ident \<notin> set box_idents"
        | (unknown) "ident \<noteq> ''Option''" "ident \<notin> set vec_idents" "ident \<notin> set box_idents" "ident \<noteq> ''Result''"
        by blast
      then show ?thesis
      proof cases
        case opt
        then show ?thesis using "1.prems" "1.IH"(1) unmanaged arg
          by (auto split: val.splits option.splits intro!: visits_option)
      next
        case vec
        then show ?thesis using "1.prems" "1.IH"(2) unmanaged arg
          by (auto split: val.splits simp: list_all_iff intro!: visits_for)
      next
        case box
        then show ?thesis using "1.prems" "1.IH"(3) unmanaged arg
          by (auto split: val.splits intro!: visits_box)
      next
        case res
        then obtain r t' rest' where r: "v = VRes r" "rest = TypeArg t' # rest'"
          "\<And>x. r = Inr x \<Longrightarrow> has_ty t x" "\<And>x. r = Inl x \<Longrightarrow> has_ty t' x"
          using "1.prems"(1) unmanaged arg
          by (cases v; cases rest; cases "hd rest") (auto split: sum.splits)
        then show ?thesis using "1.prems"(2) "1.IH"(4,5) unmanaged arg res
          by (auto intro!: visits_result)
      next
        case unknown
        then show ?thesis using "1.prems" unmanaged arg by (simp add: visits_none)
      qed
    next
      case (other rest)
      then show ?thesis using "1.prems" unmanaged by (auto simp: visits_none)
    next
      case none
      then show ?thesis using "1.prems" unmanaged by (auto simp: visits_none)
    qed
  qed
next
  case (2 ts e m)
  then obtain vs where vs: "v = VTuple vs" "list_all2 has_ty ts vs" by (auto split: val.splits)
  then show ?case using "2.IH" [of env "[]" vs] "2.prems"(2)
    by (cases "gen_elems ts 0 e m") (auto simp: visits_def)
next
  case (3 t e m)
  then show ?case by (auto split: val.splits simp: list_all_iff intro!: visits_for)
next
  case (4 t e m)
  then show ?case by (auto split: val.splits simp: list_all_iff intro!: visits_for)
next
  case (5 t e m)
  then show ?case by (auto split: val.splits intro!: visits_ref)
next
  case (10 t ts i e m)
  then obtain v vs' where vs: "vs = v # vs'" "has_ty t v" "list_all2 has_ty ts vs'"
    by (auto simp: list_all2_Cons1)
  then have "visits (gen_trace_for_type t (Index e i) m) m env v"
    using "10.prems"(1,2) by (intro "10.IH"(1)) auto
  moreover have "in_order (map (\<lambda>c. run_code c env) (gen_elems ts (Suc i) e m)) = Some (map (Pair m) (concat (map all_ptrs vs')))"
    using "10.prems"(1,2) vs "10.IH"(2) [of env "ws @ [v]" vs'] "10.IH"(3) [of _ env "ws @ [v]" vs']
    by (cases "gen_trace_for_type t (Index e i) m") auto
  ultimately show ?case using vs(1) by (auto simp: visits_def split: option.splits)
qed (auto simp: visits_def)


section \<open>Fields and items\<close>

lemma of_char_digit: "n < 10 \<Longrightarrow> of_char (char_of (48 + n) :: char) = (48 + n :: nat)"
  by (simp add: of_char_of)

lemma digits_inverse: "foldl (\<lambda>a c. 10 * a + (of_char c - 48)) 0 (digits n) = n"
proof (induction n rule: digits.induct)
  case (1 n)
  then show ?case
    by (subst digits.simps) (auto simp: of_char_digit simp del: digits.simps)
qed

lemma field_binding_inject: "field_binding i = field_binding j \<longleftrightarrow> i = j"
  by (metis digits_inverse field_binding_def list.inject)

lemma in_order_filter:
  assumes "list_all2 (\<lambda>(t, e) v. visits (gen_trace_for_type t e m) m env v) tes vs"
  shows "in_order (map (\<lambda>c. run_code c env) (List.map_filter (\<lambda>(t, e). gen_trace_for_type t e m) tes)) =
    Some (map (Pair m) (concat (map all_ptrs vs)))"
  using assms
  by (induction rule: list_all2_induct)
    (auto simp: map_filter_simps visits_def split: option.splits)

text \<open>The expression of every field evaluates to the field.\<close>

definition fields_bound :: "fields \<Rightarrow> bool \<Rightarrow> 'l cenv \<Rightarrow> 'l val list \<Rightarrow> bool" where
  "fields_bound fs in_variant env vs = list_all2 (\<lambda>e v. eval_expr env e = Some v) (field_exprs fs in_variant) vs"

lemma fields_trace_visits:
  assumes "list_all2 has_ty (field_types fs) vs" "fields_bound fs in_variant env vs"
  shows "run_code (gen_fields_trace fs m in_variant) env = Some (map (Pair m) (concat (map all_ptrs vs)))"
proof -
  have "length (field_types fs) = length (field_exprs fs in_variant)"
    by (simp add: field_types_def field_exprs_def split: fields.split)
  then have "list_all2 (\<lambda>(t, e) v. visits (gen_trace_for_type t e m) m env v)
      (zip (field_types fs) (field_exprs fs in_variant)) vs"
    using assms by (auto simp: list_all2_conv_all_nth fields_bound_def intro: gen_trace_visits(1))
  then show ?thesis unfolding gen_fields_trace_def by (simp add: in_order_filter)
qed

definition fields_ok :: "fields \<Rightarrow> bool" where
  "fields_ok fs = distinct (pattern_names fs)"

lemma named_lookup:
  "distinct (map fst nts) \<Longrightarrow> length vs = length nts \<Longrightarrow> i < length nts \<Longrightarrow>
   map_of (zip (map fst nts) vs) (fst (nts ! i)) = Some (vs ! i)"
  using map_of_zip_nth [of "map fst nts" vs i] by simp

lemma unnamed_lookup:
  "length vs = n \<Longrightarrow> i < n \<Longrightarrow> map_of (zip (map field_binding [0..<n]) vs) (field_binding i) = Some (vs ! i)"
  using map_of_zip_nth [of "map field_binding [0..<n]" vs i]
  by (simp add: distinct_map inj_on_def field_binding_inject)

lemma self_env_bound:
  assumes "fields_ok fs" "length vs = length (field_types fs)"
  shows "fields_bound fs False (self_env fs vs) vs"
  using assms
  by (cases fs)
    (simp_all add: fields_bound_def fields_ok_def field_exprs_def self_env_def field_types_def pattern_names_def
      list_all2_conv_all_nth named_lookup)

lemma variant_env_bound:
  assumes "fields_ok fs" "length vs = length (field_types fs)"
  shows "fields_bound fs True (variant_env (pattern_names fs) vs) vs"
  using assms
  by (cases fs)
    (simp_all add: fields_bound_def fields_ok_def field_exprs_def variant_env_def field_types_def pattern_names_def
      list_all2_conv_all_nth named_lookup unnamed_lookup)

text \<open>
  The values of an item, and well-formed items: distinct field names and distinct variants, as the
  language demands.
\<close>

fun item_ok :: "data \<Rightarrow> 'l item \<Rightarrow> bool" where
  "item_ok (Struct fs) (StructItem vs) = (fields_ok fs \<and> list_all2 has_ty (field_types fs) vs)"
| "item_ok (Enum vars) (EnumItem n vs) =
     (distinct (map fst vars) \<and> (\<exists>fs. (n, fs) \<in> set vars \<and> fields_ok fs \<and> list_all2 has_ty (field_types fs) vs))"
| "item_ok _ _ = False"

fun item_ptrs :: "'l item \<Rightarrow> 'l list" where
  "item_ptrs (StructItem vs) = concat (map all_ptrs vs)"
| "item_ptrs (EnumItem n vs) = concat (map all_ptrs vs)"

lemma gen_body_visits:
  assumes "gen_body d m = Inr b" "item_ok d it"
  shows "run_body d b it = Some (map (Pair m) (item_ptrs it))"
  using assms
proof (induction d it rule: item_ok.induct)
  case (1 fs vs)
  then show ?case
    using fields_trace_visits [OF _ self_env_bound, of fs vs m] list_all2_lengthD [of has_ty "field_types fs" vs]
    by (auto simp: gen_body_def run_body_def)
next
  case (2 vars n vs)
  then obtain fs where fs: "(n, fs) \<in> set vars" "fields_ok fs" "list_all2 has_ty (field_types fs) vs" by auto
  let ?arm = "\<lambda>fs. (pattern_names fs, if fs = Unit then Seq [] else gen_fields_trace fs m True)"
  have b: "b = MatchSelf (map (\<lambda>(n, fs). (n, ?arm fs)) vars)" using "2.prems"(1) by (simp add: gen_body_def)
  have "map_of (map (\<lambda>(n, fs). (n, ?arm fs)) vars) n = Some (?arm fs)"
    using fs(1) "2.prems"(2) by (simp add: map_of_map map_of_is_SomeI)
  moreover have "run_code (gen_fields_trace fs m True) (variant_env (pattern_names fs) vs) =
      Some (map (Pair m) (concat (map all_ptrs vs)))"
    using fields_trace_visits [OF fs(3) variant_env_bound [OF fs(2)]] list_all2_lengthD [OF fs(3)] by simp
  moreover have "fs = Unit \<Longrightarrow> vs = []" using fs(3) by (auto simp: field_types_def)
  ultimately show ?case unfolding b by (auto simp: run_body_def)
qed auto

section \<open>Properties\<close>


text \<open>A node with a value, an optional pointer and a vector of pairs of a pointer and a number.\<close>

definition demo_data :: data where
  "demo_data = Enum
     [(''Leaf'', Unit),
      (''Node'', Unnamed [TPath ''usize'' None, TPath ''Option'' (Some [TypeArg (TPath ''Shared'' None)]),
        TPath ''Vec'' (Some [TypeArg (TTuple [TPath ''AtomicSharedOption'' None, TPath ''u8'' None])])])]"

definition demo_item :: "nat item" where
  "demo_item = EnumItem ''Node''
     [VOther, VOpt (Some (VPtr 1)), VSeq [VTuple [VPtr 2, VOther], VTuple [VPtr 3, VOther]]]"


end
