(* ===== verification/Alloc_Spec.thy ===== *)
theory Alloc_Spec
  imports Pointer_Spec
begin

text \<open>
  Allocation: the registration of types, the fresh object with its header, and the step that turns the
  pointers stored in a new object from roots into edges of the managed heap (\<^verbatim>\<open>unroot\<close>).
\<close>

section \<open>The registry of types\<close>

text \<open>
  Between registrations every registered type has an id of its own below the counter, and the entry of
  that id in the shade table is the type's.
\<close>

definition registry_ok :: "'v rt \<Rightarrow> bool" where
  "registry_ok s \<longleftrightarrow>
     unat (next_type_id s) = length (type_set s) \<and> length (type_set s) \<le> MAX_TYPE_ID \<and>
     distinct (map fst (type_set s)) \<and> distinct (map snd (type_set s)) \<and>
     (\<forall>(ty, i)\<in>set (type_set s). unat i < length (type_set s) \<and> shade_fns s (unat i) = Some ty)"

lemma MAX_TYPE_ID_256: "MAX_TYPE_ID = 256"
  by (simp add: MAX_TYPE_ID_def meta_layout)

lemma unat_ucast_small: "unat (n :: usize) < 256 \<Longrightarrow> unat (ucast n :: u32) = unat n"
  by (simp add: unsigned_ucast_eq take_bit_nat_eq_self)

lemma unat_ucast_u8: "unat (n :: 'a :: len word) < 256 \<Longrightarrow> unat (ucast n :: u8) = unat n"
  by (simp add: unsigned_ucast_eq take_bit_nat_eq_self)

lemma registered_alone:
  assumes "registry_ok s" "(ty, i) \<in> set (type_set s)"
  shows "register_type ty (s, []) = Some (Inr (ucast i), s, [])"
proof -
  have m: "map_of (type_set s) ty = Some i" using assms by (simp add: registry_ok_def)
  have "unat i < 256" using assms by (auto simp: registry_ok_def MAX_TYPE_ID_256)
  then have "i \<noteq> ID_UNSET" by (auto simp: ID_UNSET_def unsigned_minus_1_eq_mask mask_eq_exp_minus_1)
  then show ?thesis using m
    by (simp add: register_type_def type_set_get_or_insert_def load_type_id_def act_simps bind_def)
qed

definition register_fresh :: "nat \<Rightarrow> 'v rt \<Rightarrow> 'v rt" where
  "register_fresh ty s =
     s\<lparr>type_set := (ty, ucast (next_type_id s)) # type_set s, next_type_id := next_type_id s + 1,
       shade_fns := (shade_fns s)(unat (next_type_id s) := Some ty)\<rparr>"

lemma register_fresh_alone:
  assumes "registry_ok s" "ty \<notin> fst ` set (type_set s)" "length (type_set s) < MAX_TYPE_ID"
  shows "register_type ty (s, []) = Some (Inr (ucast (next_type_id s)), register_fresh ty s, [])"
proof -
  have n: "unat (next_type_id s) < 256" using assms by (simp add: registry_ok_def MAX_TYPE_ID_256)
  have m: "map_of (type_set s) ty = None" using assms(2) by (simp add: map_of_eq_None_iff)
  have k: "map (\<lambda>(t, i). if t = ty then (t, ucast (next_type_id s)) else (t, i)) (type_set s) = type_set s"
    using assms(2) by (intro map_idI) force
  show ?thesis using assms n m k
    by (simp add: register_type_def type_set_get_or_insert_def act_simps MAX_TYPE_ID_256 register_fresh_def)
qed

lemma register_fresh_ok:
  assumes "registry_ok s" "ty \<notin> fst ` set (type_set s)" "length (type_set s) < MAX_TYPE_ID"
  shows "registry_ok (register_fresh ty s)"
proof -
  have n: "unat (next_type_id s) = length (type_set s)" "length (type_set s) < 256"
    using assms by (simp_all add: registry_ok_def MAX_TYPE_ID_256)
  then have "unat (next_type_id s + 1) = Suc (length (type_set s))"
    by (simp add: unat_plus_if' flip: n(1))
  moreover have u: "unat (ucast (next_type_id s) :: u32) = length (type_set s)"
    using unat_ucast_small n by simp
  moreover have "ucast (next_type_id s) \<notin> snd ` set (type_set s)"
    using assms(1) u by (force simp: registry_ok_def)
  ultimately show ?thesis using assms n
    by (auto simp: registry_ok_def register_fresh_def MAX_TYPE_ID_256 dest!: bspec)
qed

text \<open>Registering a list of types one after the other.\<close>

lemma register_full_alone:
  assumes "registry_ok s" "ty \<notin> fst ` set (type_set s)" "length (type_set s) = MAX_TYPE_ID"
  shows "register_type ty (s, []) = Some (Inl HashSetFull, s, [])"
  using assms by (simp add: register_type_def type_set_get_or_insert_def act_simps map_of_eq_None_iff)


lemma register_type_alone:
  assumes "registry_ok s" "ty \<in> fst ` set (type_set s) \<or> length (type_set s) < MAX_TYPE_ID"
  shows "\<exists>tid s'. register_type ty (s, []) = Some (Inr tid, s', []) \<and> registry_ok s' \<and>
    (ty, tid) \<in> (\<lambda>(t, i). (t, ucast i)) ` set (type_set s') \<and> set (type_set s) \<subseteq> set (type_set s') \<and>
    fst ` set (type_set s') = insert ty (fst ` set (type_set s)) \<and> heap s' = heap s \<and> cells s' = cells s"
proof (cases "ty \<in> fst ` set (type_set s)")
  case True
  then obtain i where i: "(ty, i) \<in> set (type_set s)" by auto
  show ?thesis using registered_alone [OF assms(1) i] i assms(1) by force
next
  case False
  let ?n = "next_type_id s"
  have l: "length (type_set s) < MAX_TYPE_ID" using False assms(2) by blast
  then have "unat ?n < 256" using assms(1) by (simp add: registry_ok_def MAX_TYPE_ID_256)
  then have "(ucast (ucast ?n :: u32) :: u8) = ucast ?n"
    using unat_ucast_u8 [of ?n] unat_ucast_u8 [of "ucast ?n :: u32"] unat_ucast_small [of ?n]
    by (simp add: word_unat_eq_iff)
  then show ?thesis
    using register_fresh_alone [OF assms(1) False l] register_fresh_ok [OF assms(1) False l]
    by (auto simp: register_fresh_def intro: rev_image_eqI)
qed

lemma registry_id_inject:
  assumes "registry_ok s" "(t, i) \<in> set (type_set s)" "(t', i') \<in> set (type_set s)"
  shows "(ucast i :: u8) = ucast i' \<longleftrightarrow> t = t'"
proof -
  have u: "unat i < 256" "unat i' < 256" using assms by (auto simp: registry_ok_def MAX_TYPE_ID_256)
  have "(ucast i :: u8) = ucast i' \<longleftrightarrow> i = i'"
    using unat_ucast_u8 [OF u(1)] unat_ucast_u8 [OF u(2)] by (auto simp: word_unat_eq_iff)
  also have "\<dots> \<longleftrightarrow> t = t'"
    using assms unfolding registry_ok_def distinct_map inj_on_def by (metis fst_conv snd_conv)
  finally show ?thesis .
qed

text \<open>Registering a list of types one after the other gives the list of their ids.\<close>

lemma register_types_alone:
  assumes "registry_ok s" "card (set tys \<union> fst ` set (type_set s)) \<le> MAX_TYPE_ID"
  shows "\<exists>ids s'. act_map register_type tys (s, []) = Some (Inr ids, s', []) \<and> registry_ok s' \<and>
    list_all2 (\<lambda>ty tid. (ty, tid) \<in> (\<lambda>(t, i). (t, ucast i)) ` set (type_set s')) tys ids \<and>
    set (type_set s) \<subseteq> set (type_set s') \<and>
    fst ` set (type_set s') = set tys \<union> fst ` set (type_set s)"
  using assms
proof (induction tys arbitrary: s)
  case Nil
  then show ?case by (simp add: act_simps)
next
  case (Cons ty tys)
  have "length (type_set s) < MAX_TYPE_ID" if "ty \<notin> fst ` set (type_set s)"
  proof -
    have "length (type_set s) = card (fst ` set (type_set s))"
      using Cons.prems(1) by (simp add: registry_ok_def distinct_card flip: length_map set_map)
    also have "\<dots> < card (set (ty # tys) \<union> fst ` set (type_set s))"
      using that by (intro psubset_card_mono) auto
    finally show ?thesis using Cons.prems(2) by simp
  qed
  then obtain tid s1 where 1: "register_type ty (s, []) = Some (Inr tid, s1, [])" "registry_ok s1"
    "(ty, tid) \<in> (\<lambda>(t, i). (t, ucast i)) ` set (type_set s1)" "set (type_set s) \<subseteq> set (type_set s1)"
    "fst ` set (type_set s1) = insert ty (fst ` set (type_set s))"
    using register_type_alone [OF Cons.prems(1), of ty] by blast
  have "card (set tys \<union> fst ` set (type_set s1)) \<le> MAX_TYPE_ID"
    using Cons.prems(2) 1(5) by simp
  then obtain ids s2 where 2: "act_map register_type tys (s1, []) = Some (Inr ids, s2, [])" "registry_ok s2"
    "list_all2 (\<lambda>ty tid. (ty, tid) \<in> (\<lambda>(t, i). (t, ucast i)) ` set (type_set s2)) tys ids"
    "set (type_set s1) \<subseteq> set (type_set s2)" "fst ` set (type_set s2) = set tys \<union> fst ` set (type_set s1)"
    using Cons.IH [OF 1(2)] by blast
  then show ?case using 1 by (auto simp: act_simps)
qed


lemma registered_shade_fn:
  assumes "registry_ok s" "(ty, tid) \<in> (\<lambda>(t, i). (t, ucast i)) ` set (type_set s)"
  shows "get_shade_fn tid (s, []) = Some (Inr ty, s, [])"
proof -
  obtain i where i: "(ty, i) \<in> set (type_set s)" "tid = ucast i" using assms(2) by auto
  then have "unat i < 256" "shade_fns s (unat i) = Some ty"
    using assms(1) by (auto simp: registry_ok_def MAX_TYPE_ID_256)
  then show ?thesis using i(2) by (simp add: get_shade_fn_def act_simps unat_ucast_u8)
qed

lemma registry_new: "registry_ok (global_new p b c r)"
  by (simp add: registry_ok_def global_new_def MAX_TYPE_ID_256)

section \<open>Properties of the registry\<close>

text \<open>
  C18: at most 256 different types can be registered, in any order and any number of times each: the
  registrations succeed, two of them return the same id exactly if they are of the same type, and the
  shade table maps each id back to its type.
\<close>

theorem type_ids_unique:
  assumes "card (set tys) \<le> MAX_TYPE_ID"
  shows "\<exists>ids s'. act_map register_type tys (global_new par blocks choices races :: 'v rt, []) = Some (Inr ids, s', []) \<and>
    length ids = length tys \<and>
    (\<forall>i < length tys. \<forall>j < length tys. ids ! i = ids ! j \<longleftrightarrow> tys ! i = tys ! j) \<and>
    (\<forall>i < length tys. get_shade_fn (ids ! i) (s', []) = Some (Inr (tys ! i), s', []))"
proof -
  let ?s = "global_new par blocks choices races :: 'v rt"
  have "type_set ?s = []" by (simp add: global_new_def)
  then have "card (set tys \<union> fst ` set (type_set ?s)) \<le> MAX_TYPE_ID" using assms by simp
  from register_types_alone [OF registry_new this]
  obtain ids s' where s': "act_map register_type tys (?s, []) = Some (Inr ids, s', [])" "registry_ok s'"
    "list_all2 (\<lambda>ty tid. (ty, tid) \<in> (\<lambda>(t, i). (t, ucast i)) ` set (type_set s')) tys ids"
    by blast
  then have l: "length ids = length tys"
    and e: "\<And>i. i < length tys \<Longrightarrow> (tys ! i, ids ! i) \<in> (\<lambda>(t, i). (t, ucast i)) ` set (type_set s')"
    by (auto simp: list_all2_conv_all_nth)
  have "ids ! i = ids ! j \<longleftrightarrow> tys ! i = tys ! j" if "i < length tys" "j < length tys" for i j
    using e [OF that(1)] e [OF that(2)] registry_id_inject [OF s'(2)] by force
  then show ?thesis using s'(1) l e registered_shade_fn [OF s'(2)] by blast
qed

theorem type_ids_unique_witness:
  "\<exists>ids s'. act_map register_type [7, 9, 7] (global_new None [] [] [] :: nat rt, []) = Some (Inr ids, s', []) \<and>
     ids ! 0 = ids ! 2 \<and> ids ! 0 \<noteq> ids ! 1 \<and> get_shade_fn (ids ! 1) (s', []) = Some (Inr 9, s', [])"
proof -
  have "card (set [7, 9, 7 :: nat]) \<le> MAX_TYPE_ID"
    using card_length [of "[7, 9, 7 :: nat]"] by (simp add: MAX_TYPE_ID_256)
  from type_ids_unique [OF this, of None "[]" "[]" "[]"] obtain ids s' where
    r: "act_map register_type [7, 9, 7] (global_new None [] [] [] :: nat rt, []) = Some (Inr ids, s', [])"
    and i: "\<forall>i < length [7, 9, 7 :: nat]. \<forall>j < length [7, 9, 7 :: nat]. ids ! i = ids ! j \<longleftrightarrow> [7, 9, 7 :: nat] ! i = [7, 9, 7] ! j"
    and g: "\<forall>i < length [7, 9, 7 :: nat]. get_shade_fn (ids ! i) (s', []) = Some (Inr ([7, 9, 7] ! i), s', [])"
    by blast
  have "ids ! 0 = ids ! 2" "ids ! 0 \<noteq> ids ! 1" "get_shade_fn (ids ! 1) (s', []) = Some (Inr 9, s', [])"
    using i [rule_format, of 0 2] i [rule_format, of 0 1] g [rule_format, of 1] by simp_all
  then show ?thesis using r by blast
qed



section \<open>Edges of new objects\<close>

text \<open>
  \<^verbatim>\<open>unroot\<close> on a link that is not disturbed: the object loses one root, is scheduled if that was the last
  one while the collector traces, and the link gets the allocation colour.
\<close>

lemma unroot_alone:
  assumes l: "read_link l s = Inr p" and c: "counted k p s" and ph: "global_phase s = Inr ph"
    and al: "thread_alloc_color s (g_local g) = Inr col"
  shows "\<exists>s1. unroot k l g (s, []) = Some (Inr (), write_link l (with_meta (Unrooted col) p) s1, []) \<and>
    scheduled g (deletion_marks k p g s) (count_down k p s) s1"
proof -
  have "\<exists>s1. (case as_ref k p of None \<Rightarrow> ret () | Some obj \<Rightarrow>
      bind (obj_decrement_root_count obj) (\<lambda>count.
        if count = 1 then bind global_phase_with_fence (\<lambda>phase.
          act_when (phase \<noteq> N) (bind (shade_pointee k p g) (\<lambda>_. ret ())))
        else ret ())) (s, []) = Some (Inr (), s1, []) \<and>
      scheduled g (deletion_marks k p g s) (count_down k p s) s1"
  proof (cases "as_ref k p")
    case None
    then show ?thesis by (simp add: act_simps deletion_marks_def adjust_count_def)
  next
    case (Some a)
    show ?thesis using release_alone [OF c ph Some, of g "()"] Some
      by (simp add: seq_def bind_ret_right)
  qed
  then obtain s1 where s1: "(case as_ref k p of None \<Rightarrow> ret () | Some obj \<Rightarrow>
      bind (obj_decrement_root_count obj) (\<lambda>count.
        if count = 1 then bind global_phase_with_fence (\<lambda>phase.
          act_when (phase \<noteq> N) (bind (shade_pointee k p g) (\<lambda>_. ret ())))
        else ret ())) (s, []) = Some (Inr (), s1, [])"
    "scheduled g (deletion_marks k p g s) (count_down k p s) s1" by blast
  have "read_link l s1 = Inr p" using scheduled_memory [OF s1(2)] l by simp
  moreover have "thread_epoch s1 (g_local g) = thread_epoch s (g_local g)"
    using scheduled_fields(4) [OF s1(2)] by (simp add: adjust_count_fields)
  then have "thread_alloc_color s1 (g_local g) = Inr col" using al by (simp only: thread_alloc_color_def)
  ultimately have "unroot k l g (s, []) = Some (Inr (), write_link l (with_meta (Unrooted col) p) s1, [])"
    using l s1(1) by (simp add: unroot_def link_load_def link_store_def act_simps)
  then show ?thesis using s1(2) by blast
qed

lemma unroot_effect:
  assumes l: "read_link l s = Inr p" and c: "counted k p s" and ph: "global_phase s = Inr ph"
    and al: "thread_alloc_color s (g_local g) = Inr col"
  shows "\<exists>s'. unroot k l g (s, []) = Some (Inr (), s', []) \<and>
    read_link l s' = Inr (with_meta (Unrooted col) p) \<and> (\<forall>l'. l' \<noteq> l \<longrightarrow> read_link l' s' = read_link l' s) \<and>
    (\<forall>a. header_at s' a = header_at (count_down k p s) a) \<and>
    mark_tasks (locals s' (g_local g)) = mark_tasks (locals s (g_local g)) @ deletion_marks k p g s \<and>
    global_phase s' = Inr ph \<and> thread_alloc_color s' (g_local g) = Inr col"
proof -
  obtain s1 where s1: "unroot k l g (s, []) = Some (Inr (), write_link l (with_meta (Unrooted col) p) s1, [])"
    "scheduled g (deletion_marks k p g s) (count_down k p s) s1"
    using unroot_alone [OF assms] by blast
  note f = scheduled_fields [OF s1(2)]
  have r: "read_link l' s1 = read_link l' s" for l' using scheduled_memory [OF s1(2)] by simp
  have "thread_epoch s1 (g_local g) = thread_epoch s (g_local g)" using f(4) by simp
  then have al': "thread_alloc_color s1 (g_local g) = Inr col" using al by (simp only: thread_alloc_color_def)
  let ?s = "write_link l (with_meta (Unrooted col) p) s1"
  have lo: "locals ?s = locals s1" "global_epoch ?s = global_epoch s1" by simp_all
  then have "thread_epoch ?s (g_local g) = thread_epoch s1 (g_local g)" by (simp add: thread_epoch_def)
  then have "thread_alloc_color ?s (g_local g) = Inr col" using al' by (simp only: thread_alloc_color_def)
  moreover have "mark_tasks (locals ?s (g_local g)) = mark_tasks (locals s (g_local g)) @ deletion_marks k p g s"
    using f(5) by simp
  moreover have "global_phase ?s = Inr ph" using ph f(3) by simp
  moreover have "header_at ?s a = header_at (count_down k p s) a" for a
    using f(1) by (simp add: header_at_def write_link_header)
  moreover have "read_link l ?s = Inr (with_meta (Unrooted col) p)"
    by (rule read_write_link) (simp add: r l)
  moreover have "read_link l' ?s = read_link l' s" if "l' \<noteq> l" for l'
    using read_write_other that r by metis
  ultimately show ?thesis using s1(1) by blast
qed

lemma demo_alloc: "thread_alloc_color demo_rt (g_local demo_guard) = Inr C0"
proof -
  have e: "thread_epoch demo_rt (g_local demo_guard) = atomic_epoch_load_non_atomic (atomic_epoch_new starting)"
    by (simp add: thread_epoch_def demo_rt_def global_new_def participant_default_def)
  have "epoch_phase (atomic_epoch_load_non_atomic (atomic_epoch_new starting)) = Inr N"
    "epoch_color (atomic_epoch_load_non_atomic (atomic_epoch_new starting)) = C0" by code_simp+
  then show ?thesis by (simp add: thread_alloc_color_def e)
qed

section \<open>Properties of unrooting\<close>

text \<open>
  C19: unrooting a link of a newly allocated object: the object it points to counts one root less, is
  scheduled for marking if that was its last root and the collector is tracing, and the link becomes an
  edge of the managed heap with the allocation colour; all other links stay as they are.
\<close>

theorem unroot_spec:
  assumes "read_link l s = Inr p" "counted k p s" "global_phase s = Inr ph"
    and "thread_alloc_color s (g_local g) = Inr col"
  shows "\<exists>s'. unroot k l g (s, []) = Some (Inr (), s', []) \<and>
    read_link l s' = Inr (with_meta (Unrooted col) p) \<and> (\<forall>l'. l' \<noteq> l \<longrightarrow> read_link l' s' = read_link l' s) \<and>
    (\<forall>a. roots_at s' a = (if as_ref k p = Some a then map_option (\<lambda>n. n - 1) (roots_at s a) else roots_at s a)) \<and>
    mark_tasks (locals s' (g_local g)) = mark_tasks (locals s (g_local g)) @ deletion_marks k p g s"
proof -
  obtain s' where s': "unroot k l g (s, []) = Some (Inr (), s', [])"
    "read_link l s' = Inr (with_meta (Unrooted col) p)" "\<forall>l'. l' \<noteq> l \<longrightarrow> read_link l' s' = read_link l' s"
    "\<forall>a. header_at s' a = header_at (count_down k p s) a"
    "mark_tasks (locals s' (g_local g)) = mark_tasks (locals s (g_local g)) @ deletion_marks k p g s"
    using unroot_effect [OF assms] by blast
  have "roots_at s' a = (if as_ref k p = Some a then map_option (\<lambda>n. n - 1) (roots_at s a) else roots_at s a)" for a
    using assms(2) s'(4) decrement_root_count_fields(2) [OF _ prod.collapse [symmetric]]
    by (auto simp: roots_at_def header_at_adjust counted_def)
  then show ?thesis using s' by blast
qed

theorem unroot_spec_witness:
  "\<exists>s'. unroot 3 (Root_Cell 0) demo_guard (demo_rt, []) = Some (Inr (), s', []) \<and>
    read_link (Root_Cell 0) s' = Inr (with_meta (Unrooted C0) (man_ptr_from 0x1000)) \<and>
    roots_at s' 0x1000 = Some 0 \<and> roots_at s' 0x2000 = Some 1 \<and> mark_tasks (locals s' 0) = [0x1000]"
proof -
  let ?p = "man_ptr_from 0x1000"
  have p: "read_link (Root_Cell 0) demo_rt = Inr ?p" by (simp add: read_link_def demo_rt_def)
  have c: "counted 3 ?p demo_rt" using demo_counts demo_words by blast
  have d: "deletion_marks 3 ?p demo_guard demo_rt = [0x1000]"
    by (simp add: deletion_marks_def to_shade_header demo_words demo_headers demo_epochs)
  obtain s' where s': "unroot 3 (Root_Cell 0) demo_guard (demo_rt, []) = Some (Inr (), s', [])"
    "read_link (Root_Cell 0) s' = Inr (with_meta (Unrooted C0) ?p)"
    "\<forall>a. roots_at s' a = (if as_ref 3 ?p = Some a then map_option (\<lambda>n. n - 1) (roots_at demo_rt a) else roots_at demo_rt a)"
    "mark_tasks (locals s' (g_local demo_guard)) = mark_tasks (locals demo_rt (g_local demo_guard)) @ deletion_marks 3 ?p demo_guard demo_rt"
    using unroot_spec [OF p c demo_epochs(1) demo_alloc] by blast
  have "roots_at s' 0x1000 = Some 0" "roots_at s' 0x2000 = Some 1"
    using s'(3) by (simp_all add: demo_words demo_headers)
  moreover have "mark_tasks (locals s' 0) = [0x1000]" using s'(4) d by (simp add: demo_tasks demo_epochs)
  ultimately show ?thesis using s'(1,2) by blast
qed

text \<open>
  C29: \<^verbatim>\<open>unroot\<close> does not look at the kind of the link: a second call on a link that is already an edge
  of the managed heap takes a second root from the object, although the link held only one. An object
  with two roots, one of them elsewhere, is left with none.
\<close>

theorem unroot_twice:
  assumes "read_link l s = Inr p" "as_ref k p = Some a" "roots_at s a = Some 2" "global_phase s = Inr ph"
    and "thread_alloc_color s (g_local g) = Inr col"
  shows "\<exists>s'. bind (unroot k l g) (\<lambda>_. unroot k l g) (s, []) = Some (Inr (), s', []) \<and>
    read_link l s' = Inr (with_meta (Unrooted col) p) \<and> (\<forall>l'. l' \<noteq> l \<longrightarrow> read_link l' s' = read_link l' s) \<and>
    roots_at s' a = Some 0"
proof -
  have c: "counted k p s" using assms(2,3) by (auto simp: counted_def roots_at_def)
  obtain s1 where s1: "unroot k l g (s, []) = Some (Inr (), s1, [])"
    "read_link l s1 = Inr (with_meta (Unrooted col) p)" "\<forall>l'. l' \<noteq> l \<longrightarrow> read_link l' s1 = read_link l' s"
    "\<forall>a. header_at s1 a = header_at (count_down k p s) a" "global_phase s1 = Inr ph"
    "thread_alloc_color s1 (g_local g) = Inr col"
    using unroot_effect [OF assms(1) c assms(4,5)] by blast
  obtain h where h: "header_at s a = Some h" "root_count h = 2" using assms(3) by (auto simp: roots_at_def)
  let ?h = "fst (decrement_root_count h)"
  have h1: "header_at s1 a = Some ?h" "root_count ?h = 1"
    using s1(4) assms(2) h decrement_root_count_fields(2) [OF _ prod.collapse [symmetric], of h]
    by (auto simp: header_at_adjust)
  have r1: "as_ref k (with_meta (Unrooted col) p) = Some a" using assms(2) by (simp add: ptr_simps)
  then have c1: "counted k (with_meta (Unrooted col) p) s1" using h1 by (auto simp: counted_def)
  obtain s2 where s2: "unroot k l g (s1, []) = Some (Inr (), s2, [])"
    "read_link l s2 = Inr (with_meta (Unrooted col) (with_meta (Unrooted col) p))"
    "\<forall>l'. l' \<noteq> l \<longrightarrow> read_link l' s2 = read_link l' s1"
    "\<forall>a. header_at s2 a = header_at (count_down k (with_meta (Unrooted col) p) s1) a"
    using unroot_effect [OF s1(2) c1 s1(5,6)] by blast
  have "roots_at s2 a = Some 0"
    using s2(4) r1 h1 decrement_root_count_fields(2) [OF _ prod.collapse [symmetric], of ?h]
    by (auto simp: roots_at_def header_at_adjust)
  moreover have "read_link l s2 = Inr (with_meta (Unrooted col) p)" using s2(2) by (simp add: ptr_simps)
  ultimately show ?thesis using s1 s2 by (auto simp: bind_def)
qed

theorem unroot_twice_witness:
  "\<exists>s s' :: nat rt. bind (unroot 3 (Root_Cell 0) demo_guard) (\<lambda>_. unroot 3 (Root_Cell 0) demo_guard) (s, []) = Some (Inr (), s', []) \<and>
    roots_at s 0x1000 = Some 2 \<and> roots_at s' 0x1000 = Some 0"
proof -
  let ?p = "man_ptr_from 0x1000"
  let ?s = "count_up 3 ?p demo_rt"
  have "read_link (Root_Cell 0) demo_rt = Inr ?p" by (simp add: read_link_def demo_rt_def)
  then have p: "read_link (Root_Cell 0) ?s = Inr ?p" by simp
  have "root_count (fst (increment_root_count (new_with_type_id C0 1 0))) = 2" by code_simp
  then have r: "roots_at ?s 0x1000 = Some 2"
    by (simp add: roots_at_def header_at_adjust demo_words demo_headers(1))
  have "thread_epoch ?s (g_local demo_guard) = thread_epoch demo_rt (g_local demo_guard)" by simp
  then have a: "thread_alloc_color ?s (g_local demo_guard) = Inr C0"
    using demo_alloc by (simp only: thread_alloc_color_def)
  have ph: "global_phase ?s = Inr RT" using demo_epochs(1) by simp
  obtain s' where "bind (unroot 3 (Root_Cell 0) demo_guard) (\<lambda>_. unroot 3 (Root_Cell 0) demo_guard) (?s, []) = Some (Inr (), s', [])"
    "roots_at s' 0x1000 = Some 0"
    using unroot_twice [OF p demo_words(6) r ph a] by blast
  then show ?thesis using r by blast
qed

end
