(* ===== verification/Linearize.thy ===== *)
theory Linearize
  imports Main
begin

text \<open>
  Labelled transition systems with silent steps, the traces of their visible events, and forward
  simulation as an interface: a concrete system whose every step is matched by a run of the abstract one
  has only traces of the abstract one. With an abstract system that performs each operation in a single
  atomic step between its invocation and its response, trace inclusion is linearizability.
\<close>

inductive exec :: "('s \<Rightarrow> 'e option \<Rightarrow> 's \<Rightarrow> bool) \<Rightarrow> 's \<Rightarrow> 'e list \<Rightarrow> 's \<Rightarrow> bool"
  for step :: "'s \<Rightarrow> 'e option \<Rightarrow> 's \<Rightarrow> bool" and s :: 's where
  exec_refl: "exec step s [] s"
| exec_silent: "exec step s tr s' \<Longrightarrow> step s' None s'' \<Longrightarrow> exec step s tr s''"
| exec_visible: "exec step s tr s' \<Longrightarrow> step s' (Some e) s'' \<Longrightarrow> exec step s (tr @ [e]) s''"

lemma exec_trans:
  assumes "exec step s tr s'" "exec step s' tr' s''"
  shows "exec step s (tr @ tr') s''"
  using assms(2,1)
proof (induction rule: exec.induct)
  case (exec_visible tr' s'' e s''')
  then show ?case using exec.exec_visible [of step s "tr @ tr'" s'' e s'''] by simp
qed (auto intro: exec.intros)

lemma exec_step: "step s e s' \<Longrightarrow> exec step s (case e of None \<Rightarrow> [] | Some x \<Rightarrow> [x]) s'"
  using exec_silent [OF exec_refl, of step s s'] exec_visible [OF exec_refl, of step s _ s']
  by (cases e) simp_all

locale forward_simulation =
  fixes cinit :: 'c and cstep :: "'c \<Rightarrow> 'e option \<Rightarrow> 'c \<Rightarrow> bool"
    and ainit :: 'a and astep :: "'a \<Rightarrow> 'e option \<Rightarrow> 'a \<Rightarrow> bool"
    and sim :: "'c \<Rightarrow> 'a \<Rightarrow> bool"
  assumes sim_init: "sim cinit ainit"
    and sim_step: "sim c a \<Longrightarrow> cstep c e c' \<Longrightarrow>
      \<exists>a'. exec astep a (case e of None \<Rightarrow> [] | Some x \<Rightarrow> [x]) a' \<and> sim c' a'"
begin

lemma sim_exec: "exec cstep cinit tr c \<Longrightarrow> \<exists>a. exec astep ainit tr a \<and> sim c a"
proof (induction rule: exec.induct)
  case exec_refl
  then show ?case using sim_init by (intro exI [of _ ainit] conjI exec.exec_refl)
next
  case (exec_silent tr c c')
  then obtain a where a: "exec astep ainit tr a" "sim c a" by blast
  then obtain a' where "exec astep a [] a'" "sim c' a'"
    using sim_step [OF a(2) exec_silent.hyps(2)] by auto
  then show ?case using exec_trans [OF a(1)] by fastforce
next
  case (exec_visible tr c e c')
  then obtain a where a: "exec astep ainit tr a" "sim c a" by blast
  then obtain a' where "exec astep a [e] a'" "sim c' a'"
    using sim_step [OF a(2) exec_visible.hyps(2)] by auto
  then show ?case using exec_trans [OF a(1)] by fastforce
qed

lemma trace_inclusion: "exec cstep cinit tr c \<Longrightarrow> \<exists>a. exec astep ainit tr a"
  using sim_exec by blast

lemma sim_invariant: "exec cstep cinit tr c \<Longrightarrow> (\<And>a. sim c a \<Longrightarrow> P c) \<Longrightarrow> P c"
  using sim_exec by blast

end

end
