(* ===== verification/MS_Queue.thy ===== *)
theory MS_Queue
  imports Cdpt_Prelude Linearize
begin

text \<open>
  The Michael--Scott queue that holds the object batches of the collector (\<^verbatim>\<open>src/src/sync/queue.rs\<close>), at
  the granularity of its single accesses to shared memory: any number of threads pin themselves, push,
  pop and pop conditionally, interleaved in any way, while the epoch-based reclamation of the
  \<^verbatim>\<open>crossbeam\<close> crate frees retired nodes. Of that crate only its documented contract is used: a node
  passed to \<^verbatim>\<open>defer_destroy\<close> is destroyed at some time after every guard that was held at that moment has
  been dropped. Nodes carry identities that are never reused; since no thread ever touches a freed node
  (\<open>queue_memory_safe\<close>), comparing identities and comparing addresses is the same.
\<close>

section \<open>State\<close>

record 'a node =
  n_data :: "'a option"    \<comment> \<open>\<^verbatim>\<open>MaybeUninit<T>\<close>\<close>
  n_next :: "nat option"   \<comment> \<open>\<^verbatim>\<open>None\<close> is the null pointer\<close>

record 'a queue =
  q_head :: nat
  q_tail :: nat
  q_nodes :: "nat \<Rightarrow> 'a node option"   \<comment> \<open>the allocated nodes\<close>
  q_fresh :: nat                       \<comment> \<open>the identity of the next allocated node\<close>
  q_pinned :: "nat set"                \<comment> \<open>the threads that hold a guard\<close>
  q_garbage :: "nat \<Rightarrow> nat set option" \<comment> \<open>retired nodes, with the guards they wait for\<close>

text \<open>Operations and results: a push, or a pop with the condition of \<^verbatim>\<open>try_pop_if\<close> if it has one.\<close>

datatype 'a qop = Push 'a | TryPop "('a \<Rightarrow> bool) option"

datatype 'a qres = Pushed | Popped "'a option"

text \<open>Where a thread stands; the constructors follow the accesses to shared memory in program order.\<close>

datatype 'a qpc =
    Unpinned
  | Ready                                              \<comment> \<open>holds a guard, no operation in progress\<close>
  | PushTail nat                                       \<comment> \<open>\<^verbatim>\<open>push\<close>: load the tail\<close>
  | PushNext nat nat                                   \<comment> \<open>\<^verbatim>\<open>push_internal\<close>: load \<^verbatim>\<open>onto.next\<close>\<close>
  | PushHelp nat nat nat                               \<comment> \<open>help to move the tail forward\<close>
  | PushLink nat nat                                   \<comment> \<open>link the new node\<close>
  | PushSwing nat nat                                  \<comment> \<open>move the tail to the new node\<close>
  | PopHead "('a \<Rightarrow> bool) option"                       \<comment> \<open>\<^verbatim>\<open>pop_internal\<close>: load the head\<close>
  | PopNext "('a \<Rightarrow> bool) option" nat                   \<comment> \<open>load \<^verbatim>\<open>head.next\<close>\<close>
  | PopTest "'a \<Rightarrow> bool" nat nat                        \<comment> \<open>\<^verbatim>\<open>pop_if_internal\<close>: evaluate the condition\<close>
  | PopCas "('a \<Rightarrow> bool) option" nat nat                \<comment> \<open>move the head forward\<close>
  | PopTail nat nat                                    \<comment> \<open>load the tail\<close>
  | PopSwing nat nat                                   \<comment> \<open>move the tail off the old head\<close>
  | PopDefer nat nat                                   \<comment> \<open>\<^verbatim>\<open>defer_destroy(head)\<close>\<close>
  | PopRead nat                                        \<comment> \<open>read the value out of the new head\<close>
  | Finish "'a qres"
  | Fault                                              \<comment> \<open>access to a freed node or to uninitialised data, or double retirement\<close>

section \<open>Operations\<close>

definition queue_new :: "'a queue" where
  "queue_new =
     \<lparr>q_head = 0, q_tail = 0, q_nodes = [0 \<mapsto> \<lparr>n_data = None, n_next = None\<rparr>], q_fresh = 1,
      q_pinned = {}, q_garbage = Map.empty\<rparr>"

text \<open>The allocation of the node that \<^verbatim>\<open>push\<close> adds.\<close>

definition queue_alloc :: "'a \<Rightarrow> 'a queue \<Rightarrow> 'a queue" where
  "queue_alloc v q =
     q\<lparr>q_nodes := (q_nodes q)(q_fresh q \<mapsto> \<lparr>n_data = Some v, n_next = None\<rparr>), q_fresh := q_fresh q + 1\<rparr>"

text \<open>The guard of the \<^verbatim>\<open>crossbeam\<close> crate: pinning, unpinning, retiring and freeing a node.\<close>

definition guard_pin :: "nat \<Rightarrow> 'a queue \<Rightarrow> 'a queue" where
  "guard_pin t q = q\<lparr>q_pinned := insert t (q_pinned q)\<rparr>"

definition guard_unpin :: "nat \<Rightarrow> 'a queue \<Rightarrow> 'a queue" where
  "guard_unpin t q =
     q\<lparr>q_pinned := q_pinned q - {t}, q_garbage := map_option (\<lambda>w. w - {t}) \<circ> q_garbage q\<rparr>"

definition defer_destroy :: "nat \<Rightarrow> 'a queue \<Rightarrow> 'a queue" where
  "defer_destroy a q = q\<lparr>q_garbage := (q_garbage q)(a \<mapsto> q_pinned q)\<rparr>"

definition destroy_node :: "nat \<Rightarrow> 'a queue \<Rightarrow> 'a queue" where
  "destroy_node a q = q\<lparr>q_nodes := (q_nodes q)(a := None), q_garbage := (q_garbage q)(a := None)\<rparr>"

definition cas_tail :: "nat \<Rightarrow> nat \<Rightarrow> 'a queue \<Rightarrow> 'a queue" where
  "cas_tail old new q = (if q_tail q = old then q\<lparr>q_tail := new\<rparr> else q)"

text \<open>One access of a thread that is inside \<^verbatim>\<open>push\<close>.\<close>

fun push_step :: "'a qpc \<Rightarrow> 'a queue \<Rightarrow> 'a queue \<times> 'a qpc" where
  "push_step (PushTail new) q = (q, PushNext new (q_tail q))"
| "push_step (PushNext new onto) q =
     (case q_nodes q onto of
        None \<Rightarrow> (q, Fault)
      | Some o' \<Rightarrow> (q, case n_next o' of Some nxt \<Rightarrow> PushHelp new onto nxt | None \<Rightarrow> PushLink new onto))"
| "push_step (PushHelp new onto nxt) q = (cas_tail onto nxt q, PushTail new)"
| "push_step (PushLink new onto) q =
     (case q_nodes q onto of
        None \<Rightarrow> (q, Fault)
      | Some o' \<Rightarrow>
          if n_next o' = None
          then (q\<lparr>q_nodes := (q_nodes q)(onto \<mapsto> o'\<lparr>n_next := Some new\<rparr>)\<rparr>, PushSwing new onto)
          else (q, PushTail new))"
| "push_step (PushSwing new onto) q = (cas_tail onto new q, Finish Pushed)"
| "push_step pc q = (q, pc)"

text \<open>One access of a thread that is inside \<^verbatim>\<open>try_pop\<close> or \<^verbatim>\<open>try_pop_if\<close>.\<close>

fun pop_step :: "'a qpc \<Rightarrow> 'a queue \<Rightarrow> 'a queue \<times> 'a qpc" where
  "pop_step (PopHead c) q = (q, PopNext c (q_head q))"
| "pop_step (PopNext c head) q =
     (case q_nodes q head of
        None \<Rightarrow> (q, Fault)
      | Some h \<Rightarrow>
         (q, case n_next h of
               None \<Rightarrow> Finish (Popped None)
             | Some nxt \<Rightarrow> (case c of None \<Rightarrow> PopCas c head nxt | Some f \<Rightarrow> PopTest f head nxt)))"
| "pop_step (PopTest f head nxt) q =
     (case Option.bind (q_nodes q nxt) n_data of
        None \<Rightarrow> (q, Fault)
      | Some v \<Rightarrow> (q, if f v then PopCas (Some f) head nxt else Finish (Popped None)))"
| "pop_step (PopCas c head nxt) q =
     (if q_head q = head then (q\<lparr>q_head := nxt\<rparr>, PopTail head nxt) else (q, PopHead c))"
| "pop_step (PopTail head nxt) q = (q, if head = q_tail q then PopSwing head nxt else PopDefer head nxt)"
| "pop_step (PopSwing head nxt) q = (cas_tail head nxt q, PopDefer head nxt)"
| "pop_step (PopDefer head nxt) q =
     (if q_nodes q head = None \<or> q_garbage q head \<noteq> None then (q, Fault)
      else (defer_destroy head q, PopRead nxt))"
| "pop_step (PopRead nxt) q =
     (case Option.bind (q_nodes q nxt) n_data of
        None \<Rightarrow> (q, Fault)
      | Some v \<Rightarrow> (q, Finish (Popped (Some v))))"
| "pop_step pc q = (q, pc)"

fun pushing :: "'a qpc \<Rightarrow> bool" where
  "pushing (PushTail _) = True"
| "pushing (PushNext _ _) = True"
| "pushing (PushHelp _ _ _) = True"
| "pushing (PushLink _ _) = True"
| "pushing (PushSwing _ _) = True"
| "pushing _ = False"

fun popping :: "'a qpc \<Rightarrow> bool" where
  "popping (PopHead _) = True"
| "popping (PopNext _ _) = True"
| "popping (PopTest _ _ _) = True"
| "popping (PopCas _ _ _) = True"
| "popping (PopTail _ _) = True"
| "popping (PopSwing _ _) = True"
| "popping (PopDefer _ _) = True"
| "popping (PopRead _) = True"
| "popping _ = False"

definition queue_step :: "'a qpc \<Rightarrow> 'a queue \<Rightarrow> 'a queue \<times> 'a qpc" where
  "queue_step pc q = (if pushing pc then push_step pc q else pop_step pc q)"

fun start_op :: "'a qop \<Rightarrow> 'a queue \<Rightarrow> 'a queue \<times> 'a qpc" where
  "start_op (Push v) q = (queue_alloc v q, PushTail (q_fresh q))"
| "start_op (TryPop c) q = (q, PopHead c)"

text \<open>
  Dropping a queue: the owner pops until the queue is empty and frees the sentinel. With the
  \<^verbatim>\<open>unprotected\<close> guard, \<^verbatim>\<open>defer_destroy\<close> destroys the node at once.
\<close>

definition unprotected_step :: "'a qpc \<Rightarrow> 'a queue \<Rightarrow> 'a queue \<times> 'a qpc" where
  "unprotected_step pc q =
     (case pc of
        PopDefer head nxt \<Rightarrow>
          if q_nodes q head = None \<or> q_garbage q head \<noteq> None then (q, Fault)
          else (destroy_node head q, PopRead nxt)
      | _ \<Rightarrow> pop_step pc q)"

partial_function (option) run_unprotected :: "'a qpc \<Rightarrow> 'a queue \<Rightarrow> ('a qres \<times> 'a queue) outcome option" where
  "run_unprotected pc q =
     (case pc of
        Finish r \<Rightarrow> Some (Inr (r, q))
      | Fault \<Rightarrow> Some (Inl UseAfterFree)
      | _ \<Rightarrow> (case unprotected_step pc q of (q', pc') \<Rightarrow> run_unprotected pc' q'))"

declare run_unprotected.simps [code]

partial_function (option) queue_drop :: "'a list \<Rightarrow> 'a queue \<Rightarrow> ('a list \<times> 'a queue) outcome option" where
  "queue_drop vs q =
     (case run_unprotected (PopHead None) q of
        None \<Rightarrow> None
      | Some (Inl e) \<Rightarrow> Some (Inl e)
      | Some (Inr (r, q')) \<Rightarrow>
         (case r of
            Popped (Some v) \<Rightarrow> queue_drop (vs @ [v]) q'
          | _ \<Rightarrow>
             if q_nodes q' (q_head q') = None then Some (Inl UseAfterFree)
             else Some (Inr (vs, q'\<lparr>q_nodes := (q_nodes q')(q_head q' := None)\<rparr>))))"

declare queue_drop.simps [code]

section \<open>The concurrent system\<close>

datatype 'a qevent = Invoke nat "'a qop" | Respond nat "'a qres"

type_synonym 'a qsys = "'a queue \<times> (nat \<Rightarrow> 'a qpc)"

inductive queue_sys :: "'a qsys \<Rightarrow> 'a qevent option \<Rightarrow> 'a qsys \<Rightarrow> bool" where
  pin: "th t = Unpinned \<Longrightarrow> queue_sys (q, th) None (guard_pin t q, th(t := Ready))"
| unpin: "th t = Ready \<Longrightarrow> queue_sys (q, th) None (guard_unpin t q, th(t := Unpinned))"
| invoke: "th t = Ready \<Longrightarrow> start_op op q = (q', pc) \<Longrightarrow>
    queue_sys (q, th) (Some (Invoke t op)) (q', th(t := pc))"
| work: "pushing (th t) \<or> popping (th t) \<Longrightarrow> queue_step (th t) q = (q', pc) \<Longrightarrow>
    queue_sys (q, th) None (q', th(t := pc))"
| respond: "th t = Finish r \<Longrightarrow> queue_sys (q, th) (Some (Respond t r)) (q, th(t := Ready))"
| reclaim: "q_garbage q a = Some {} \<Longrightarrow> queue_sys (q, th) None (destroy_node a q, th)"

definition queue_init :: "'a qsys" where
  "queue_init = (queue_new, \<lambda>_. Unpinned)"

section \<open>Specification: an atomic first-in first-out queue\<close>

text \<open>What each operation does to a list, and its result.\<close>

fun fifo_op :: "'a qop \<Rightarrow> 'a list \<Rightarrow> 'a list \<times> 'a qres" where
  "fifo_op (Push v) xs = (xs @ [v], Pushed)"
| "fifo_op (TryPop c) [] = ([], Popped None)"
| "fifo_op (TryPop c) (x # xs) =
     (if (case c of None \<Rightarrow> True | Some f \<Rightarrow> f x) then (xs, Popped (Some x)) else (x # xs, Popped None))"

datatype 'a status = Idle | Pending "'a qop" | Effected "'a qres"

inductive fifo_sys :: "'a list \<times> (nat \<Rightarrow> 'a status) \<Rightarrow> 'a qevent option \<Rightarrow> 'a list \<times> (nat \<Rightarrow> 'a status) \<Rightarrow> bool"
where
  call: "st t = Idle \<Longrightarrow> fifo_sys (xs, st) (Some (Invoke t op)) (xs, st(t := Pending op))"
| effect: "st t = Pending op \<Longrightarrow> fifo_op op xs = (xs', r) \<Longrightarrow> fifo_sys (xs, st) None (xs', st(t := Effected r))"
| return: "st t = Effected r \<Longrightarrow> fifo_sys (xs, st) (Some (Respond t r)) (xs, st(t := Idle))"

definition fifo_init :: "'a list \<times> (nat \<Rightarrow> 'a status)" where
  "fifo_init = ([], \<lambda>_. Idle)"

section \<open>The simulation relation\<close>

text \<open>
  \<open>cs\<close> lists every node that was ever linked, in order; the head is the \<open>i\<close>-th, the tail the \<open>j\<close>-th of
  them. The tail lags behind the last node by at most one, retired and freed nodes lie strictly before
  head and tail, and the queue contains the values of the nodes after the head.
\<close>

definition val_at :: "'a queue \<Rightarrow> nat \<Rightarrow> 'a" where
  "val_at q a = the (Option.bind (q_nodes q a) n_data)"

definition contents :: "nat list \<Rightarrow> nat \<Rightarrow> 'a queue \<Rightarrow> 'a list" where
  "contents cs i q = map (\<lambda>k. val_at q (cs ! k)) [Suc i..<length cs]"

definition linked :: "nat list \<Rightarrow> nat \<Rightarrow> 'a node \<Rightarrow> bool" where
  "linked cs k nd \<longleftrightarrow> n_next nd = (if Suc k < length cs then Some (cs ! Suc k) else None) \<and> (0 < k \<longrightarrow> n_data nd \<noteq> None)"

definition well_linked :: "nat list \<Rightarrow> nat \<Rightarrow> nat \<Rightarrow> 'a queue \<Rightarrow> bool" where
  "well_linked cs i j q \<longleftrightarrow>
     distinct cs \<and> (\<forall>a\<in>set cs. a < q_fresh q) \<and> i < length cs \<and> j < length cs \<and> length cs \<le> j + 2 \<and>
     q_head q = cs ! i \<and> q_tail q = cs ! j \<and>
     (\<forall>k < length cs. \<forall>nd. q_nodes q (cs ! k) = Some nd \<longrightarrow> linked cs k nd) \<and>
     (\<forall>k < length cs. q_nodes q (cs ! k) = None \<or> q_garbage q (cs ! k) \<noteq> None \<longrightarrow> k < i \<and> k < j) \<and>
     (\<forall>a. q_garbage q a \<noteq> None \<longrightarrow> a \<in> set cs) \<and> finite (q_pinned q)"

text \<open>
  A position is safe for a thread if from there on no node is freed, or can be freed before the thread
  drops its guard. Every node a thread holds is at a safe position.
\<close>

definition safe :: "nat list \<Rightarrow> 'a queue \<Rightarrow> nat \<Rightarrow> nat \<Rightarrow> bool" where
  "safe cs q t k \<longleftrightarrow> k < length cs \<and>
     (\<forall>m < length cs. k \<le> m \<longrightarrow>
        q_nodes q (cs ! m) \<noteq> None \<and> (\<forall>w. q_garbage q (cs ! m) = Some w \<longrightarrow> t \<in> w))"

definition passes :: "('a \<Rightarrow> bool) option \<Rightarrow> 'a \<Rightarrow> bool" where
  "passes c v = (case c of None \<Rightarrow> True | Some f \<Rightarrow> f v)"

definition unlinked :: "nat list \<Rightarrow> 'a queue \<Rightarrow> nat \<Rightarrow> 'a status \<Rightarrow> bool" where
  "unlinked cs q new st \<longleftrightarrow> new \<notin> set cs \<and> new < q_fresh q \<and>
     (\<exists>v. q_nodes q new = Some \<lparr>n_data = Some v, n_next = None\<rparr> \<and> st = Pending (Push v))"

fun t_rel :: "nat list \<Rightarrow> nat \<Rightarrow> nat \<Rightarrow> 'a queue \<Rightarrow> nat \<Rightarrow> 'a qpc \<Rightarrow> 'a status \<Rightarrow> bool" where
  "t_rel cs i j q t Unpinned st = (st = Idle)"
| "t_rel cs i j q t Ready st = (st = Idle)"
| "t_rel cs i j q t (PushTail new) st = unlinked cs q new st"
| "t_rel cs i j q t (PushNext new onto) st =
     (unlinked cs q new st \<and> (\<exists>k \<le> j. safe cs q t k \<and> onto = cs ! k))"
| "t_rel cs i j q t (PushHelp new onto nxt) st =
     (unlinked cs q new st \<and> (\<exists>k. safe cs q t k \<and> Suc k < length cs \<and> onto = cs ! k \<and> nxt = cs ! Suc k))"
| "t_rel cs i j q t (PushLink new onto) st =
     (unlinked cs q new st \<and> (\<exists>k \<le> j. safe cs q t k \<and> onto = cs ! k))"
| "t_rel cs i j q t (PushSwing new onto) st =
     (st = Effected Pushed \<and> (\<exists>k. safe cs q t k \<and> Suc k < length cs \<and> onto = cs ! k \<and> new = cs ! Suc k))"
| "t_rel cs i j q t (PopHead c) st = (st = Pending (TryPop c))"
| "t_rel cs i j q t (PopNext c h) st =
     (\<exists>k \<le> i. safe cs q t k \<and> h = cs ! k \<and>
        st = (if k < i \<and> \<not> passes c (val_at q (cs ! Suc k)) then Effected (Popped None) else Pending (TryPop c)))"
| "t_rel cs i j q t (PopTest f h n) st =
     (\<exists>k \<le> i. safe cs q t k \<and> Suc k < length cs \<and> h = cs ! k \<and> n = cs ! Suc k \<and>
        st = (if f (val_at q n) then Pending (TryPop (Some f)) else Effected (Popped None)))"
| "t_rel cs i j q t (PopCas c h n) st =
     (\<exists>k \<le> i. safe cs q t k \<and> Suc k < length cs \<and> h = cs ! k \<and> n = cs ! Suc k \<and>
        st = Pending (TryPop c) \<and> passes c (val_at q n))"
| "t_rel cs i j q t (PopTail h n) st =
     (\<exists>k < i. safe cs q t k \<and> h = cs ! k \<and> n = cs ! Suc k \<and> q_garbage q h = None \<and>
        st = Effected (Popped (Some (val_at q n))))"
| "t_rel cs i j q t (PopSwing h n) st =
     (\<exists>k < i. safe cs q t k \<and> h = cs ! k \<and> n = cs ! Suc k \<and> q_garbage q h = None \<and>
        st = Effected (Popped (Some (val_at q n))))"
| "t_rel cs i j q t (PopDefer h n) st =
     (\<exists>k < i. k < j \<and> safe cs q t k \<and> h = cs ! k \<and> n = cs ! Suc k \<and> q_garbage q h = None \<and>
        st = Effected (Popped (Some (val_at q n))))"
| "t_rel cs i j q t (PopRead n) st =
     (\<exists>k. safe cs q t k \<and> 0 < k \<and> n = cs ! k \<and> st = Effected (Popped (Some (val_at q n))))"
| "t_rel cs i j q t (Finish r) st = (st = Effected r)"
| "t_rel cs i j q t Fault st = False"

text \<open>The node a thread owns: the one it is about to link or to retire.\<close>

fun owns :: "'a qpc \<Rightarrow> nat option" where
  "owns (PushTail new) = Some new"
| "owns (PushNext new _) = Some new"
| "owns (PushHelp new _ _) = Some new"
| "owns (PushLink new _) = Some new"
| "owns (PopTail h _) = Some h"
| "owns (PopSwing h _) = Some h"
| "owns (PopDefer h _) = Some h"
| "owns _ = None"

text \<open>Every allocated node is in the queue, retired, or owned by a thread.\<close>

definition accounted :: "nat list \<Rightarrow> nat \<Rightarrow> 'a queue \<Rightarrow> (nat \<Rightarrow> 'a qpc) \<Rightarrow> bool" where
  "accounted cs i q th \<longleftrightarrow>
     (\<forall>a. q_nodes q a \<noteq> None \<longrightarrow> q_garbage q a = None \<longrightarrow> (\<forall>t. owns (th t) \<noteq> Some a) \<longrightarrow> a \<in> set (drop i cs))"

definition queue_rel ::
  "nat list \<Rightarrow> nat \<Rightarrow> nat \<Rightarrow> 'a qsys \<Rightarrow> 'a list \<times> (nat \<Rightarrow> 'a status) \<Rightarrow> bool" where
  "queue_rel cs i j s a \<longleftrightarrow>
     (case s of (q, th) \<Rightarrow> case a of (xs, st) \<Rightarrow>
        well_linked cs i j q \<and> xs = contents cs i q \<and>
        (\<forall>t. t_rel cs i j q t (th t) (st t)) \<and> (\<forall>t. th t \<noteq> Unpinned \<longrightarrow> t \<in> q_pinned q) \<and>
        (\<forall>t t'. t \<noteq> t' \<longrightarrow> owns (th t) \<noteq> None \<longrightarrow> owns (th t) \<noteq> owns (th t')) \<and> accounted cs i q th)"

definition queue_sim :: "'a qsys \<Rightarrow> 'a list \<times> (nat \<Rightarrow> 'a status) \<Rightarrow> bool" where
  "queue_sim s a \<longleftrightarrow> (\<exists>cs i j. queue_rel cs i j s a)"

section \<open>Positions\<close>

lemma safe_mono: "safe cs q t k \<Longrightarrow> k \<le> m \<Longrightarrow> m < length cs \<Longrightarrow> safe cs q t m"
  by (auto simp: safe_def)

lemma safe_node: "safe cs q t k \<Longrightarrow> \<exists>nd. q_nodes q (cs ! k) = Some nd"
  by (auto simp: safe_def)

lemma safe_head: "well_linked cs i j q \<Longrightarrow> safe cs q t i"
  by (auto simp: safe_def well_linked_def dest: leD)

lemma safe_tail: "well_linked cs i j q \<Longrightarrow> safe cs q t j"
  by (auto simp: safe_def well_linked_def dest: leD)

lemma linked_node: "well_linked cs i j q \<Longrightarrow> k < length cs \<Longrightarrow> q_nodes q (cs ! k) = Some nd \<Longrightarrow> linked cs k nd"
  by (auto simp: well_linked_def)

lemma position_eq: "well_linked cs i j q \<Longrightarrow> k < length cs \<Longrightarrow> m < length cs \<Longrightarrow> cs ! k = cs ! m \<longleftrightarrow> k = m"
  by (auto simp: well_linked_def nth_eq_iff_index_eq)

lemma garbage_position:
  assumes "well_linked cs i j q" "q_garbage q a = Some w"
  shows "\<exists>k < length cs. a = cs ! k \<and> k < i \<and> k < j"
proof -
  have "a \<in> set cs" using assms by (auto simp: well_linked_def)
  then obtain k where "k < length cs" "a = cs ! k" by (auto simp: in_set_conv_nth)
  then show ?thesis using assms by (auto simp: well_linked_def)
qed

lemma safe_value:
  assumes "well_linked cs i j q" "safe cs q t k" "0 < k"
  shows "Option.bind (q_nodes q (cs ! k)) n_data = Some (val_at q (cs ! k))"
proof -
  obtain nd where nd: "q_nodes q (cs ! k) = Some nd" using safe_node [OF assms(2)] by blast
  then have "linked cs k nd" using assms(1,2) by (intro linked_node) (auto simp: safe_def)
  then show ?thesis using nd assms(3) by (auto simp: val_at_def linked_def)
qed

lemma contents_Cons:
  "Suc i < length cs \<Longrightarrow> contents cs i q = val_at q (cs ! Suc i) # contents cs (Suc i) q"
  by (simp add: contents_def upt_conv_Cons)

text \<open>
  What other threads do never takes away what a thread knows: the chain grows at its end, head and tail
  advance, safe positions stay safe and keep their values, and the node a thread owns is not touched.
\<close>

lemma t_rel_mono:
  assumes "t_rel cs i j q t pc st"
    and "\<And>k. k < length cs \<Longrightarrow> cs' ! k = cs ! k" "length cs \<le> length cs'" "i \<le> i'" "j \<le> j'" "q_fresh q \<le> q_fresh q'"
    and "\<And>k. safe cs q t k \<Longrightarrow> safe cs' q' t k"
    and "\<And>k. safe cs q t k \<Longrightarrow> val_at q' (cs ! k) = val_at q (cs ! k)"
    and "\<And>a. owns pc = Some a \<Longrightarrow> a \<notin> set cs \<Longrightarrow> a \<notin> set cs' \<and> q_nodes q' a = q_nodes q a"
    and "\<And>a. owns pc = Some a \<Longrightarrow> a \<in> set cs \<Longrightarrow> q_garbage q a = None \<Longrightarrow> q_garbage q' a = None"
    and "i' = i \<or> (\<forall>c h. pc \<noteq> PopNext c h)" "i < length cs"
  shows "t_rel cs' i' j' q' t pc st"
proof -
  have un: "unlinked cs' q' new st" if "unlinked cs q new st" "owns pc = Some new" for new
    using that assms(6) assms(9) [of new] by (auto simp: unlinked_def)
  have nx: "safe cs q t k \<Longrightarrow> Suc k < length cs \<Longrightarrow> val_at q' (cs ! Suc k) = val_at q (cs ! Suc k)" for k
    using assms(8) [of "Suc k"] safe_mono [of cs q t k "Suc k"] by simp
  have lt: "safe cs q t k \<Longrightarrow> k < length cs" for k by (simp add: safe_def)
  have mem: "k < length cs \<Longrightarrow> cs ! k \<in> set cs" for k by simp
  show ?thesis
  proof (cases pc)
    case (PushNext new onto)
    then obtain k where k: "k \<le> j" "safe cs q t k" "onto = cs ! k" "unlinked cs q new st" using assms(1) by auto
    then show ?thesis using PushNext un lt [OF k(2)] assms(2,5,7) by (auto intro!: exI [of _ k])
  next
    case (PushHelp new onto nxt)
    then obtain k where "safe cs q t k" "Suc k < length cs" "onto = cs ! k" "nxt = cs ! Suc k" "unlinked cs q new st"
      using assms(1) by auto
    then show ?thesis using PushHelp un assms(2,3,7) by (auto intro!: exI [of _ k])
  next
    case (PushLink new onto)
    then obtain k where k: "k \<le> j" "safe cs q t k" "onto = cs ! k" "unlinked cs q new st" using assms(1) by auto
    then show ?thesis using PushLink un lt [OF k(2)] assms(2,5,7) by (auto intro!: exI [of _ k])
  next
    case (PushSwing new onto)
    then obtain k where "safe cs q t k" "Suc k < length cs" "onto = cs ! k" "new = cs ! Suc k" "st = Effected Pushed"
      using assms(1) by auto
    then show ?thesis using PushSwing assms(2,3,7) by (auto intro!: exI [of _ k])
  next
    case (PopNext c h)
    then obtain k where k: "k \<le> i" "safe cs q t k" "h = cs ! k"
      "st = (if k < i \<and> \<not> passes c (val_at q (cs ! Suc k)) then Effected (Popped None) else Pending (TryPop c))"
      using assms(1) by auto
    have "i' = i" using PopNext assms(11) by auto
    then show ?thesis using PopNext k lt [OF k(2)] nx [OF k(2)] assms(2,7,12)
      by (auto intro!: exI [of _ k])
  next
    case (PopTest f h n)
    then obtain k where k: "k \<le> i" "safe cs q t k" "Suc k < length cs" "h = cs ! k" "n = cs ! Suc k"
      "st = (if f (val_at q n) then Pending (TryPop (Some f)) else Effected (Popped None))"
      using assms(1) by auto
    then show ?thesis using PopTest nx [OF k(2,3)] assms(2,3,4,7)
      by (auto intro!: exI [of _ k])
  next
    case (PopCas c h n)
    then obtain k where k: "k \<le> i" "safe cs q t k" "Suc k < length cs" "h = cs ! k" "n = cs ! Suc k"
      "st = Pending (TryPop c)" "passes c (val_at q n)"
      using assms(1) by auto
    then show ?thesis using PopCas nx [OF k(2,3)] assms(2,3,4,7)
      by (auto intro!: exI [of _ k])
  next
    case (PopTail h n)
    then obtain k where k: "k < i" "safe cs q t k" "h = cs ! k" "n = cs ! Suc k" "q_garbage q h = None"
      "st = Effected (Popped (Some (val_at q n)))" using assms(1) by auto
    then show ?thesis using PopTail nx [OF k(2)] assms(2,3,4,7,10,12)
      by (auto intro!: exI [of _ k])
  next
    case (PopSwing h n)
    then obtain k where k: "k < i" "safe cs q t k" "h = cs ! k" "n = cs ! Suc k" "q_garbage q h = None"
      "st = Effected (Popped (Some (val_at q n)))" using assms(1) by auto
    then show ?thesis using PopSwing nx [OF k(2)] assms(2,3,4,7,10,12)
      by (auto intro!: exI [of _ k])
  next
    case (PopDefer h n)
    then obtain k where k: "k < i" "k < j" "safe cs q t k" "h = cs ! k" "n = cs ! Suc k" "q_garbage q h = None"
      "st = Effected (Popped (Some (val_at q n)))" using assms(1) by auto
    then show ?thesis using PopDefer nx [OF k(3)] assms(2,3,4,5,7,10,12)
      by (auto intro!: exI [of _ k])
  next
    case (PopRead n)
    then obtain k where k: "safe cs q t k" "0 < k" "n = cs ! k" "st = Effected (Popped (Some (val_at q n)))"
      using assms(1) by auto
    then show ?thesis using PopRead lt [OF k(1)] assms(2,7,8) by (auto intro!: exI [of _ k])
  qed (use assms(1) un in auto)
qed

section \<open>Steps that keep the chain\<close>

lemma queue_relD:
  assumes "queue_rel cs i j (q, th) (xs, st)"
  shows "well_linked cs i j q" "xs = contents cs i q" "t_rel cs i j q t (th t) (st t)"
    "th t \<noteq> Unpinned \<Longrightarrow> t \<in> q_pinned q"
    "t \<noteq> t' \<Longrightarrow> owns (th t) = Some a \<Longrightarrow> owns (th t') \<noteq> Some a" "accounted cs i q th"
proof -
  have o: "\<forall>t t'. t \<noteq> t' \<longrightarrow> owns (th t) \<noteq> None \<longrightarrow> owns (th t) \<noteq> owns (th t')"
    using assms by (simp add: queue_rel_def)
  show "t \<noteq> t' \<Longrightarrow> owns (th t) = Some a \<Longrightarrow> owns (th t') \<noteq> Some a"
    using o [rule_format, of t t'] by auto
qed (use assms in \<open>auto simp: queue_rel_def\<close>)

lemma queue_rel_step:
  assumes r: "queue_rel cs i j (q, th) (xs, st)"
    and w: "well_linked cs' i' j' q'"
    and self: "t_rel cs' i' j' q' t pc (st' t)"
    and others: "\<And>u. u \<noteq> t \<Longrightarrow> t_rel cs' i' j' q' u (th u) (st' u)"
    and p: "pc \<noteq> Unpinned \<Longrightarrow> t \<in> q_pinned q'" "q_pinned q - {t} \<subseteq> q_pinned q'"
    and ow: "\<And>a u. owns pc = Some a \<Longrightarrow> u \<noteq> t \<Longrightarrow> owns (th u) \<noteq> Some a"
    and ac: "accounted cs' i' q' (th(t := pc))"
  shows "queue_rel cs' i' j' (q', th(t := pc)) (contents cs' i' q', st')"
proof -
  have "owns ((th(t := pc)) u) \<noteq> owns ((th(t := pc)) u')"
    if h: "u \<noteq> u'" "owns ((th(t := pc)) u) \<noteq> None" for u u'
  proof -
    obtain a where a: "owns ((th(t := pc)) u) = Some a" using h(2) by blast
    show ?thesis
      using a h(1) ow [of a u'] ow [of a u] queue_relD(5) [OF r, of u u' a]
      by (cases "u = t"; cases "u' = t") (auto dest: sym)
  qed
  moreover have "u \<in> q_pinned q'" if "(th(t := pc)) u \<noteq> Unpinned" for u
    using that p queue_relD(4) [OF r, of u] by (cases "u = t") auto
  ultimately show ?thesis
    using w self others ac by (auto simp: queue_rel_def)
qed

lemma accounted_step:
  assumes "accounted cs i q th"
    and "\<And>a. q_nodes q' a \<noteq> None \<Longrightarrow> q_garbage q' a = None \<Longrightarrow> owns pc \<noteq> Some a \<Longrightarrow>
      a \<in> set (drop i' cs') \<or>
      q_nodes q a \<noteq> None \<and> q_garbage q a = None \<and> owns (th t) \<noteq> Some a \<and> (a \<in> set (drop i cs) \<longrightarrow> a \<in> set (drop i' cs'))"
  shows "accounted cs' i' q' (th(t := pc))"
  unfolding accounted_def
proof (intro allI impI)
  fix a assume a: "q_nodes q' a \<noteq> None" "q_garbage q' a = None" "\<forall>u. owns ((th(t := pc)) u) \<noteq> Some a"
  have "owns pc \<noteq> Some a" using a(3) [rule_format, of t] by simp
  moreover have "owns (th u) \<noteq> Some a" if "owns (th t) \<noteq> Some a" for u
    using that a(3) [rule_format, of u] by (cases "u = t") auto
  ultimately show "a \<in> set (drop i' cs')" using a(1,2) assms by (fastforce simp: accounted_def)
qed

lemma accounted_pc:
  assumes "queue_rel cs i j (q, th) (xs, st)" "owns pc = owns (th t)"
  shows "accounted cs i q (th(t := pc))"
  using assms(2) by (intro accounted_step [OF queue_relD(6) [OF assms(1)]]) simp

text \<open>The thread moves on and the queue stays as it is.\<close>

lemma queue_rel_pc:
  assumes r: "queue_rel cs i j (q, th) (xs, st)" and "th t \<noteq> Unpinned"
    and "t_rel cs i j q t pc r'" "owns pc = owns (th t)"
  shows "queue_rel cs i j (q, th(t := pc)) (xs, st(t := r'))"
proof -
  have "owns (th u) \<noteq> Some a" if "owns pc = Some a" "u \<noteq> t" for a u
    using that assms(4) queue_relD(5) [OF r, of t u a] by auto
  then have "queue_rel cs i j (q, th(t := pc)) (contents cs i q, st(t := r'))"
    using assms(2,3) queue_relD(1,3,4) [OF r] accounted_pc [OF r assms(4)]
    by (intro queue_rel_step [OF r]) simp_all
  then show ?thesis using queue_relD(2) [OF r] by simp
qed

lemma queue_rel_pc_silent:
  assumes r: "queue_rel cs i j (q, th) (xs, st)" and "th t \<noteq> Unpinned"
    and "t_rel cs i j q t pc (st t)" "owns pc = owns (th t)"
  shows "queue_rel cs i j (q, th(t := pc)) (xs, st)"
  using queue_rel_pc [OF assms] by simp

text \<open>The queue changes outside the chain and the nodes the other threads own.\<close>

lemma t_rel_frame:
  assumes r: "queue_rel cs i j (q, th) (xs, st)" and "u \<noteq> t" "j \<le> j'" "q_fresh q \<le> q_fresh q'"
    and "\<And>k. safe cs q u k \<Longrightarrow> safe cs q' u k"
    and "\<And>a. a \<in> set cs \<or> owns (th u) = Some a \<Longrightarrow> q_nodes q' a = q_nodes q a"
    and "\<And>a. owns (th u) = Some a \<Longrightarrow> q_garbage q a = None \<Longrightarrow> q_garbage q' a = None"
  shows "t_rel cs i j' q' u (th u) (st u)"
proof (rule t_rel_mono [OF queue_relD(3) [OF r]])
  show "val_at q' (cs ! k) = val_at q (cs ! k)" if "safe cs q u k" for k
    using that assms(6) [of "cs ! k"] by (simp add: val_at_def safe_def)
  show "i < length cs" using queue_relD(1) [OF r] by (simp add: well_linked_def)
qed (use assms in auto)

lemma contents_cong:
  "(\<And>a. a \<in> set cs \<Longrightarrow> q_nodes q' a = q_nodes q a) \<Longrightarrow> contents cs i q' = contents cs i q"
  by (auto simp: contents_def val_at_def)

lemma pin_rel:
  assumes r: "queue_rel cs i j (q, th) (xs, st)" and t: "th t = Unpinned"
  shows "queue_rel cs i j (guard_pin t q, th(t := Ready)) (xs, st)"
proof -
  have w: "well_linked cs i j (guard_pin t q)"
    using queue_relD(1) [OF r] by (simp add: well_linked_def guard_pin_def)
  have "t_rel cs i j (guard_pin t q) u (th u) (st u)" if "u \<noteq> t" for u
    by (rule t_rel_frame [OF r that]) (auto simp: guard_pin_def safe_def)
  moreover have "st t = Idle" using queue_relD(3) [OF r, of t] t by simp
  ultimately have "queue_rel cs i j (guard_pin t q, th(t := Ready)) (contents cs i (guard_pin t q), st)"
    using w t by (intro queue_rel_step [OF r] accounted_step [OF queue_relD(6) [OF r]]) (auto simp: guard_pin_def)
  then show ?thesis
    using queue_relD(2) [OF r] contents_cong [of cs "guard_pin t q" q i] by (simp add: guard_pin_def)
qed

lemma unpin_rel:
  assumes r: "queue_rel cs i j (q, th) (xs, st)" and t: "th t = Ready"
  shows "queue_rel cs i j (guard_unpin t q, th(t := Unpinned)) (xs, st)"
proof -
  have w: "well_linked cs i j (guard_unpin t q)"
    using queue_relD(1) [OF r] by (simp add: well_linked_def guard_unpin_def)
  have "t_rel cs i j (guard_unpin t q) u (th u) (st u)" if "u \<noteq> t" for u
    using that by (intro t_rel_frame [OF r that]) (auto simp: guard_unpin_def safe_def)
  moreover have "st t = Idle" using queue_relD(3) [OF r, of t] t by simp
  ultimately have "queue_rel cs i j (guard_unpin t q, th(t := Unpinned)) (contents cs i (guard_unpin t q), st)"
    using w t
    by (intro queue_rel_step [OF r] accounted_step [OF queue_relD(6) [OF r]]) (auto simp: guard_unpin_def)
  then show ?thesis
    using queue_relD(2) [OF r] contents_cong [of cs "guard_unpin t q" q i] by (simp add: guard_unpin_def)
qed

lemma owned_fresh:
  assumes r: "queue_rel cs i j (q, th) (xs, st)" and "owns (th u) = Some a"
  shows "a < q_fresh q"
proof -
  have w: "well_linked cs i j q" by (rule queue_relD(1) [OF r])
  then have "\<And>k. k < length cs \<Longrightarrow> cs ! k < q_fresh q" by (simp add: well_linked_def)
  then show ?thesis using assms(2) queue_relD(3) [OF r, of u]
    by (cases "th u") (auto simp: unlinked_def safe_def)
qed

lemma alloc_rel:
  assumes r: "queue_rel cs i j (q, th) (xs, st)" and t: "th t = Ready"
  shows "queue_rel cs i j (queue_alloc v q, th(t := PushTail (q_fresh q))) (xs, st(t := Pending (Push v)))"
proof -
  let ?q = "queue_alloc v q" and ?st = "st(t := Pending (Push v))"
  have w: "well_linked cs i j q" by (rule queue_relD(1) [OF r])
  then have f: "q_nodes ?q a = q_nodes q a" if "a \<in> set cs" for a
    using that by (auto simp: queue_alloc_def well_linked_def)
  have n: "q_fresh q \<notin> set cs" using w by (auto simp: well_linked_def)
  have w': "well_linked cs i j ?q"
    using w f unfolding well_linked_def by (auto simp: queue_alloc_def less_Suc_eq)
  have "t_rel cs i j ?q u (th u) (?st u)" if u: "u \<noteq> t" for u
    using t_rel_frame [OF r u, of j ?q] u f owned_fresh [OF r, of u]
    by (fastforce simp: queue_alloc_def safe_def)
  moreover have "t_rel cs i j ?q t (PushTail (q_fresh q)) (?st t)"
    using n by (simp add: unlinked_def queue_alloc_def)
  moreover have "t \<in> q_pinned q" using queue_relD(4) [OF r, of t] t by simp
  ultimately have "queue_rel cs i j (?q, th(t := PushTail (q_fresh q))) (contents cs i ?q, ?st)"
    using w' owned_fresh [OF r] t
    by (intro queue_rel_step [OF r] accounted_step [OF queue_relD(6) [OF r]])
      (auto simp: queue_alloc_def split: if_splits)
  then show ?thesis using queue_relD(2) [OF r] contents_cong [of cs ?q q i] f by simp
qed

lemma cas_tail_rel:
  assumes r: "queue_rel cs i j (q, th) (xs, st)" and t: "th t \<noteq> Unpinned"
    and k: "Suc k < length cs"
    and pc: "\<And>j' q'. j \<le> j' \<Longrightarrow> k \<noteq> j' \<Longrightarrow> q_nodes q' = q_nodes q \<Longrightarrow> q_garbage q' = q_garbage q \<Longrightarrow>
      q_fresh q' = q_fresh q \<Longrightarrow> t_rel cs i j' q' t pc (st t)"
    and o: "owns pc = owns (th t)"
  shows "\<exists>j'. queue_rel cs i j' (cas_tail (cs ! k) (cs ! Suc k) q, th(t := pc)) (xs, st)"
proof -
  let ?q = "cas_tail (cs ! k) (cs ! Suc k) q"
  let ?j = "if k = j then Suc j else j"
  have w: "well_linked cs i j q" by (rule queue_relD(1) [OF r])
  have tail: "q_tail q = cs ! k \<longleftrightarrow> k = j"
    using w position_eq [OF w, of j k] k by (auto simp: well_linked_def)
  have fields: "q_nodes ?q = q_nodes q" "q_garbage ?q = q_garbage q" "q_fresh ?q = q_fresh q"
    "q_pinned ?q = q_pinned q" "q_head ?q = q_head q"
    by (simp_all add: cas_tail_def)
  have w': "well_linked cs i ?j ?q"
    using w k tail unfolding well_linked_def fields
    by (auto simp: cas_tail_def less_Suc_eq)
  have "t_rel cs i ?j ?q u (th u) (st u)" if u: "u \<noteq> t" for u
    by (rule t_rel_frame [OF r u]) (auto simp: fields safe_def)
  moreover have "t_rel cs i ?j ?q t pc (st t)"
    using k by (intro pc) (auto simp: fields)
  moreover have "owns (th u) \<noteq> Some a" if "owns pc = Some a" "u \<noteq> t" for a u
    using that o queue_relD(5) [OF r, of t u a] by auto
  ultimately have "queue_rel cs i ?j (?q, th(t := pc)) (contents cs i ?q, st)"
    using w' t queue_relD(4) [OF r, of t] accounted_pc [OF r o]
    by (intro queue_rel_step [OF r]) (simp_all add: fields accounted_def)
  then show ?thesis using queue_relD(2) [OF r] contents_cong [of cs ?q q i] fields by auto
qed

lemma defer_rel:
  assumes r: "queue_rel cs i j (q, th) (xs, st)" and t: "th t = PopDefer h n"
  shows "queue_rel cs i j (defer_destroy h q, th(t := PopRead n)) (xs, st)"
proof -
  let ?q = "defer_destroy h q"
  have w: "well_linked cs i j q" by (rule queue_relD(1) [OF r])
  have tp: "t \<in> q_pinned q" using queue_relD(4) [OF r, of t] t by simp
  obtain k where k: "k < i" "k < j" "safe cs q t k" "h = cs ! k" "n = cs ! Suc k" "q_garbage q h = None"
    "st t = Effected (Popped (Some (val_at q n)))"
    using queue_relD(3) [OF r, of t] t by auto
  have len: "i < length cs" "k < length cs" using w k(1) by (auto simp: well_linked_def)
  have s: "safe cs ?q u m" if "safe cs q u m" "u \<in> q_pinned q" for u m
    using that by (auto simp: safe_def defer_destroy_def)
  have w': "well_linked cs i j ?q"
    unfolding well_linked_def
  proof (intro conjI)
    show "\<forall>m<length cs. q_nodes ?q (cs ! m) = None \<or> q_garbage ?q (cs ! m) \<noteq> None \<longrightarrow> m < i \<and> m < j"
      using w k(1,2,4) position_eq [OF w _ len(2)]
      by (fastforce simp: defer_destroy_def well_linked_def split: if_splits)
    show "\<forall>a. q_garbage ?q a \<noteq> None \<longrightarrow> a \<in> set cs"
      using w k(4) len(2) by (auto simp: defer_destroy_def well_linked_def)
  qed (use w in \<open>simp_all add: defer_destroy_def well_linked_def\<close>)
  have "t_rel cs i j ?q u (th u) (st u)" if u: "u \<noteq> t" for u
  proof (cases "th u = Unpinned")
    case True
    then show ?thesis using queue_relD(3) [OF r, of u] by simp
  next
    case False
    then have "u \<in> q_pinned q" by (rule queue_relD(4) [OF r])
    moreover have "owns (th u) \<noteq> Some h" using queue_relD(5) [OF r u [symmetric], of h] t by simp
    ultimately show ?thesis
      using s by (intro t_rel_frame [OF r u]) (auto simp: defer_destroy_def)
  qed
  moreover have "t_rel cs i j ?q t (PopRead n) (st t)"
    using s [OF safe_mono [OF k(3), of "Suc k"] tp] k len
    by (auto simp: val_at_def defer_destroy_def intro!: exI [of _ "Suc k"])
  ultimately have "queue_rel cs i j (?q, th(t := PopRead n)) (contents cs i ?q, st)"
    using w' tp t
    by (intro queue_rel_step [OF r] accounted_step [OF queue_relD(6) [OF r]])
      (auto simp: defer_destroy_def split: if_splits)
  then show ?thesis
    using queue_relD(2) [OF r] contents_cong [of cs ?q q i] by (simp add: defer_destroy_def)
qed

lemma destroy_rel:
  assumes r: "queue_rel cs i j (q, th) (xs, st)" and g: "q_garbage q a = Some {}"
  shows "queue_rel cs i j (destroy_node a q, th) (xs, st)"
proof -
  let ?q = "destroy_node a q"
  have w: "well_linked cs i j q" by (rule queue_relD(1) [OF r])
  then obtain k where k: "k < length cs" "a = cs ! k" "k < i" "k < j"
    using g garbage_position by blast
  have pos: "cs ! m = a \<longleftrightarrow> m = k" if "m < length cs" for m
    using position_eq [OF w that k(1)] k(2) by simp
  have kept: "q_nodes ?q (cs ! m) = q_nodes q (cs ! m)" if "m < length cs" "m \<noteq> k" for m
    using that pos by (simp add: destroy_node_def)
  have later: "k < m" if "safe cs q u m" for u m
    using that g k by (fastforce simp: safe_def)
  have s: "safe cs ?q u m" if "safe cs q u m" for u m
    using that later [OF that] pos by (auto simp: safe_def destroy_node_def)
  have w': "well_linked cs i j ?q"
    using w k pos unfolding well_linked_def by (auto simp: destroy_node_def)
  have c: "contents cs i ?q = contents cs i q"
    using k kept by (auto simp: contents_def val_at_def)
  have "t_rel cs i j ?q u (th u) (st u)" for u
  proof (rule t_rel_mono [OF queue_relD(3) [OF r]])
    show "val_at ?q (cs ! m) = val_at q (cs ! m)" if "safe cs q u m" for m
      using later [OF that] that kept [of m] by (simp add: val_at_def safe_def)
    show "b \<notin> set cs \<and> q_nodes ?q b = q_nodes q b" if "b \<notin> set cs" for b
      using that k by (auto simp: destroy_node_def)
  qed (use w s in \<open>auto simp: destroy_node_def well_linked_def\<close>)
  moreover have "accounted cs i ?q th"
    using queue_relD(6) [OF r] by (auto simp: accounted_def destroy_node_def)
  ultimately show ?thesis using r w' c by (auto simp: queue_rel_def destroy_node_def)
qed

section \<open>Linking a node and moving the head\<close>

lemma link_rel:
  assumes r: "queue_rel cs i j (q, th) (xs, st)" and t: "th t = PushLink new onto"
    and o: "q_nodes q onto = Some nd" "n_next nd = None"
  shows "\<exists>v. st t = Pending (Push v) \<and>
    queue_rel (cs @ [new]) i j
      (q\<lparr>q_nodes := (q_nodes q)(onto \<mapsto> nd\<lparr>n_next := Some new\<rparr>)\<rparr>, th(t := PushSwing new onto))
      (xs @ [v], st(t := Effected Pushed))"
proof -
  let ?q = "q\<lparr>q_nodes := (q_nodes q)(onto \<mapsto> nd\<lparr>n_next := Some new\<rparr>)\<rparr>" and ?cs = "cs @ [new]"
  have w: "well_linked cs i j q" by (rule queue_relD(1) [OF r])
  obtain k v where k: "k \<le> j" "safe cs q t k" "onto = cs ! k" and
    v: "new \<notin> set cs" "new < q_fresh q" "q_nodes q new = Some \<lparr>n_data = Some v, n_next = None\<rparr>"
      "st t = Pending (Push v)"
    using queue_relD(3) [OF r, of t] t by (auto simp: unlinked_def)
  have kl: "k < length cs" using k(2) by (simp add: safe_def)
  then have "linked cs k nd" using linked_node [OF w] k(3) o(1) by blast
  then have last: "Suc k = length cs" "0 < k \<Longrightarrow> n_data nd \<noteq> None"
    using kl o(2) by (auto simp: linked_def split: if_splits)
  then have jk: "j = k" using w k(1) by (simp add: well_linked_def)
  have ng: "q_garbage q new = None" using w v(1) by (auto simp: well_linked_def)
  have s: "safe ?cs ?q u m" if "safe cs q u m" for u m
    using that v ng by (auto simp: safe_def nth_append less_Suc_eq)
  have new: "new \<noteq> onto" using v(1) k(3) kl by auto
  have val: "val_at ?q (cs ! m) = val_at q (cs ! m)" for m
    using o(1) by (simp add: val_at_def)
  have w': "well_linked ?cs i j ?q"
    unfolding well_linked_def
  proof (intro conjI)
    show "\<forall>m<length ?cs. \<forall>d. q_nodes ?q (?cs ! m) = Some d \<longrightarrow> linked ?cs m d"
    proof (intro allI impI)
      fix m d assume m: "m < length ?cs" "q_nodes ?q (?cs ! m) = Some d"
      consider "m = length cs" | "m = k" | "m < k" using m(1) last(1) by fastforce
      then show "linked ?cs m d"
      proof cases
        case 3
        then have "cs ! m \<noteq> onto" using position_eq [OF w _ kl, of m] k(3) kl by auto
        then have "linked cs m d" using m(2) linked_node [OF w, of m d] 3 kl by (simp add: nth_append)
        then show ?thesis using 3 last(1) by (auto simp: linked_def nth_append split: if_splits)
      qed (use m(2) v new k(3) last kl in \<open>auto simp: linked_def nth_append\<close>)
    qed
  qed (use w v k(3) kl ng jk last(1) in \<open>auto simp: well_linked_def nth_append less_Suc_eq\<close>)
  have "t_rel ?cs i j ?q u (th u) ((st(t := Effected Pushed)) u)" if u: "u \<noteq> t" for u
  proof -
    have "owns (th u) \<noteq> Some new" using queue_relD(5) [OF r u [symmetric], of new] t by simp
    moreover have "onto \<in> set cs" using k(3) kl by simp
    ultimately have "t_rel ?cs i j ?q u (th u) (st u)"
      using s w val by (intro t_rel_mono [OF queue_relD(3) [OF r]])
        (auto simp: nth_append well_linked_def)
    then show ?thesis using u by simp
  qed
  moreover have "t_rel ?cs i j ?q t (PushSwing new onto) ((st(t := Effected Pushed)) t)"
    using s [OF k(2)] k(3) kl last(1) by (auto simp: nth_append intro!: exI [of _ k])
  moreover have "t \<in> q_pinned q" using queue_relD(4) [OF r, of t] t by simp
  ultimately have "queue_rel ?cs i j (?q, th(t := PushSwing new onto)) (contents ?cs i ?q, st(t := Effected Pushed))"
    using w' w t o
    by (intro queue_rel_step [OF r] accounted_step [OF queue_relD(6) [OF r]])
      (auto simp: well_linked_def split: if_splits)
  moreover have "contents ?cs i ?q = xs @ [v]"
  proof -
    have "i < length cs" using w by (simp add: well_linked_def)
    moreover have "val_at ?q new = v" using new v(3) by (simp add: val_at_def)
    ultimately show ?thesis
      using queue_relD(2) [OF r] val by (simp add: contents_def nth_append cong: map_cong)
  qed
  ultimately show ?thesis using v(4) by auto
qed

text \<open>
  When the head moves past a node whose value another thread has rejected or is about to reject, the
  operation of that thread takes effect right before the move.
\<close>

lemma reject_all:
  assumes "finite T" "\<And>u. u \<in> T \<Longrightarrow> \<exists>op. st u = Pending op \<and> fifo_op op xs = (xs, Popped None)"
  shows "exec fifo_sys (xs, st) [] (xs, \<lambda>u. if u \<in> T then Effected (Popped None) else st u)"
  using assms
proof (induction T)
  case empty
  then show ?case by (simp add: exec_refl)
next
  case (insert t T)
  let ?st = "\<lambda>u. if u \<in> T then Effected (Popped None) else st u"
  obtain op where op: "st t = Pending op" "fifo_op op xs = (xs, Popped None)" using insert.prems by blast
  have "fifo_sys (xs, ?st) None (xs, ?st(t := Effected (Popped None)))"
    using op insert.hyps(2) by (intro fifo_sys.effect) auto
  moreover have "?st(t := Effected (Popped None)) = (\<lambda>u. if u \<in> insert t T then Effected (Popped None) else st u)"
    by auto
  moreover have "exec fifo_sys (xs, st) [] (xs, ?st)" using insert by blast
  ultimately show ?case using exec_silent by fastforce
qed

definition rejecting :: "nat \<Rightarrow> 'a \<Rightarrow> 'a qpc \<Rightarrow> bool" where
  "rejecting h v pc = (\<exists>c. pc = PopNext c h \<and> \<not> passes c v)"

lemma move_head_rel:
  assumes r: "queue_rel cs i j (q, th) (xs, st)" and t: "th t = PopCas c h n" and h: "q_head q = h"
  shows "\<exists>st'. exec fifo_sys (xs, st) [] (contents cs (Suc i) q, st') \<and>
    queue_rel cs (Suc i) j (q\<lparr>q_head := n\<rparr>, th(t := PopTail h n)) (contents cs (Suc i) q, st')"
proof -
  let ?q = "q\<lparr>q_head := n\<rparr>" and ?i = "Suc i"
  have w: "well_linked cs i j q" by (rule queue_relD(1) [OF r])
  obtain k where k: "k \<le> i" "safe cs q t k" "Suc k < length cs" "h = cs ! k" "n = cs ! Suc k"
    "st t = Pending (TryPop c)" "passes c (val_at q n)"
    using queue_relD(3) [OF r, of t] t by auto
  have len: "i < length cs" using w by (simp add: well_linked_def)
  have ki: "k = i" using h k(3,4) len position_eq [OF w, of i k] w by (auto simp: well_linked_def)
  let ?v = "val_at q (cs ! Suc i)"
  let ?T = "{u. rejecting h ?v (th u)}"
  let ?st = "\<lambda>u. if u \<in> ?T then Effected (Popped None) else st u"
  have xs: "xs = ?v # contents cs ?i q"
    using queue_relD(2) [OF r] contents_Cons k(3) ki by simp
  have "?T \<subseteq> q_pinned q" using queue_relD(4) [OF r] by (auto simp: rejecting_def)
  then have "finite ?T" using w by (auto simp: well_linked_def intro: finite_subset)
  moreover have "\<exists>op. st u = Pending op \<and> fifo_op op xs = (xs, Popped None)" if u: "u \<in> ?T" for u
  proof -
    obtain c' where c': "th u = PopNext c' h" "\<not> passes c' ?v" using u by (auto simp: rejecting_def)
    then obtain m where m: "m \<le> i" "h = cs ! m"
      "st u = (if m < i \<and> \<not> passes c' (val_at q (cs ! Suc m)) then Effected (Popped None) else Pending (TryPop c'))"
      using queue_relD(3) [OF r, of u] by auto
    have "m < length cs" "cs ! m = cs ! i" using m(1,2) len k(4) ki by simp_all
    then have "m = i" using position_eq [OF w _ len] by blast
    then show ?thesis using m(3) c'(2) xs by (simp add: passes_def)
  qed
  ultimately have e: "exec fifo_sys (xs, st) [] (xs, ?st)" by (rule reject_all)
  have "fifo_sys (xs, ?st) None (contents cs ?i q, ?st(t := Effected (Popped (Some ?v))))"
    using k ki xs t by (intro fifo_sys.effect [of _ _ "TryPop c"]) (simp_all add: passes_def rejecting_def)
  then have 1: "exec fifo_sys (xs, st) [] (contents cs ?i q, ?st(t := Effected (Popped (Some ?v))))"
    by (rule exec_silent [OF e])
  have w': "well_linked cs ?i j ?q"
    using w k(3,5) ki unfolding well_linked_def by auto
  have s: "safe cs (q\<lparr>q_head := b\<rparr>) u m = safe cs q u m" "val_at (q\<lparr>q_head := b\<rparr>) a = val_at q a" for u m a b
    by (simp_all add: safe_def val_at_def)
  have others: "t_rel cs ?i j ?q u (th u) (?st u)" for u
  proof (cases "\<exists>c' h'. th u = PopNext c' h'")
    case True
    then obtain c' h' where c': "th u = PopNext c' h'" by blast
    then obtain m where m: "m \<le> i" "safe cs q u m" "h' = cs ! m"
      "st u = (if m < i \<and> \<not> passes c' (val_at q (cs ! Suc m)) then Effected (Popped None) else Pending (TryPop c'))"
      using queue_relD(3) [OF r, of u] by auto
    have "rejecting h ?v (th u) \<longleftrightarrow> m = i \<and> \<not> passes c' ?v"
      using c' m(1,3) k(4) ki position_eq [OF w, of m i] len by (auto simp: rejecting_def)
    then show ?thesis using c' m by (auto simp: s intro!: exI [of _ m])
  next
    case False
    then have "t_rel cs ?i j ?q u (th u) (st u)"
      using len by (intro t_rel_mono [OF queue_relD(3) [OF r]]) (auto simp: s)
    then show ?thesis using False by (auto simp: rejecting_def)
  qed
  have g: "q_garbage q h = None" using w k(4) ki len by (auto simp: well_linked_def)
  have "set (drop i cs) = insert h (set (drop ?i cs))" using Cons_nth_drop_Suc [OF len] k(4) ki by (metis list.simps(15))
  then have ac: "accounted cs ?i ?q (th(t := PopTail h n))"
    using t by (intro accounted_step [OF queue_relD(6) [OF r]]) auto
  have "owns (th u) \<noteq> Some h" if "u \<noteq> t" for u
  proof
    assume "owns (th u) = Some h"
    then have "h \<notin> set cs \<or> (\<exists>m < i. h = cs ! m)"
      using queue_relD(3) [OF r, of u] by (cases "th u") (auto simp: unlinked_def)
    moreover have "h \<in> set cs" using k(4) ki len by simp
    ultimately obtain m where "m < i" "cs ! m = cs ! i" using k(4) ki by auto
    then show False using position_eq [OF w _ len, of m] len by simp
  qed
  moreover have "t \<in> q_pinned q" using queue_relD(4) [OF r, of t] t by simp
  moreover have "t_rel cs ?i j ?q t (PopTail h n) (Effected (Popped (Some ?v)))"
    using k ki g by (auto simp: s intro!: exI [of _ i])
  ultimately have "queue_rel cs ?i j (?q, th(t := PopTail h n)) (contents cs ?i ?q, ?st(t := Effected (Popped (Some ?v))))"
    using w' others ac by (intro queue_rel_step [OF r]) auto
  moreover have "contents cs ?i ?q = contents cs ?i q" by (simp add: contents_def s)
  ultimately show ?thesis using 1 by auto
qed

section \<open>Linearizability\<close>

lemma sim_silent: "queue_rel cs i j s (xs, st) \<Longrightarrow> \<exists>a. exec fifo_sys (xs, st) [] a \<and> queue_sim s a"
  unfolding queue_sim_def by (intro exI [of _ "(xs, st)"] conjI exec_refl) blast

lemma next_linked:
  assumes "well_linked cs i j q" "safe cs q t k" "q_nodes q (cs ! k) = Some nd"
  shows "n_next nd = (if Suc k < length cs then Some (cs ! Suc k) else None)"
  using assms linked_node [OF assms(1) _ assms(3)] by (simp add: linked_def safe_def)

text \<open>A step of a thread inside \<^verbatim>\<open>push\<close>.\<close>

lemma push_step_sim:
  assumes r: "queue_rel cs i j (q, th) (xs, st)" and p: "pushing (th t)"
    and s: "push_step (th t) q = (q', pc)"
  shows "\<exists>a'. exec fifo_sys (xs, st) [] a' \<and> queue_sim (q', th(t := pc)) a'"
proof -
  have w: "well_linked cs i j q" by (rule queue_relD(1) [OF r])
  have tr: "t_rel cs i j q t (th t) (st t)" by (rule queue_relD(3) [OF r])
  have silent: ?thesis if "queue_rel cs' i' j' (q', th(t := pc)) (xs, st)" for cs' i' j'
    using that by (rule sim_silent)
  have stay: ?thesis
    if "q' = q" "th t \<noteq> Unpinned" "t_rel cs i j q t pc (st t)" "owns pc = owns (th t)"
    using that silent queue_rel_pc_silent [OF r] by blast
  show ?thesis
  proof (cases "th t")
    case (PushTail new)
    have "j < length cs \<and> q_tail q = cs ! j" using w by (simp add: well_linked_def)
    then have "t_rel cs i j q t (PushNext new (q_tail q)) (st t)"
      using PushTail tr safe_tail [OF w] by auto
    then show ?thesis using PushTail s
      by (intro stay) auto
  next
    case (PushNext new onto)
    then obtain k where k: "k \<le> j" "safe cs q t k" "onto = cs ! k" "unlinked cs q new (st t)" using tr by auto
    obtain nd where nd: "q_nodes q onto = Some nd" using safe_node [OF k(2)] k(3) by auto
    show ?thesis using PushNext s nd k next_linked [OF w k(2)]
      by (intro stay) (auto split: if_splits)
  next
    case (PushHelp new onto nxt)
    then obtain k where k: "safe cs q t k" "Suc k < length cs" "onto = cs ! k" "nxt = cs ! Suc k"
      "unlinked cs q new (st t)" using tr by auto
    have "\<exists>j'. queue_rel cs i j' (cas_tail (cs ! k) (cs ! Suc k) q, th(t := PushTail new)) (xs, st)"
      using k PushHelp by (intro cas_tail_rel [OF r]) (auto simp: unlinked_def)
    then show ?thesis using silent PushHelp s k by auto
  next
    case (PushLink new onto)
    then obtain k where k: "k \<le> j" "safe cs q t k" "onto = cs ! k" "unlinked cs q new (st t)" using tr by auto
    obtain nd where nd: "q_nodes q onto = Some nd" using safe_node [OF k(2)] k(3) by auto
    show ?thesis
    proof (cases "n_next nd")
      case None
      then obtain v where v: "st t = Pending (Push v)"
        "queue_rel (cs @ [new]) i j (q', th(t := pc)) (xs @ [v], st(t := Effected Pushed))"
        using link_rel [OF r PushLink nd] s PushLink nd by auto
      have "exec fifo_sys (xs, st) [] (xs @ [v], st(t := Effected Pushed))"
        using v(1) by (intro exec_silent [OF exec_refl] fifo_sys.effect) auto
      then show ?thesis using v(2) unfolding queue_sim_def by blast
    next
      case (Some b)
      then show ?thesis using PushLink s nd k
        by (intro stay) auto
    qed
  next
    case (PushSwing new onto)
    then obtain k where k: "safe cs q t k" "Suc k < length cs" "onto = cs ! k" "new = cs ! Suc k"
      "st t = Effected Pushed" using tr by auto
    have "\<exists>j'. queue_rel cs i j' (cas_tail (cs ! k) (cs ! Suc k) q, th(t := Finish Pushed)) (xs, st)"
      using k PushSwing by (intro cas_tail_rel [OF r]) auto
    then show ?thesis using silent PushSwing s k by auto
  qed (use p in auto)
qed

text \<open>A step of a thread inside \<^verbatim>\<open>try_pop\<close> or \<^verbatim>\<open>try_pop_if\<close>.\<close>

lemma pop_next_sim:
  assumes r: "queue_rel cs i j (q, th) (xs, st)" and t: "th t = PopNext c h"
    and s: "pop_step (th t) q = (q', pc)"
  shows "\<exists>a'. exec fifo_sys (xs, st) [] a' \<and> queue_sim (q', th(t := pc)) a'"
proof -
  have w: "well_linked cs i j q" by (rule queue_relD(1) [OF r])
  obtain k where k: "k \<le> i" "safe cs q t k" "h = cs ! k"
    "st t = (if k < i \<and> \<not> passes c (val_at q (cs ! Suc k)) then Effected (Popped None) else Pending (TryPop c))"
    using queue_relD(3) [OF r, of t] t by auto
  obtain nd where nd: "q_nodes q h = Some nd" using safe_node [OF k(2)] k(3) by auto
  then have nx: "n_next nd = (if Suc k < length cs then Some (cs ! Suc k) else None)"
    using next_linked [OF w k(2)] k(3) by simp
  have len: "i < length cs" using w by (simp add: well_linked_def)
  show ?thesis
  proof (cases "Suc k < length cs")
    case False
    then have "k = i" "xs = []" using k(1) len queue_relD(2) [OF r] by (auto simp: contents_def)
    then have "exec fifo_sys (xs, st) [] (xs, st(t := Effected (Popped None)))"
      using k(4) by (intro exec_silent [OF exec_refl] fifo_sys.effect) auto
    moreover have "queue_rel cs i j (q, th(t := Finish (Popped None))) (xs, st(t := Effected (Popped None)))"
      using t by (intro queue_rel_pc [OF r]) auto
    moreover have "q' = q" "pc = Finish (Popped None)" using s t nd nx False by auto
    ultimately show ?thesis unfolding queue_sim_def by blast
  next
    case True
    let ?v = "val_at q (cs ! Suc k)"
    let ?st = "if passes c ?v then Pending (TryPop c) else Effected (Popped None)"
    have "exec fifo_sys (xs, st) [] (xs, st(t := ?st))"
    proof (cases "k < i \<or> passes c ?v")
      case True
      then have "st(t := ?st) = st" using k(4) by auto
      then show ?thesis using exec_refl by metis
    next
      case False
      then have "k = i" "xs = ?v # contents cs (Suc i) q"
        using k(1) contents_Cons [OF \<open>Suc k < length cs\<close>, of q] queue_relD(2) [OF r] by auto
      then have "fifo_sys (xs, st) None (xs, st(t := Effected (Popped None)))"
        using False k(4) by (intro fifo_sys.effect [of _ _ "TryPop c"]) (simp_all add: passes_def)
      then show ?thesis using exec_silent [OF exec_refl] False by auto
    qed
    moreover have "queue_rel cs i j (q, th(t := pc)) (xs, st(t := ?st))"
      using s t nd nx True k by (intro queue_rel_pc [OF r]) (auto simp: passes_def split: option.splits)
    moreover have "q' = q" using s t nd by auto
    ultimately show ?thesis unfolding queue_sim_def by blast
  qed
qed

lemma pop_step_sim:
  assumes r: "queue_rel cs i j (q, th) (xs, st)" and p: "popping (th t)"
    and s: "pop_step (th t) q = (q', pc)"
  shows "\<exists>a'. exec fifo_sys (xs, st) [] a' \<and> queue_sim (q', th(t := pc)) a'"
proof -
  have w: "well_linked cs i j q" by (rule queue_relD(1) [OF r])
  have tr: "t_rel cs i j q t (th t) (st t)" by (rule queue_relD(3) [OF r])
  have silent: ?thesis if "queue_rel cs' i' j' (q', th(t := pc)) (xs, st)" for cs' i' j'
    using that by (rule sim_silent)
  have stay: ?thesis
    if "q' = q" "th t \<noteq> Unpinned" "t_rel cs i j q t pc (st t)" "owns pc = owns (th t)"
    using that silent queue_rel_pc_silent [OF r] by blast
  have len: "i < length cs" "q_head q = cs ! i" "q_tail q = cs ! j" "j < length cs" "i \<le> Suc j"
    using w by (auto simp: well_linked_def)
  show ?thesis
  proof (cases "th t")
    case (PopHead c)
    then have "t_rel cs i j q t (PopNext c (q_head q)) (st t)"
      using tr safe_head [OF w] len by (auto intro!: exI [of _ i])
    then show ?thesis using PopHead s by (intro stay) auto
  next
    case (PopNext c h)
    then show ?thesis using pop_next_sim [OF r _ s] by blast
  next
    case (PopTest f h n)
    then obtain k where k: "k \<le> i" "safe cs q t k" "Suc k < length cs" "h = cs ! k" "n = cs ! Suc k"
      "st t = (if f (val_at q n) then Pending (TryPop (Some f)) else Effected (Popped None))" using tr by auto
    have "Option.bind (q_nodes q n) n_data = Some (val_at q n)"
      using safe_value [OF w safe_mono [OF k(2) _ k(3)]] k(5) by simp
    then show ?thesis using PopTest s k
      by (intro stay) (auto simp: passes_def)
  next
    case (PopCas c h n)
    show ?thesis
    proof (cases "q_head q = h")
      case True
      then obtain xs' st' where "exec fifo_sys (xs, st) [] (xs', st')"
        "queue_rel cs (Suc i) j (q\<lparr>q_head := n\<rparr>, th(t := PopTail h n)) (xs', st')"
        using move_head_rel [OF r PopCas True] by blast
      moreover have "q' = q\<lparr>q_head := n\<rparr>" "pc = PopTail h n" using s PopCas True by auto
      ultimately show ?thesis unfolding queue_sim_def by blast
    next
      case False
      then show ?thesis using PopCas s tr
        by (intro stay) auto
    qed
  next
    case (PopTail h n)
    then obtain k where k: "k < i" "safe cs q t k" "h = cs ! k" "n = cs ! Suc k" "q_garbage q h = None"
      "st t = Effected (Popped (Some (val_at q n)))" using tr by auto
    have kj: "k < j" if "h \<noteq> q_tail q" using that k(1,3) len by (cases "k = j") auto
    have "t_rel cs i j q t pc (st t)"
      using PopTail s k kj by (cases "h = q_tail q") (auto intro!: exI [of _ k])
    then show ?thesis using PopTail s by (intro stay) (auto split: if_splits)
  next
    case (PopSwing h n)
    then obtain k where k: "k < i" "safe cs q t k" "h = cs ! k" "n = cs ! Suc k" "q_garbage q h = None"
      "st t = Effected (Popped (Some (val_at q n)))" using tr by auto
    have "t_rel cs i j' r t (PopDefer h n) (st t)"
      if "j \<le> j'" "k \<noteq> j'" "q_nodes r = q_nodes q" "q_garbage r = q_garbage q" "q_fresh r = q_fresh q" for j' r
      using k that len(5) by (auto simp: safe_def val_at_def intro!: exI [of _ k])
    then have "\<exists>j'. queue_rel cs i j' (cas_tail (cs ! k) (cs ! Suc k) q, th(t := PopDefer h n)) (xs, st)"
      using PopSwing k(1) len(1) by (intro cas_tail_rel [OF r]) auto
    then show ?thesis using silent PopSwing s k by auto
  next
    case (PopDefer h n)
    then have "q_nodes q h \<noteq> None \<and> q_garbage q h = None" using tr by (auto dest: safe_node)
    then show ?thesis using defer_rel [OF r PopDefer] PopDefer s silent by auto
  next
    case (PopRead n)
    then obtain k where k: "safe cs q t k" "0 < k" "n = cs ! k" "st t = Effected (Popped (Some (val_at q n)))"
      using tr by auto
    then show ?thesis using PopRead s safe_value [OF w k(1,2)]
      by (intro stay) auto
  qed (use p in auto)
qed


lemma sim_initial: "queue_sim queue_init fifo_init"
proof -
  have "queue_rel [0] 0 0 queue_init fifo_init"
    by (simp add: queue_rel_def queue_init_def fifo_init_def queue_new_def well_linked_def linked_def contents_def
        accounted_def)
  then show ?thesis unfolding queue_sim_def by blast
qed

lemma sim_steps:
  assumes r: "queue_rel cs i j c (xs, st)" and s: "queue_sys c e c'"
  shows "\<exists>a'. exec fifo_sys (xs, st) (case e of None \<Rightarrow> [] | Some x \<Rightarrow> [x]) a' \<and> queue_sim c' a'"
  using s
proof (cases rule: queue_sys.cases)
  case (pin th t q)
  then show ?thesis using sim_silent [OF pin_rel [of cs i j q th xs st t]] r by simp
next
  case (unpin th t q)
  then show ?thesis using sim_silent [OF unpin_rel [of cs i j q th xs st t]] r by simp
next
  case (invoke th t op q q' pc)
  then have i: "st t = Idle" using queue_relD(3) [of cs i j q th xs st t] r by simp
  have "queue_rel cs i j (q', th(t := pc)) (xs, st(t := Pending op))"
  proof (cases op)
    case (Push v)
    then show ?thesis using alloc_rel [of cs i j q th xs st t v] r invoke by simp
  next
    case (TryPop d)
    then show ?thesis using queue_rel_pc [of cs i j q th xs st t "PopHead d"] r invoke by auto
  qed
  moreover have "fifo_sys (xs, st) (Some (Invoke t op)) (xs, st(t := Pending op))" using i by (rule fifo_sys.call)
  ultimately show ?thesis using invoke exec_step [of fifo_sys] unfolding queue_sim_def by fastforce
next
  case (work th t q q' pc)
  then show ?thesis
    using push_step_sim [of cs i j q th xs st t q' pc] pop_step_sim [of cs i j q th xs st t q' pc] r
    by (auto simp: queue_step_def split: if_splits)
next
  case (respond th t r' q)
  then have i: "st t = Effected r'" using queue_relD(3) [of cs i j q th xs st t] r by simp
  have "queue_rel cs i j (q, th(t := Ready)) (xs, st(t := Idle))"
    using queue_rel_pc [of cs i j q th xs st t Ready] r respond by simp
  moreover have "fifo_sys (xs, st) (Some (Respond t r')) (xs, st(t := Idle))" using i by (rule fifo_sys.return)
  ultimately show ?thesis using respond exec_step unfolding queue_sim_def by fastforce
next
  case (reclaim q x th)
  then show ?thesis using sim_silent [OF destroy_rel [of cs i j q th xs st x]] r by simp
qed

interpretation msq: forward_simulation queue_init queue_sys fifo_init fifo_sys queue_sim
proof unfold_locales
  show "queue_sim queue_init (fifo_init :: 'a list \<times> (nat \<Rightarrow> 'a status))" by (rule sim_initial)
  show "\<exists>a'. exec fifo_sys a (case e of None \<Rightarrow> [] | Some x \<Rightarrow> [x]) a' \<and> queue_sim c' a'"
    if "queue_sim c a" "queue_sys c e c'" for c c' :: "'a qsys" and a e
    using that sim_steps [of _ _ _ c "fst a" "snd a" e c'] by (auto simp: queue_sim_def)
qed

section \<open>Schedules\<close>

text \<open>A schedule names the thread that makes each step; running it gives the visible events.\<close>

datatype 'a choice = Pin nat | Unpin nat | Call nat "'a qop" | Work nat | Return nat | Free nat

fun sched_step :: "'a choice \<Rightarrow> 'a qsys \<Rightarrow> ('a qevent list \<times> 'a qsys) option" where
  "sched_step (Pin t) (q, th) =
     (case th t of Unpinned \<Rightarrow> Some ([], guard_pin t q, th(t := Ready)) | _ \<Rightarrow> None)"
| "sched_step (Unpin t) (q, th) =
     (case th t of Ready \<Rightarrow> Some ([], guard_unpin t q, th(t := Unpinned)) | _ \<Rightarrow> None)"
| "sched_step (Call t op) (q, th) =
     (case th t of
        Ready \<Rightarrow> (case start_op op q of (q', pc) \<Rightarrow> Some ([Invoke t op], q', th(t := pc)))
      | _ \<Rightarrow> None)"
| "sched_step (Work t) (q, th) =
     (if pushing (th t) \<or> popping (th t)
      then (case queue_step (th t) q of (q', pc) \<Rightarrow> Some ([], q', th(t := pc))) else None)"
| "sched_step (Return t) (q, th) =
     (case th t of Finish r \<Rightarrow> Some ([Respond t r], q, th(t := Ready)) | _ \<Rightarrow> None)"
| "sched_step (Free a) (q, th) =
     (if q_garbage q a = Some {} then Some ([], destroy_node a q, th) else None)"

fun run_schedule :: "'a choice list \<Rightarrow> 'a qsys \<Rightarrow> ('a qevent list \<times> 'a qsys) option" where
  "run_schedule [] s = Some ([], s)"
| "run_schedule (c # cs) s =
     Option.bind (sched_step c s) (\<lambda>(es, s'). Option.bind (run_schedule cs s') (\<lambda>(es', s''). Some (es @ es', s'')))"

lemma sched_step_exec: "sched_step c s = Some (es, s') \<Longrightarrow> exec queue_sys s es s'"
  by (cases c; cases s)
    (auto split: qpc.splits prod.splits if_splits
      intro: queue_sys.intros exec_silent [OF exec_refl] exec_visible [OF exec_refl, simplified])

lemma run_schedule_exec: "run_schedule cs s = Some (es, s') \<Longrightarrow> exec queue_sys s es s'"
proof (induction cs arbitrary: s es)
  case (Cons c cs)
  then show ?case by (fastforce split: bind_splits dest: sched_step_exec intro: exec_trans)
qed (simp add: exec_refl)

lemma reachable_rel:
  assumes "exec queue_sys queue_init tr s"
  obtains cs i j xs st where "queue_rel cs i j s (xs, st)"
  using msq.sim_exec [OF assms] by (auto simp: queue_sim_def)

lemma reachable_step: "exec queue_sys queue_init tr (q, th) \<Longrightarrow> pushing (th t) \<or> popping (th t) \<Longrightarrow>
    queue_step (th t) q = (q', pc) \<Longrightarrow> exec queue_sys queue_init tr (q', th(t := pc))"
  by (rule exec_silent) (auto intro: queue_sys.work)

section \<open>Nodes that threads hold\<close>

fun held :: "'a qpc \<Rightarrow> nat set" where
  "held (PushTail new) = {new}"
| "held (PushNext new onto) = {new, onto}"
| "held (PushHelp new onto nxt) = {new, onto, nxt}"
| "held (PushLink new onto) = {new, onto}"
| "held (PushSwing new onto) = {new, onto}"
| "held (PopNext c h) = {h}"
| "held (PopTest f h n) = {h, n}"
| "held (PopCas c h n) = {h, n}"
| "held (PopTail h n) = {h, n}"
| "held (PopSwing h n) = {h, n}"
| "held (PopDefer h n) = {h, n}"
| "held (PopRead n) = {n}"
| "held _ = {}"

lemma held_live:
  assumes r: "queue_rel cs i j (q, th) (xs, st)" and a: "a \<in> held (th t)"
  shows "q_nodes q a \<noteq> None"
proof -
  have len: "i < length cs" using queue_relD(1) [OF r] by (simp add: well_linked_def)
  have live: "q_nodes q (cs ! m) \<noteq> None" if "safe cs q t k" "k \<le> m" "m < length cs" for k m
    using that by (simp add: safe_def)
  have tr: "t_rel cs i j q t (th t) (st t)" by (rule queue_relD(3) [OF r])
  have pop: "a = cs ! k \<or> a = cs ! Suc k \<Longrightarrow> k < i \<Longrightarrow> safe cs q t k \<Longrightarrow> ?thesis" for k
    using live [of k k] live [of k "Suc k"] len by auto
  show ?thesis
  proof (cases "th t")
    case (PopTail h n)
    then show ?thesis using tr a pop by auto
  next
    case (PopSwing h n)
    then show ?thesis using tr a pop by auto
  next
    case (PopDefer h n)
    then show ?thesis using tr a pop by auto
  qed (use tr a live in \<open>auto simp: unlinked_def dest: safe_node\<close>)
qed

section \<open>Running alone\<close>

text \<open>How many steps a thread needs at most to finish its operation if no other thread moves.\<close>

definition next_of :: "'a queue \<Rightarrow> nat \<Rightarrow> nat option" where
  "next_of q a = Option.bind (q_nodes q a) n_next"

fun steps_left :: "'a queue \<Rightarrow> 'a qpc \<Rightarrow> nat" where
  "steps_left q (PushTail new) = (if next_of q (q_tail q) = None then 4 else 7)"
| "steps_left q (PushNext new onto) = (if next_of q onto = None then 3 else if onto = q_tail q then 6 else 9)"
| "steps_left q (PushHelp new onto nxt) = (if onto = q_tail q then 5 else 8)"
| "steps_left q (PushLink new onto) = (if next_of q onto = None then 2 else 8)"
| "steps_left q (PushSwing new onto) = 1"
| "steps_left q (PopHead c) = 8"
| "steps_left q (PopNext c h) = (if q_head q = h then 7 else 11)"
| "steps_left q (PopTest f h n) = (if q_head q = h then 6 else 10)"
| "steps_left q (PopCas c h n) = (if q_head q = h then 5 else 9)"
| "steps_left q (PopTail h n) = 4"
| "steps_left q (PopSwing h n) = 3"
| "steps_left q (PopDefer h n) = 2"
| "steps_left q (PopRead n) = 1"
| "steps_left q _ = 0"

fun solo :: "nat \<Rightarrow> nat \<Rightarrow> 'a qsys \<Rightarrow> 'a qsys" where
  "solo 0 t s = s"
| "solo (Suc n) t (q, th) =
     (if pushing (th t) \<or> popping (th t)
      then (case queue_step (th t) q of (q', pc) \<Rightarrow> solo n t (q', th(t := pc))) else (q, th))"

lemma steps_left_decreases:
  assumes r: "queue_rel cs i j (q, th) (xs, st)" and p: "pushing (th t) \<or> popping (th t)"
    and s: "queue_step (th t) q = (q', pc)" and f: "pc \<noteq> Fault"
  shows "steps_left q' pc < steps_left q (th t)"
proof (cases "th t")
  case (PushHelp new onto nxt)
  have w: "well_linked cs i j q" by (rule queue_relD(1) [OF r])
  obtain k where k: "safe cs q t k" "Suc k < length cs" "onto = cs ! k" "nxt = cs ! Suc k"
    using PushHelp queue_relD(3) [OF r, of t] by auto
  have "next_of q nxt = None" if "onto = q_tail q"
  proof -
    have "q_tail q = cs ! j" "j < length cs" "length cs \<le> j + 2" using w by (auto simp: well_linked_def)
    then have "k = j" using that k(2,3) position_eq [OF w, of k j] by simp
    then show ?thesis using k \<open>length cs \<le> j + 2\<close> linked_node [OF w k(2)]
      by (cases "q_nodes q nxt") (auto simp: next_of_def linked_def)
  qed
  then show ?thesis using s PushHelp by (auto simp: queue_step_def cas_tail_def next_of_def)
qed (use p s f in \<open>auto simp: queue_step_def next_of_def cas_tail_def split: option.splits if_splits\<close>)

lemma not_faulty: "queue_rel cs i j (q, th) (xs, st) \<Longrightarrow> th t \<noteq> Fault"
  using queue_relD(3) [of cs i j q th xs st t] by auto

lemma reachable_not_faulty: "exec queue_sys queue_init tr (q, th) \<Longrightarrow> th t \<noteq> Fault"
  by (metis reachable_rel not_faulty)

lemma finished:
  assumes "steps_left q pc = 0" "pc \<noteq> Fault" "pc \<noteq> Ready" "pc \<noteq> Unpinned"
  shows "\<exists>r. pc = Finish r"
  using assms by (cases pc) (auto split: if_splits)

lemma solo_finishes:
  assumes "exec queue_sys queue_init tr (q, th)" "steps_left q (th t) \<le> n" "th t \<noteq> Ready" "th t \<noteq> Unpinned"
  shows "\<exists>r. snd (solo n t (q, th)) t = Finish r"
  using assms
proof (induction n arbitrary: q th)
  case 0
  then show ?case using finished [of q "th t"] reachable_not_faulty [OF 0(1), of t] by simp
next
  case (Suc n)
  show ?case
  proof (cases "pushing (th t) \<or> popping (th t)")
    case True
    obtain q' pc where s: "queue_step (th t) q = (q', pc)" by fastforce
    have e: "exec queue_sys queue_init tr (q', th(t := pc))" using reachable_step Suc.prems(1) True s by blast
    then have f: "pc \<noteq> Fault" using reachable_not_faulty [OF e, of t] by simp
    obtain cs i j xs st where r: "queue_rel cs i j (q, th) (xs, st)" using reachable_rel Suc.prems(1) by blast
    have "steps_left q' pc \<le> n" using steps_left_decreases [OF r True s f] Suc.prems(2) by simp
    moreover have "pc \<noteq> Ready" "pc \<noteq> Unpinned"
      using s True by (cases "th t"; auto simp: queue_step_def split: option.splits if_splits)+
    ultimately have "\<exists>r. snd (solo n t (q', th(t := pc))) t = Finish r" using e by (intro Suc.IH) (simp_all add: fun_upd_def)
    then show ?thesis using True s by simp
  next
    case False
    then have "steps_left q (th t) = 0" by (cases "th t") auto
    then show ?thesis
      using finished [of q "th t"] reachable_not_faulty [OF Suc.prems(1), of t] Suc.prems False by simp
  qed
qed

section \<open>Dropping the queue\<close>

definition popped :: "nat list \<Rightarrow> nat \<Rightarrow> 'a queue \<Rightarrow> 'a queue" where
  "popped cs i q =
     destroy_node (cs ! i) (q\<lparr>q_head := cs ! Suc i, q_tail := (if cs ! i = q_tail q then cs ! Suc i else q_tail q)\<rparr>)"

lemma run_unprotected_empty:
  assumes "well_linked cs i j q" "\<not> Suc i < length cs"
  shows "run_unprotected (PopHead None) q = Some (Inr (Popped None, q))"
proof -
  obtain nd where "q_nodes q (q_head q) = Some nd" "n_next nd = None"
    using assms safe_node [OF safe_head [OF assms(1), of 0]] next_linked [OF assms(1) safe_head [OF assms(1)]]
    by (auto simp: well_linked_def)
  then show ?thesis by (simp add: run_unprotected.simps unprotected_step_def)
qed

lemma run_unprotected_pop:
  assumes w: "well_linked cs i j q" and l: "Suc i < length cs"
  shows "run_unprotected (PopHead None) q = Some (Inr (Popped (Some (val_at q (cs ! Suc i))), popped cs i q))"
proof -
  note s = safe_head [OF w, of 0]
  obtain nd where nd: "q_nodes q (cs ! i) = Some nd" using safe_node [OF s] by blast
  then have n: "n_next nd = Some (cs ! Suc i)" using next_linked [OF w s] l by simp
  have h: "q_head q = cs ! i" using w by (simp add: well_linked_def)
  have g: "q_garbage q (cs ! i) = None"
    using garbage_position [OF w, of "cs ! i"] position_eq [OF w, of i] l by (cases "q_garbage q (cs ! i)") auto
  have d: "cs ! Suc i \<noteq> cs ! i" using position_eq [OF w l] l by simp
  have v: "Option.bind (q_nodes q (cs ! Suc i)) n_data = Some (val_at q (cs ! Suc i))"
    using safe_value [OF w safe_mono [OF s _ l]] by simp
  show ?thesis
    using nd n h g d v
    by (auto simp: run_unprotected.simps unprotected_step_def popped_def cas_tail_def destroy_node_def)
qed

lemma popped_linked:
  assumes w: "well_linked cs i j q" and l: "Suc i < length cs"
  shows "well_linked cs (Suc i) (if i = j then Suc j else j) (popped cs i q)"
    and "contents cs (Suc i) (popped cs i q) = contents cs (Suc i) q"
    and "accounted cs i q th \<Longrightarrow> accounted cs (Suc i) (popped cs i q) th"
proof -
  have pos: "m < length cs \<Longrightarrow> cs ! m = cs ! i \<longleftrightarrow> m = i" for m using position_eq [OF w, of m i] l by simp
  have t: "q_tail q = cs ! i \<longleftrightarrow> i = j" using pos [of j] w unfolding well_linked_def by metis
  show "well_linked cs (Suc i) (if i = j then Suc j else j) (popped cs i q)"
  proof (cases "i = j")
    case True
    have "popped cs i q = destroy_node (cs ! i) (q\<lparr>q_head := cs ! Suc i, q_tail := cs ! Suc i\<rparr>)"
      using t True by (simp add: popped_def)
    then show ?thesis using w l pos True unfolding well_linked_def by (auto simp: destroy_node_def)
  next
    case False
    have "popped cs i q = destroy_node (cs ! i) (q\<lparr>q_head := cs ! Suc i\<rparr>)"
      using t False by (auto simp: popped_def)
    then show ?thesis using w l pos False unfolding well_linked_def by (auto simp: destroy_node_def)
  qed
  show "contents cs (Suc i) (popped cs i q) = contents cs (Suc i) q"
    using pos by (auto simp: contents_def val_at_def popped_def destroy_node_def)
  have "set (drop i cs) = insert (cs ! i) (set (drop (Suc i) cs))"
    using Cons_nth_drop_Suc [of i cs] l by (metis Suc_lessD list.simps(15))
  then show "accounted cs i q th \<Longrightarrow> accounted cs (Suc i) (popped cs i q) th"
    by (auto simp: accounted_def popped_def destroy_node_def)
qed

lemma queue_drop_all:
  assumes "well_linked cs i j q" "accounted cs i q (\<lambda>_. Unpinned)"
  shows "\<exists>q'. queue_drop vs q = Some (Inr (vs @ contents cs i q, q')) \<and>
    (\<forall>a. q_nodes q' a \<noteq> None \<longrightarrow> q_garbage q' a \<noteq> None)"
  using assms
proof (induction "length cs - i" arbitrary: i j q vs rule: less_induct)
  case less
  show ?case
  proof (cases "Suc i < length cs")
    case True
    note pl = popped_linked [OF less.prems(1) True]
    have "\<exists>q'. queue_drop (vs @ [val_at q (cs ! Suc i)]) (popped cs i q) =
        Some (Inr ((vs @ [val_at q (cs ! Suc i)]) @ contents cs (Suc i) (popped cs i q), q')) \<and>
      (\<forall>a. q_nodes q' a \<noteq> None \<longrightarrow> q_garbage q' a \<noteq> None)"
      using True by (intro less.hyps [OF _ pl(1) pl(3) [OF less.prems(2)]]) simp
    then show ?thesis
      using run_unprotected_pop [OF less.prems(1) True] pl(2) contents_Cons [OF True, of q]
      by (simp add: queue_drop.simps [of vs q])
  next
    case False
    have i: "i < length cs" "q_head q = cs ! i" using less.prems(1) by (auto simp: well_linked_def)
    then have d: "drop i cs = [cs ! i]" "contents cs i q = []"
      using False Cons_nth_drop_Suc [of i cs] by (auto simp: contents_def)
    have "q_nodes q (cs ! i) \<noteq> None" using safe_node [OF safe_head [OF less.prems(1)]] by auto
    then show ?thesis
      using run_unprotected_empty [OF less.prems(1) False] d i(2) less.prems(2)
      by (auto simp: queue_drop.simps [of vs q] accounted_def)
  qed
qed

section \<open>Properties\<close>

text \<open>
  C3: the queue is linearizable: whatever the interleaving of pushes, pops, conditional pops and node
  reclamation, the invocations and responses that the threads observe are those of a first-in first-out
  queue on which each operation takes effect in one atomic step between its call and its return.
\<close>

theorem queue_linearizable:
  assumes "exec queue_sys queue_init tr s"
  shows "\<exists>a. exec fifo_sys fifo_init tr a"
  by (rule msq.trace_inclusion [OF assms])

theorem queue_linearizable_witness:
  "\<exists>a. exec fifo_sys fifo_init
     [Invoke 0 (Push (5 :: nat)), Invoke 1 (TryPop None), Respond 1 (Popped (Some 5)), Respond 0 Pushed] a"
proof -
  have "\<exists>s. run_schedule
    [Pin 0, Pin 1, Call 0 (Push 5), Work 0, Work 0, Work 0, Call 1 (TryPop None), Work 1, Work 1, Work 1,
     Work 1, Work 1, Work 1, Work 1, Return 1, Work 0, Return 0] queue_init =
    Some ([Invoke 0 (Push (5 :: nat)), Invoke 1 (TryPop None), Respond 1 (Popped (Some 5)), Respond 0 Pushed], s)"
    by (simp add: queue_init_def queue_new_def guard_pin_def queue_alloc_def queue_step_def cas_tail_def
        defer_destroy_def)
  then show ?thesis using run_schedule_exec queue_linearizable by blast
qed

text \<open>
  C8: memory safety under epoch-based reclamation: no thread ever dereferences a freed node, reads an
  uninitialised value or retires a node twice, and every node a thread holds is still allocated, so that
  no compare-exchange can be fooled by a reused address.
\<close>

theorem queue_memory_safe:
  assumes "exec queue_sys queue_init tr (q, th)"
  shows "th t \<noteq> Fault \<and> (\<forall>a. a \<in> held (th t) \<longrightarrow> q_nodes q a \<noteq> None)"
  using reachable_rel [OF assms] held_live not_faulty by metis

theorem queue_memory_safe_witness:
  "\<exists>tr q th. exec queue_sys queue_init tr (q, th) \<and> th 1 = PopRead 1 \<and>
     q_nodes q 1 = Some \<lparr>n_data = Some (5 :: nat), n_next = None\<rparr> \<and> q_nodes q 0 \<noteq> None \<and> q_nodes q 1 \<noteq> None"
proof -
  have "\<exists>q th. run_schedule
    [Pin 0, Pin 1, Call 0 (Push 5), Work 0, Work 0, Work 0, Call 1 (TryPop None), Work 1, Work 1, Work 1,
     Work 1, Work 1, Work 1] queue_init = Some ([Invoke 0 (Push (5 :: nat)), Invoke 1 (TryPop None)], q, th) \<and>
    th 1 = PopRead 1 \<and> q_nodes q 1 = Some \<lparr>n_data = Some 5, n_next = None\<rparr> \<and> q_nodes q 0 \<noteq> None"
    by (simp add: queue_init_def queue_new_def guard_pin_def queue_alloc_def queue_step_def cas_tail_def
        defer_destroy_def)
  then obtain q th where e: "exec queue_sys queue_init [Invoke 0 (Push (5 :: nat)), Invoke 1 (TryPop None)] (q, th)"
    and h: "th 1 = PopRead 1" "q_nodes q 1 = Some \<lparr>n_data = Some 5, n_next = None\<rparr>" "q_nodes q 0 \<noteq> None"
    using run_schedule_exec by blast
  moreover have "q_nodes q 1 \<noteq> None" using queue_memory_safe [OF e, of 1] h(1) by simp
  ultimately show ?thesis by blast
qed

text \<open>
  C22: every operation is obstruction free: from every reachable state, a thread that runs alone finishes
  its push or pop after at most eleven accesses to shared memory, whatever the other threads left behind.
\<close>

theorem queue_solo_returns:
  assumes "exec queue_sys queue_init tr (q, th)" "pushing (th t) \<or> popping (th t)"
  shows "\<exists>r. snd (solo 11 t (q, th)) t = Finish r"
proof -
  have "steps_left q (th t) \<le> 11" by (cases "th t") auto
  moreover have "th t \<noteq> Ready" "th t \<noteq> Unpinned" using assms(2) by auto
  ultimately show ?thesis using solo_finishes [OF assms(1)] by blast
qed

theorem queue_solo_returns_witness:
  "\<exists>tr q th r. exec queue_sys queue_init tr (q, th) \<and> th 1 = PushTail 2 \<and> next_of q (q_tail q) = Some (1 :: nat) \<and>
     snd (solo 11 1 (q :: nat queue, th)) 1 = Finish r"
proof -
  have "\<exists>q th. run_schedule
    [Pin 0, Pin 1, Call 0 (Push 5), Work 0, Work 0, Work 0, Call 1 (Push 6)] queue_init =
    Some ([Invoke 0 (Push (5 :: nat)), Invoke 1 (Push 6)], q, th) \<and>
    th 1 = PushTail 2 \<and> next_of q (q_tail q) = Some 1"
    by (simp add: queue_init_def queue_new_def guard_pin_def queue_alloc_def queue_step_def next_of_def)
  then obtain q th where e: "exec queue_sys queue_init [Invoke 0 (Push (5 :: nat)), Invoke 1 (Push 6)] (q, th)"
    and h: "th 1 = PushTail 2" "next_of q (q_tail q) = Some 1"
    using run_schedule_exec by blast
  then show ?thesis using queue_solo_returns [OF e, of 1] by auto
qed

text \<open>
  C28: \<^verbatim>\<open>pop_if_internal\<close> can evaluate its condition on a value that another thread has already popped:
  the value 7 is pushed once and returned to thread 1, and thread 2 is about to apply its condition to the
  copy left in the node.
\<close>

theorem pop_if_tests_moved_value:
  "\<exists>q th. exec queue_sys queue_init
     [Invoke 0 (Push (7 :: nat)), Respond 0 Pushed, Invoke 2 (TryPop (Some f)), Invoke 1 (TryPop None),
      Respond 1 (Popped (Some 7))] (q, th) \<and>
    th 2 = PopTest f 0 1 \<and> queue_step (th 2) q = (q, if f 7 then PopCas (Some f) 0 1 else Finish (Popped None))"
proof -
  have "\<exists>q th. run_schedule
    [Pin 0, Call 0 (Push 7), Work 0, Work 0, Work 0, Work 0, Return 0,
     Pin 2, Call 2 (TryPop (Some f)), Work 2, Work 2,
     Pin 1, Call 1 (TryPop None), Work 1, Work 1, Work 1, Work 1, Work 1, Work 1, Return 1] queue_init =
    Some ([Invoke 0 (Push (7 :: nat)), Respond 0 Pushed, Invoke 2 (TryPop (Some f)), Invoke 1 (TryPop None),
      Respond 1 (Popped (Some 7))], q, th) \<and>
    th 2 = PopTest f 0 1 \<and> queue_step (th 2) q = (q, if f 7 then PopCas (Some f) 0 1 else Finish (Popped None))"
    by (simp add: queue_init_def queue_new_def guard_pin_def queue_alloc_def queue_step_def cas_tail_def
        defer_destroy_def)
  then show ?thesis using run_schedule_exec by blast
qed

text \<open>
  C23: dropping a queue that no thread uses any more drops exactly the values that the queue contains, in
  the order in which they would be popped, and frees all its nodes: what remains allocated are nodes
  retired earlier, which the epoch collector frees.
\<close>

theorem queue_drop_frees_all:
  assumes "exec queue_sys queue_init tr (q, \<lambda>_. Unpinned)"
  shows "\<exists>vs q'. queue_drop [] q = Some (Inr (vs, q')) \<and> exec fifo_sys fifo_init tr (vs, \<lambda>_. Idle) \<and>
    (\<forall>a. q_nodes q' a \<noteq> None \<longrightarrow> q_garbage q' a \<noteq> None)"
proof -
  obtain xs st cs i j where e: "exec fifo_sys fifo_init tr (xs, st)"
    and r: "queue_rel cs i j (q, \<lambda>_. Unpinned) (xs, st)"
    using msq.sim_exec [OF assms] by (auto simp: queue_sim_def)
  have "st = (\<lambda>_. Idle)" using queue_relD(3) [OF r] by auto
  moreover have "xs = contents cs i q" by (rule queue_relD(2) [OF r])
  ultimately show ?thesis
    using queue_drop_all [OF queue_relD(1) [OF r] queue_relD(6) [OF r], of "[]"] e by auto
qed

theorem queue_drop_frees_all_witness:
  "\<exists>q vs q'. exec queue_sys queue_init [Invoke 0 (Push (5 :: nat)), Respond 0 Pushed] (q, \<lambda>_. Unpinned) \<and>
     queue_drop [] q = Some (Inr (vs, q')) \<and>
     exec fifo_sys fifo_init [Invoke 0 (Push 5), Respond 0 Pushed] (vs, \<lambda>_. Idle)"
proof -
  have "\<exists>q. run_schedule [Pin 0, Call 0 (Push 5), Work 0, Work 0, Work 0, Work 0, Return 0, Unpin 0] queue_init =
    Some ([Invoke 0 (Push (5 :: nat)), Respond 0 Pushed], q, \<lambda>_. Unpinned)"
    by (simp add: queue_init_def queue_new_def guard_pin_def guard_unpin_def queue_alloc_def queue_step_def
        cas_tail_def fun_eq_iff)
  then obtain q where e: "exec queue_sys queue_init [Invoke 0 (Push (5 :: nat)), Respond 0 Pushed] (q, \<lambda>_. Unpinned)"
    using run_schedule_exec by blast
  then show ?thesis using queue_drop_frees_all [OF e] by blast
qed

end
