(* ===== verification/Barrier_Race.thy ===== *)
theory Barrier_Race
  imports Cycle_Spec
begin

text \<open>
  The phase barrier against the sweep. A thread that pins itself in the root-tracing phase marks the objects
  of its hazard pointers at once (\<^verbatim>\<open>HazardPointer::protect\<close> installs a marker that calls \<^verbatim>\<open>ManObj::mark\<close>). The
  help with tracing waits until no thread is pinned in the normal phase any more, because a thread that still
  sweeps would take a black object for garbage (the comment of \<^verbatim>\<open>is_tracing_synced\<close>); the phase barrier does not wait.
\<close>

section \<open>Pinning in the root-tracing phase\<close>

text \<open>Marking an object without links by the phase barrier.\<close>

lemma obj_mark_leaf:
  assumes o: "heap s a = Some obj" "links obj = []" and b: "black_of s g = b" "marked (header obj) \<noteq> b"
  shows "obj_mark k a g (s, []) = Some (Inr (), set_header a (with_marked b (header obj)) s, [])"
  using is_marked_alone [OF o(1), of g] mark_header_alone [OF o(1) b(1)] o b
  by (simp add: obj_mark_def act_when_def shade_outgoings_def outgoings_def act_simps)

lemma hazard_mark_leaf:
  assumes o: "heap s a = Some obj" "links obj = []" and c: "guard_count (locals s t) = 1"
    and b: "black_of s \<lparr>g_local = t, g_flag = f\<rparr> = b" "marked (header obj) \<noteq> b"
  shows "\<exists>s'. hazard_mark k t f a (s, []) = Some (Inr (), s', []) \<and> heap s' = (heap s)(a \<mapsto> obj\<lparr>header := with_marked b (header obj)\<rparr>) \<and>
    marked_objs s' = marked_objs s \<and> locals s' = locals s \<and> n_locals s' = n_locals s \<and> in_use s' = in_use s"
proof -
  let ?g = "\<lparr>g_local = t, g_flag = f\<rparr>"
  define s1 where "s1 = upd_local t (\<lambda>l. l\<lparr>guard_count := 2\<rparr>) (s\<lparr>should_help := (should_help s)(f := False)\<rparr>)"
  have p: "nested_pin t f (s, []) = Some (Inr ?g, s1, [])"
    using c by (simp add: nested_pin_def guard_new_def count_guard_def checked_add_def act_simps s1_def)
  have s1: "heap s1 = heap s" "black_of s1 ?g = black_of s ?g" "guard_count (locals s1 t) = 2" "should_help s1 f = False"
    by (simp_all add: s1_def thread_epoch_def)
  note m = obj_mark_leaf [of s1 a obj ?g b k, unfolded s1, OF o b]
  show ?thesis
    using p m c s1
    by (simp add: hazard_mark_def guard_drop_def help_collect_if_scheduled_def unpin_inner_def act_when_def act_simps
      set_header_def o) (auto simp: s1_def fun_eq_iff)
qed

lemma pin_marks_hazard:
  assumes o: "heap s a = Some obj" "links obj = []" "marked (header obj) = epoch_color e" "a \<noteq> 0"
    and t: "guard_count (locals s t) = 0" "hazards (locals s t) = [a]" "hazards_marker (locals s t) = [True]"
    and e: "atomic_epoch_load (global_epoch s) = e" "epoch_phase e = Inr RT" "timestamp (last_observed (locals s t)) \<noteq> timestamp e"
  shows "\<exists>s'. handle_pin k t f f' (s, []) = Some (Inr \<lparr>g_local = t, g_flag = f\<rparr>, s', []) \<and>
    heap s' = (heap s)(a \<mapsto> obj\<lparr>header := with_marked (flip (epoch_color e)) (header obj)\<rparr>) \<and>
    hazards (locals s' t) = [a] \<and> thread_epoch s' t = pinned e \<and> (\<forall>u. u \<noteq> t \<longrightarrow> locals s' u = locals s u)"
proof -
  let ?b = "flip (epoch_color e)"
  let ?s = "s\<lparr>should_help := (should_help s)(f := False)\<rparr>"
  let ?s0 = "upd_local t (\<lambda>l. l\<lparr>guard_count := 1\<rparr>) ?s"
  define s1 where "s1 = upd_local t (\<lambda>l. l\<lparr>local_epoch := atomic_epoch_store (pinned e) (local_epoch l)\<rparr>) ?s0"
  have s1: "heap s1 = heap s" "guard_count (locals s1 t) = 1" "hazards (locals s1 t) = [a]" "hazards_marker (locals s1 t) = [True]"
    "\<And>u. u \<noteq> t \<Longrightarrow> locals s1 u = locals s u" "thread_epoch s1 t = pinned e" "last_observed (locals s1 t) = last_observed (locals s t)"
    using t by (simp_all add: s1_def thread_epoch_def atomic_epoch_store_def atomic_epoch_load_non_atomic_def)
  have b: "black_of s1 \<lparr>g_local = t, g_flag = f'\<rparr> = ?b" "marked (header obj) \<noteq> ?b"
    using s1(6) o(3) by (simp_all add: epoch_simps)
  have h: "heap s1 a = Some obj" using o(1) s1(1) by simp
  obtain s2 where s2: "hazard_mark k t f' a (s1, []) = Some (Inr (), s2, [])"
    "heap s2 = (heap s1)(a \<mapsto> obj\<lparr>header := with_marked ?b (header obj)\<rparr>)" "locals s2 = locals s1"
    using hazard_mark_leaf [OF h o(2) s1(2) b] by blast
  then have pb: "phase_barrier k t f' (s1, []) = Some (Inr (), s2, [])"
    using o(4) s1(3,4) by (simp add: phase_barrier_def act_simps)
  have l: "load_epoch (?s0, []) = Some (Inr e, ?s0, [])" using e(1) by (simp add: load_epoch_def act_simps)
  have p: "publish_epoch t e (?s0, []) = Some (Inr e, s1, [])"
    using e(1) by (simp add: publish_epoch.simps load_epoch_def act_simps s1_def)
  have "pin_freshly k t f' (?s0, []) = Some (Inr (), upd_local t (\<lambda>l. l\<lparr>last_observed := e\<rparr>) s2, [])"
    using l p pb e(2,3) s1(7) by (simp add: pin_freshly_def act_simps act_when_def)
  then have "handle_pin k t f f' (s, []) = Some (Inr \<lparr>g_local = t, g_flag = f\<rparr>, upd_local t (\<lambda>l. l\<lparr>last_observed := e\<rparr>) s2, [])"
    using t(1) by (simp add: handle_pin_def guard_new_def pin_inner_def count_guard_def checked_add_def act_simps act_when_def)
  then show ?thesis using s2(2,3) s1 by (auto simp: thread_epoch_def)
qed

section \<open>Properties\<close>


text \<open>
  After the first cycle: the white colour is \<^const>\<open>C1\<close>. Participant 0 is pinned and sweeps; participant 1 protects an object
  that survived.
\<close>

definition race_epoch :: epoch where
  "race_epoch = with_color C1 (with_timestamp 3 starting)"

definition race_obj :: "nat mobj" where
  "race_obj = \<lparr>header = new_with_type_id C1 0 0, links = [], item_val = 7, obj_size = 32\<rparr>"

definition race_rt :: "nat rt" where
  "race_rt = (global_new None [] [] [])
     \<lparr>heap := [0x1000 \<mapsto> race_obj], global_epoch := atomic_epoch_new race_epoch,
      locals := (\<lambda>u. if u = 0 then participant_default\<lparr>guard_count := 1, local_epoch := atomic_epoch_new (pinned race_epoch)\<rparr>
        else participant_default\<lparr>hazards := [0x1000], hazards_marker := [True]\<rparr>),
      n_locals := 2, in_use := (\<lambda>u. u < 2)\<rparr>"


end
