(* ===== verification/Snapshot.thy ===== *)
theory Snapshot
  imports Cycle_Spec
begin

text \<open>
  Mutators that run while the collector is tracing. Collector and mutators take turns, each turn a whole
  operation of the model: mutators load, swap and compare-exchange pointers of cells and of objects they hold;
  the collector (or a thread that helps it) takes batches, marks the roots in them and executes mark tasks. The
  write barriers keep every object safe that a mutator can still reach: it is black, or a chain of white edges leads to it
  from an object whose marking is scheduled or from a root that is still to be scanned.
\<close>

section \<open>Safe objects\<close>

definition rooted :: "'v rt \<Rightarrow> usize \<Rightarrow> bool" where
  "rooted s a \<longleftrightarrow> (\<exists>n. roots_at s a = Some n \<and> 0 < n)"

definition white_edges :: "nat \<Rightarrow> color \<Rightarrow> 'v rt \<Rightarrow> (usize \<times> usize) set" where
  "white_edges k w s = {(a, c). \<exists>obj p. heap s a = Some obj \<and> marked (header obj) = w \<and> p \<in> set (links obj) \<and>
     ptr_meta_of p = Unrooted w \<and> as_ref k p = Some c}"

definition unscanned :: "color \<Rightarrow> usize list \<Rightarrow> 'v rt \<Rightarrow> usize set" where
  "unscanned w todo s = set todo \<union> set (all_objs (fresh_objs s w)) \<union> set (pending w s)"

text \<open>Where marking will still start: \<open>G\<close> are objects whose marking is in progress, \<open>hps\<close> the hazard pointers of the scan.\<close>

definition sources :: "color \<Rightarrow> usize set \<Rightarrow> usize set \<Rightarrow> usize list \<Rightarrow> 'v rt \<Rightarrow> usize set" where
  "sources w hps G todo s = gray s \<union> G \<union> {a \<in> unscanned w todo s. rooted s a \<or> a \<in> hps}"

definition safe :: "nat \<Rightarrow> color \<Rightarrow> usize set \<Rightarrow> usize set \<Rightarrow> usize list \<Rightarrow> 'v rt \<Rightarrow> usize set" where
  "safe k w hps G todo s = {a. color_at s a = Some (flip w)} \<union> (white_edges k w s)\<^sup>* `` sources w hps G todo s"

lemma safe_black: "color_at s a = Some (flip w) \<Longrightarrow> a \<in> safe k w hps G todo s"
  by (simp add: safe_def)

lemma safe_source: "a \<in> sources w hps G todo s \<Longrightarrow> a \<in> safe k w hps G todo s"
  by (auto simp: safe_def)

lemma safe_gray: "a \<in> gray s \<Longrightarrow> a \<in> safe k w hps G todo s"
  by (rule safe_source) (simp add: sources_def)

lemma white_edge_white: "(a, c) \<in> white_edges k w s \<Longrightarrow> color_at s a = Some w"
  by (auto simp: white_edges_def color_at_def header_at_def)

lemma safe_white_edge:
  assumes "a \<in> safe k w hps G todo s" "(a, c) \<in> white_edges k w s"
  shows "c \<in> safe k w hps G todo s"
proof -
  have "color_at s a \<noteq> Some (flip w)" using white_edge_white [OF assms(2)] by simp
  then have "a \<in> (white_edges k w s)\<^sup>* `` sources w hps G todo s" using assms(1) by (simp add: safe_def)
  then show ?thesis using assms(2) by (auto simp: safe_def intro: rtrancl_into_rtrancl)
qed

text \<open>What is safe stays safe when the sources and the ends of removed edges are safe.\<close>

lemma safe_grows:
  assumes black: "\<And>a. color_at s a = Some (flip w) \<Longrightarrow> color_at s' a = Some (flip w)"
    and src: "sources w hps G todo s \<subseteq> safe k w hps' G' todo' s'"
    and edge: "\<And>a c. (a, c) \<in> white_edges k w s \<Longrightarrow> (a, c) \<in> white_edges k w s' \<or> c \<in> safe k w hps' G' todo' s'"
  shows "safe k w hps G todo s \<subseteq> safe k w hps' G' todo' s'"
proof
  fix a assume "a \<in> safe k w hps G todo s"
  then consider "color_at s a = Some (flip w)" | r where "r \<in> sources w hps G todo s" "(r, a) \<in> (white_edges k w s)\<^sup>*"
    by (auto simp: safe_def)
  then show "a \<in> safe k w hps' G' todo' s'"
  proof cases
    case 1
    then show ?thesis by (intro safe_black black)
  next
    case 2
    from 2(2) show ?thesis
    proof (induction rule: rtrancl_induct)
      case base
      then show ?case using 2(1) src by blast
    next
      case (step b c)
      then show ?case using edge [OF step.hyps(2)] safe_white_edge by blast
    qed
  qed
qed

section \<open>The invariant\<close>

definition cell_target :: "nat \<Rightarrow> 'v rt \<Rightarrow> nat \<Rightarrow> usize option" where
  "cell_target k s c = Option.bind (cells s c) (as_ref k)"

text \<open>Every cell counts as a root of its object.\<close>

definition cells_ok :: "nat \<Rightarrow> 'v rt \<Rightarrow> bool" where
  "cells_ok k s \<longleftrightarrow> finite (dom (cells s)) \<and> (\<forall>c p. cells s c = Some p \<longrightarrow> ptr_meta_of p = Rooted) \<and>
     (\<forall>c a. cell_target k s c = Some a \<longrightarrow> a \<in> dom (heap s)) \<and>
     (\<forall>a n. roots_at s a = Some n \<longrightarrow> card {c. cell_target k s c = Some a} \<le> unat n)"

definition links_ok :: "nat \<Rightarrow> color \<Rightarrow> usize set \<Rightarrow> 'v rt \<Rightarrow> bool" where
  "links_ok k w S s \<longleftrightarrow> (\<forall>a obj p. heap s a = Some obj \<and> p \<in> set (links obj) \<longrightarrow> valid_ptr k p s \<and>
     (ptr_meta_of p = Unrooted w \<and> marked (header obj) = w \<or>
      ptr_meta_of p = Unrooted (flip w) \<and> (\<forall>c. as_ref k p = Some c \<longrightarrow> c \<in> S)))"

definition snap_inv :: "nat \<Rightarrow> color \<Rightarrow> usize set \<Rightarrow> usize set \<Rightarrow> usize list \<Rightarrow> (nat \<Rightarrow> usize set) \<Rightarrow> 'v rt \<Rightarrow> bool" where
  "snap_inv k w hps G todo held s \<longleftrightarrow> (let S = safe k w hps G todo s in
     (\<exists>ph. global_phase s = Inr ph \<and> ph \<noteq> N) \<and> cells_ok k s \<and> links_ok k w S s \<and>
     (\<forall>a. rooted s a \<longrightarrow> a \<in> S) \<and> (\<forall>t. held t \<subseteq> S) \<and> (\<forall>h\<in>hazard_set s. heap s h \<noteq> None \<longrightarrow> h \<in> S) \<and>
     sources w hps G todo s \<union> unscanned w todo s \<subseteq> dom (heap s))"

lemma snap_invD:
  assumes "snap_inv k w hps G todo held s"
  shows "\<exists>ph. global_phase s = Inr ph \<and> ph \<noteq> N" "cells_ok k s" "links_ok k w (safe k w hps G todo s) s"
    "rooted s a \<Longrightarrow> a \<in> safe k w hps G todo s" "held t \<subseteq> safe k w hps G todo s"
    "h \<in> hazard_set s \<Longrightarrow> heap s h \<noteq> None \<Longrightarrow> h \<in> safe k w hps G todo s"
    "sources w hps G todo s \<subseteq> dom (heap s)" "unscanned w todo s \<subseteq> dom (heap s)"
  using assms by (auto simp: snap_inv_def Let_def)

lemma links_okD:
  assumes "links_ok k w S s" "heap s a = Some obj" "p \<in> set (links obj)"
  shows "valid_ptr k p s \<and> (ptr_meta_of p = Unrooted w \<and> marked (header obj) = w \<or>
    ptr_meta_of p = Unrooted (flip w) \<and> (\<forall>c. as_ref k p = Some c \<longrightarrow> c \<in> S))"
  using assms by (simp add: links_ok_def)

text \<open>Safe objects are allocated.\<close>

lemma safe_heap:
  assumes "snap_inv k w hps G todo held s" "a \<in> safe k w hps G todo s"
  shows "heap s a \<noteq> None"
proof -
  consider "color_at s a = Some (flip w)" | r where "r \<in> sources w hps G todo s" "(r, a) \<in> (white_edges k w s)\<^sup>*"
    using assms(2) by (auto simp: safe_def)
  then show ?thesis
  proof cases
    case 1
    then show ?thesis by (auto simp: color_at_def header_at_def)
  next
    case 2
    from 2(2) show ?thesis
    proof (induction rule: rtrancl_induct)
      case base
      then show ?case using 2(1) snap_invD(7) [OF assms(1)] by blast
    next
      case (step b c)
      then show ?case using snap_invD(3) [OF assms(1)] by (fastforce simp: white_edges_def links_ok_def valid_ptr_def)
    qed
  qed
qed

text \<open>At the end of the marking only black objects are safe, and all that can be reached is black.\<close>

lemma snap_complete:
  assumes inv: "snap_inv k w hps {} [] held s" and fin: "gray s = {}" "unscanned w [] s = {}"
    and a: "a \<in> (edges k s)\<^sup>* `` (root_objs s \<union> held t)"
  shows "color_at s a = Some (flip w)"
proof -
  have S: "x \<in> safe k w hps {} [] s \<longleftrightarrow> color_at s x = Some (flip w)" for x
    using fin by (auto simp: safe_def sources_def)
  obtain r where r: "r \<in> root_objs s \<union> held t" "(r, a) \<in> (edges k s)\<^sup>*" using a by blast
  from r(2) show ?thesis
  proof (induction rule: rtrancl_induct)
    case base
    have "rooted s r \<or> (r \<in> hazard_set s \<and> heap s r \<noteq> None) \<or> r \<in> held t"
      using r(1) by (auto simp: root_objs_def rooted_def roots_at_def header_at_def)
    then show ?case
      using snap_invD(4) [OF inv, of r] snap_invD(5) [OF inv, of t] snap_invD(6) [OF inv, of r] S by blast
  next
    case (step b c)
    then obtain obj p where o: "heap s b = Some obj" "p \<in> set (links obj)" "as_ref k p = Some c" by (auto simp: edges_def)
    have "marked (header obj) = flip w" using step.IH o(1) by (simp add: color_at_def header_at_def)
    then have "c \<in> safe k w hps {} [] s"
      using snap_invD(3) [OF inv] o by (fastforce simp: links_ok_def)
    then show ?case using S by simp
  qed
qed

section \<open>Elementary changes\<close>

text \<open>Scheduling more marks.\<close>

lemma color_at_cong: "heap s' = heap s \<Longrightarrow> color_at s' = color_at s \<and> roots_at s' = roots_at s \<and> rooted s' = rooted s"
  by (simp add: color_at_def roots_at_def header_at_def rooted_def fun_eq_iff)

lemma hazard_set_view: "trace_view (drop_tasks s') = trace_view (drop_tasks s) \<Longrightarrow> hazard_set s' = hazard_set s"
  using drop_tasks_viewD [of s' s] by (simp add: hazard_set_def)

lemma snap_gray:
  assumes inv: "snap_inv k w hps G todo held s" and sch: "scheduled g as s s'" and g: "g_local g < n_locals s"
    and as: "set as \<subseteq> dom (heap s)"
  shows "snap_inv k w hps G todo held s'" "safe k w hps G todo s \<subseteq> safe k w hps G todo s'" "gray s' = gray s \<union> set as"
proof -
  note v = drop_tasks_viewD [OF scheduled_view [OF sch]]
  show gr: "gray s' = gray s \<union> set as" by (rule scheduled_gray [OF sch g])
  have c: "color_at s' = color_at s" "roots_at s' = roots_at s" "rooted s' = rooted s" using color_at_cong [OF v(1)] by simp_all
  have u: "unscanned w todo s' = unscanned w todo s" by (simp add: unscanned_def pending_def v)
  have src: "sources w hps G todo s' = sources w hps G todo s \<union> set as" by (auto simp: sources_def gr c u)
  have we: "white_edges k w s' = white_edges k w s" by (simp add: white_edges_def v)
  show sub: "safe k w hps G todo s \<subseteq> safe k w hps G todo s'"
    by (rule safe_grows) (auto simp: c we src intro: safe_source)
  have t: "cell_target k s' = cell_target k s" by (simp add: cell_target_def v fun_eq_iff)
  have "links_ok k w (safe k w hps G todo s') s'"
    using snap_invD(3) [OF inv] sub unfolding links_ok_def valid_ptr_def v by blast
  moreover have "cells_ok k s'" using snap_invD(2) [OF inv] by (simp add: cells_ok_def v c t)
  ultimately show "snap_inv k w hps G todo held s'"
    using snap_invD(1,4-8) [OF inv] sub as unfolding snap_inv_def Let_def
    by (simp add: c v u src hazard_set_view [OF scheduled_view [OF sch]]) blast
qed

text \<open>Writing a link of an object.\<close>

lemma write_field:
  assumes "heap s a = Some obj"
  shows "write_link (Field a i) q s = s\<lparr>heap := (heap s)(a \<mapsto> obj\<lparr>links := (links obj)[i := q]\<rparr>)\<rparr>"
  using assms by (simp add: write_link_def)

lemma snap_write:
  assumes inv: "snap_inv k w hps G todo held s" and obj: "heap s a = Some obj" "i < length (links obj)"
    and del: "\<And>c. ptr_meta_of (links obj ! i) = Unrooted w \<Longrightarrow> as_ref k (links obj ! i) = Some c \<Longrightarrow>
      ptr_meta_of q = Unrooted w \<and> as_ref k q = Some c \<or> color_at s c = Some (flip w) \<or> c \<in> gray s"
    and ins: "ptr_meta_of q = Unrooted w \<and> marked (header obj) = w \<or>
      ptr_meta_of q = Unrooted (flip w) \<and> (\<forall>c. as_ref k q = Some c \<longrightarrow> c \<in> safe k w hps G todo s)"
    and valid: "valid_ptr k q s"
  shows "snap_inv k w hps G todo held (write_link (Field a i) q s) \<and>
    safe k w hps G todo s \<subseteq> safe k w hps G todo (write_link (Field a i) q s)"
proof -
  let ?p = "links obj ! i" and ?obj = "obj\<lparr>links := (links obj)[i := q]\<rparr>" and ?s = "write_link (Field a i) q s"
  note s = write_field [OF obj(1), of i q]
  have h: "heap ?s x = (if x = a then Some ?obj else heap s x)" for x by (simp add: s)
  have hd: "header_at ?s = header_at s" by (simp add: fun_eq_iff)
  then have c: "color_at ?s = color_at s" "roots_at ?s = roots_at s" "rooted ?s = rooted s"
    by (simp_all add: color_at_def roots_at_def rooted_def fun_eq_iff)
  have gr: "gray ?s = gray s" and u: "unscanned w todo ?s = unscanned w todo s" and hz: "hazard_set ?s = hazard_set s"
    by (simp_all add: gray_def unscanned_def pending_def hazard_set_def s)
  have src: "sources w hps G todo ?s = sources w hps G todo s" by (simp add: sources_def gr c u)
  have d: "dom (heap ?s) = dom (heap s)" using obj(1) by (auto simp: s)
  have v: "valid_ptr k r ?s = valid_ptr k r s" for r by (simp add: valid_ptr_header)
  have sub: "safe k w hps G todo s \<subseteq> safe k w hps G todo ?s"
  proof (rule safe_grows)
    show "sources w hps G todo s \<subseteq> safe k w hps G todo ?s" using src by (auto intro: safe_source)
  next
    fix x y assume "(x, y) \<in> white_edges k w s"
    then obtain ox r where r: "heap s x = Some ox" "marked (header ox) = w" "r \<in> set (links ox)" "ptr_meta_of r = Unrooted w"
      "as_ref k r = Some y" by (auto simp: white_edges_def)
    show "(x, y) \<in> white_edges k w ?s \<or> y \<in> safe k w hps G todo ?s"
    proof (cases "x = a \<and> r \<notin> set (links ?obj)")
      case False
      then have "(x, y) \<in> white_edges k w ?s" using r obj(1) unfolding white_edges_def h by auto
      then show ?thesis ..
    next
      case True
      then have ro: "r = ?p" using r(1,3) obj by (auto simp: in_set_conv_nth nth_list_update) metis
      from del [of y] r(4,5) consider "ptr_meta_of q = Unrooted w" "as_ref k q = Some y" | "color_at s y = Some (flip w)" | "y \<in> gray s"
        unfolding ro by blast
      then show ?thesis
      proof cases
        case 1
        have "q \<in> set (links ?obj)" using obj(2) by (simp add: set_update_memI)
        then have "(x, y) \<in> white_edges k w ?s" using 1 True r(1,2) obj(1) unfolding white_edges_def h by auto
        then show ?thesis ..
      next
        case 2
        then show ?thesis by (auto intro: safe_black simp: c)
      next
        case 3
        then show ?thesis by (auto intro: safe_gray simp: gr)
      qed
    qed
  qed (simp add: c)
  have l: "links_ok k w (safe k w hps G todo ?s) ?s"
    unfolding links_ok_def
  proof (intro allI impI)
    fix x ox r assume "heap ?s x = Some ox \<and> r \<in> set (links ox)"
    then consider "x = a" "ox = ?obj" "r = q" | oy where "heap s x = Some oy" "r \<in> set (links oy)" "header ox = header oy"
      using obj set_update_subset_insert [of "links obj" i q] by (auto simp: h split: if_splits)
    then show "valid_ptr k r ?s \<and> (ptr_meta_of r = Unrooted w \<and> marked (header ox) = w \<or>
        ptr_meta_of r = Unrooted (flip w) \<and> (\<forall>c. as_ref k r = Some c \<longrightarrow> c \<in> safe k w hps G todo ?s))"
    proof cases
      case 1
      then show ?thesis using ins valid sub unfolding v by auto
    next
      case 2
      from links_okD [OF snap_invD(3) [OF inv] 2(1,2)] show ?thesis using 2(3) sub v by auto
    qed
  qed
  have ce: "cell_target k ?s = cell_target k s" "cells ?s = cells s" "global_phase ?s = global_phase s"
    by (simp_all add: cell_target_def fun_eq_iff s)
  have "cells_ok k ?s" using snap_invD(2) [OF inv] unfolding cells_ok_def c ce d .
  then have "snap_inv k w hps G todo held ?s"
    using l snap_invD(1,4-8) [OF inv] sub d unfolding snap_inv_def Let_def src u hz c ce by blast
  then show ?thesis using sub ..
qed

text \<open>Marking an object whose links are all black: it leaves the hand and the list of objects to be scanned.\<close>

lemma snap_mark:
  assumes inv: "snap_inv k w hps G todo held s" and obj: "heap s a = Some obj"
    and l: "\<And>p. p \<in> set (links obj) \<Longrightarrow> ptr_meta_of p = Unrooted (flip w)"
    and G: "G \<subseteq> insert a G'" "G' \<subseteq> G" and todo: "set todo \<subseteq> insert a (set todo')" "set todo' \<subseteq> set todo"
  shows "snap_inv k w hps G' todo' held (set_header a (with_marked (flip w) (header obj)) s)"
proof -
  let ?obj = "obj\<lparr>header := with_marked (flip w) (header obj)\<rparr>" and ?s = "set_header a (with_marked (flip w) (header obj)) s"
  have s: "?s = s\<lparr>heap := (heap s)(a \<mapsto> ?obj)\<rparr>" using obj by (simp add: set_header_def)
  have h: "heap ?s x = (if x = a then Some ?obj else heap s x)" for x by (simp add: s)
  have c: "color_at ?s x = (if x = a then Some (flip w) else color_at s x)" "roots_at ?s = roots_at s" for x
    using obj by (auto simp: s color_at_def roots_at_def header_at_def meta_simps fun_eq_iff)
  then have r: "rooted ?s = rooted s" by (simp add: rooted_def fun_eq_iff)
  have f: "gray ?s = gray s" "fresh_objs ?s = fresh_objs s" "pending w ?s = pending w s" "hazard_set ?s = hazard_set s"
    by (simp_all add: gray_def pending_def hazard_set_def s)
  have u: "unscanned w todo s \<subseteq> insert a (unscanned w todo' ?s)" "unscanned w todo' ?s \<subseteq> unscanned w todo s"
    using todo by (auto simp: unscanned_def f)
  have src: "sources w hps G todo s \<subseteq> insert a (sources w hps G' todo' ?s)" "sources w hps G' todo' ?s \<subseteq> sources w hps G todo s"
    using u G unfolding sources_def f r by blast+
  have d: "dom (heap ?s) = dom (heap s)" using obj by (auto simp: s)
  have v: "valid_ptr k p ?s = valid_ptr k p s" for p using obj by (auto simp: valid_ptr_def h split: option.splits)
  have ba: "a \<in> safe k w hps G' todo' ?s" by (rule safe_black) (simp add: c)
  have sub: "safe k w hps G todo s \<subseteq> safe k w hps G' todo' ?s"
  proof (rule safe_grows)
    show "sources w hps G todo s \<subseteq> safe k w hps G' todo' ?s" using src(1) ba safe_source [of _ w hps G' todo' ?s k] by blast
  next
    fix x y assume "(x, y) \<in> white_edges k w s"
    moreover from this have "x \<noteq> a" using obj l by (auto simp: white_edges_def)
    ultimately have "(x, y) \<in> white_edges k w ?s" by (auto simp: white_edges_def h)
    then show "(x, y) \<in> white_edges k w ?s \<or> y \<in> safe k w hps G' todo' ?s" ..
  qed (simp add: c)
  have "links_ok k w (safe k w hps G' todo' ?s) ?s"
    unfolding links_ok_def
  proof (intro allI impI)
    fix x ox p assume x: "heap ?s x = Some ox \<and> p \<in> set (links ox)"
    then obtain oy where o: "heap s x = Some oy" "p \<in> set (links oy)" "x = a \<or> oy = ox" "x = a \<Longrightarrow> oy = obj"
      using obj by (auto simp: h split: if_splits)
    show "valid_ptr k p ?s \<and> (ptr_meta_of p = Unrooted w \<and> marked (header ox) = w \<or>
        ptr_meta_of p = Unrooted (flip w) \<and> (\<forall>c. as_ref k p = Some c \<longrightarrow> c \<in> safe k w hps G' todo' ?s))"
      using links_okD [OF snap_invD(3) [OF inv] o(1,2)] o(2-4) l [of p] sub v by auto
  qed
  moreover have ce: "cell_target k ?s = cell_target k s" "cells ?s = cells s" "global_phase ?s = global_phase s"
    by (simp_all add: cell_target_def fun_eq_iff s)
  have "cells_ok k ?s" using snap_invD(2) [OF inv] unfolding cells_ok_def c ce d .
  ultimately show ?thesis
    using snap_invD(1,4-8) [OF inv] sub d src(2) u(2) unfolding snap_inv_def Let_def r ce f by blast
qed

text \<open>Changing roots: what loses its last root is black or scheduled, what gets its first one was safe.\<close>

lemma snap_roots:
  assumes inv: "snap_inv k w hps G todo held s" and s': "s' = s\<lparr>heap := h, cells := cs\<rparr>"
    and l: "\<And>x. map_option links (h x) = map_option links (heap s x)" "color_at s' = color_at s"
    and lost: "\<And>x. rooted s x \<Longrightarrow> rooted s' x \<or> color_at s x = Some (flip w) \<or> x \<in> gray s"
    and new: "\<And>x. rooted s' x \<Longrightarrow> rooted s x \<or> x \<in> safe k w hps G todo s" and cells: "cells_ok k s'"
  shows "snap_inv k w hps G todo held s' \<and> safe k w hps G todo s \<subseteq> safe k w hps G todo s'"
proof -
  have f: "gray s' = gray s" "unscanned w todo s' = unscanned w todo s" "hazard_set s' = hazard_set s" "global_phase s' = global_phase s"
    by (simp_all add: s' gray_def unscanned_def pending_def hazard_set_def)
  have ob: "\<exists>oy. heap s x = Some oy \<and> links oy = links ox \<and> marked (header oy) = marked (header ox)" if "heap s' x = Some ox" for x ox
    using l(1) [of x] fun_cong [OF l(2), of x] that by (cases "heap s x") (simp_all add: s' color_at_def header_at_def)
  have ob': "\<exists>oy. heap s' x = Some oy \<and> links oy = links ox \<and> marked (header oy) = marked (header ox)" if "heap s x = Some ox" for x ox
    using l(1) [of x] fun_cong [OF l(2), of x] that by (cases "h x") (simp_all add: s' color_at_def header_at_def)
  have we: "white_edges k w s' = white_edges k w s" using ob ob' unfolding white_edges_def by fastforce
  have d: "dom (heap s') = dom (heap s)" using ob ob' by blast
  have v: "valid_ptr k p s' = valid_ptr k p s" for p
    using d by (auto simp: valid_ptr_def split: option.splits)
  have sub: "safe k w hps G todo s \<subseteq> safe k w hps G todo s'"
  proof (rule safe_grows)
    show "sources w hps G todo s \<subseteq> safe k w hps G todo s'"
    proof
      fix x assume x: "x \<in> sources w hps G todo s"
      show "x \<in> safe k w hps G todo s'"
      proof (cases "x \<in> sources w hps G todo s'")
        case False
        then have "rooted s x" "\<not> rooted s' x" "x \<notin> gray s" using x by (auto simp: sources_def f)
        then show ?thesis using lost [of x] l(2) by (auto intro: safe_black)
      qed (rule safe_source)
    qed
  qed (simp_all add: l(2) we)
  have "links_ok k w (safe k w hps G todo s') s'"
    unfolding links_ok_def
  proof (intro allI impI)
    fix x ox p assume x: "heap s' x = Some ox \<and> p \<in> set (links ox)"
    then obtain oy where "heap s x = Some oy" "p \<in> set (links oy)" "marked (header oy) = marked (header ox)" using ob by metis
    then show "valid_ptr k p s' \<and> (ptr_meta_of p = Unrooted w \<and> marked (header ox) = w \<or>
        ptr_meta_of p = Unrooted (flip w) \<and> (\<forall>c. as_ref k p = Some c \<longrightarrow> c \<in> safe k w hps G todo s'))"
      using links_okD [OF snap_invD(3) [OF inv]] sub v by fastforce
  qed
  moreover have "sources w hps G todo s' \<subseteq> dom (heap s)"
    using snap_invD(7,8) [OF inv] unfolding sources_def f by blast
  moreover have "rooted s' x \<Longrightarrow> x \<in> safe k w hps G todo s'" for x using new [of x] snap_invD(4) [OF inv, of x] sub by blast
  moreover have "heap s x \<noteq> None \<longleftrightarrow> heap s' x \<noteq> None" for x using d by blast
  then have "x \<in> hazard_set s \<Longrightarrow> heap s' x \<noteq> None \<Longrightarrow> x \<in> safe k w hps G todo s'" for x
    using snap_invD(6) [OF inv, of x] sub by blast
  ultimately have "snap_inv k w hps G todo held s'"
    using snap_invD(1,5,8) [OF inv] sub cells unfolding snap_inv_def Let_def f d by blast
  then show ?thesis using sub ..
qed

section \<open>Operations of the mutators\<close>

text \<open>The barriers of an exchange, seen as if they ran before the write.\<close>

lemma scheduled_before:
  assumes "scheduled g as (s\<lparr>heap := h, cells := cs\<rparr>) s'"
  shows "scheduled g as s (s'\<lparr>heap := heap s, cells := cells s\<rparr>)" "s' = s'\<lparr>heap := heap s, cells := cells s\<rparr>\<lparr>heap := h, cells := cs\<rparr>"
proof -
  have w: "without_scheduling g s' = without_scheduling g (s\<lparr>heap := h, cells := cs\<rparr>)"
    and m: "mark_tasks (locals s' (g_local g)) = mark_tasks (locals s (g_local g)) @ as"
    using assms by (simp_all add: scheduled_def)
  show "scheduled g as s (s'\<lparr>heap := heap s, cells := cells s\<rparr>)"
    using w m by (cases s; cases s'; simp add: scheduled_def without_scheduling_def)
  have "heap s' = h" "cells s' = cs" using scheduled_fields(1,2) [OF assms] by simp_all
  then show "s' = s'\<lparr>heap := heap s, cells := cells s\<rparr>\<lparr>heap := h, cells := cs\<rparr>" by simp
qed

lemma to_shade_safe:
  assumes "valid_ptr k p s" "as_ref k p = Some c" "black_of s g = b"
  shows "color_at s c = Some b \<or> c \<in> set (to_shade k p g s)"
  using assms by (auto simp: to_shade_header valid_ptr_header header_at_def)

lemma to_shade_heap: "set (to_shade k p g s) \<subseteq> dom (heap s)"
  by (auto simp: to_shade_def dest: sym split: option.splits if_splits)

lemma as_ref_same_ptr: "as_ptr k p = as_ptr k q \<Longrightarrow> as_ref k p = as_ref k q"
  by (simp add: as_ref_def ptr_is_null_def)

lemma snap_exchange_field:
  assumes inv: "snap_inv k w hps G todo held s" and g: "black_of s g = flip w" "g_local g < n_locals s"
    and l: "read_link (Field a i) s = Inr old" and new: "valid_ptr k new s"
    and sch: "scheduled g (barrier_marks k old new g s)
      (write_link (Field a i) (with_meta (Unrooted (unrooted_color_unchecked old)) new) s) s'"
  shows "snap_inv k w hps G todo held s'" "safe k w hps G todo s \<subseteq> safe k w hps G todo s'"
proof -
  let ?q = "with_meta (Unrooted (unrooted_color_unchecked old)) new"
  obtain obj where obj: "heap s a = Some obj" "i < length (links obj)" "old = links obj ! i"
    using l by (auto simp: read_link_def split: option.splits if_splits)
  obtain ph where ph: "global_phase s = Inr ph" "ph \<noteq> N" using snap_invD(1) [OF inv] by blast
  define s2 where "s2 = s'\<lparr>heap := heap s, cells := cells s\<rparr>"
  have "write_link (Field a i) ?q s = s\<lparr>heap := (heap s)(a \<mapsto> obj\<lparr>links := (links obj)[i := ?q]\<rparr>), cells := cells s\<rparr>"
    using write_field [OF obj(1)] by simp
  note b = scheduled_before [OF sch [unfolded this], folded s2_def]
  have s': "s' = write_link (Field a i) ?q s2" using b(2) obj(1) scheduled_fields(1,2) [OF b(1)] by (simp add: write_link_def)
  have m: "set (barrier_marks k old new g s) \<subseteq> dom (heap s)" unfolding barrier_marks_def by (auto split: if_splits dest: subsetD [OF to_shade_heap])
  note sg = snap_gray [OF inv b(1) g(2) m]
  have ob: "old \<in> set (links obj)" using obj by simp
  note lo = links_okD [OF snap_invD(3) [OF inv] obj(1) ob]
  have h2: "heap s2 = heap s" by (simp add: s2_def)
  then have c2: "color_at s2 = color_at s" using color_at_cong by blast
  have col: "ptr_meta_of old = Unrooted c \<Longrightarrow> unrooted_color_unchecked old = c" for c by (rule unrooted_color_meta)
  have "snap_inv k w hps G todo held (write_link (Field a i) ?q s2) \<and> safe k w hps G todo s2 \<subseteq> safe k w hps G todo (write_link (Field a i) ?q s2)"
  proof (rule snap_write [OF sg(1), of a obj])
    show "valid_ptr k ?q s2" using new h2 by (auto simp: valid_ptr_def ptr_simps split: option.splits)
  next
    fix c assume "ptr_meta_of (links obj ! i) = Unrooted w" "as_ref k (links obj ! i) = Some c"
    then have o: "ptr_meta_of old = Unrooted w" "as_ref k old = Some c" using obj(3) by simp_all
    show "ptr_meta_of ?q = Unrooted w \<and> as_ref k ?q = Some c \<or> color_at s2 c = Some (flip w) \<or> c \<in> gray s2"
    proof (cases "as_ptr k old = as_ptr k new")
      case True
      then show ?thesis using o col [OF o(1)] as_ref_same_ptr [OF True] by (simp add: ptr_simps)
    next
      case False
      then have "barrier_marks k old new g s = to_shade k old g s"
        using ph col [OF o(1)] g(1) by (simp add: barrier_marks_def)
      then show ?thesis using to_shade_safe [OF conjunct1 [OF lo] o(2) g(1)] sg(3) c2 by auto
    qed
  next
    show "ptr_meta_of ?q = Unrooted w \<and> marked (header obj) = w \<or>
      ptr_meta_of ?q = Unrooted (flip w) \<and> (\<forall>c. as_ref k ?q = Some c \<longrightarrow> c \<in> safe k w hps G todo s2)"
    proof (cases "ptr_meta_of old = Unrooted w")
      case True
      then show ?thesis using lo col [OF True] by (auto simp: ptr_simps)
    next
      case False
      then have o: "ptr_meta_of old = Unrooted (flip w)" "\<forall>c. as_ref k old = Some c \<longrightarrow> c \<in> safe k w hps G todo s" using lo by auto
      have "c \<in> safe k w hps G todo s2" if c: "as_ref k new = Some c" for c
      proof (cases "as_ptr k old = as_ptr k new")
        case True
        then show ?thesis using o(2) c as_ref_same_ptr [OF True] sg(2) by auto
      next
        case False
        then have "barrier_marks k old new g s = to_shade k new g s" using col [OF o(1)] g(1) by (simp add: barrier_marks_def)
        then have "color_at s2 c = Some (flip w) \<or> c \<in> gray s2" using to_shade_safe [OF new c g(1)] sg(3) c2 by auto
        then show ?thesis by (auto intro: safe_black safe_gray)
      qed
      then show ?thesis using col [OF o(1)] by (simp add: ptr_simps)
    qed
  qed (use obj h2 in auto)
  then show "snap_inv k w hps G todo held s'" "safe k w hps G todo s \<subseteq> safe k w hps G todo s'"
    using sg(2) unfolding s' by auto
qed

lemma cells_counted:
  assumes "cells_ok k s" "cells s c = Some p"
  shows "counted k p s"
  unfolding counted_def
proof (intro allI impI)
  fix a assume a: "as_ref k p = Some a"
  then have t: "cell_target k s c = Some a" using assms(2) by (simp add: cell_target_def)
  then obtain obj where obj: "heap s a = Some obj" using assms(1) unfolding cells_ok_def by blast
  have "finite {c. cell_target k s c = Some a}"
    using assms(1) by (auto simp: cells_ok_def cell_target_def bind_eq_Some_conv intro: finite_subset [of _ "dom (cells s)"])
  then have "card {c. cell_target k s c = Some a} \<noteq> 0" using t by auto
  moreover have "roots_at s a = Some (root_count (header obj))" using obj by (simp add: roots_at_def header_at_def)
  then have "card {c. cell_target k s c = Some a} \<le> unat (root_count (header obj))" using assms(1) unfolding cells_ok_def by blast
  ultimately have "0 < root_count (header obj)" by (simp add: word_less_nat_alt)
  then show "\<exists>h. header_at s a = Some h \<and> 0 < root_count h" using obj by (simp add: header_at_def)
qed

definition exchanged :: "nat \<Rightarrow> nat \<Rightarrow> man_ptr \<Rightarrow> man_ptr \<Rightarrow> 'v rt \<Rightarrow> 'v rt" where
  "exchanged k c old new s = count_down k old (write_link (Root_Cell c) (with_meta Rooted new) (count_up k new s))"

lemma adjust_count_links: "map_option links (heap (adjust_count k f p s) x) = map_option links (heap s x)"
  by (auto simp: adjust_count_def set_header_def split: option.splits)

lemma adjust_count_only_heap: "adjust_count k f p s = s\<lparr>heap := heap (adjust_count k f p s)\<rparr>"
  by (auto simp: adjust_count_def set_header_def split: option.splits)

lemma exchanged_fields:
  assumes "counted k old s" "countable_ptr k new s"
  shows "exchanged k c old new s = s\<lparr>heap := heap (exchanged k c old new s), cells := (cells s)(c \<mapsto> with_meta Rooted new)\<rparr>"
    "map_option links (heap (exchanged k c old new s) x) = map_option links (heap s x)"
    "color_at (exchanged k c old new s) = color_at s"
    "roots_at (exchanged k c old new s) x =
       map_option (\<lambda>n. n + of_bool (as_ref k new = Some x) - of_bool (as_ref k old = Some x)) (roots_at s x)"
proof -
  let ?u = "count_up k new s" let ?w = "write_link (Root_Cell c) (with_meta Rooted new) ?u"
  have cw: "counted k old ?w" using counted_count_up [OF assms] by (simp add: counted_def)
  have hd: "roots_at ?w = roots_at ?u" "color_at ?w = color_at ?u" by (simp_all add: roots_at_def color_at_def fun_eq_iff)
  show "map_option links (heap (exchanged k c old new s) x) = map_option links (heap s x)"
    by (simp add: exchanged_def adjust_count_links) (simp add: write_link_def adjust_count_links)
  show "color_at (exchanged k c old new s) = color_at s"
    using roots_at_count_down(2) [OF cw] roots_at_count_up(2) [OF assms(2)] by (simp add: exchanged_def hd fun_eq_iff)
  show "roots_at (exchanged k c old new s) x =
      map_option (\<lambda>n. n + of_bool (as_ref k new = Some x) - of_bool (as_ref k old = Some x)) (roots_at s x)"
    using roots_at_count_down(1) [OF cw] roots_at_count_up(1) [OF assms(2)]
    by (simp add: exchanged_def hd option.map_comp comp_def)
  have "?w = s\<lparr>heap := heap ?u, cells := (cells s)(c \<mapsto> with_meta Rooted new)\<rparr>"
    by (simp add: write_link_def) (subst adjust_count_only_heap, simp)
  then show "exchanged k c old new s = s\<lparr>heap := heap (exchanged k c old new s), cells := (cells s)(c \<mapsto> with_meta Rooted new)\<rparr>"
    unfolding exchanged_def by (subst adjust_count_only_heap) simp
qed

lemma exchanged_cells:
  assumes ok: "cells_ok k s" and c: "cells s c = Some old" and new: "countable_ptr k new s"
  shows "cells_ok k (exchanged k c old new s)"
proof -
  let ?s = "exchanged k c old new s"
  note co = cells_counted [OF ok c]
  note f = exchanged_fields [OF co new]
  have cs: "cells ?s = (cells s)(c \<mapsto> with_meta Rooted new)" by (subst f(1)) simp
  have t: "cell_target k ?s x = (if x = c then as_ref k new else cell_target k s x)" for x
    by (simp add: cell_target_def cs ptr_simps)
  have tc: "cell_target k s c = as_ref k old" using c by (simp add: cell_target_def)
  have d: "x \<in> dom (heap ?s) \<longleftrightarrow> x \<in> dom (heap s)" for x
    using f(2) [of c x] by (cases "heap ?s x"; cases "heap s x") auto
  have fin: "finite {x. cell_target k s x = Some a}" for a
    using ok by (auto simp: cells_ok_def cell_target_def bind_eq_Some_conv intro: finite_subset [of _ "dom (cells s)"])
  have "card {x. cell_target k ?s x = Some a} \<le> unat m" if m: "roots_at ?s a = Some m" for a m
  proof -
    obtain n where n: "roots_at s a = Some n" "m = n + of_bool (as_ref k new = Some a) - of_bool (as_ref k old = Some a)"
      using m f(4) [of c a] by auto
    have le: "card {x. cell_target k s x = Some a} \<le> unat n" using ok n(1) by (simp add: cells_ok_def)
    let ?T = "{x. cell_target k s x = Some a}"
    have T: "{x. cell_target k ?s x = Some a} = (if as_ref k new = Some a then insert c (?T - {c}) else ?T - {c})"
      by (auto simp: t)
    have old: "0 < n" "c \<in> ?T" if "as_ref k old = Some a"
      using that co n(1) tc by (auto simp: counted_def roots_at_def)
    have up: "unat (n + 1) = Suc (unat n)" if "as_ref k new = Some a"
    proof -
      have "n < ROOT_COUNT_MASK" using that new n(1) by (auto simp: countable_ptr_def roots_at_def)
      then have "unat n < unat ROOT_COUNT_MASK" by (simp add: word_less_nat_alt)
      then have "unat n + 1 < 2 ^ 64" using unsigned_less [of ROOT_COUNT_MASK, where 'a = nat] by simp
      then show ?thesis by (simp add: unat_word_ariths)
    qed
    have down: "unat (n - 1) = unat n - 1" if "as_ref k old = Some a"
      using old(1) [OF that] by (simp add: unat_minus_one word_gt_0)
    show ?thesis
    proof (cases "as_ref k old = Some a")
      case True
      then show ?thesis using le old(2) [OF True] down [OF True] fin [of a] unfolding T n(2) by (auto simp: insert_absorb card_Diff_singleton)
    next
      case False
      then have "c \<notin> ?T" using tc by simp
      then show ?thesis using le False up fin [of a] unfolding T n(2) by (auto simp: Diff_insert_absorb)
    qed
  qed
  then show ?thesis using ok new unfolding cells_ok_def d t cs by (auto simp: countable_ptr_def header_at_def ptr_simps split: if_splits)
qed

lemma snap_exchange_cell:
  assumes inv: "snap_inv k w hps G todo held s" and g: "black_of s g = flip w" "g_local g < n_locals s"
    and c: "cells s c = Some old" and new: "countable_ptr k new s" "set_option (as_ref k new) \<subseteq> safe k w hps G todo s"
    and sch: "scheduled g (deletion_marks k old g (count_up k new s)) (exchanged k c old new s) s'"
  shows "snap_inv k w hps G todo held s'" "safe k w hps G todo s \<subseteq> safe k w hps G todo s'"
proof -
  let ?s = "exchanged k c old new s" and ?as = "deletion_marks k old g (count_up k new s)"
  obtain ph where ph: "global_phase s = Inr ph" "ph \<noteq> N" using snap_invD(1) [OF inv] by blast
  note ok = snap_invD(2) [OF inv] note co = cells_counted [OF ok c]
  note f = exchanged_fields [OF co new(1)]
  define s2 where "s2 = s'\<lparr>heap := heap s, cells := cells s\<rparr>"
  have "scheduled g ?as (s\<lparr>heap := heap ?s, cells := (cells s)(c \<mapsto> with_meta Rooted new)\<rparr>) s'"
    using sch by (simp only: f(1) [symmetric])
  note b = scheduled_before [OF this, folded s2_def]
  have marks: "?as = (case as_ref k old of None \<Rightarrow> [] | Some a \<Rightarrow>
      if (roots_at s a = Some 1 \<and> as_ref k new \<noteq> Some a) \<and> color_at s a \<noteq> Some (flip w) then [a] else [])"
    using deletion_marks_count_up [OF new(1) ph(1), of old g] count_stays_one [OF co new(1)] ph(2) g(1) by (auto split: option.split)
  have m: "set ?as \<subseteq> dom (heap s)"
    unfolding marks by (auto simp: roots_at_def header_at_def split: option.splits)
  note sg = snap_gray [OF inv b(1) g(2) m]
  have h2: "heap s2 = heap s" by (simp add: s2_def)
  note c2 = color_at_cong [OF h2]
  have s'h: "heap s' = heap ?s" "cells s' = cells ?s" using scheduled_fields(1,2) [OF sch] .
  note cs' = color_at_cong [OF s'h(1)]
  have roots: "roots_at s' x = map_option (\<lambda>n. n + of_bool (as_ref k new = Some x) - of_bool (as_ref k old = Some x)) (roots_at s x)" for x
    using f(4) cs' by simp
  have "snap_inv k w hps G todo held s' \<and> safe k w hps G todo s2 \<subseteq> safe k w hps G todo s'"
  proof (rule snap_roots [OF sg(1) b(2)])
    fix x
    show "rooted s' x \<or> color_at s2 x = Some (flip w) \<or> x \<in> gray s2" if r: "rooted s2 x"
    proof (rule ccontr)
      assume n: "\<not> ?thesis"
      obtain n where n1: "roots_at s x = Some n" "0 < n" using r c2 by (auto simp: rooted_def)
      have "n + 1 \<noteq> 0" using n1(1) root_count_succ by (auto simp: roots_at_def)
      then have "as_ref k old = Some x \<and> n = 1 \<and> as_ref k new \<noteq> Some x"
        using n roots [of x] n1
        by (cases "as_ref k old = Some x"; cases "as_ref k new = Some x") (auto simp: rooted_def word_gt_0)
      then show False using n n1 marks sg(3) c2 by auto
    qed
    show "rooted s2 x \<or> x \<in> safe k w hps G todo s2" if "rooted s' x"
    proof (cases "as_ref k new = Some x")
      case False
      have "rooted s x" if "as_ref k old = Some x" using co that by (auto simp: counted_def rooted_def roots_at_def)
      then show ?thesis using that roots [of x] False c2 by (cases "as_ref k old = Some x") (auto simp: rooted_def)
    qed (use new(2) sg(2) in auto)
    show "map_option links (heap ?s x) = map_option links (heap s2 x)" using f(2) h2 by simp
  next
    show "color_at s' = color_at s2" using cs' c2 f(3) by simp
    have "cell_target k s' = cell_target k ?s" using s'h(2) by (simp add: cell_target_def fun_eq_iff)
    then show "cells_ok k s'" using exchanged_cells [OF ok c new(1)] cs' s'h by (simp add: cells_ok_def)
  qed
  then show "snap_inv k w hps G todo held s'" "safe k w hps G todo s \<subseteq> safe k w hps G todo s'" using sg(2) by auto
qed

section \<open>Marking\<close>

lemma snap_shade_field:
  assumes inv: "snap_inv k w hps G todo held s" and g: "black_of s g = flip w" "g_local g < n_locals s"
    and obj: "heap s a = Some obj" "i < length (links obj)"
  shows "\<exists>s'. shade k (Field a i) g (s, []) = Some (Inr (), s', []) \<and> snap_inv k w hps G todo held s' \<and>
    black_of s' g = flip w \<and> n_locals s' = n_locals s \<and>
    heap s' a = Some (obj\<lparr>links := (links obj)[i := with_meta (Unrooted (flip w)) (links obj ! i)]\<rparr>)"
proof -
  let ?p = "links obj ! i"
  have ld: "link_load (Field a i) (s, []) = Some (Inr ?p, s, [])"
    using obj by (simp add: link_load_def read_link_def act_simps)
  have lo: "valid_ptr k ?p s" "ptr_meta_of ?p = Unrooted w \<or> ptr_meta_of ?p = Unrooted (flip w)"
    using links_okD [OF snap_invD(3) [OF inv] obj(1) nth_mem [OF obj(2)]] by auto
  show ?thesis
  proof (cases "ptr_meta_of ?p = Unrooted (flip w)")
    case True
    then have "with_meta (Unrooted (flip w)) ?p = ?p" by (rule with_meta_id)
    then show ?thesis using True ld inv obj g by (auto simp: shade_def act_simps shade_loop.simps)
  next
    case False
    then have white: "ptr_meta_of ?p = Unrooted w" using lo(2) by simp
    obtain r s1 where s1: "shade_pointee k ?p g (s, []) = Some (Inr r, s1, [])" "scheduled g (to_shade k ?p g s) s s1"
      using shade_pointee_alone [OF lo(1)] by blast
    note sg = snap_gray [OF inv s1(2) g(2) to_shade_heap]
    note f = scheduled_fields [OF s1(2)] and v = drop_tasks_viewD [OF scheduled_view [OF s1(2)]]
    let ?q = "with_meta (Unrooted (flip w)) ?p" let ?s = "write_link (Field a i) ?q s1"
    have o1: "heap s1 a = Some obj" using f(1) obj(1) by simp
    have t: "color_at s1 c = Some (flip w) \<or> c \<in> gray s1" if "as_ref k ?p = Some c" for c
      using to_shade_safe [OF lo(1) that g(1)] sg(3) color_at_cong [OF f(1)] by auto
    have "snap_inv k w hps G todo held ?s \<and> safe k w hps G todo s1 \<subseteq> safe k w hps G todo ?s"
    proof (rule snap_write [OF sg(1) o1 obj(2)])
      show "ptr_meta_of ?q = Unrooted w \<and> marked (header obj) = w \<or>
          ptr_meta_of ?q = Unrooted (flip w) \<and> (\<forall>c. as_ref k ?q = Some c \<longrightarrow> c \<in> safe k w hps G todo s1)"
        using t by (auto simp: ptr_simps intro: safe_black safe_gray)
      show "valid_ptr k ?q s1" using lo(1) f(1) by (auto simp: valid_ptr_def ptr_simps split: option.splits)
    qed (use t in blast)
    moreover have "link_compare_exchange (Field a i) ?p ?q (s1, []) = Some (Inr (Inr ?p), ?s, [])"
      using o1 obj(2) by (simp add: link_compare_exchange_def read_link_def act_simps)
    then have "shade k (Field a i) g (s, []) = Some (Inr (), ?s, [])"
      using ld False g(1) s1(1) by (simp add: shade_def act_simps shade_loop.simps)
    moreover have "heap ?s a = Some (obj\<lparr>links := (links obj)[i := ?q]\<rparr>)" "n_locals ?s = n_locals s"
      using o1 v(5) by (simp_all add: write_link_def)
    moreover have "black_of ?s g = flip w" using f(4) g(1) by (simp add: thread_epoch_def)
    ultimately show ?thesis by blast
  qed
qed

lemma snap_shade_outgoings:
  assumes inv: "snap_inv k w hps G todo held s" and g: "black_of s g = flip w" "g_local g < n_locals s" and obj: "heap s a = Some obj"
  shows "\<exists>s' obj'. shade_outgoings k a g (s, []) = Some (Inr (), s', []) \<and> snap_inv k w hps G todo held s' \<and>
    black_of s' g = flip w \<and> n_locals s' = n_locals s \<and> heap s' a = Some obj' \<and> (\<forall>p\<in>set (links obj'). ptr_meta_of p = Unrooted (flip w))"
proof -
  let ?n = "length (links obj)"
  let ?I = "\<lambda>i s'. snap_inv k w hps G todo held s' \<and> black_of s' g = flip w \<and> n_locals s' = n_locals s \<and>
    (\<exists>obj'. heap s' a = Some obj' \<and> length (links obj') = ?n \<and> (\<forall>j < i. ptr_meta_of (links obj' ! j) = Unrooted (flip w)))"
  have step: "ensures (?I i) (shade k (map (Field a) [0..<?n] ! i) g) (\<lambda>_. ?I (Suc i))"
    if i: "i < length (map (Field a) [0..<?n])" for i
  proof (rule ensuresI)
    fix s1 assume s1: "?I i s1"
    then obtain o1 where o1: "heap s1 a = Some o1" "length (links o1) = ?n" "\<forall>j < i. ptr_meta_of (links o1 ! j) = Unrooted (flip w)"
      by blast
    have l: "i < length (links o1)" using i o1(2) by simp
    obtain s2 where s2: "shade k (Field a i) g (s1, []) = Some (Inr (), s2, [])" "snap_inv k w hps G todo held s2"
      "black_of s2 g = flip w" "n_locals s2 = n_locals s1"
      "heap s2 a = Some (o1\<lparr>links := (links o1)[i := with_meta (Unrooted (flip w)) (links o1 ! i)]\<rparr>)"
      using snap_shade_field [of k w hps G todo held s1 g a o1 i] s1 g(2) o1(1) l by auto
    have "?I (Suc i) s2" using s2(2-5) s1 o1 l by (auto simp: less_Suc_eq nth_list_update ptr_simps)
    then show "\<exists>r s'. shade k (map (Field a) [0..<?n] ! i) g (s1, []) = Some (Inr r, s', []) \<and> ?I (Suc i) s'"
      using s2(1) i by auto
  qed
  have "ensures (?I 0) (for_each (map (Field a) [0..<?n]) (\<lambda>l. shade k l g)) (\<lambda>_. ?I (length (map (Field a) [0..<?n])))"
    by (rule ensures_for_each [of _ ?I]) (rule step)
  moreover have "?I 0 s" using inv obj g by simp
  ultimately obtain r s' where s': "for_each (map (Field a) [0..<?n]) (\<lambda>l. shade k l g) (s, []) = Some (Inr r, s', [])"
    "?I ?n s'" by (auto elim!: ensuresE)
  then have "shade_outgoings k a g (s, []) = Some (Inr (), s', [])"
    using obj by (simp add: shade_outgoings_def outgoings_def act_simps)
  then show ?thesis using s'(2) by (metis in_set_conv_nth)
qed

text \<open>A black object need not be in the hand, nor scanned.\<close>

lemma snap_drop:
  assumes inv: "snap_inv k w hps G todo held s" and a: "color_at s a = Some (flip w) \<or> a \<notin> G \<and> \<not> rooted s a \<and> a \<notin> hps"
    and G: "G \<subseteq> insert a G'" "G' \<subseteq> G" and todo: "set todo \<subseteq> insert a (set todo')" "set todo' \<subseteq> set todo"
  shows "snap_inv k w hps G' todo' held s"
proof -
  have u: "unscanned w todo s \<subseteq> insert a (unscanned w todo' s)" "unscanned w todo' s \<subseteq> unscanned w todo s"
    using todo by (auto simp: unscanned_def)
  have src: "sources w hps G' todo' s \<subseteq> sources w hps G todo s" "sources w hps G todo s \<subseteq> safe k w hps G' todo' s"
  proof -
    show "sources w hps G' todo' s \<subseteq> sources w hps G todo s" using u(2) G(2) by (auto simp: sources_def)
    have "x \<in> sources w hps G' todo' s \<or> color_at s x = Some (flip w)" if "x \<in> sources w hps G todo s" for x
      using that a u(1) G(1) by (auto simp: sources_def)
    then show "sources w hps G todo s \<subseteq> safe k w hps G' todo' s" using safe_source safe_black by blast
  qed
  have sub: "safe k w hps G todo s \<subseteq> safe k w hps G' todo' s" by (rule safe_grows) (use src(2) in auto)
  have "links_ok k w (safe k w hps G' todo' s) s" using snap_invD(3) [OF inv] sub unfolding links_ok_def by blast
  then show ?thesis
    using snap_invD(1,2,4-8) [OF inv] sub src(1) u(2) unfolding snap_inv_def Let_def by blast
qed

lemma snap_dyn_mark:
  assumes inv: "snap_inv k w hps G todo held s" and g: "black_of s g = flip w" "g_local g < n_locals s" and a: "heap s a \<noteq> None"
    and G: "G \<subseteq> insert a G'" "G' \<subseteq> G" and todo: "set todo \<subseteq> insert a (set todo')" "set todo' \<subseteq> set todo"
  shows "\<exists>s'. dyn_mark k a g (s, []) = Some (Inr (), s', []) \<and> snap_inv k w hps G' todo' held s'"
proof -
  obtain obj where "heap s a = Some obj" using a by blast
  then obtain s1 o1 where s1: "shade_outgoings k a g (s, []) = Some (Inr (), s1, [])" "snap_inv k w hps G todo held s1"
    "black_of s1 g = flip w" "heap s1 a = Some o1" "\<forall>p\<in>set (links o1). ptr_meta_of p = Unrooted (flip w)"
    using snap_shade_outgoings [OF inv g] by blast
  note m = mark_header_alone [OF s1(4,3)]
  show ?thesis
  proof (cases "marked (header o1) = flip w")
    case True
    then have "color_at s1 a = Some (flip w)" using s1(4) by (simp add: color_at_def header_at_def)
    then show ?thesis using snap_drop [OF s1(2) _ G todo] s1(1) m True by (simp add: dyn_mark_def act_simps)
  next
    case False
    then show ?thesis using snap_mark [OF s1(2,4) _ G todo] s1(1,5) m by (simp add: dyn_mark_def act_simps)
  qed
qed

lemma snap_obj_mark:
  assumes inv: "snap_inv k w hps G todo held s" and g: "black_of s g = flip w" "g_local g < n_locals s" and a: "heap s a = Some obj"
    and G: "G \<subseteq> insert a G'" "G' \<subseteq> G"
  shows "\<exists>s'. obj_mark k a g (s, []) = Some (Inr (), s', []) \<and> snap_inv k w hps G' todo held s'"
proof (cases "marked (header obj) = flip w")
  case True
  then have "color_at s a = Some (flip w)" using a by (simp add: color_at_def header_at_def)
  then show ?thesis using snap_drop [OF inv _ G, of todo] True is_marked_alone [OF a, of g] g(1)
    by (simp add: obj_mark_def bind_def act_when_def ret_def subset_insertI)
next
  case False
  then show ?thesis using snap_dyn_mark [OF inv g _ G, of todo] a is_marked_alone [OF a, of g] g(1)
    by (simp add: obj_mark_def dyn_mark_def act_simps act_when_def subset_insertI)
qed

end
