(* ===== verification/Snapshot_Alloc.thy ===== *)
theory Snapshot_Alloc
  imports Snapshot Alloc_Spec
begin

text \<open>
  Allocation while the collector is tracing: a new object is black from the start and is collected in the batch of
  the black colour, so that the scan of the white batches never sees it and the invariant of marking is kept.
\<close>

section \<open>What allocation leaves unchanged\<close>

text \<open>Everything that marking with the white colour \<open>w\<close> depends on, except the heap.\<close>

definition white_view :: "color \<Rightarrow> 'v rt \<Rightarrow> _" where
  "white_view w s = (cells s, global_epoch s, fresh_objs s w, n_locals s, in_use s,
     (\<lambda>u. (mark_tasks (locals s u), hazards (locals s u), objs (locals s u) w, local_epoch (locals s u))))"

lemma white_viewD:
  assumes "white_view w s' = white_view w s"
  shows "cells s' = cells s" "global_epoch s' = global_epoch s" "gray s' = gray s" "hazard_set s' = hazard_set s"
    "unscanned w todo s' = unscanned w todo s" "thread_epoch s' u = thread_epoch s u" "n_locals s' = n_locals s"
proof -
  have f: "cells s' = cells s" "global_epoch s' = global_epoch s" "fresh_objs s' w = fresh_objs s w"
    "n_locals s' = n_locals s" "in_use s' = in_use s" and
    l: "mark_tasks (locals s' u) = mark_tasks (locals s u)" "hazards (locals s' u) = hazards (locals s u)"
    "objs (locals s' u) w = objs (locals s u) w" "local_epoch (locals s' u) = local_epoch (locals s u)" for u
    using assms by (auto simp: white_view_def fun_eq_iff)
  show "cells s' = cells s" "global_epoch s' = global_epoch s" "gray s' = gray s" "hazard_set s' = hazard_set s"
    "unscanned w todo s' = unscanned w todo s" "thread_epoch s' u = thread_epoch s u" "n_locals s' = n_locals s"
    by (simp_all add: f l gray_def hazard_set_def unscanned_def pending_def thread_epoch_def)
qed

lemma white_view_heap [simp]: "white_view w (s\<lparr>heap := h\<rparr>) = white_view w s"
  by (simp add: white_view_def)

lemma white_view_local:
  "(\<And>l. mark_tasks (f l) = mark_tasks l \<and> hazards (f l) = hazards l \<and> objs (f l) w = objs l w \<and> local_epoch (f l) = local_epoch l) \<Longrightarrow>
    white_view w (upd_local t f s) = white_view w s"
  by (simp add: white_view_def fun_eq_iff)

lemma alloc_color_view:
  assumes "white_view w s' = white_view w s"
  shows "thread_alloc_color s' t = thread_alloc_color s t"
  using white_viewD(6) [OF assms, of t] by (simp only: thread_alloc_color_def)

lemma register_view:
  assumes "registry_ok s"
  shows "\<exists>r s'. register_type ty (s, []) = Some (r, s', []) \<and> heap s' = heap s \<and> white_view w s' = white_view w s"
proof (cases "ty \<in> fst ` set (type_set s)")
  case True
  then obtain i where i: "(ty, i) \<in> set (type_set s)" by auto
  show ?thesis using registered_alone [OF assms i] by simp
next
  case False
  have "length (type_set s) \<le> MAX_TYPE_ID" using assms by (simp add: registry_ok_def)
  then consider "length (type_set s) < MAX_TYPE_ID" | "length (type_set s) = MAX_TYPE_ID" by linarith
  then show ?thesis
    using register_fresh_alone [OF assms False] register_full_alone [OF assms False]
    by cases (auto simp: register_fresh_def white_view_def)
qed

section \<open>The batch of the black colour\<close>

lemma push_fresh_view:
  assumes c: "thread_alloc_color s t = Inr (flip w)"
  shows "\<exists>s'. push_fresh_loop t (flip w) obj sz new (s, []) = Some (Inr (), s', []) \<and> heap s' = heap s \<and> white_view w s' = white_view w s"
proof (cases "length (fst (objs (locals s t) (flip w))) < OBJ_BATCH_SIZE")
  case True
  then show ?thesis
    by (subst push_fresh_loop.simps) (simp add: act_simps push_within_capacity_def white_view_local)
next
  case False
  let ?b = "objs (locals s t) (flip w)"
  define s2 where "s2 = (upd_local t (\<lambda>l. l\<lparr>objs := (objs l)(flip w := ([], 0))\<rparr>) s)
    \<lparr>rng := tl (rng s), fresh_objs := (fresh_objs s)(flip w := (fresh_objs s (flip w))(next_shard s := fresh_objs s (flip w) (next_shard s) @ [fst ?b])),
     total_allocated := total_allocated s + snd ?b\<rparr>"
  have "fst ?b \<noteq> []" using False by (auto simp: OBJ_BATCH_SIZE_def)
  then have flush: "flush_objs t (s, []) = Some (Inr (), s2, [])"
    using c by (simp add: flush_objs_def take_obj_batch_def push_fresh_objs_def act_simps s2_def next_shard_def split: prod.splits)
  have "heap s2 = heap s" "white_view w s2 = white_view w s" by (simp_all add: s2_def white_view_def fun_eq_iff)
  moreover have "objs (locals s2 t) (flip w) = ([], 0)" by (simp add: s2_def)
  ultimately show ?thesis using False flush
    by (subst push_fresh_loop.simps) (simp add: act_simps push_within_capacity_def, subst push_fresh_loop.simps,
       simp add: act_simps push_within_capacity_def OBJ_BATCH_SIZE_def white_view_local)
qed

lemma local_alloc_view:
  assumes c: "thread_alloc_color s (g_local g) = Inr (flip w)"
  shows "local_alloc k obj g (s, []) = Some (Inl OutOfMemory, s, []) \<or>
    (\<exists>a s'. local_alloc k obj g (s, []) = Some (Inr a, s', []) \<and> heap s a = None \<and> addr_ok k a \<and>
      heap s' = (heap s)(a \<mapsto> obj) \<and> white_view w s' = white_view w s)"
proof (cases "find (\<lambda>a. addr_ok k a \<and> heap s a = None) (pool s)")
  case None
  then show ?thesis by (simp add: local_alloc_def box_new_def Let_def act_simps)
next
  case (Some b)
  let ?t = "g_local g" and ?s1 = "s\<lparr>heap := (heap s)(b \<mapsto> obj)\<rparr>"
  have b: "addr_ok k b" "heap s b = None" using Some by (auto simp: find_Some_iff)
  have "thread_alloc_color ?s1 ?t = Inr (flip w)" using c alloc_color_view [of w ?s1 s] by simp
  then obtain s2 where s2: "push_fresh_obj ?t b True (?s1, []) = Some (Inr (), s2, [])" "heap s2 = heap ?s1" "white_view w s2 = white_view w s"
    using push_fresh_view [of ?s1 ?t w b "obj_size obj" True] by (auto simp: push_fresh_obj_def size_of_val_def act_simps)
  let ?s3 = "upd_local ?t (\<lambda>l. l\<lparr>alloc_count := alloc_count (locals s2 ?t) + 1\<rparr>) s2"
  have "white_view w ?s3 = white_view w s" using s2(3) by (simp add: white_view_local)
  moreover have "white_view w (?s3\<lparr>should_help := h\<rparr>) = white_view w ?s3" for h by (simp add: white_view_def)
  moreover have "box_new k obj (s, []) = Some (Inr b, ?s1, [])" using Some by (simp add: box_new_def act_simps)
  ultimately show ?thesis using b s2
    by (auto simp: local_alloc_def Let_def act_simps act_when_def schedule_helping_collect_def split: if_splits)
qed

section \<open>Unrooting the null links of a new object\<close>

lemma unroot_null:
  assumes "heap s a = Some obj" "i < length (links obj)" "as_ref k (links obj ! i) = None" "thread_alloc_color s (g_local g) = Inr c"
  shows "unroot k (Field a i) g (s, []) =
    Some (Inr (), s\<lparr>heap := (heap s)(a \<mapsto> obj\<lparr>links := (links obj)[i := with_meta (Unrooted c) (links obj ! i)]\<rparr>)\<rparr>, [])"
  using assms by (simp add: unroot_def link_load_def link_store_def read_link_def write_link_def act_simps)

lemma unroot_nulls:
  assumes "heap s a = Some obj" "\<forall>i \<in> set is. i < length (links obj) \<and> as_ref k (links obj ! i) = None"
    and "thread_alloc_color s (g_local g) = Inr c"
  shows "for_each (map (Field a) is) (\<lambda>l. unroot k l g) (s, []) =
    Some (Inr (), s\<lparr>heap := (heap s)(a \<mapsto> obj\<lparr>links := fold (\<lambda>i ls. ls[i := with_meta (Unrooted c) (ls ! i)]) is (links obj)\<rparr>)\<rparr>, [])"
  using assms
proof (induction "is" arbitrary: s obj)
  case Nil
  then show ?case by (simp add: act_simps fun_upd_idem)
next
  case (Cons i js)
  let ?obj = "obj\<lparr>links := (links obj)[i := with_meta (Unrooted c) (links obj ! i)]\<rparr>"
  let ?s = "s\<lparr>heap := (heap s)(a \<mapsto> ?obj)\<rparr>"
  have "thread_alloc_color ?s (g_local g) = Inr c" using Cons.prems(3) alloc_color_view [of w ?s s for w] by simp
  moreover have "as_ref k ((links obj)[i := with_meta (Unrooted c) (links obj ! i)] ! j) = None" if "j \<in> set js" for j
    using Cons.prems(2) that by (cases "j = i") (auto simp: ptr_simps)
  ultimately have "for_each (map (Field a) js) (\<lambda>l. unroot k l g) (?s, []) =
    Some (Inr (), ?s\<lparr>heap := (heap ?s)(a \<mapsto> ?obj\<lparr>links := fold (\<lambda>i ls. ls[i := with_meta (Unrooted c) (ls ! i)]) js (links ?obj)\<rparr>)\<rparr>, [])"
    using Cons.prems(2) by (intro Cons.IH) simp_all
  moreover have "unroot k (Field a i) g (s, []) = Some (Inr (), ?s, [])" using Cons.prems by (intro unroot_null) simp_all
  ultimately show ?case by (simp add: act_simps) (simp add: fun_upd_def)
qed

lemma fold_with_meta:
  "distinct is \<Longrightarrow> set is \<subseteq> {..<length ls} \<Longrightarrow>
    fold (\<lambda>i ls. ls[i := with_meta m (ls ! i)]) is ls = map (\<lambda>j. if j \<in> set is then with_meta m (ls ! j) else ls ! j) [0..<length ls]"
proof (induction "is" arbitrary: ls)
  case Nil
  then show ?case by (simp add: map_nth)
next
  case (Cons i js)
  then have "i \<notin> set js" by simp
  then show ?case using Cons by (auto simp: nth_list_update intro!: map_cong)
qed

lemma unroot_outgoings_null:
  assumes "heap s a = Some obj" "\<forall>p \<in> set (links obj). as_ref k p = None" "thread_alloc_color s (g_local g) = Inr c"
  shows "unroot_outgoings k a g (s, []) =
    Some (Inr (), s\<lparr>heap := (heap s)(a \<mapsto> obj\<lparr>links := map (with_meta (Unrooted c)) (links obj)\<rparr>)\<rparr>, [])"
proof -
  have "fold (\<lambda>i ls. ls[i := with_meta (Unrooted c) (ls ! i)]) [0..<length (links obj)] (links obj) = map (with_meta (Unrooted c)) (links obj)"
    by (subst fold_with_meta) (auto intro: nth_equalityI)
  then show ?thesis using assms unroot_nulls [OF assms(1) _ assms(3), of "[0..<length (links obj)]" k]
    by (simp add: unroot_outgoings_def outgoings_def act_simps)
qed

section \<open>New objects\<close>

lemma local_new_view:
  assumes r: "registry_ok s" and c: "thread_alloc_color s (g_local g) = Inr (flip w)" and ls: "\<forall>p \<in> set ls. as_ref k p = None"
    and run: "local_new k ty v ls sz g (s, []) = Some (Inr a, s', [])"
  shows "\<exists>obj. heap s a = None \<and> heap s' = (heap s)(a \<mapsto> obj) \<and> white_view w s' = white_view w s \<and> marked (header obj) = flip w \<and>
    root_count (header obj) = 0 \<and> links obj = map (with_meta (Unrooted (flip w))) ls"
proof -
  obtain r s1 where s1: "register_type ty (s, []) = Some (r, s1, [])" "heap s1 = heap s" "white_view w s1 = white_view w s"
    using register_view [OF r] by metis
  have c1: "thread_alloc_color s1 (g_local g) = Inr (flip w)" using c alloc_color_view [OF s1(3)] by simp
  show ?thesis
  proof (cases r)
    case (Inl e)
    then show ?thesis using run c s1(1) by (simp add: local_new_def alloc_color_def alloc_unrooted_def man_obj_new_def act_simps)
  next
    case (Inr tid)
    let ?obj = "\<lparr>header = new_with_type_id (flip w) 0 tid, links = ls, item_val = v, obj_size = sz\<rparr>"
    have obj: "man_obj_new ty v ls sz (flip w) 0 (s, []) = Some (Inr ?obj, s1, [])"
      using s1(1) Inr by (simp add: man_obj_new_def act_simps)
    obtain b s2 where s2: "local_alloc k ?obj g (s1, []) = Some (Inr b, s2, [])"
      and v: "heap s1 b = None \<and> addr_ok k b \<and> heap s2 = (heap s1)(b \<mapsto> ?obj) \<and> white_view w s2 = white_view w s1"
      using run c obj local_alloc_view [OF c1, of k ?obj]
      by (auto simp: local_new_def alloc_color_def alloc_unrooted_def guard_alloc_def act_simps)
    have "thread_alloc_color s2 (g_local g) = Inr (flip w)" using c1 alloc_color_view v by metis
    moreover have "heap s2 b = Some ?obj" using v by simp
    ultimately have "unroot_outgoings k b g (s2, []) =
        Some (Inr (), s2\<lparr>heap := (heap s2)(b \<mapsto> ?obj\<lparr>links := map (with_meta (Unrooted (flip w))) ls\<rparr>)\<rparr>, [])"
      using unroot_outgoings_null [of s2 b ?obj k g "flip w"] ls by simp
    then have "a = b" "s' = s2\<lparr>heap := (heap s2)(b \<mapsto> ?obj\<lparr>links := map (with_meta (Unrooted (flip w))) ls\<rparr>)\<rparr>"
      using run c obj s2 v
      by (auto simp: local_new_def alloc_color_def alloc_unrooted_def guard_alloc_def act_simps ptr_simps Let_def)
    then show ?thesis using v s1
      by (intro exI [of _ "?obj\<lparr>links := map (with_meta (Unrooted (flip w))) ls\<rparr>"]) (simp add: meta_simps)
  qed
qed

text \<open>A black object without targets at a free address.\<close>

lemma snap_new_black:
  assumes inv: "snap_inv k w hps G todo held s" and v: "white_view w s' = white_view w s"
    and h: "heap s a = None" "heap s' = (heap s)(a \<mapsto> obj)"
    and obj: "marked (header obj) = flip w" "root_count (header obj) = 0"
      "\<forall>p \<in> set (links obj). as_ref k p = None \<and> ptr_meta_of p = Unrooted (flip w)"
  shows "snap_inv k w hps G todo held s'" "a \<in> safe k w hps G todo s'" "safe k w hps G todo s \<subseteq> safe k w hps G todo s'"
proof -
  note f = white_viewD [OF v]
  have c: "color_at s' x = (if x = a then Some (flip w) else color_at s x)" for x
    using obj(1) h by (simp add: color_at_def header_at_def)
  have rt: "roots_at s' x = (if x = a then Some 0 else roots_at s x)" for x
    using obj(2) h by (simp add: roots_at_def header_at_def)
  have none: "rooted s x \<Longrightarrow> x \<noteq> a" for x using h(1) by (auto simp: rooted_def roots_at_def header_at_def)
  have ro: "rooted s' = rooted s" using none by (auto simp: fun_eq_iff rooted_def rt)
  have src: "sources w hps G todo s' = sources w hps G todo s" by (simp add: sources_def ro f)
  have we: "white_edges k w s' = white_edges k w s" using h obj(1) by (auto simp: white_edges_def split: if_splits)
  have "color_at s a = None" using h(1) by (simp add: color_at_def header_at_def)
  then have S: "safe k w hps G todo s' = insert a (safe k w hps G todo s)" by (auto simp: safe_def src we c)
  have va: "valid_ptr k p s \<Longrightarrow> valid_ptr k p s'" for p using h by (auto simp: valid_ptr_def split: option.splits)
  have ct: "cell_target k s' = cell_target k s" by (simp add: cell_target_def f fun_eq_iff)
  have "cells_ok k s'"
  proof -
    have "cell_target k s x \<noteq> Some a" for x using snap_invD(2) [OF inv] h(1) unfolding cells_ok_def by blast
    then have "{x. cell_target k s x = Some a} = {}" by simp
    then show ?thesis using snap_invD(2) [OF inv] h by (auto simp: cells_ok_def ct rt f)
  qed
  moreover have "links_ok k w (safe k w hps G todo s') s'"
    unfolding links_ok_def
  proof (intro allI impI)
    fix b o' p assume p: "heap s' b = Some o' \<and> p \<in> set (links o')"
    show "valid_ptr k p s' \<and> (ptr_meta_of p = Unrooted w \<and> marked (header o') = w \<or>
        ptr_meta_of p = Unrooted (flip w) \<and> (\<forall>c. as_ref k p = Some c \<longrightarrow> c \<in> safe k w hps G todo s'))"
    proof (cases "b = a")
      case True
      then show ?thesis using p h obj(3) by (auto simp: valid_ptr_def)
    next
      case False
      then show ?thesis using links_okD [OF snap_invD(3) [OF inv], of b o' p] p h va S by auto
    qed
  qed
  ultimately show "snap_inv k w hps G todo held s'"
    using snap_invD(1,4-8) [OF inv] h unfolding snap_inv_def Let_def S by (auto simp: src ro f)
  show "a \<in> safe k w hps G todo s'" "safe k w hps G todo s \<subseteq> safe k w hps G todo s'" using S by auto
qed

lemma snap_local_new:
  assumes inv: "snap_inv k w hps G todo held s" and r: "registry_ok s" and c: "thread_alloc_color s (g_local g) = Inr (flip w)"
    and ls: "\<forall>p \<in> set ls. as_ref k p = None" and run: "local_new k ty v ls sz g (s, []) = Some (Inr a, s', [])"
  shows "snap_inv k w hps G todo held s'" "a \<in> safe k w hps G todo s'" "safe k w hps G todo s \<subseteq> safe k w hps G todo s'"
proof -
  obtain obj where obj: "heap s a = None" "heap s' = (heap s)(a \<mapsto> obj)" "white_view w s' = white_view w s" "marked (header obj) = flip w"
    "root_count (header obj) = 0" "links obj = map (with_meta (Unrooted (flip w))) ls"
    using local_new_view [OF r c ls run] by blast
  then have "\<forall>p \<in> set (links obj). as_ref k p = None \<and> ptr_meta_of p = Unrooted (flip w)" using ls by (auto simp: ptr_simps)
  then show "snap_inv k w hps G todo held s'" "a \<in> safe k w hps G todo s'" "safe k w hps G todo s \<subseteq> safe k w hps G todo s'"
    using snap_new_black [OF inv obj(3,1,2,4,5)] by blast+
qed

end
