(* ===== verification/Concurrent_Marking.thy ===== *)
theory Concurrent_Marking
  imports Snapshot_Alloc
begin

text \<open>
  The interleaving of mutators, collector and helpers in the tracing phases as a transition system, with one
  operation of the model per step. \<open>held\<close> are the objects that a thread has references to under its guards;
  \<open>hands\<close> are the batches that are being scanned, each with its objects that are still to be looked at. Threads pin
  themselves during the phase; the collector may go on from root tracing to completion tracing at any time.
\<close>

section \<open>The system\<close>

type_synonym 'v gc_sys = "'v rt \<times> (nat \<Rightarrow> usize set) \<times> (obj_batch \<times> usize list) list"

text \<open>A thread that is pinned in a tracing phase of the current cycle, and the pointers it may access.\<close>

definition pinned_in :: "color \<Rightarrow> 'v rt \<Rightarrow> nat \<Rightarrow> bool" where
  "pinned_in w s t \<longleftrightarrow> t < n_locals s \<and> is_pinned (thread_epoch s t) \<and> epoch_color (thread_epoch s t) = w \<and>
     epoch_phase (thread_epoch s t) \<in> {Inr RT, Inr CT}"

fun may_access :: "usize set \<Rightarrow> loc \<Rightarrow> bool" where
  "may_access H (Root_Cell c) = True"
| "may_access H (Field a i) = (a \<in> H)"

definition returned_local :: "tagged_local + tagged_local \<Rightarrow> usize set" where
  "returned_local r = set_option (fst (case r of Inl x \<Rightarrow> x | Inr x \<Rightarrow> x))"

inductive gc_step :: "nat \<Rightarrow> color \<Rightarrow> usize list \<Rightarrow> 'v gc_sys \<Rightarrow> 'v gc_sys \<Rightarrow> bool"
  for k :: nat and w :: color and hps :: "usize list" where
  pin: "\<lbrakk>t < n_locals s; epoch_color (atomic_epoch_load (global_epoch s)) = w; guard_count (locals s t) = 0;
     set (hazards (locals s t)) \<subseteq> {0}; handle_pin k t f f' (s, []) = Some (Inr g, s', [])\<rbrakk> \<Longrightarrow>
     gc_step k w hps (s, held, hands) (s', held, hands)"
| unpin: "\<lbrakk>unpin_inner t (s, []) = Some (Inr (), s', [])\<rbrakk> \<Longrightarrow> gc_step k w hps (s, held, hands) (s', held(t := {}), hands)"
| forget: "\<lbrakk>\<And>t. held' t \<subseteq> held t\<rbrakk> \<Longrightarrow> gc_step k w hps (s, held, hands) (s, held', hands)"
| alloc: "\<lbrakk>pinned_in w s (g_local g); registry_ok s; \<forall>p \<in> set ls. as_ref k p = None; local_new k ty v ls sz g (s, []) = Some (Inr a, s', [])\<rbrakk> \<Longrightarrow>
     gc_step k w hps (s, held, hands) (s', held(g_local g := insert a (held (g_local g))), hands)"
| load: "\<lbrakk>pinned_in w s t; may_access (held t) l; load_with_tag k l (s, []) = Some (Inr (r, tag), s', [])\<rbrakk> \<Longrightarrow>
     gc_step k w hps (s, held, hands) (s', held(t := held t \<union> set_option r), hands)"
| swap: "\<lbrakk>pinned_in w s (g_local g); may_access (held (g_local g)) l; local_ok k new; set_option new \<subseteq> held (g_local g);
     countable_ptr k (man_ptr_from_local new) s; swap_with_tag k l new tag g (s, []) = Some (Inr (r, tag'), s', [])\<rbrakk> \<Longrightarrow>
     gc_step k w hps (s, held, hands) (s', held(g_local g := held (g_local g) \<union> set_option r), hands)"
| cas: "\<lbrakk>pinned_in w s (g_local g); may_access (held (g_local g)) l; local_ok k (fst new); set_option (fst new) \<subseteq> held (g_local g);
     countable_ptr k (man_ptr_from_local (fst new)) s; compare_exchange_with_tag k l cur new g (s, []) = Some (Inr r, s', [])\<rbrakk> \<Longrightarrow>
     gc_step k w hps (s, held, hands) (s', held(g_local g := held (g_local g) \<union> returned_local r), hands)"
| complete: "\<lbrakk>e = atomic_epoch_load (global_epoch s);
     store_epoch (with_phase CT (with_timestamp (timestamp e + 1) e)) (s, []) = Some (Inr (), s', [])\<rbrakk> \<Longrightarrow>
     gc_step k w hps (s, held, hands) (s', held, hands)"
| flush: "\<lbrakk>u < n_locals s; flush_pending w u (s, []) = Some (Inr (), s', [])\<rbrakk> \<Longrightarrow> gc_step k w hps (s, held, hands) (s', held, hands)"
| scan_take: "\<lbrakk>q < OBJ_BATCHES_SHARD; pop_fresh w q (s, []) = Some (Inr (Some b), s', [])\<rbrakk> \<Longrightarrow>
     gc_step k w hps (s, held, hands) (s', held, (b, b) # hands)"
| scan_obj: "\<lbrakk>pinned_in w s (g_local g); mark_if_root k g hps a (s, []) = Some (Inr (), s', [])\<rbrakk> \<Longrightarrow>
     gc_step k w hps (s, held, hs @ (b, a # todo) # hs') (s', held, hs @ (b, todo) # hs')"
| scan_put: "\<lbrakk>push_marked w q b (s, []) = Some (Inr (), s', [])\<rbrakk> \<Longrightarrow>
     gc_step k w hps (s, held, hs @ (b, []) # hs') (s', held, hs @ hs')"
| mark: "\<lbrakk>pinned_in w s (g_local g); u < n_locals s; pop_mark_task u (s, []) = Some (Inr (Some a), s1, []);
     obj_mark k a g (s1, []) = Some (Inr (), s', [])\<rbrakk> \<Longrightarrow>
     gc_step k w hps (s, held, hands) (s', held, hands)"

definition to_scan :: "(obj_batch \<times> usize list) list \<Rightarrow> usize list" where
  "to_scan hands = concat (map snd hands)"

definition gc_inv :: "nat \<Rightarrow> color \<Rightarrow> usize list \<Rightarrow> 'v gc_sys \<Rightarrow> bool" where
  "gc_inv k w hps = (\<lambda>(s, held, hands). snap_inv k w (set hps) {} (to_scan hands) held s)"

section \<open>Steps that leave the memory alone\<close>

lemma snap_frame:
  assumes inv: "snap_inv k w hps G todo held s" and f: "heap s' = heap s" "cells s' = cells s" "gray s' = gray s"
    "unscanned w todo' s' = unscanned w todo s" "hazard_set s' = hazard_set s"
    and ph: "\<exists>ph. global_phase s' = Inr ph \<and> ph \<noteq> N" and held: "\<And>t. held' t \<subseteq> safe k w hps G todo s"
  shows "snap_inv k w hps G todo' held' s'"
proof -
  note c = color_at_cong [OF f(1)]
  have src: "sources w hps G todo' s' = sources w hps G todo s" by (simp add: sources_def f c)
  have "white_edges k w s' = white_edges k w s" by (simp add: white_edges_def f)
  then have S: "safe k w hps G todo' s' = safe k w hps G todo s" by (simp add: safe_def src c)
  have "cell_target k s' = cell_target k s" by (simp add: cell_target_def f fun_eq_iff)
  then have "cells_ok k s'" using snap_invD(2) [OF inv] by (simp add: cells_ok_def f c)
  moreover have "links_ok k w (safe k w hps G todo s) s'" using snap_invD(3) [OF inv] unfolding links_ok_def valid_ptr_def f .
  ultimately show ?thesis
    using snap_invD(4,6-8) [OF inv] held ph unfolding snap_inv_def Let_def S src by (simp add: f c)
qed

text \<open>Changes of one participant that are not about its tasks, batches or hazard pointers.\<close>

lemma snap_local:
  assumes inv: "snap_inv k w hps G todo held s" and l: "\<And>l. mark_tasks (f l) = mark_tasks l \<and> hazards (f l) = hazards l \<and> objs (f l) = objs l"
    and held: "\<And>t. held' t \<subseteq> safe k w hps G todo s"
  shows "snap_inv k w hps G todo held' (upd_local t f (s\<lparr>should_help := h\<rparr>))"
proof (rule snap_frame [OF inv])
  have m: "mark_tasks (locals (upd_local t f (s\<lparr>should_help := h\<rparr>)) u) = mark_tasks (locals s u)"
    "hazards (locals (upd_local t f (s\<lparr>should_help := h\<rparr>)) u) = hazards (locals s u)"
    "objs (locals (upd_local t f (s\<lparr>should_help := h\<rparr>)) u) = objs (locals s u)" for u using l by simp_all
  show "gray (upd_local t f (s\<lparr>should_help := h\<rparr>)) = gray s"
    "unscanned w todo (upd_local t f (s\<lparr>should_help := h\<rparr>)) = unscanned w todo s"
    "hazard_set (upd_local t f (s\<lparr>should_help := h\<rparr>)) = hazard_set s"
    unfolding gray_def unscanned_def pending_def hazard_set_def m by simp_all
  show "\<exists>ph. global_phase (upd_local t f (s\<lparr>should_help := h\<rparr>)) = Inr ph \<and> ph \<noteq> N" using snap_invD(1) [OF inv] by simp
qed (use held in simp_all)

section \<open>What a thread can read\<close>

lemma access_read:
  assumes inv: "snap_inv k w hps G todo held s" and l: "may_access (held t) l" "read_link l s = Inr p"
  shows "set_option (as_ref k p) \<subseteq> safe k w hps G todo s"
proof (cases l)
  case (Root_Cell c)
  then have "cells s c = Some p" using l(2) by (auto simp: read_link_def split: option.splits)
  from cells_counted [OF snap_invD(2) [OF inv] this] have "rooted s a" if "as_ref k p = Some a" for a
    using that by (auto simp: counted_def rooted_def roots_at_def)
  then show ?thesis using snap_invD(4) [OF inv] by auto
next
  case (Field a i)
  then obtain obj where obj: "heap s a = Some obj" "p \<in> set (links obj)"
    using l(2) by (auto simp: read_link_def split: option.splits if_splits)
  have a: "a \<in> safe k w hps G todo s" using l(1) Field snap_invD(5) [OF inv, of t] by auto
  have "c \<in> safe k w hps G todo s" if c: "as_ref k p = Some c" for c
    using links_okD [OF snap_invD(3) [OF inv] obj]
  proof (elim conjE disjE)
    assume "ptr_meta_of p = Unrooted w" "marked (header obj) = w"
    then have "(a, c) \<in> white_edges k w s" using obj c unfolding white_edges_def by blast
    then show ?thesis using safe_white_edge [OF a] by blast
  qed (use c in auto)
  then show ?thesis by auto
qed

lemma as_local_target: "set_option (fst (as_local_with_tag k p)) = set_option (as_ref k p)"
  by (auto simp: as_local_with_tag_def as_ref_def ptr_simps)

section \<open>Exchanges\<close>

lemma snap_held: "snap_inv k w hps G todo held s \<Longrightarrow> (\<And>t. held' t \<subseteq> safe k w hps G todo s) \<Longrightarrow> snap_inv k w hps G todo held' s"
  using snap_frame [of k w hps G todo held s s todo held'] snap_invD(1) by blast

lemma valid_local:
  assumes "snap_inv k w hps G todo held s" "local_ok k new" "set_option new \<subseteq> held t"
  shows "valid_ptr k (man_ptr_from_local new) s" "set_option (as_ref k (man_ptr_from_local new)) \<subseteq> safe k w hps G todo s"
proof -
  show s: "set_option (as_ref k (man_ptr_from_local new)) \<subseteq> safe k w hps G todo s"
    using as_ref_local [OF assms(2)] assms(3) snap_invD(5) [OF assms(1), of t] by auto
  then show "valid_ptr k (man_ptr_from_local new) s"
    using safe_heap [OF assms(1)] by (auto simp: valid_ptr_def split: option.splits)
qed

lemma snap_swap:
  assumes inv: "snap_inv k w hps G todo held s" and g: "pinned_in w s (g_local g)"
    and l: "may_access (held (g_local g)) l" "read_link l s = Inr p" and new: "local_ok k new" "set_option new \<subseteq> held (g_local g)"
      "countable_ptr k (man_ptr_from_local new) s"
  shows "\<exists>s'. swap_with_tag k l new tag g (s, []) = Some (Inr (as_local_with_tag k p), s', []) \<and>
    snap_inv k w hps G todo held s' \<and> safe k w hps G todo s \<subseteq> safe k w hps G todo s'"
proof -
  let ?n = "with_tag k tag (man_ptr_from_local new)"
  have b: "black_of s g = flip w" "g_local g < n_locals s" using g by (simp_all add: pinned_in_def)
  obtain ph where ph: "global_phase s = Inr ph" using snap_invD(1) [OF inv] by blast
  note v = valid_local [OF inv new(1,2)]
  have n: "valid_ptr k ?n s" "countable_ptr k ?n s" "set_option (as_ref k ?n) \<subseteq> safe k w hps G todo s"
    using v new(3) by (simp_all add: valid_ptr_header countable_ptr_def ptr_simps)
  have "\<exists>s'. internal_swap k l ?n g (s, []) = Some (Inr p, s', []) \<and> snap_inv k w hps G todo held s' \<and>
      safe k w hps G todo s \<subseteq> safe k w hps G todo s'"
  proof (cases l)
    case (Root_Cell c)
    then have c: "cells s c = Some p" using l(2) by (auto simp: read_link_def split: option.splits)
    have m: "ptr_meta_of p = Rooted" using snap_invD(2) [OF inv] c by (simp add: cells_ok_def)
    obtain s' where "internal_swap k l ?n g (s, []) = Some (Inr p, s', [])"
      "scheduled g (deletion_marks k p g (count_up k ?n s)) (exchanged k c p ?n s) s'"
      using internal_swap_rooted_alone [OF l(2) m cells_counted [OF snap_invD(2) [OF inv] c] n(2) ph, of g]
      unfolding exchanged_def Root_Cell by blast
    then show ?thesis using snap_exchange_cell [OF inv b c n(2,3)] by blast
  next
    case (Field a i)
    obtain obj where obj: "heap s a = Some obj" "p \<in> set (links obj)"
      using l(2) Field by (auto simp: read_link_def split: option.splits if_splits)
    have m: "ptr_meta_of p \<noteq> Rooted" "valid_ptr k p s" using links_okD [OF snap_invD(3) [OF inv] obj] by auto
    obtain s' where "internal_swap k l ?n g (s, []) = Some (Inr p, s', [])"
      "scheduled g (barrier_marks k p ?n g s) (write_link l (with_meta (Unrooted (unrooted_color_unchecked p)) ?n) s) s'"
      using internal_swap_unrooted_alone [OF l(2) m n(1) ph] by blast
    then show ?thesis using snap_exchange_field [OF inv b l(2) [unfolded Field] n(1)] unfolding Field by blast
  qed
  then show ?thesis by (auto simp: swap_with_tag_def act_simps)
qed

text \<open>An operation that returns a value has read its pointer.\<close>

lemma access_reads:
  "load_with_tag k l (s, []) = Some (Inr x, s', []) \<Longrightarrow> \<exists>p. read_link l s = Inr p"
  "swap_with_tag k l new tag g (s, []) = Some (Inr x, s', []) \<Longrightarrow> \<exists>p. read_link l s = Inr p"
  "compare_exchange_with_tag k l cur new' g (s, []) = Some (Inr r, s', []) \<Longrightarrow> \<exists>p. read_link l s = Inr p"
  by (cases "read_link l s"; simp add: load_with_tag_def swap_with_tag_def internal_swap_def compare_exchange_with_tag_def
      link_load_def act_simps bind_def)+

lemma snap_cas:
  assumes inv: "snap_inv k w hps G todo held s" and g: "pinned_in w s (g_local g)"
    and l: "may_access (held (g_local g)) l" "read_link l s = Inr p" and new: "local_ok k (fst new)" "set_option (fst new) \<subseteq> held (g_local g)"
      "countable_ptr k (man_ptr_from_local (fst new)) s"
  shows "\<exists>r s'. compare_exchange_with_tag k l cur new g (s, []) = Some (Inr r, s', []) \<and> returned_local r = set_option (as_ref k p) \<and>
    snap_inv k w hps G todo held s' \<and> safe k w hps G todo s \<subseteq> safe k w hps G todo s'"
proof (cases "without_meta p = man_ptr_from_local_tag k cur")
  case False
  then have "compare_exchange_with_tag k l cur new g (s, []) = Some (Inr (Inl (as_local_with_tag k p)), s, [])"
    using l(2) by (simp add: compare_exchange_with_tag_def link_load_def act_simps)
  then show ?thesis using inv as_local_target by (auto simp: returned_local_def)
next
  case same: True
  obtain ph where ph: "global_phase s = Inr ph" using snap_invD(1) [OF inv] by blast
  obtain s' where s': "swap_with_tag k l (fst new) (snd new) g (s, []) = Some (Inr (as_local_with_tag k p), s', [])"
    "snap_inv k w hps G todo held s'" "safe k w hps G todo s \<subseteq> safe k w hps G todo s'"
    using snap_swap [OF inv g l new] by blast
  have "compare_exchange_with_tag k l cur new g (s, []) = Some (Inr (Inr (as_local_with_tag k p)), s', [])"
  proof (cases l)
    case (Root_Cell c)
    then have c: "cells s c = Some p" using l(2) by (auto simp: read_link_def split: option.splits)
    have m: "ptr_meta_of p = Rooted" using snap_invD(2) [OF inv] c by (simp add: cells_ok_def)
    show ?thesis using cas_rooted_alone [OF l(2) ph m cells_counted [OF snap_invD(2) [OF inv] c] new(3) same, of g] s'(1) by auto
  next
    case (Field a i)
    obtain obj where obj: "heap s a = Some obj" "p \<in> set (links obj)"
      using l(2) Field by (auto simp: read_link_def split: option.splits if_splits)
    have m: "ptr_meta_of p \<noteq> Rooted" "valid_ptr k p s" using links_okD [OF snap_invD(3) [OF inv] obj] by auto
    show ?thesis using cas_unrooted_alone [OF l(2) ph m valid_local(1) [OF inv new(1,2)] same, of g] s'(1) by auto
  qed
  then show ?thesis using s'(2,3) as_local_target by (auto simp: returned_local_def)
qed

section \<open>Bookkeeping\<close>

lemma snap_upd:
  assumes "snap_inv k w hps G todo held s" "\<And>l. mark_tasks (f l) = mark_tasks l \<and> hazards (f l) = hazards l \<and> objs (f l) = objs l"
  shows "snap_inv k w hps G todo held (upd_local t f s)"
  using snap_local [OF assms, of held t "should_help s"] snap_invD(5) [OF assms(1)] by simp

definition pinned_state :: "nat \<Rightarrow> nat \<Rightarrow> 'v rt \<Rightarrow> 'v rt" where
  "pinned_state t f s = (let s1 = upd_local t (\<lambda>l. l\<lparr>guard_count := 1\<rparr>) (s\<lparr>should_help := (should_help s)(f := False)\<rparr>);
     e = atomic_epoch_load (global_epoch s)
     in upd_local t (\<lambda>l. l\<lparr>local_epoch := atomic_epoch_store (pinned e) (local_epoch l), last_observed := e\<rparr>) s1)"

lemma handle_pin_alone:
  assumes t: "guard_count (locals s t) = 0" "set (hazards (locals s t)) \<subseteq> {0}" and ph: "global_phase s = Inr ph"
  shows "handle_pin k t f f' (s, []) = Some (Inr \<lparr>g_local = t, g_flag = f\<rparr>, pinned_state t f s, [])"
proof -
  let ?s1 = "upd_local t (\<lambda>l. l\<lparr>guard_count := 1\<rparr>) (s\<lparr>should_help := (should_help s)(f := False)\<rparr>)"
  have "set (hazards (locals ?s1 t)) \<subseteq> {0}" "global_phase ?s1 = Inr ph" using t(2) ph by simp_all
  from pin_freshly_alone [OF refl this(2,1), of k f'] show ?thesis
    using t(1) by (simp add: handle_pin_def guard_new_def pin_inner_def count_guard_def checked_add_def act_simps act_when_def
      pinned_state_def Let_def)
qed

lemma snap_pin:
  assumes inv: "snap_inv k w hps G todo held s" and t: "guard_count (locals s t) = 0" "set (hazards (locals s t)) \<subseteq> {0}"
    and run: "handle_pin k t f f' (s, []) = Some (Inr g, s', [])"
  shows "snap_inv k w hps G todo held s'"
proof -
  obtain ph where "global_phase s = Inr ph" using snap_invD(1) [OF inv] by blast
  then have "s' = pinned_state t f s" using handle_pin_alone [OF t] run by simp
  moreover have "snap_inv k w hps G todo held (upd_local t (\<lambda>l. l\<lparr>guard_count := 1\<rparr>) (s\<lparr>should_help := (should_help s)(f := False)\<rparr>))"
    by (rule snap_local [OF inv _ snap_invD(5) [OF inv]]) simp
  ultimately show ?thesis unfolding pinned_state_def Let_def by (auto intro!: snap_upd)
qed

lemma snap_unpin:
  assumes inv: "snap_inv k w hps G todo held s" and run: "unpin_inner t (s, []) = Some (Inr (), s', [])"
  shows "snap_inv k w hps G todo held s'"
proof -
  let ?s1 = "upd_local t (\<lambda>l. l\<lparr>guard_count := guard_count (locals s t) - 1\<rparr>) s"
  have i1: "snap_inv k w hps G todo held ?s1" by (rule snap_upd [OF inv]) simp
  have "s' = ?s1 \<or> s' = upd_local t (\<lambda>l. l\<lparr>local_epoch := atomic_epoch_store starting (local_epoch l)\<rparr>) ?s1"
    using run by (auto simp: unpin_inner_def act_simps act_when_def split: if_splits)
  then show ?thesis using i1 snap_upd [OF i1] by auto
qed

lemma snap_complete_phase:
  assumes inv: "snap_inv k w hps G todo held s" and run: "store_epoch (with_phase CT e) (s, []) = Some (Inr (), s', [])"
  shows "snap_inv k w hps G todo held s'"
proof -
  have s': "s' = enter (with_phase CT e) s" using run by (simp add: store_epoch_def act_simps enter_def)
  have "hazard_set s' = hazard_set s" by (simp add: s' hazard_set_def)
  then show ?thesis unfolding s' using snap_invD(5) [OF inv]
    by (intro snap_frame [OF inv]) (simp_all add: unscanned_def epoch_simps)
qed

section \<open>Batches and tasks\<close>

lemma flush_pending_unscanned:
  assumes u: "u < n_locals s" and run: "flush_pending w u (s, []) = Some (Inr (), s', [])"
  shows "heap s' = heap s" "cells s' = cells s" "gray s' = gray s" "unscanned w todo s' = unscanned w todo s"
    "hazard_set s' = hazard_set s" "global_epoch s' = global_epoch s"
proof -
  obtain b n where b: "objs (locals s u) w = (b, n)" by fastforce
  let ?s1 = "upd_local u (\<lambda>l. l\<lparr>objs := (objs l)(w := ([], 0))\<rparr>) s" let ?q = "next_shard ?s1"
  define s2 where "s2 = ?s1\<lparr>rng := tl (rng ?s1), fresh_objs := (fresh_objs s)(w := (fresh_objs s w)(?q := fresh_objs s w ?q @ [b])),
    total_allocated := total_allocated ?s1 + n\<rparr>"
  have s': "s' = (if b = [] then s else s2)"
    using run b by (auto simp: flush_pending_def take_obj_batch_def push_fresh_objs_def act_simps s2_def split: if_splits)
  have lo: "mark_tasks (locals s2 v) = mark_tasks (locals s v)" "hazards (locals s2 v) = hazards (locals s v)"
    "objs (locals s2 v) w = (if v = u then ([], 0) else objs (locals s v) w)" for v by (simp_all add: s2_def)
  have f: "heap s2 = heap s" "cells s2 = cells s" "n_locals s2 = n_locals s" "in_use s2 = in_use s" "global_epoch s2 = global_epoch s"
    by (simp_all add: s2_def)
  have "set (all_objs (fresh_objs s2 w)) = set (all_objs (fresh_objs s w)) \<union> set b"
    using arg_cong [OF mset_all_objs_push [OF next_shard_less, of "fresh_objs s w" ?s1 b], of set_mset] by (simp add: s2_def)
  moreover have "x \<in> set (pending w s) \<longleftrightarrow> x \<in> set (pending w s2) \<or> x \<in> set b" for x
  proof -
    have ip: "x \<in> set (pending w r) \<longleftrightarrow> (\<exists>v < n_locals r. x \<in> set (fst (objs (locals r v) w)))" for r :: "'a rt"
      by (auto simp: pending_def)
    have "x \<in> set (fst (objs (locals s v) w)) \<longleftrightarrow> (v \<noteq> u \<and> x \<in> set (fst (objs (locals s2 v) w)) \<or> v = u \<and> x \<in> set b)" for v
      using b lo(3) [of v] by simp
    then show ?thesis unfolding ip f using u lo(3) [of u] by auto
  qed
  ultimately have "unscanned w todo s2 = unscanned w todo s" by (auto simp: unscanned_def)
  moreover have "gray s2 = gray s" "hazard_set s2 = hazard_set s" by (simp_all add: gray_def hazard_set_def f lo)
  ultimately show "heap s' = heap s" "cells s' = cells s" "gray s' = gray s" "unscanned w todo s' = unscanned w todo s"
    "hazard_set s' = hazard_set s" "global_epoch s' = global_epoch s" using f unfolding s' by simp_all
qed

lemma snap_take_task:
  assumes inv: "snap_inv k w hps {} todo held s" and u: "u < n_locals s" and a: "mark_tasks (locals s u) = a # as"
  shows "snap_inv k w hps {a} todo held (upd_local u (\<lambda>l. l\<lparr>mark_tasks := as\<rparr>) s)"
proof -
  let ?s = "upd_local u (\<lambda>l. l\<lparr>mark_tasks := as\<rparr>) s"
  have g: "gray ?s \<union> {a} = gray s"
  proof (intro set_eqI)
    fix x show "x \<in> gray ?s \<union> {a} \<longleftrightarrow> x \<in> gray s"
      using u a unfolding Un_iff in_gray by (auto split: if_splits) (metis set_ConsD)
  qed
  have f: "heap ?s = heap s" "cells ?s = cells s" "fresh_objs ?s = fresh_objs s" "n_locals ?s = n_locals s"
    "in_use ?s = in_use s" "global_epoch ?s = global_epoch s" by simp_all
  have lo: "hazards (locals ?s v) = hazards (locals s v)" "objs (locals ?s v) = objs (locals s v)" for v by simp_all
  have un: "unscanned w todo ?s = unscanned w todo s" "hazard_set ?s = hazard_set s"
    unfolding unscanned_def pending_def hazard_set_def f lo by simp_all
  note c = color_at_cong [OF f(1)]
  have src: "sources w hps {a} todo ?s = sources w hps {} todo s" using g un c by (auto simp: sources_def)
  have "white_edges k w ?s = white_edges k w s" unfolding white_edges_def f ..
  then have S: "safe k w hps {a} todo ?s = safe k w hps {} todo s" using src c by (simp add: safe_def)
  have "cell_target k ?s = cell_target k s" by (simp add: cell_target_def fun_eq_iff)
  then have "cells_ok k ?s" using snap_invD(2) [OF inv] c unfolding cells_ok_def f by simp
  moreover have "links_ok k w (safe k w hps {} todo s) ?s" using snap_invD(3) [OF inv] unfolding links_ok_def valid_ptr_def f .
  ultimately show ?thesis
    using snap_invD(1,4-8) [OF inv] c unfolding snap_inv_def Let_def S src un f by simp
qed

lemma snap_mark_task:
  assumes inv: "snap_inv k w hps {} todo held s" and g: "pinned_in w s (g_local g)" "u < n_locals s"
    and run: "pop_mark_task u (s, []) = Some (Inr (Some a), s1, [])" "obj_mark k a g (s1, []) = Some (Inr (), s', [])"
  shows "snap_inv k w hps {} todo held s'"
proof -
  obtain as where a: "mark_tasks (locals s u) = a # as" and s1: "s1 = upd_local u (\<lambda>l. l\<lparr>mark_tasks := as\<rparr>) s"
    using run(1) by (auto simp: pop_mark_task_def act_simps split: list.splits)
  have i1: "snap_inv k w hps {a} todo held s1" unfolding s1 by (rule snap_take_task [OF inv g(2) a])
  have "a \<in> sources w hps {a} todo s1" by (simp add: sources_def)
  then obtain obj where obj: "heap s1 a = Some obj" using snap_invD(7) [OF i1] by blast
  have b: "black_of s1 g = flip w" "g_local g < n_locals s1"
    using g(1) by (auto simp: pinned_in_def s1 thread_epoch_def)
  show ?thesis using snap_obj_mark [OF i1 b obj, of "{}"] run(2) by auto
qed

lemma snap_scan_obj:
  assumes inv: "snap_inv k w (set hps) {} todo held s" and g: "pinned_in w s (g_local g)" and a: "a \<in> set todo"
    and todo: "set todo \<subseteq> insert a (set todo')" "set todo' \<subseteq> set todo"
    and run: "mark_if_root k g hps a (s, []) = Some (Inr (), s', [])"
  shows "snap_inv k w (set hps) {} todo' held s'"
proof -
  have "heap s a \<noteq> None" using a snap_invD(8) [OF inv] by (auto simp: unscanned_def)
  then obtain obj where obj: "heap s a = Some obj" by blast
  have b: "black_of s g = flip w" "g_local g < n_locals s" using g by (simp_all add: pinned_in_def)
  have n: "dyn_root_count a (s, []) = Some (Inr (root_count (header obj)), s, [])"
    using obj by (simp add: dyn_root_count_def read_header_def act_simps)
  have r: "rooted s a \<longleftrightarrow> 0 < root_count (header obj)" using obj by (simp add: rooted_def roots_at_def header_at_def)
  show ?thesis
  proof (cases "0 < root_count (header obj) \<or> a \<in> set hps")
    case True
    obtain s2 where "dyn_mark k a g (s, []) = Some (Inr (), s2, [])" "snap_inv k w (set hps) {} todo' held s2"
      using snap_dyn_mark [OF inv b _ _ _ todo, of "{}"] obj by auto
    then show ?thesis using run n True by (auto simp: mark_if_root_def act_simps act_when_def)
  next
    case False
    then have "s' = s" using run n by (simp add: mark_if_root_def act_simps act_when_def)
    then show ?thesis using snap_drop [OF inv _ _ _ todo, of "{}"] False r by simp
  qed
qed

section \<open>Every step keeps the invariant\<close>

lemma snap_extend:
  assumes inv: "snap_inv k w hps G todo held s" and H: "H \<subseteq> safe k w hps G todo s"
  shows "snap_inv k w hps G todo (held(t := held t \<union> H)) s"
proof (rule snap_held [OF inv])
  fix u show "(held(t := held t \<union> H)) u \<subseteq> safe k w hps G todo s"
    using snap_invD(5) [OF inv, of u] snap_invD(5) [OF inv, of t] H by (cases "u = t") simp_all
qed

lemma gc_step_inv:
  assumes "gc_step k w hps x y" "gc_inv k w hps x"
  shows "gc_inv k w hps y"
  using assms
proof (induction rule: gc_step.induct)
  case (pin t s f f' g s' held hands)
  then show ?case unfolding gc_inv_def prod.case using snap_pin by blast
next
  case (unpin t s s' held hands)
  then have inv: "snap_inv k w (set hps) {} (to_scan hands) held s'" using snap_unpin by (simp add: gc_inv_def) blast
  show ?case unfolding gc_inv_def prod.case by (rule snap_held [OF inv]) (use snap_invD(5) [OF inv] in simp)
next
  case (forget held' held s hands)
  then show ?case unfolding gc_inv_def prod.case using snap_held snap_invD(5) by (meson subset_trans)
next
  case (alloc s g ls ty v sz a s' held hands)
  then have inv: "snap_inv k w (set hps) {} (to_scan hands) held s" by (simp add: gc_inv_def)
  have "thread_alloc_color s (g_local g) = Inr (flip w)" using alloc.hyps(1) by (auto simp: pinned_in_def thread_alloc_color_def)
  note n = snap_local_new [OF inv alloc.hyps(2) this alloc.hyps(3,4)]
  show ?case unfolding gc_inv_def prod.case using snap_extend [OF n(1), of "{a}" "g_local g"] n(2) by simp
next
  case (load s t held l r tag s' hands)
  then have inv: "snap_inv k w (set hps) {} (to_scan hands) held s" by (simp add: gc_inv_def)
  obtain p where p: "read_link l s = Inr p" using access_reads(1) [OF load.hyps(3)] by blast
  then have "s' = s" "set_option r = set_option (as_ref k p)"
    using load.hyps(3) as_local_target [of k p] by (auto simp: load_with_tag_def link_load_def act_simps)
  then show ?case unfolding gc_inv_def prod.case
    using access_read [OF inv load.hyps(2) p] by (simp add: snap_extend [OF inv])
next
  case (swap s g held l new tag r tag' s' hands)
  then have inv: "snap_inv k w (set hps) {} (to_scan hands) held s" by (simp add: gc_inv_def)
  obtain p where p: "read_link l s = Inr p" using access_reads(2) [OF swap.hyps(6)] by blast
  obtain s2 where s2: "swap_with_tag k l new tag g (s, []) = Some (Inr (as_local_with_tag k p), s2, [])"
    "snap_inv k w (set hps) {} (to_scan hands) held s2" "safe k w (set hps) {} (to_scan hands) s \<subseteq> safe k w (set hps) {} (to_scan hands) s2"
    using snap_swap [OF inv swap.hyps(1,2) p swap.hyps(3-5)] by blast
  then have "s' = s2" "(r, tag') = as_local_with_tag k p" using swap.hyps(6) by simp_all
  then have "s' = s2" "set_option r = set_option (as_ref k p)" using as_local_target [of k p] by (metis fst_conv)+
  then show ?case unfolding gc_inv_def prod.case
    using subset_trans [OF access_read [OF inv swap.hyps(2) p] s2(3)] by (simp add: snap_extend [OF s2(2)])
next
  case (cas s g held l new cur r s' hands)
  then have inv: "snap_inv k w (set hps) {} (to_scan hands) held s" by (simp add: gc_inv_def)
  obtain p where p: "read_link l s = Inr p" using access_reads(3) [OF cas.hyps(6)] by blast
  obtain r2 s2 where s2: "compare_exchange_with_tag k l cur new g (s, []) = Some (Inr r2, s2, [])" "returned_local r2 = set_option (as_ref k p)"
    "snap_inv k w (set hps) {} (to_scan hands) held s2" "safe k w (set hps) {} (to_scan hands) s \<subseteq> safe k w (set hps) {} (to_scan hands) s2"
    using snap_cas [OF inv cas.hyps(1,2) p cas.hyps(3-5)] by blast
  then have "s' = s2" "returned_local r = set_option (as_ref k p)" using cas.hyps(6) by auto
  then show ?case unfolding gc_inv_def prod.case
    using subset_trans [OF access_read [OF inv cas.hyps(2) p] s2(4)] by (simp add: snap_extend [OF s2(3)])
next
  case (complete e s s' held hands)
  then show ?case unfolding gc_inv_def prod.case using snap_complete_phase by blast
next
  case (flush u s s' held hands)
  then have inv: "snap_inv k w (set hps) {} (to_scan hands) held s" by (simp add: gc_inv_def)
  note f = flush_pending_unscanned [OF flush.hyps]
  show ?case unfolding gc_inv_def prod.case
    using snap_invD(1,5) [OF inv] f by (intro snap_frame [OF inv]) simp_all
next
  case (scan_take q s b s' held hands)
  then have inv: "snap_inv k w (set hps) {} (to_scan hands) held s" by (simp add: gc_inv_def)
  obtain bs where q: "fresh_objs s w q = b # bs" "s' = s\<lparr>fresh_objs := (fresh_objs s)(w := (fresh_objs s w)(q := bs))\<rparr>"
    using scan_take.hyps(2) by (auto simp: pop_fresh_run split: list.splits)
  have f: "heap s' = heap s" "cells s' = cells s" "global_phase s' = global_phase s" "gray s' = gray s" "hazard_set s' = hazard_set s"
    "pending w s' = pending w s" by (simp_all add: q gray_def hazard_set_def pending_def)
  have "unscanned w (to_scan ((b, b) # hands)) s' = unscanned w (to_scan hands) s"
    using set_all_objs_pop [where f = "fresh_objs s w", OF scan_take.hyps(1) q(1)] f(6) by (auto simp: unscanned_def to_scan_def q(2))
  then show ?case unfolding gc_inv_def prod.case
    using snap_invD(1,5) [OF inv] f by (intro snap_frame [OF inv]) simp_all
next
  case (scan_obj s g a s' held hs b todo hs')
  then have inv: "snap_inv k w (set hps) {} (to_scan (hs @ (b, a # todo) # hs')) held s" by (simp add: gc_inv_def)
  show ?case unfolding gc_inv_def prod.case
    by (rule snap_scan_obj [OF inv scan_obj.hyps(1) _ _ _ scan_obj.hyps(2)]) (auto simp: to_scan_def)
next
  case (scan_put q b s s' held hs hs')
  then have inv: "snap_inv k w (set hps) {} (to_scan (hs @ (b, []) # hs')) held s" by (simp add: gc_inv_def)
  have s': "s' = s\<lparr>marked_objs := (marked_objs s)(w := (marked_objs s w)(q := marked_objs s w q @ [b]))\<rparr>"
    using scan_put.hyps by (simp add: push_marked_def act_simps)
  show ?case unfolding gc_inv_def prod.case
    using snap_invD(1,5) [OF inv]
    by (intro snap_frame [OF inv]) (simp_all add: s' gray_def hazard_set_def unscanned_def pending_def to_scan_def)
next
  case (mark s g u a s1 s' held hands)
  then show ?case unfolding gc_inv_def prod.case using snap_mark_task by blast
qed

lemma gc_steps_inv: "(gc_step k w hps)\<^sup>*\<^sup>* x y \<Longrightarrow> gc_inv k w hps x \<Longrightarrow> gc_inv k w hps y"
  by (induction rule: rtranclp_induct) (auto intro: gc_step_inv)

text \<open>A cycle starts between two cycles, in the root-tracing phase.\<close>

lemma gc_start:
  assumes q: "quiescent k s" and c: "cells_ok k s" and h: "set hps = hazard_set s"
    and e: "e = atomic_epoch_load (global_epoch s)" "w = epoch_color e" "epoch_phase e' = Inr RT"
  shows "gc_inv k w hps (enter e' s, (\<lambda>_. {}), [])"
proof -
  let ?s = "enter e' s"
  note f = quiescent_def [of k s] Let_def e
  have co: "set (all_objs (fresh_objs s w)) \<union> set (pending w s) = dom (heap s)"
  proof -
    have "set (cycle_objs w s) = dom (heap s)" "all_objs (marked_objs s w) = []" using q by (simp_all add: f)
    then show ?thesis by (simp add: cycle_objs_def)
  qed
  have u: "unscanned w (to_scan []) ?s = dom (heap s)" using co by (simp add: unscanned_def to_scan_def)
  have g: "gray ?s = {}" using q by (simp add: f gray_def idle_def)
  have r: "rooted ?s = rooted s" "hazard_set ?s = hazard_set s" "cell_target k ?s = cell_target k s" "roots_at ?s = roots_at s"
    using color_at_cong [of ?s s] by (simp_all add: hazard_set_def cell_target_def fun_eq_iff)
  let ?S = "safe k w (set hps) {} (to_scan []) ?s"
  have src: "a \<in> ?S" if "rooted s a \<or> a \<in> hazard_set s" "heap s a \<noteq> None" for a
    using that u r h by (intro safe_source) (auto simp: sources_def)
  have "links_ok k w ?S ?s"
    unfolding links_ok_def
  proof (intro allI impI)
    fix a obj p assume p: "heap ?s a = Some obj \<and> p \<in> set (links obj)"
    then have "(a, c) \<in> edges k s" if "as_ref k p = Some c" for c using that by (auto simp: edges_def)
    then have "valid_ptr k p ?s" using q by (auto simp: f closed_def valid_ptr_def split: option.split)
    moreover have "ptr_meta_of p = Unrooted w \<and> marked (header obj) = w" using q p by (auto simp: f all_white_def)
    ultimately show "valid_ptr k p ?s \<and> (ptr_meta_of p = Unrooted w \<and> marked (header obj) = w \<or>
        ptr_meta_of p = Unrooted (flip w) \<and> (\<forall>c. as_ref k p = Some c \<longrightarrow> c \<in> ?S))" by blast
  qed
  moreover have "cells_ok k ?s" using c r by (simp add: cells_ok_def)
  moreover have "heap s a \<noteq> None" if "rooted s a" for a using that by (auto simp: rooted_def roots_at_def header_at_def)
  moreover have "sources w (set hps) {} (to_scan []) ?s \<subseteq> dom (heap s)" using u g by (auto simp: sources_def)
  ultimately show ?thesis
    using u src r e(3) unfolding gc_inv_def snap_inv_def Let_def by auto
qed

section \<open>Nothing is lost\<close>


section \<open>A run\<close>

text \<open>
  A mutator loads the object of a root and then clears the root; only its reference and the mark task of the deletion
  barrier keep the object.
\<close>

definition shared_obj :: "nat mobj" where
  "shared_obj = \<lparr>header = new_with_type_id C0 1 0, links = [], item_val = 7, obj_size = 32\<rparr>"

definition shared_rt :: "nat rt" where
  "shared_rt = (global_new None [] [] [])
     \<lparr>heap := [0x1000 \<mapsto> shared_obj], cells := [0 \<mapsto> with_meta Rooted (man_ptr_from 0x1000)],
      fresh_objs := (\<lambda>c q. if c = C0 \<and> q = 3 then [[0x1000]] else []),
      n_locals := 1, in_use := (\<lambda>u. u < 1), collector_threads := 1\<rparr>"

definition shared_epoch :: epoch where
  "shared_epoch = with_phase RT (with_timestamp (timestamp starting + 1) starting)"

lemma shared_words:
  "as_ref 3 (with_meta Rooted (man_ptr_from 0x1000)) = Some 0x1000"
  "ptr_meta_of (with_meta Rooted (man_ptr_from 0x1000)) = Rooted" "root_count (header shared_obj) = 1" "marked (header shared_obj) = C0"
  "root_count (fst (decrement_root_count (header shared_obj))) = 0" "marked (fst (decrement_root_count (header shared_obj))) = C0"
  "epoch_phase shared_epoch = Inr RT" "epoch_color shared_epoch = C0" "epoch_phase (pinned shared_epoch) = Inr RT"
  "epoch_color (pinned shared_epoch) = C0" "is_pinned (pinned shared_epoch)" "as_ref 3 (with_tag 3 0 (man_ptr_from_local None)) = None"
  "as_ref 3 (man_ptr_from_local None) = None"
  "as_local_with_tag 3 (with_meta Rooted (man_ptr_from 0x1000)) = (Some 0x1000, 0)"
  by code_simp+

lemma shared_links: "links shared_obj = []"
  by (simp add: shared_obj_def)

lemma shared_fields:
  "locals shared_rt u = participant_default" "n_locals shared_rt = 1" "in_use shared_rt u \<longleftrightarrow> u < 1" "collector_threads shared_rt = 1"
  "cells shared_rt = [0 \<mapsto> with_meta Rooted (man_ptr_from 0x1000)]" "atomic_epoch_load (global_epoch shared_rt) = starting"
  "heap shared_rt = [0x1000 \<mapsto> shared_obj]" "fresh_objs shared_rt C0 = (\<lambda>q. if q = 3 then [[0x1000]] else [])"
  by (simp_all add: shared_rt_def global_new_def atomic_epoch_load_def atomic_epoch_new_def)

lemma shared_edges: "edges 3 shared_rt = {}"
  unfolding edges_def shared_fields by (auto simp: shared_links split: if_splits)

lemma shared_hazards: "hazard_set shared_rt = {0}"
  by (auto simp: hazard_set_def shared_fields participant_default_def HAZARDS_INIT_COUNT_def)

lemma shared_quiescent: "quiescent 3 shared_rt"
proof -
  have o: "cycle_objs C0 shared_rt = [0x1000]" "cycle_objs C1 shared_rt = []" "all_objs (marked_objs shared_rt C0) = []"
    by (simp_all add: cycle_objs_def pending_def all_objs_def OBJ_BATCHES_SHARD_def upt_rec shared_rt_def global_new_def
        participant_default_def)
  have "closed 3 shared_rt" by (auto simp: closed_def shared_edges shared_fields)
  moreover have "all_white C0 shared_rt"
    unfolding all_white_def shared_fields by (auto simp: shared_words shared_links split: if_splits)
  moreover have "idle shared_rt u" for u
    using demo_cycle_words(8)
    by (simp add: idle_def thread_epoch_def shared_fields participant_default_def atomic_epoch_load_non_atomic_def atomic_epoch_new_def starting_def)
  ultimately show ?thesis
    by (simp add: quiescent_def Let_def shared_fields demo_cycle_words o OBJ_BATCHES_SHARD_def)
qed

lemma shared_cells: "cells_ok 3 shared_rt"
proof -
  have t: "cell_target 3 shared_rt c = (if c = 0 then Some 0x1000 else None)" for c
    by (simp add: cell_target_def shared_fields shared_words)
  have "card {c. cell_target 3 shared_rt c = Some a} \<le> unat n" if n: "roots_at shared_rt a = Some n" for a n
  proof (cases "a = 0x1000")
    case True
    then have "n = 1" using n by (simp add: roots_at_def header_at_def shared_fields shared_words)
    then show ?thesis using True by (simp add: t)
  next
    case False
    then have "{c. cell_target 3 shared_rt c = Some a} = {}" by (auto simp: t)
    then show ?thesis by simp
  qed
  then show ?thesis unfolding cells_ok_def by (auto simp: t shared_fields shared_words)
qed

lemma shared_pin:
  "\<exists>s. handle_pin 3 0 0 1 (enter shared_epoch shared_rt, []) = Some (Inr \<lparr>g_local = 0, g_flag = 0\<rparr>, s, []) \<and> pinned_in C0 s 0 \<and>
    heap s = heap shared_rt \<and> cells s = cells shared_rt \<and> fresh_objs s = fresh_objs shared_rt \<and> n_locals s = 1 \<and>
    global_phase s = Inr RT \<and> mark_tasks (locals s 0) = [] \<and> pending C0 s = []"
proof -
  let ?s = "enter shared_epoch shared_rt"
  have "handle_pin 3 0 0 1 (?s, []) = Some (Inr \<lparr>g_local = 0, g_flag = 0\<rparr>, pinned_state 0 0 ?s, [])"
    by (rule handle_pin_alone) (simp_all add: shared_fields shared_words participant_default_def HAZARDS_INIT_COUNT_def)
  moreover have e: "\<lparr>epoch_data = epoch_data e\<rparr> = e" for e :: epoch by simp
  ultimately show ?thesis
    by (simp add: e pinned_state_def pinned_in_def thread_epoch_def shared_fields shared_words participant_default_def pending_def
        atomic_epoch_load_non_atomic_def atomic_epoch_store_def)
qed

lemma shared_swap:
  assumes s: "pinned_in C0 s 0" "heap s = heap shared_rt" "cells s = cells shared_rt" "global_phase s = Inr RT" "mark_tasks (locals s 0) = []"
    and g: "g_local g = 0"
  shows "\<exists>s'. swap_with_tag 3 (Root_Cell 0) None 0 g (s, []) = Some (Inr (Some 0x1000, 0), s', []) \<and> pinned_in C0 s' 0 \<and>
    heap s' = [0x1000 \<mapsto> shared_obj\<lparr>header := fst (decrement_root_count (header shared_obj))\<rparr>] \<and> fresh_objs s' = fresh_objs s \<and>
    n_locals s' = n_locals s \<and> mark_tasks (locals s' 0) = [0x1000] \<and> pending C0 s' = pending C0 s"
proof -
  let ?p = "with_meta Rooted (man_ptr_from 0x1000)" and ?n = "with_tag 3 0 (man_ptr_from_local None)"
  have r: "read_link (Root_Cell 0) s = Inr ?p" using s(3) by (simp add: read_link_def shared_fields)
  have c: "counted 3 ?p s" "countable_ptr 3 ?n s"
    using s(2) by (simp_all add: counted_def countable_ptr_def shared_words header_at_def shared_fields)
  have up: "count_up 3 ?n s = s" by (simp add: adjust_count_def shared_words)
  have "black_of s g = C1" using s(1) g by (simp add: pinned_in_def)
  then have d: "deletion_marks 3 ?p g s = [0x1000]"
    using s(2,4) by (simp add: deletion_marks_def to_shade_def shared_words shared_fields roots_at_def header_at_def)
  obtain s' where s': "internal_swap 3 (Root_Cell 0) ?n g (s, []) = Some (Inr ?p, s', [])"
    "scheduled g [0x1000] (exchanged 3 0 ?p ?n s) s'"
    using internal_swap_rooted_alone [OF r shared_words(2) c s(4), of g] unfolding exchanged_def up d by blast
  note f = drop_tasks_viewD [OF scheduled_view [OF s'(2)]]
  let ?s = "exchanged 3 0 ?p ?n s"
  have e: "?s = s\<lparr>cells := (cells s)(0 \<mapsto> with_meta Rooted ?n),
      heap := [0x1000 \<mapsto> shared_obj\<lparr>header := fst (decrement_root_count (header shared_obj))\<rparr>]\<rparr>"
    unfolding exchanged_def up
    by (simp add: adjust_count_def write_link_def set_header_def shared_words s(2) shared_fields)
  have "thread_epoch s' 0 = thread_epoch s 0" by (simp add: thread_epoch_def f e)
  then have "pinned_in C0 s' 0" using s(1) by (simp add: pinned_in_def f e)
  moreover have "mark_tasks (locals s' 0) = [0x1000]" using s'(2) g s(5) by (simp add: scheduled_def e)
  moreover have "pending C0 s' = pending C0 s" by (simp add: pending_def f e)
  ultimately show ?thesis using s'(1) by (simp add: swap_with_tag_def act_simps f e shared_words)
qed

lemma shared_mark:
  assumes s: "pinned_in C0 s 0" "heap s a = Some obj" "links obj = []" "marked (header obj) = C0" "mark_tasks (locals s 0) = [a]"
    and g: "g_local g = 0"
  shows "\<exists>s\<^sub>1. pop_mark_task 0 (s, []) = Some (Inr (Some a), s\<^sub>1, []) \<and>
    obj_mark 3 a g (s\<^sub>1, []) = Some (Inr (), set_header a (with_marked C1 (header obj)) s\<^sub>1, []) \<and>
    s\<^sub>1 = upd_local 0 (\<lambda>l. l\<lparr>mark_tasks := []\<rparr>) s"
proof -
  let ?s = "upd_local 0 (\<lambda>l. l\<lparr>mark_tasks := []\<rparr>) s"
  have "thread_epoch ?s 0 = thread_epoch s 0" by (simp add: thread_epoch_def)
  then have b: "black_of ?s g = C1" using s(1) g by (simp add: pinned_in_def)
  have "pop_mark_task 0 (s, []) = Some (Inr (Some a), ?s, [])" using s(5) by (simp add: pop_mark_task_def act_simps)
  moreover have "obj_mark 3 a g (?s, []) = Some (Inr (), set_header a (with_marked C1 (header obj)) ?s, [])"
    using s(2-4) b mark_header_alone [of ?s a obj g C1] is_marked_alone [of ?s a obj g]
    by (simp add: obj_mark_def shade_outgoings_def outgoings_def act_simps act_when_def bind_def)
  ultimately show ?thesis by blast
qed

abbreviation shared_steps :: "nat gc_sys \<Rightarrow> nat gc_sys \<Rightarrow> bool" where
  "shared_steps \<equiv> (gc_step 3 C0 [0])\<^sup>*\<^sup>*"

lemma gc_step_chain:
  "gc_step k w hps x y \<Longrightarrow> (gc_step k w hps)\<^sup>*\<^sup>* y z \<Longrightarrow> (gc_step k w hps)\<^sup>*\<^sup>* x z"
  by (rule converse_rtranclp_into_rtranclp)

lemma shared_mutator:
  "\<exists>s. shared_steps (enter shared_epoch shared_rt, \<lambda>_. {}, []) (s, (\<lambda>_. {})(0 := {0x1000}), []) \<and> pinned_in C0 s 0 \<and>
     heap s = [0x1000 \<mapsto> shared_obj\<lparr>header := fst (decrement_root_count (header shared_obj))\<rparr>] \<and>
     fresh_objs s = fresh_objs shared_rt \<and> n_locals s = 1 \<and> mark_tasks (locals s 0) = [0x1000] \<and> pending C0 s = []"
proof -
  let ?st = "gc_step 3 C0 [0] :: nat gc_sys \<Rightarrow> nat gc_sys \<Rightarrow> bool" and ?g = "\<lparr>g_local = 0, g_flag = 0\<rparr>"
  let ?none = "\<lambda>_ :: nat. {} :: usize set" let ?h = "?none(0 := {0x1000})" and ?s0 = "enter shared_epoch shared_rt"
  obtain s1 where s1: "handle_pin 3 0 0 1 (?s0, []) = Some (Inr ?g, s1, [])" "pinned_in C0 s1 0"
    "heap s1 = heap shared_rt" "cells s1 = cells shared_rt" "fresh_objs s1 = fresh_objs shared_rt" "n_locals s1 = 1"
    "global_phase s1 = Inr RT" "mark_tasks (locals s1 0) = []" "pending C0 s1 = []"
    using shared_pin by blast
  have "?st (?s0, ?none, []) (s1, ?none, [])"
    by (rule gc_step.pin [OF _ _ _ _ s1(1)])
      (simp_all add: shared_fields shared_words participant_default_def HAZARDS_INIT_COUNT_def)
  moreover have "load_with_tag 3 (Root_Cell 0) (s1, []) = Some (Inr (Some 0x1000, 0), s1, [])"
    using s1(4) by (simp add: load_with_tag_def link_load_def read_link_def act_simps shared_fields shared_words)
  then have "?st (s1, ?none, []) (s1, ?h, [])" using gc_step.load [of C0 s1 0 ?none "Root_Cell 0" 3] s1(2) by fastforce
  moreover obtain s2 where s2: "swap_with_tag 3 (Root_Cell 0) None 0 ?g (s1, []) = Some (Inr (Some 0x1000, 0), s2, [])"
    "pinned_in C0 s2 0" "heap s2 = [0x1000 \<mapsto> shared_obj\<lparr>header := fst (decrement_root_count (header shared_obj))\<rparr>]"
    "fresh_objs s2 = fresh_objs shared_rt" "n_locals s2 = 1" "mark_tasks (locals s2 0) = [0x1000]" "pending C0 s2 = []"
    using shared_swap [OF s1(2-4,7,8), of ?g] s1(5,6,9) by auto
  moreover have "?st (s1, ?h, []) (s2, ?h, [])"
    using gc_step.swap [of C0 s1 ?g ?h "Root_Cell 0" 3 None 0 "Some 0x1000" 0 s2 "[0]" "[]"] s1(2) s2(1)
    by (simp add: local_ok_def countable_ptr_def shared_words)
  ultimately show ?thesis by (blast intro: gc_step_chain)
qed

lemma shared_collector:
  fixes s :: "nat rt"
  assumes s: "pinned_in C0 s 0" "heap s = [0x1000 \<mapsto> shared_obj\<lparr>header := fst (decrement_root_count (header shared_obj))\<rparr>]"
    "fresh_objs s = fresh_objs shared_rt" "n_locals s = 1" "mark_tasks (locals s 0) = [0x1000]" "pending C0 s = []"
  shows "\<exists>s'. shared_steps (s, h, []) (s', h, []) \<and> gray s' = {} \<and> unscanned C0 [] s' = {} \<and> \<not> rooted s' 0x1000"
proof -
  let ?st = "gc_step 3 C0 [0] :: nat gc_sys \<Rightarrow> nat gc_sys \<Rightarrow> bool" and ?g = "\<lparr>g_local = 0, g_flag = 0\<rparr>"
  define s3 where "s3 = s\<lparr>fresh_objs := (fresh_objs s)(C0 := (fresh_objs s C0)(3 := []))\<rparr>"
  have "pop_fresh C0 3 (s, []) = Some (Inr (Some [0x1000]), s3, [])"
    by (simp add: pop_fresh_run s(3) shared_fields s3_def)
  then have "?st (s, h, []) (s3, h, [([0x1000], [0x1000])])"
    using gc_step.scan_take [of 3 C0 s "[0x1000]" s3 3 "[0]" h "[]"] by (simp add: OBJ_BATCHES_SHARD_def)
  moreover have p3: "pinned_in C0 s3 0" using s(1) by (simp add: s3_def pinned_in_def thread_epoch_def)
  then have "?st (s3, h, [([0x1000], [0x1000])]) (s3, h, [([0x1000], [])])"
    using gc_step.scan_obj [of C0 s3 ?g 3 "[0]" "0x1000" s3 h "[]" "[0x1000]" "[]" "[]"]
    by (simp add: mark_if_root_def dyn_root_count_def read_header_def act_simps act_when_def s3_def s(2) shared_words)
  moreover define s4 where "s4 = s3\<lparr>marked_objs := (marked_objs s3)(C0 := (marked_objs s3 C0)(2 := marked_objs s3 C0 2 @ [[0x1000]]))\<rparr>"
  then have "?st (s3, h, [([0x1000], [])]) (s4, h, [])"
    using gc_step.scan_put [of C0 2 "[0x1000]" s3 s4 3 "[0]" h "[]" "[]"] by (simp add: push_marked_def act_simps)
  moreover have p4: "pinned_in C0 s4 0" using p3 by (simp add: s4_def pinned_in_def thread_epoch_def)
  have o4: "heap s4 0x1000 = Some (shared_obj\<lparr>header := fst (decrement_root_count (header shared_obj))\<rparr>)"
    "mark_tasks (locals s4 0) = [0x1000]" "n_locals s4 = 1" by (simp_all add: s4_def s3_def s)
  define s5 where "s5 = upd_local 0 (\<lambda>l. l\<lparr>mark_tasks := []\<rparr>) s4"
  define s6 where "s6 = set_header 0x1000 (with_marked C1 (fst (decrement_root_count (header shared_obj)))) s5"
  have "pop_mark_task 0 (s4, []) = Some (Inr (Some 0x1000), s5, [])" "obj_mark 3 0x1000 ?g (s5, []) = Some (Inr (), s6, [])"
    using shared_mark [OF p4 o4(1) _ _ o4(2), of ?g] by (auto simp: shared_words shared_links s5_def s6_def)
  then have "?st (s4, h, []) (s6, h, [])"
    using gc_step.mark [of C0 s4 ?g 0 "0x1000" s5 3 s6 "[0]" h "[]"] p4 o4(3) by simp
  ultimately have "shared_steps (s, h, []) (s6, h, [])" by (blast intro: gc_step_chain)
  moreover have f6: "fresh_objs s6 C0 = (fresh_objs s C0)(3 := [])" "n_locals s6 = 1" "locals s6 0 = (locals s 0)\<lparr>mark_tasks := []\<rparr>"
    by (simp_all add: s6_def s5_def s4_def s3_def s(2,4) set_header_def)
  have "gray s6 = {}" "unscanned C0 [] s6 = {}" "\<not> rooted s6 0x1000"
    using s(6) by (simp_all add: gray_def unscanned_def pending_def all_objs_def f6 s(3,4) shared_fields)
      (simp add: rooted_def roots_at_def header_at_def s6_def s5_def o4 set_header_def meta_simps shared_words)
  ultimately show ?thesis by blast
qed


end
