(* ===== verification/Hindsight.thy ===== *)
theory Hindsight
  imports Linearize
begin

text \<open>
  Objects whose operations are atomic, and a second specification of the same objects in which an operation that changes nothing need not
  choose its moment: it collects the answers that were right at some time since its call, and returns any of them. Backward
  simulation shows that both have the same histories, so that an implementation may be proved against the second one, where a
  reader is justified in hindsight.
\<close>

section \<open>Backward simulation\<close>

lemma exec_first:
  "step s e s' \<Longrightarrow> exec step s' tr s'' \<Longrightarrow> exec step s ((case e of None \<Rightarrow> [] | Some x \<Rightarrow> [x]) @ tr) s''"
  using exec_trans [OF exec_step] .

locale backward_simulation =
  fixes cinit :: 'c and cstep :: "'c \<Rightarrow> 'e option \<Rightarrow> 'c \<Rightarrow> bool"
    and ainit :: 'a and astep :: "'a \<Rightarrow> 'e option \<Rightarrow> 'a \<Rightarrow> bool"
    and cinv :: "'c \<Rightarrow> bool" and bsim :: "'c \<Rightarrow> 'a \<Rightarrow> bool"
  assumes inv_init: "cinv cinit" and inv_step: "cinv c \<Longrightarrow> cstep c e c' \<Longrightarrow> cinv c'"
    and back_total: "cinv c \<Longrightarrow> \<exists>a. bsim c a"
    and back_init: "bsim cinit a \<Longrightarrow> a = ainit"
    and back_step: "cinv c \<Longrightarrow> cstep c e c' \<Longrightarrow> bsim c' a' \<Longrightarrow>
      \<exists>a. bsim c a \<and> exec astep a (case e of None \<Rightarrow> [] | Some x \<Rightarrow> [x]) a'"
begin

lemma inv_exec: "exec cstep cinit tr c \<Longrightarrow> cinv c"
  by (induction rule: exec.induct) (auto intro: inv_init inv_step)

lemma back_exec: "exec cstep cinit tr c \<Longrightarrow> bsim c a \<Longrightarrow> exec astep ainit tr a"
proof (induction arbitrary: a rule: exec.induct)
  case exec_refl
  then show ?case using back_init exec.exec_refl by metis
next
  case (exec_silent tr c c')
  obtain a0 where "bsim c a0" "exec astep a0 [] a"
    using back_step [OF inv_exec [OF exec_silent.hyps(1)] exec_silent.hyps(2) exec_silent.prems] by auto
  then show ?case using exec_trans [OF exec_silent.IH] by fastforce
next
  case (exec_visible tr c e c')
  obtain a0 where "bsim c a0" "exec astep a0 [e] a"
    using back_step [OF inv_exec [OF exec_visible.hyps(1)] exec_visible.hyps(2) exec_visible.prems] by auto
  then show ?case using exec_trans [OF exec_visible.IH] by blast
qed

lemma histories: "exec cstep cinit tr c \<Longrightarrow> \<exists>a. exec astep ainit tr a"
  using back_exec back_total [OF inv_exec] by blast

end

section \<open>Atomic objects\<close>

datatype ('o, 'r) op_event = Inv nat 'o | Res nat 'r

datatype ('o, 'r) op_status = Quiet | Waiting 'o | Ready 'r

text \<open>\<open>app\<close> performs an operation on the state of the object.\<close>

inductive atomic_sys :: "('o \<Rightarrow> 's \<Rightarrow> 's \<times> 'r) \<Rightarrow> 's \<times> (nat \<Rightarrow> ('o, 'r) op_status) \<Rightarrow> ('o, 'r) op_event option \<Rightarrow>
    's \<times> (nat \<Rightarrow> ('o, 'r) op_status) \<Rightarrow> bool" for app where
  a_call: "st t = Quiet \<Longrightarrow> atomic_sys app (s, st) (Some (Inv t p)) (s, st(t := Waiting p))"
| a_act: "st t = Waiting p \<Longrightarrow> app p s = (s', r) \<Longrightarrow> atomic_sys app (s, st) None (s', st(t := Ready r))"
| a_return: "st t = Ready r \<Longrightarrow> atomic_sys app (s, st) (Some (Res t r)) (s, st(t := Quiet))"

section \<open>Objects with hindsight\<close>

datatype ('o, 'r) hind_status = HQuiet | HSeen 'o "'r set" | HReady 'r

text \<open>The answer of an operation that leaves the state as it is.\<close>

definition reads :: "('o \<Rightarrow> 's \<Rightarrow> 's \<times> 'r) \<Rightarrow> 'o \<Rightarrow> 's \<Rightarrow> 'r set" where
  "reads app p s = {r. app p s = (s, r)}"

definition notice :: "('o \<Rightarrow> 's \<Rightarrow> 's \<times> 'r) \<Rightarrow> 's \<Rightarrow> ('o, 'r) hind_status \<Rightarrow> ('o, 'r) hind_status" where
  "notice app s x = (case x of HSeen p R \<Rightarrow> HSeen p (R \<union> reads app p s) | _ \<Rightarrow> x)"

lemma notice_simps [simp]:
  "notice app s HQuiet = HQuiet" "notice app s (HReady r) = HReady r" "notice app s (HSeen p R) = HSeen p (R \<union> reads app p s)"
  by (simp_all add: notice_def)

inductive hind_sys :: "('o \<Rightarrow> 's \<Rightarrow> 's \<times> 'r) \<Rightarrow> 's \<times> (nat \<Rightarrow> ('o, 'r) hind_status) \<Rightarrow> ('o, 'r) op_event option \<Rightarrow>
    's \<times> (nat \<Rightarrow> ('o, 'r) hind_status) \<Rightarrow> bool" for app where
  h_call: "st t = HQuiet \<Longrightarrow> hind_sys app (s, st) (Some (Inv t p)) (s, st(t := HSeen p (reads app p s)))"
| h_act: "st t = HSeen p R \<Longrightarrow> app p s = (s', r) \<Longrightarrow> hind_sys app (s, st) None (s', (\<lambda>u. notice app s' (st u))(t := HReady r))"
| h_return: "st t = HReady r \<or> (\<exists>p R. st t = HSeen p R \<and> r \<in> R) \<Longrightarrow> hind_sys app (s, st) (Some (Res t r)) (s, st(t := HQuiet))"

fun hind_match :: "('o, 'r) hind_status \<Rightarrow> ('o, 'r) op_status \<Rightarrow> bool" where
  "hind_match HQuiet x = (x = Quiet)"
| "hind_match (HReady r) x = (x = Ready r)"
| "hind_match (HSeen p R) x = (x = Waiting p \<or> (\<exists>r \<in> R. x = Ready r))"

definition hind_back :: "'s \<times> (nat \<Rightarrow> ('o, 'r) hind_status) \<Rightarrow> 's \<times> (nat \<Rightarrow> ('o, 'r) op_status) \<Rightarrow> bool" where
  "hind_back c a \<longleftrightarrow> fst c = fst a \<and> (\<forall>t. hind_match (snd c t) (snd a t))"

definition hind_inv :: "'s \<times> (nat \<Rightarrow> ('o, 'r) hind_status) \<Rightarrow> bool" where
  "hind_inv c \<longleftrightarrow> finite {t. snd c t \<noteq> HQuiet}"

text \<open>Several waiting readers answer one after the other.\<close>

lemma readers_answer:
  assumes "finite U" "\<forall>u \<in> U. \<exists>p r. st u = Waiting p \<and> st' u = Ready r \<and> r \<in> reads app p s" "\<forall>u. u \<notin> U \<longrightarrow> st u = st' u"
  shows "exec (atomic_sys app) (s, st) [] (s, st')"
  using assms
proof (induction U arbitrary: st rule: finite_induct)
  case empty
  then have "st = st'" by auto
  then show ?case by (simp add: exec_refl)
next
  case (insert u U)
  then obtain p r where u: "st u = Waiting p" "st' u = Ready r" "app p s = (s, r)" by (auto simp: reads_def)
  have "exec (atomic_sys app) (s, st(u := Ready r)) [] (s, st')"
    by (rule insert.IH) (use insert.prems insert.hyps u in auto)
  moreover have "atomic_sys app (s, st) None (s, st(u := Ready r))" using u by (intro a_act)
  ultimately show ?case using exec_trans [OF exec_silent [OF exec_refl]] by fastforce
qed

lemma hind_call_back:
  assumes q: "st t = HQuiet" and b: "hind_back (s, st(t := HSeen p (reads app p s))) a'"
  shows "\<exists>a. hind_back (s, st) a \<and> exec (atomic_sys app) a [Inv t p] a'"
proof -
  obtain st' where a': "a' = (s, st')" using b by (cases a') (simp add: hind_back_def)
  have m: "hind_match (if u = t then HSeen p (reads app p s) else st u) (st' u)" for u
    using b by (auto simp: hind_back_def a' split: if_splits)
  let ?st = "st'(t := Quiet)"
  have call: "exec (atomic_sys app) (s, ?st) [Inv t p] (s, ?st(t := Waiting p))"
    using exec_step [where step = "atomic_sys app", OF a_call [of ?st t app s p]] by simp
  have "exec (atomic_sys app) (s, ?st(t := Waiting p)) [] (s, st')"
  proof (cases "st' t = Waiting p")
    case True
    then show ?thesis by (simp add: exec_refl fun_upd_idem)
  next
    case False
    then show ?thesis using m [of t] by (intro readers_answer [of "{t}"]) auto
  qed
  then have "exec (atomic_sys app) (s, ?st) [Inv t p] a'" using exec_trans [OF call] a' by simp
  moreover have "hind_match (st u) (?st u)" for u using m [of u] q by auto
  then have "hind_back (s, st) (s, ?st)" by (simp add: hind_back_def)
  ultimately show ?thesis by blast
qed

lemma hind_act_back:
  assumes t: "st t = HSeen p R" "app p s = (s', r)" and fin: "finite {u. st u \<noteq> HQuiet}"
    and b: "hind_back (s', (\<lambda>u. notice app s' (st u))(t := HReady r)) a'"
  shows "\<exists>a. hind_back (s, st) a \<and> exec (atomic_sys app) a [] a'"
proof -
  obtain st' where a': "a' = (s', st')" using b by (cases a') (simp add: hind_back_def)
  have m: "hind_match (if u = t then HReady r else notice app s' (st u)) (st' u)" for u
    using b by (auto simp: hind_back_def a' split: if_splits)
  define U where "U = {u. u \<noteq> t \<and> (\<exists>q S x. st u = HSeen q S \<and> st' u = Ready x \<and> x \<notin> S)}"
  define st0 where "st0 = (\<lambda>u. if u = t then Waiting p else if u \<in> U then (case st u of HSeen q S \<Rightarrow> Waiting q | _ \<Rightarrow> Quiet) else st' u)"
  have "finite U" by (rule finite_subset [OF _ fin]) (auto simp: U_def)
  moreover have "\<forall>u \<in> U. \<exists>q x. (st0(t := Ready r)) u = Waiting q \<and> st' u = Ready x \<and> x \<in> reads app q s'"
  proof
    fix u assume u: "u \<in> U"
    then obtain q S x where "st u = HSeen q S" "st' u = Ready x" "x \<notin> S" "u \<noteq> t" by (auto simp: U_def)
    then show "\<exists>q x. (st0(t := Ready r)) u = Waiting q \<and> st' u = Ready x \<and> x \<in> reads app q s'"
      using m [of u] u by (auto simp: st0_def)
  qed
  moreover have "st' t = Ready r" using m [of t] by simp
  ultimately have "exec (atomic_sys app) (s', st0(t := Ready r)) [] (s', st')"
    by (intro readers_answer [of U]) (auto simp: st0_def U_def)
  moreover have "atomic_sys app (s, st0) None (s', st0(t := Ready r))" using t by (intro a_act) (simp_all add: st0_def)
  ultimately have "exec (atomic_sys app) (s, st0) [] a'" using exec_trans [OF exec_silent [OF exec_refl]] a' by fastforce
  moreover have "hind_match (st u) (st0 u)" for u
    using m [of u] t(1) by (cases "st u") (auto simp: st0_def U_def split: if_splits)
  then have "hind_back (s, st) (s, st0)" by (simp add: hind_back_def)
  ultimately show ?thesis by blast
qed

lemma hind_return_back:
  assumes r: "st t = HReady r \<or> (\<exists>p R. st t = HSeen p R \<and> r \<in> R)" and b: "hind_back (s, st(t := HQuiet)) a'"
  shows "\<exists>a. hind_back (s, st) a \<and> exec (atomic_sys app) a [Res t r] a'"
proof -
  obtain st' where a': "a' = (s, st')" using b by (cases a') (simp add: hind_back_def)
  have m: "hind_match (if u = t then HQuiet else st u) (st' u)" for u
    using b by (auto simp: hind_back_def a' split: if_splits)
  let ?st = "st'(t := Ready r)"
  have "st' t = Quiet" using m [of t] by simp
  then have "?st(t := Quiet) = st'" by auto
  then have "exec (atomic_sys app) (s, ?st) [Res t r] a'"
    using exec_step [where step = "atomic_sys app", OF a_return [of ?st t r app s]] a' by simp
  moreover have "hind_match (st u) (?st u)" for u using m [of u] r by auto
  then have "hind_back (s, st) (s, ?st)" by (simp add: hind_back_def)
  ultimately show ?thesis by blast
qed

interpretation hind: backward_simulation "(s0, \<lambda>_. HQuiet)" "hind_sys app" "(s0, \<lambda>_. Quiet)" "atomic_sys app" hind_inv hind_back
  for s0 :: 's and app :: "'o \<Rightarrow> 's \<Rightarrow> 's \<times> 'r"
proof unfold_locales
  show "hind_inv (s0, \<lambda>_. HQuiet)" by (simp add: hind_inv_def)
  show "a = (s0, \<lambda>_. Quiet)" if "hind_back (s0, \<lambda>_. HQuiet) a" for a
    using that by (cases a) (auto simp: hind_back_def)
  show "\<exists>a. hind_back c a" for c :: "'s \<times> (nat \<Rightarrow> ('o, 'r) hind_status)"
  proof -
    let ?w = "\<lambda>t. case snd c t of HQuiet \<Rightarrow> Quiet | HReady r \<Rightarrow> Ready r | HSeen p R \<Rightarrow> Waiting p"
    have "hind_match (snd c t) (?w t)" for t by (cases "snd c t") auto
    then show ?thesis by (intro exI [of _ "(fst c, ?w)"]) (simp add: hind_back_def)
  qed
  show "hind_inv c'" if "hind_inv c" "hind_sys app c e c'" for c c' e
    using that(2,1)
  proof (cases rule: hind_sys.cases)
    case (h_call st t s p)
    have "{u. snd c' u \<noteq> HQuiet} \<subseteq> insert t {u. snd c u \<noteq> HQuiet}" using h_call by auto
    then show ?thesis using that(1) unfolding hind_inv_def by (meson finite_insert finite_subset)
  next
    case (h_act st t p R s s' r)
    have "{u. snd c' u \<noteq> HQuiet} \<subseteq> insert t {u. snd c u \<noteq> HQuiet}" using h_act by auto
    then show ?thesis using that(1) unfolding hind_inv_def by (meson finite_insert finite_subset)
  next
    case (h_return st t r s)
    have "{u. snd c' u \<noteq> HQuiet} \<subseteq> {u. snd c u \<noteq> HQuiet}" using h_return by auto
    then show ?thesis using that(1) unfolding hind_inv_def by (meson finite_subset)
  qed
  show "\<exists>a. hind_back c a \<and> exec (atomic_sys app) a (case e of None \<Rightarrow> [] | Some x \<Rightarrow> [x]) a'"
    if "hind_inv c" "hind_sys app c e c'" "hind_back c' a'" for c e c' a'
    using that(2)
  proof (cases rule: hind_sys.cases)
    case (h_call st t s p)
    then show ?thesis using hind_call_back [of st t s p app a'] that(3) by auto
  next
    case (h_act st t p R s s' r)
    then show ?thesis using hind_act_back [of st t p R app s s' r a'] that by (auto simp: hind_inv_def)
  next
    case (h_return st t r s)
    then show ?thesis using hind_return_back [of st t r s a' app] that(3) by auto
  qed
qed

end
