(* ===== verification/Concurrent_Map.thy ===== *)
theory Concurrent_Map
  imports Hindsight
begin

text \<open>
  The interface \<^verbatim>\<open>ConcurrentMap\<close> that the lists and trees under \<^verbatim>\<open>examples/ds\<close> implement, and what it promises.
\<close>

datatype ('k, 'v) map_op = MGet 'k | MInsert 'k 'v | MRemove 'k

datatype 'v map_res = MValue "'v option" | MInserted bool

text \<open>A map: \<^verbatim>\<open>insert\<close> keeps the value of a key that is present.\<close>

fun map_app :: "('k, 'v) map_op \<Rightarrow> ('k \<rightharpoonup> 'v) \<Rightarrow> ('k \<rightharpoonup> 'v) \<times> 'v map_res" where
  "map_app (MGet k) m = (m, MValue (m k))"
| "map_app (MInsert k v) m = (case m k of None \<Rightarrow> (m(k \<mapsto> v), MInserted True) | Some _ \<Rightarrow> (m, MInserted False))"
| "map_app (MRemove k) m = (m(k := None), MValue (m k))"

type_synonym ('k, 'v) map_status = "(('k, 'v) map_op, 'v map_res) hind_status"

text \<open>The status of a call that takes no effect while the contents become \<open>m\<close>: a call that may still read has noticed \<open>m\<close>.\<close>

definition keep :: "('k \<rightharpoonup> 'v) \<Rightarrow> ('k, 'v) map_status \<Rightarrow> ('k, 'v) map_status \<Rightarrow> bool" where
  "keep m hs hs' \<longleftrightarrow> (case hs of HSeen p R \<Rightarrow> \<exists>R'. hs' = HSeen p R' \<and> R \<subseteq> R' \<and> reads map_app p m \<subseteq> R' | _ \<Rightarrow> hs' = hs)"

lemma keep_simps [simp]:
  "keep m HQuiet hs' \<longleftrightarrow> hs' = HQuiet" "keep m (HReady r) hs' \<longleftrightarrow> hs' = HReady r"
  "keep m (HSeen p R) hs' \<longleftrightarrow> (\<exists>R'. hs' = HSeen p R' \<and> R \<subseteq> R' \<and> reads map_app p m \<subseteq> R')"
  by (simp_all add: keep_def)

lemma keep_notice:
  assumes "\<And>p R. hs = HSeen p R \<Longrightarrow> reads map_app p m \<subseteq> R"
  shows "keep m' hs (notice map_app m' hs)"
  by (cases hs) auto

lemma keep_trans: "keep m' (notice map_app m hs) hs' \<Longrightarrow> keep m' hs hs'"
  by (cases hs) auto

text \<open>What the search trees share: the result of a comparison (\<^verbatim>\<open>std::cmp::Ordering\<close>), and the two sides of a node.\<close>

datatype cmp_ordering = Less | Equal | Greater

datatype direction = DirL | DirR

text \<open>A schedule: which thread begins a call, makes its next access, or returns.\<close>

datatype ('k, 'v) map_choice = Begin nat "('k, 'v) map_op" | Run nat | End nat

lemma map_reads:
  "m k = Some v \<Longrightarrow> MValue (Some v) \<in> reads map_app (MGet k) m" "m k = None \<Longrightarrow> MValue None \<in> reads map_app (MGet k) m"
  "m k = Some v \<Longrightarrow> MInserted False \<in> reads map_app (MInsert k v') m" "m k = None \<Longrightarrow> MValue None \<in> reads map_app (MRemove k) m"
  by (auto simp: reads_def fun_upd_idem)

end
