(* ===== verification/Harris_List.thy ===== *)
theory Harris_List
  imports Cdpt_Prelude Concurrent_Map
begin

unbundle bit_operations_syntax

text \<open>
  The lock-free ordered lists of \<^verbatim>\<open>examples/ds/lists.rs\<close> and the hash map that is built of them, at the granularity of
  single accesses to shared memory. A list starts at a head node that is never removed; removal first sets the tag of the
  victim's \<^verbatim>\<open>next\<close> pointer and then unlinks it. There are three ways to find a position: Harris's (unlink a whole chain of
  tagged nodes at once), Harris and Michael's (unlink tagged nodes one by one) and Herlihy and Shavit's (never unlink).

  Nodes are managed objects. The collector keeps every object that is reachable or that a guard or hazard pointer refers
  to, so that a node that a thread has seen under its guard stays allocated and its address is not
  reused: a node here is its position in the list of all nodes, which only grows. Pinning and hazard pointers
  are the operations of \<open>Guards\<close> and have no effect on the lists.
\<close>

section \<open>State\<close>

record ('k, 'v) lnode =
  l_next :: "nat option \<times> usize"   \<comment> \<open>the pointer and its tag\<close>
  l_key :: 'k
  l_val :: 'v

record ('k, 'v) lists =
  l_heads :: "nat list"             \<comment> \<open>the head node of each bucket; a single one for a list\<close>
  l_nodes :: "('k, 'v) lnode list"

definition next_of :: "('k, 'v) lists \<Rightarrow> nat \<Rightarrow> nat option \<times> usize" where
  "next_of l a = l_next (l_nodes l ! a)"

definition key_at :: "('k, 'v) lists \<Rightarrow> nat \<Rightarrow> 'k" where
  "key_at l a = l_key (l_nodes l ! a)"

definition val_at :: "('k, 'v) lists \<Rightarrow> nat \<Rightarrow> 'v" where
  "val_at l a = l_val (l_nodes l ! a)"

definition set_next :: "nat \<Rightarrow> nat option \<times> usize \<Rightarrow> ('k, 'v) lists \<Rightarrow> ('k, 'v) lists" where
  "set_next a p l = l\<lparr>l_nodes := (l_nodes l)[a := (l_nodes l ! a)\<lparr>l_next := p\<rparr>]\<rparr>"

text \<open>\<^verbatim>\<open>compare_exchange_with_tag\<close> on the \<^verbatim>\<open>next\<close> pointer of a node.\<close>

definition cas_next :: "nat \<Rightarrow> nat option \<times> usize \<Rightarrow> nat option \<times> usize \<Rightarrow> ('k, 'v) lists \<Rightarrow> ('k, 'v) lists \<times> bool" where
  "cas_next a old new l = (if next_of l a = old then (set_next a new l, True) else (l, False))"

section \<open>Calls\<close>

datatype finder = Harris | Harris_Michael | Herlihy_Shavit

text \<open>The three list types and the finder that each operation of them uses.\<close>

datatype list_kind = HList | HMList | HHSList

fun finder_of :: "list_kind \<Rightarrow> ('k, 'v) map_op \<Rightarrow> finder" where
  "finder_of HList p = Harris"
| "finder_of HMList p = Harris_Michael"
| "finder_of HHSList (MGet k) = Herlihy_Shavit"
| "finder_of HHSList p = Harris"

text \<open>A call in progress; an insertion has allocated its node.\<close>

datatype 'k list_call = CGet 'k | CInsert 'k nat | CRemove 'k

fun call_key :: "'k list_call \<Rightarrow> 'k" where
  "call_key (CGet k) = k"
| "call_key (CInsert k n) = k"
| "call_key (CRemove k) = k"

text \<open>Where a thread stands; the constructors follow the accesses to shared memory in program order.\<close>

datatype ('k, 'v) list_pc =
    LIdle
  | LHead finder "'k list_call"                                  \<comment> \<open>\<^verbatim>\<open>Cursor::head\<close>: load the head of the bucket\<close>
  | LFirst finder "'k list_call" nat                             \<comment> \<open>load \<^verbatim>\<open>prev.next\<close>\<close>
  | LLoop finder "'k list_call" nat "nat option" nat             \<comment> \<open>\<^verbatim>\<open>prev\<close>, \<^verbatim>\<open>prev_next\<close>, \<^verbatim>\<open>curr\<close>: load \<^verbatim>\<open>curr.next\<close>\<close>
  | LClean "'k list_call" nat "nat option" "nat option" bool     \<comment> \<open>\<^verbatim>\<open>find_harris\<close>: unlink the tagged nodes before \<^verbatim>\<open>curr\<close>\<close>
  | LHelp "'k list_call" nat nat "nat option"                    \<comment> \<open>\<^verbatim>\<open>find_harris_michael\<close>: unlink \<^verbatim>\<open>curr\<close>\<close>
  | LStore finder "'k list_call" nat "nat option"                \<comment> \<open>\<^verbatim>\<open>insert\<close>: store \<^verbatim>\<open>node.next\<close>\<close>
  | LLink finder "'k list_call" nat "nat option"                 \<comment> \<open>link the new node\<close>
  | LMark finder "'k list_call" nat nat                          \<comment> \<open>\<^verbatim>\<open>remove\<close>: tag \<^verbatim>\<open>curr.next\<close>\<close>
  | LUnlink nat nat "nat option" usize                           \<comment> \<open>unlink \<^verbatim>\<open>curr\<close>\<close>
  | LFinish "'v map_res"

section \<open>Operations\<close>

text \<open>\<^verbatim>\<open>Node::new\<close> and \<^verbatim>\<open>Node::head\<close>; the key and value of a head are defaults.\<close>

definition node_new :: "'k \<Rightarrow> 'v \<Rightarrow> ('k, 'v) lnode" where
  "node_new k v = \<lparr>l_next = (None, 0), l_key = k, l_val = v\<rparr>"

definition node_head :: "'k \<Rightarrow> 'v \<Rightarrow> ('k, 'v) lnode" where
  "node_head dk dv = \<lparr>l_next = (None, 0), l_key = dk, l_val = dv\<rparr>"

text \<open>\<^verbatim>\<open>HashMap::with_capacity\<close>: one list per bucket.\<close>

definition lists_new :: "nat \<Rightarrow> 'k \<Rightarrow> 'v \<Rightarrow> ('k, 'v) lists" where
  "lists_new n dk dv = \<lparr>l_heads = [0..<n], l_nodes = replicate n (node_head dk dv)\<rparr>"

text \<open>\<^verbatim>\<open>HashMap::get_bucket\<close>; \<open>hash\<close> is the hash function.\<close>

definition bucket_of :: "('k \<Rightarrow> nat) \<Rightarrow> ('k, 'v) lists \<Rightarrow> 'k \<Rightarrow> nat" where
  "bucket_of hash l k = hash k mod length (l_heads l)"

text \<open>\<^verbatim>\<open>Local::new(Node::new(key, value))\<close>.\<close>

definition list_alloc :: "'k \<Rightarrow> 'v \<Rightarrow> ('k, 'v) lists \<Rightarrow> ('k, 'v) lists" where
  "list_alloc k v l = l\<lparr>l_nodes := l_nodes l @ [node_new k v]\<rparr>"

text \<open>What \<^verbatim>\<open>get\<close>, \<^verbatim>\<open>insert\<close> and \<^verbatim>\<open>remove\<close> do when their finder has returned \<^verbatim>\<open>Ok((found, cursor))\<close>.\<close>

fun found_pc :: "('k, 'v) lists \<Rightarrow> finder \<Rightarrow> 'k list_call \<Rightarrow> bool \<Rightarrow> nat \<Rightarrow> nat option \<Rightarrow> ('k, 'v) list_pc" where
  "found_pc l f (CGet k) found prev cur = LFinish (MValue (if found then Some (val_at l (the cur)) else None))"
| "found_pc l f (CInsert k n) found prev cur =
     (if found then LFinish (MInserted False) else LStore f (CInsert k n) prev cur)"
| "found_pc l f (CRemove k) found prev cur =
     (if found then LMark f (CRemove k) prev (the cur) else LFinish (MValue None))"

text \<open>The end of the loop of a finder: \<^verbatim>\<open>find_harris\<close> unlinks the nodes between \<^verbatim>\<open>prev\<close> and \<^verbatim>\<open>curr\<close> if there are any.\<close>

definition loop_end ::
  "('k, 'v) lists \<Rightarrow> finder \<Rightarrow> 'k list_call \<Rightarrow> bool \<Rightarrow> nat \<Rightarrow> nat option \<Rightarrow> nat option \<Rightarrow> ('k, 'v) list_pc" where
  "loop_end l f call found prev prev_next cur =
     (if f = Harris \<and> prev_next \<noteq> cur then LClean call prev prev_next cur found
      else found_pc l f call found prev cur)"

definition loop_top ::
  "('k, 'v) lists \<Rightarrow> finder \<Rightarrow> 'k list_call \<Rightarrow> nat \<Rightarrow> nat option \<Rightarrow> nat option \<Rightarrow> ('k, 'v) list_pc" where
  "loop_top l f call prev prev_next cur =
     (case cur of
        None \<Rightarrow> loop_end l f call False prev prev_next None
      | Some c \<Rightarrow> LLoop f call prev prev_next c)"

text \<open>One round of the loop of each finder: the access to \<^verbatim>\<open>curr.next\<close> and what follows.\<close>

definition find_harris :: "('k :: linorder, 'v) lists \<Rightarrow> 'k list_call \<Rightarrow> nat \<Rightarrow> nat option \<Rightarrow> nat \<Rightarrow> ('k, 'v) list_pc" where
  "find_harris l call prev prev_next c =
     (let (nxt, tag) = next_of l c; k = key_at l c in
      if tag \<noteq> 0 then loop_top l Harris call prev prev_next nxt
      else if k < call_key call then loop_top l Harris call c nxt nxt
      else loop_end l Harris call (k = call_key call) prev prev_next (Some c))"

definition find_harris_michael :: "('k :: linorder, 'v) lists \<Rightarrow> 'k list_call \<Rightarrow> nat \<Rightarrow> nat option \<Rightarrow> nat \<Rightarrow> ('k, 'v) list_pc" where
  "find_harris_michael l call prev prev_next c =
     (let (nxt, tag) = next_of l c; k = key_at l c in
      if tag \<noteq> 0 then LHelp call prev c nxt
      else if k < call_key call then loop_top l Harris_Michael call c nxt nxt
      else loop_end l Harris_Michael call (k = call_key call) prev prev_next (Some c))"

definition find_harris_herlihy_shavit :: "('k :: linorder, 'v) lists \<Rightarrow> 'k list_call \<Rightarrow> nat \<Rightarrow> nat option \<Rightarrow> nat \<Rightarrow> ('k, 'v) list_pc" where
  "find_harris_herlihy_shavit l call prev prev_next c =
     (let (nxt, tag) = next_of l c; k = key_at l c in
      if k < call_key call then loop_top l Herlihy_Shavit call c nxt nxt
      else loop_end l Herlihy_Shavit call (k = call_key call \<and> tag = 0) prev prev_next (Some c))"

fun find_step ::
  "('k :: linorder, 'v) lists \<Rightarrow> finder \<Rightarrow> 'k list_call \<Rightarrow> nat \<Rightarrow> nat option \<Rightarrow> nat \<Rightarrow> ('k, 'v) list_pc" where
  "find_step l Harris = find_harris l"
| "find_step l Harris_Michael = find_harris_michael l"
| "find_step l Herlihy_Shavit = find_harris_herlihy_shavit l"

lemmas finder_defs = find_harris_def find_harris_michael_def find_harris_herlihy_shavit_def

text \<open>One access of a thread that is inside an operation.\<close>

fun list_step :: "('k :: linorder \<Rightarrow> nat) \<Rightarrow> ('k, 'v) list_pc \<Rightarrow> ('k, 'v) lists \<Rightarrow> ('k, 'v) lists \<times> ('k, 'v) list_pc" where
  "list_step hash (LHead f call) l = (l, LFirst f call (l_heads l ! bucket_of hash l (call_key call)))"
| "list_step hash (LFirst f call prev) l =
     (let cur = fst (next_of l prev) in (l, loop_top l f call prev cur cur))"
| "list_step hash (LLoop f call prev prev_next c) l = (l, find_step l f call prev prev_next c)"
| "list_step hash (LClean call prev prev_next cur found) l =
     (case cas_next prev (prev_next, 0) (cur, 0) l of
        (l', True) \<Rightarrow> (l', found_pc l' Harris call found prev cur)
      | (l', False) \<Rightarrow> (l', LHead Harris call))"
| "list_step hash (LHelp call prev c nxt) l =
     (case cas_next prev (Some c, 0) (nxt, 0) l of
        (l', True) \<Rightarrow> (l', loop_top l' Harris_Michael call prev nxt nxt)
      | (l', False) \<Rightarrow> (l', LHead Harris_Michael call))"
| "list_step hash (LStore f (CInsert k n) prev cur) l = (set_next n (cur, 0) l, LLink f (CInsert k n) prev cur)"
| "list_step hash (LLink f (CInsert k n) prev cur) l =
     (case cas_next prev (cur, 0) (Some n, 0) l of
        (l', True) \<Rightarrow> (l', LFinish (MInserted True))
      | (l', False) \<Rightarrow> (l', LHead f (CInsert k n)))"
| "list_step hash (LMark f call prev c) l =
     (let (nxt, tag) = next_of l c; l' = set_next c (nxt, tag OR 1) l in
      if tag = 1 then (l', LHead f call) else (l', LUnlink prev c nxt tag))"
| "list_step hash (LUnlink prev c nxt tag) l =
     (fst (cas_next prev (Some c, 0) (nxt, tag) l), LFinish (MValue (Some (val_at l c))))"
| "list_step hash pc l = (l, pc)"

fun list_start :: "list_kind \<Rightarrow> ('k, 'v) map_op \<Rightarrow> ('k, 'v) lists \<Rightarrow> ('k, 'v) lists \<times> ('k, 'v) list_pc" where
  "list_start kind (MGet k) l = (l, LHead (finder_of kind (MGet k :: ('k, 'v) map_op)) (CGet k))"
| "list_start kind (MInsert k v) l =
     (list_alloc k v l, LHead (finder_of kind (MInsert k v)) (CInsert k (length (l_nodes l))))"
| "list_start kind (MRemove k) l = (l, LHead (finder_of kind (MRemove k :: ('k, 'v) map_op)) (CRemove k))"

section \<open>The system\<close>

type_synonym ('k, 'v) list_sys_state = "('k, 'v) lists \<times> (nat \<Rightarrow> ('k, 'v) list_pc)"

fun working :: "('k, 'v) list_pc \<Rightarrow> bool" where
  "working LIdle = False"
| "working (LFinish r) = False"
| "working _ = True"

inductive list_sys :: "list_kind \<Rightarrow> ('k :: linorder \<Rightarrow> nat) \<Rightarrow> ('k, 'v) list_sys_state \<Rightarrow>
    (('k, 'v) map_op, 'v map_res) op_event option \<Rightarrow> ('k, 'v) list_sys_state \<Rightarrow> bool" for kind hash where
  l_call: "th t = LIdle \<Longrightarrow> list_start kind p l = (l', pc) \<Longrightarrow> list_sys kind hash (l, th) (Some (Inv t p)) (l', th(t := pc))"
| l_work: "working (th t) \<Longrightarrow> list_step hash (th t) l = (l', pc) \<Longrightarrow> list_sys kind hash (l, th) None (l', th(t := pc))"
| l_return: "th t = LFinish r \<Longrightarrow> list_sys kind hash (l, th) (Some (Res t r)) (l, th(t := LIdle))"

end
