(* ===== verification/Harris_Inv.thy ===== *)
theory Harris_Inv
  imports Harris_List
begin

text \<open>
  The invariant of the lists: the linked nodes of a bucket are sorted, a tagged pointer never changes again, and every linked node
  that is not tagged can be reached from the head of its bucket. What the lists contain, and how each
  write changes it.
\<close>

section \<open>Writes\<close>

abbreviation nb :: "('k, 'v) lists \<Rightarrow> nat" where
  "nb l \<equiv> length (l_heads l)"

abbreviation nn :: "('k, 'v) lists \<Rightarrow> nat" where
  "nn l \<equiv> length (l_nodes l)"

definition tagged :: "('k, 'v) lists \<Rightarrow> nat \<Rightarrow> bool" where
  "tagged l a \<longleftrightarrow> snd (next_of l a) \<noteq> 0"

lemma set_next_fields [simp]:
  "nn (set_next a p l) = nn l" "l_heads (set_next a p l) = l_heads l"
  "key_at (set_next a p l) b = key_at l b" "val_at (set_next a p l) b = val_at l b"
  by (cases "b < nn l"; cases "a = b"; auto simp: set_next_def key_at_def val_at_def nth_list_update list_update_beyond)+

lemma next_of_set [simp]: "a < nn l \<Longrightarrow> next_of (set_next a p l) b = (if b = a then p else next_of l b)"
  by (auto simp: set_next_def next_of_def)

lemma tagged_set [simp]: "a < nn l \<Longrightarrow> tagged (set_next a p l) b = (if b = a then snd p \<noteq> 0 else tagged l b)"
  by (simp add: tagged_def)

lemma bucket_of_cong: "l_heads l' = l_heads l \<Longrightarrow> bucket_of h l' k = bucket_of h l k"
  by (simp add: bucket_of_def)

lemma bucket_of_set [simp]: "bucket_of h (set_next a p l) k = bucket_of h l k"
  by (simp add: bucket_of_def)

section \<open>Paths\<close>

definition edge :: "('k, 'v) lists \<Rightarrow> (nat \<times> nat) set" where
  "edge l = {(a, c). fst (next_of l a) = Some c}"

lemma edge_det: "single_valued (edge l)"
  by (auto simp: edge_def single_valued_def)

lemma edge_set: "a < nn l \<Longrightarrow> (x, y) \<in> edge (set_next a p l) \<longleftrightarrow> (if x = a then fst p = Some y else (x, y) \<in> edge l)"
  by (simp add: edge_def)

lemma path_to_written:
  assumes "(x, a) \<in> (edge l)\<^sup>*" "a < nn l"
  shows "(x, a) \<in> (edge (set_next a p l))\<^sup>*"
  using assms
proof (induction rule: converse_rtrancl_induct)
  case (step x y)
  then show ?case by (cases "x = a") (auto simp: edge_set intro: converse_rtrancl_into_rtrancl)
qed simp

text \<open>The bucket of a node: a head is its own bucket.\<close>

definition home :: "('k \<Rightarrow> nat) \<Rightarrow> ('k, 'v) lists \<Rightarrow> nat \<Rightarrow> nat" where
  "home h l a = (if a < nb l then a else bucket_of h l (key_at l a))"

lemma home_set [simp]: "home h (set_next a p l) b = home h l b"
  by (simp add: home_def)

section \<open>The invariant\<close>

definition links_sorted :: "('k :: linorder \<Rightarrow> nat) \<Rightarrow> ('k, 'v) lists \<Rightarrow> nat set \<Rightarrow> nat \<Rightarrow> nat \<Rightarrow> bool" where
  "links_sorted h l P a c \<longleftrightarrow> c \<in> P \<and> nb l \<le> c \<and> home h l c = home h l a \<and> (nb l \<le> a \<longrightarrow> key_at l a < key_at l c)"

text \<open>\<open>P\<close> are the nodes that have been linked.\<close>

definition list_ok :: "('k :: linorder \<Rightarrow> nat) \<Rightarrow> ('k, 'v) lists \<Rightarrow> nat set \<Rightarrow> bool" where
  "list_ok h l P \<longleftrightarrow> l_heads l = [0..<nb l] \<and> 0 < nb l \<and> {..<nb l} \<subseteq> P \<and> P \<subseteq> {..<nn l} \<and>
     (\<forall>a \<in> P. snd (next_of l a) \<in> {0, 1}) \<and> (\<forall>a < nb l. \<not> tagged l a) \<and>
     (\<forall>a \<in> P. \<forall>c. fst (next_of l a) = Some c \<longrightarrow> links_sorted h l P a c) \<and>
     (\<forall>a \<in> P. \<not> tagged l a \<longrightarrow> (home h l a, a) \<in> (edge l)\<^sup>*)"

lemma list_okD:
  assumes "list_ok h l P"
  shows "l_heads l = [0..<nb l]" "0 < nb l" "a < nb l \<Longrightarrow> a \<in> P" "a \<in> P \<Longrightarrow> a < nn l"
    "a \<in> P \<Longrightarrow> snd (next_of l a) = 0 \<or> snd (next_of l a) = 1" "a < nb l \<Longrightarrow> \<not> tagged l a"
    "a \<in> P \<Longrightarrow> fst (next_of l a) = Some c \<Longrightarrow> links_sorted h l P a c"
    "a \<in> P \<Longrightarrow> \<not> tagged l a \<Longrightarrow> (home h l a, a) \<in> (edge l)\<^sup>*"
  using assms by (auto simp: list_ok_def)

definition reach :: "('k, 'v) lists \<Rightarrow> nat \<Rightarrow> bool" where
  "reach l x \<longleftrightarrow> (\<exists>b < nb l. (b, x) \<in> (edge l)\<^sup>*)"

lemma home_less: "list_ok h l P \<Longrightarrow> home h l a < nb l"
  using list_okD(2) [of h l P] by (simp add: home_def bucket_of_def)

lemma path_P:
  assumes ok: "list_ok h l P" and p: "(a, x) \<in> (edge l)\<^sup>*" "a \<in> P"
  shows "x \<in> P \<and> home h l x = home h l a"
  using p
proof (induction rule: rtrancl_induct)
  case (step x y)
  then show ?case using list_okD(7) [OF ok, of x y] by (auto simp: edge_def links_sorted_def)
qed simp

lemma reach_home:
  assumes ok: "list_ok h l P"
  shows "reach l x \<longleftrightarrow> (home h l x, x) \<in> (edge l)\<^sup>*"
proof
  assume "reach l x"
  then obtain b where b: "b < nb l" "(b, x) \<in> (edge l)\<^sup>*" by (auto simp: reach_def)
  then have "home h l x = b" using path_P [OF ok b(2)] list_okD(3) [OF ok] by (simp add: home_def)
  then show "(home h l x, x) \<in> (edge l)\<^sup>*" using b by simp
qed (use home_less [OF ok] in \<open>auto simp: reach_def\<close>)

lemma reach_P: "list_ok h l P \<Longrightarrow> reach l x \<Longrightarrow> x \<in> P"
  using path_P list_okD(3) unfolding reach_def by blast

lemma untagged_reach: "list_ok h l P \<Longrightarrow> a \<in> P \<Longrightarrow> \<not> tagged l a \<Longrightarrow> reach l a"
  using list_okD(8) reach_home by blast

lemma reach_next: "reach l a \<Longrightarrow> fst (next_of l a) = Some c \<Longrightarrow> reach l c"
  unfolding reach_def edge_def by (blast intro: rtrancl_into_rtrancl)

text \<open>Keys grow along paths, and no path leads into a head.\<close>

lemma path_keys:
  assumes ok: "list_ok h l P" and p: "(a, x) \<in> (edge l)\<^sup>*" "a \<in> P"
  shows "a = x \<or> nb l \<le> x \<and> (nb l \<le> a \<longrightarrow> key_at l a < key_at l x)"
  using p
proof (induction rule: rtrancl_induct)
  case (step x y)
  have "x \<in> P" using path_P [OF ok step.hyps(1) step.prems] by blast
  then have "links_sorted h l P x y" using step.hyps(2) list_okD(7) [OF ok] by (simp add: edge_def)
  then show ?case using step by (auto simp: links_sorted_def dest: less_trans)
qed simp

lemma reach_linear:
  assumes ok: "list_ok h l P" and r: "reach l x" "reach l y" "home h l x = home h l y"
  shows "(x, y) \<in> (edge l)\<^sup>* \<or> (y, x) \<in> (edge l)\<^sup>*"
  using r single_valued_confluent [OF edge_det] unfolding reach_home [OF ok] by metis

lemma reach_unique:
  assumes ok: "list_ok h l P" and r: "reach l x" "reach l y" "nb l \<le> x" "nb l \<le> y" "key_at l x = key_at l y"
  shows "x = y"
proof -
  have "home h l x = home h l y" using r by (simp add: home_def)
  then show ?thesis
    using reach_linear [OF ok r(1,2)] path_keys [OF ok, of x y] path_keys [OF ok, of y x] reach_P [OF ok] r by auto
qed

section \<open>Contents\<close>

definition live :: "('k, 'v) lists \<Rightarrow> nat \<Rightarrow> bool" where
  "live l c \<longleftrightarrow> reach l c \<and> nb l \<le> c \<and> \<not> tagged l c"

definition lmap :: "('k, 'v) lists \<Rightarrow> 'k \<rightharpoonup> 'v" where
  "lmap l k = (if \<exists>c. live l c \<and> key_at l c = k then Some (val_at l (THE c. live l c \<and> key_at l c = k)) else None)"

lemma live_iff: "list_ok h l P \<Longrightarrow> live l c \<longleftrightarrow> c \<in> P \<and> nb l \<le> c \<and> \<not> tagged l c"
  using reach_P untagged_reach unfolding live_def by blast

lemma lmap_live:
  assumes ok: "list_ok h l P" and c: "live l c"
  shows "lmap l (key_at l c) = Some (val_at l c)"
proof -
  have "(THE d. live l d \<and> key_at l d = key_at l c) = c"
    using c reach_unique [OF ok] by (intro the_equality) (auto simp: live_def)
  then show ?thesis using c by (auto simp: lmap_def)
qed

lemma lmap_None: "lmap l k = None \<longleftrightarrow> (\<forall>c. live l c \<longrightarrow> key_at l c \<noteq> k)"
  by (auto simp: lmap_def)

lemma lmap_present: "lmap l k \<noteq> None \<Longrightarrow> \<exists>c. live l c \<and> key_at l c = k"
  by (auto simp: lmap_def split: if_splits)

lemma lmap_eqI:
  assumes ok: "list_ok h l P" and 1: "\<And>c. live l c \<Longrightarrow> m (key_at l c) = Some (val_at l c)"
    and 2: "\<And>k. m k \<noteq> None \<Longrightarrow> \<exists>c. live l c \<and> key_at l c = k"
  shows "lmap l = m"
proof
  fix k show "lmap l k = m k"
  proof (cases "\<exists>c. live l c \<and> key_at l c = k")
    case True
    then show ?thesis using lmap_live [OF ok] 1 by metis
  next
    case False
    then have "lmap l k = None" by (auto simp: lmap_None)
    moreover have "m k = None" using False 2 by blast
    ultimately show ?thesis by simp
  qed
qed

text \<open>Two ways to see that a key is missing: a gap between neighbours, and a tagged node with the key.\<close>

lemma gap_absent:
  assumes ok: "list_ok h l P" and c: "reach l c" "home h l c = bucket_of h l k" "nb l \<le> c \<longrightarrow> key_at l c < k"
    and n: "case fst (next_of l c) of None \<Rightarrow> True | Some d \<Rightarrow> k < key_at l d"
  shows "lmap l k = None"
  unfolding lmap_None
proof (intro allI impI notI)
  fix x assume x: "live l x" "key_at l x = k"
  then have rx: "reach l x" "nb l \<le> x" by (simp_all add: live_def)
  then have "home h l x = home h l c" using x c(2) by (simp add: home_def)
  then consider "(x, c) \<in> (edge l)\<^sup>*" | "c \<noteq> x" "(c, x) \<in> (edge l)\<^sup>*" using reach_linear [OF ok rx(1) c(1)] by auto
  then show False
  proof cases
    case 1
    then show ?thesis using path_keys [OF ok 1 reach_P [OF ok rx(1)]] rx x c(3) by auto
  next
    case 2
    from 2(2) obtain d where "(c, d) \<in> edge l" "(d, x) \<in> (edge l)\<^sup>*" by (rule converse_rtranclE) (use 2(1) in auto)
    then have d: "fst (next_of l c) = Some d" "(d, x) \<in> (edge l)\<^sup>*" by (simp_all add: edge_def)
    have "links_sorted h l P c d" using list_okD(7) [OF ok reach_P [OF ok c(1)] d(1)] .
    then show ?thesis using path_keys [OF ok d(2)] n d(1) x by (auto simp: links_sorted_def)
  qed
qed

lemma tagged_absent:
  assumes ok: "list_ok h l P" and c: "reach l c" "nb l \<le> c" "tagged l c"
  shows "lmap l (key_at l c) = None"
  using reach_unique [OF ok _ c(1) _ c(2)] c(3) unfolding lmap_None live_def by blast

section \<open>How writes change the lists\<close>

lemma list_okI:
  assumes ok: "list_ok h l P" and a: "a \<in> P" and p: "snd p = 0 \<or> snd p = 1" "a < nb l \<Longrightarrow> snd p = 0" and PQ: "P \<subseteq> Q" "Q \<subseteq> {..<nn l}"
    and new: "\<And>x. x \<in> Q \<Longrightarrow> x \<notin> P \<Longrightarrow> \<not> x < nb l \<and> snd (next_of l x) = 0 \<and> (\<forall>c. fst (next_of l x) = Some c \<longrightarrow> links_sorted h l Q x c)"
    and sorted: "\<And>c. fst p = Some c \<Longrightarrow> links_sorted h l Q a c"
    and reach: "\<And>x. x \<in> Q \<Longrightarrow> \<not> tagged (set_next a p l) x \<Longrightarrow> (home h l x, x) \<in> (edge (set_next a p l))\<^sup>*"
  shows "list_ok h (set_next a p l) Q"
proof -
  have n: "a < nn l" using list_okD(4) [OF ok a] .
  have s: "links_sorted h l Q x c" if "x \<in> P" "fst (next_of l x) = Some c" for x c
    using list_okD(7) [OF ok that] PQ(1) by (auto simp: links_sorted_def)
  have t: "snd (next_of l x) = 0 \<or> snd (next_of l x) = 1" if "x \<in> Q" for x using list_okD(5) [OF ok] new [OF that] by blast
  have q: "links_sorted h (set_next a p l) Q x c = links_sorted h l Q x c" for x c by (simp add: links_sorted_def)
  show ?thesis
    unfolding list_ok_def q
  proof (intro conjI ballI allI impI)
    fix x c assume x: "x \<in> Q" "fst (next_of (set_next a p l) x) = Some c"
    then show "links_sorted h l Q x c" using s new sorted n by (auto split: if_splits)
  next
    fix x assume "x \<in> Q"
    then show "snd (next_of (set_next a p l) x) \<in> {0, 1}" using t [of x] p(1) n by auto
  next
    fix x assume "x < nb (set_next a p l)"
    then show "\<not> tagged (set_next a p l) x" using n p(2) list_okD(6) [OF ok, of x] by auto
  next
    show "{..<nb (set_next a p l)} \<subseteq> Q" using list_okD(3) [OF ok] PQ(1) by auto
  qed (use list_okD(1,2) [OF ok] PQ(2) reach in simp_all)
qed

text \<open>Tagging a node removes its key.\<close>

lemma ok_tag:
  assumes ok: "list_ok h l P" and a: "a \<in> P" "nb l \<le> a" "next_of l a = (c, 0)"
  shows "list_ok h (set_next a (c, 1) l) P" "lmap (set_next a (c, 1) l) = (lmap l)(key_at l a := None)"
    "lmap l (key_at l a) = Some (val_at l a)"
proof -
  let ?l = "set_next a (c, 1) l"
  have n: "a < nn l" using list_okD(4) [OF ok a(1)] .
  have e: "edge ?l = edge l" using n a(3) by (auto simp: edge_def split: if_splits)
  show ok': "list_ok h ?l P"
    using list_okD(7,8) [OF ok] list_okD(4) [OF ok] a n unfolding e
    by (intro list_okI [OF ok a(1)]) (auto simp: e split: if_splits)
  have la: "live l a" using a by (simp add: live_iff [OF ok] tagged_def)
  then show "lmap l (key_at l a) = Some (val_at l a)" by (rule lmap_live [OF ok])
  have lv: "live ?l x \<longleftrightarrow> live l x \<and> x \<noteq> a" for x using n by (auto simp: live_iff [OF ok'] live_iff [OF ok])
  have ne: "key_at l x \<noteq> key_at l a" if "live l x" "x \<noteq> a" for x
    using reach_unique [OF ok, of x a] that la by (auto simp: live_def)
  show "lmap ?l = (lmap l)(key_at l a := None)"
  proof (rule lmap_eqI [OF ok'])
    fix x assume "live ?l x"
    then show "((lmap l)(key_at l a := None)) (key_at ?l x) = Some (val_at ?l x)" using lv ne lmap_live [OF ok, of x] by simp
  next
    fix k assume "((lmap l)(key_at l a := None)) k \<noteq> None"
    then show "\<exists>x. live ?l x \<and> key_at ?l x = k" using lv lmap_present [of l k] by (auto split: if_splits)
  qed
qed

text \<open>A chain of tagged nodes.\<close>

inductive tagged_chain :: "('k, 'v) lists \<Rightarrow> nat option \<Rightarrow> nat option \<Rightarrow> bool" for l where
  tc_refl: "tagged_chain l c c"
| tc_step: "tagged l a \<Longrightarrow> tagged_chain l (fst (next_of l a)) c \<Longrightarrow> tagged_chain l (Some a) c"

inductive_cases tagged_chainE: "tagged_chain l (Some a) c"

lemma chain_path: "tagged_chain l p c \<Longrightarrow> c = Some d \<Longrightarrow> \<exists>a. p = Some a \<and> (a, d) \<in> (edge l)\<^sup>*"
proof (induction rule: tagged_chain.induct)
  case (tc_step a c)
  then show ?case by (auto simp: edge_def intro: converse_rtrancl_into_rtrancl)
qed simp

lemma unlink_reach:
  assumes n: "p < nn l" and pn: "next_of l p = (pn, 0)" and c: "tagged_chain l pn c" and b: "(b, p) \<in> (edge l)\<^sup>*" and x: "(b, x) \<in> (edge l)\<^sup>*"
  shows "(b, x) \<in> (edge (set_next p (c, 0) l))\<^sup>* \<or> tagged l x \<and> tagged_chain l (Some x) c"
  using x
proof (induction rule: rtrancl_induct)
  case (step y z)
  let ?e = "edge (set_next p (c, 0) l)"
  have yz: "fst (next_of l y) = Some z" using step.hyps(2) by (simp add: edge_def)
  have target: "(b, d) \<in> ?e\<^sup>*" if "c = Some d" for d
    by (rule rtrancl_into_rtrancl [OF path_to_written [OF b n]]) (use that n in \<open>simp add: edge_set\<close>)
  have chain: ?case if "tagged_chain l (Some z) c"
  proof (cases "c = Some z")
    case True
    then show ?thesis using target by blast
  next
    case False
    then show ?thesis using that by (auto elim: tagged_chainE)
  qed
  show ?case
  proof (cases "tagged l y \<and> tagged_chain l (Some y) c \<and> c \<noteq> Some y")
    case True
    then have "tagged_chain l (Some z) c" using yz by (auto elim: tagged_chainE)
    then show ?thesis by (rule chain)
  next
    case False
    then have y: "(b, y) \<in> ?e\<^sup>*" using step.IH target by blast
    show ?thesis
    proof (cases "y = p")
      case True
      then show ?thesis using chain c yz pn by simp
    next
      case False
      then have "(y, z) \<in> ?e" using yz n by (simp add: edge_def)
      then show ?thesis using y by (blast intro: rtrancl_into_rtrancl)
    qed
  qed
qed simp

lemma ok_unlink:
  assumes ok: "list_ok h l P" and p: "p \<in> P" "next_of l p = (pn, 0)" and c: "tagged_chain l pn c"
  shows "list_ok h (set_next p (c, 0) l) P" "lmap (set_next p (c, 0) l) = lmap l"
proof -
  let ?l = "set_next p (c, 0) l"
  have n: "p < nn l" using list_okD(4) [OF ok p(1)] .
  have up: "\<not> tagged l p" using p(2) by (simp add: tagged_def)
  have s: "links_sorted h l P p d" if d: "c = Some d" for d
  proof -
    obtain a where a: "pn = Some a" "(a, d) \<in> (edge l)\<^sup>*" using chain_path [OF c d] by blast
    then have "links_sorted h l P p a" using list_okD(7) [OF ok p(1)] p(2) by simp
    then show ?thesis using path_P [OF ok a(2)] path_keys [OF ok a(2)] by (auto simp: links_sorted_def dest: less_trans)
  qed
  have r: "(home h l x, x) \<in> (edge ?l)\<^sup>*" if x: "x \<in> P" "\<not> tagged ?l x" for x
  proof -
    have ux: "\<not> tagged l x" using x(2) n up by (auto split: if_splits)
    then have "reach l x" using untagged_reach [OF ok x(1)] by blast
    show ?thesis
    proof (cases "home h l x = home h l p")
      case True
      then show ?thesis
        using unlink_reach [OF n p(2) c, of "home h l x" x] list_okD(8) [OF ok] x(1) p(1) up ux by metis
    next
      case False
      have "(home h l x, y) \<in> (edge ?l)\<^sup>* \<and> home h l y = home h l x" if "(home h l x, y) \<in> (edge l)\<^sup>*" for y
        using that
      proof (induction rule: rtrancl_induct)
        case base
        then show ?case using home_less [OF ok, of x] by (simp add: home_def)
      next
        case (step y z)
        have "home h l x \<in> P" using home_less [OF ok] list_okD(3) [OF ok] by blast
        then have "home h l z = home h l y" using path_P [OF ok] step.hyps by (metis r_into_rtrancl rtrancl_trans)
        moreover have "(y, z) \<in> edge ?l" using step False n by (auto simp: edge_def)
        ultimately show ?case using step.IH by (auto intro: rtrancl_into_rtrancl)
      qed
      then show ?thesis using list_okD(8) [OF ok x(1) ux] by blast
    qed
  qed
  show ok': "list_ok h ?l P"
    by (rule list_okI [OF ok p(1)]) (use s r list_okD(4) [OF ok] in auto)
  have lv: "live ?l x \<longleftrightarrow> live l x" for x using n up by (auto simp: live_iff [OF ok'] live_iff [OF ok])
  show "lmap ?l = lmap l" by (rule lmap_eqI [OF ok']) (use lv lmap_live [OF ok] lmap_present [of l] in \<open>auto\<close>)
qed

text \<open>Linking a new node between two neighbours.\<close>

lemma link_reach:
  assumes n: "p < nn l" and pc: "fst (next_of l p) = c" "fst (next_of l n') = c" "n' \<noteq> p" and b: "(b, p) \<in> (edge l)\<^sup>*" and x: "(b, x) \<in> (edge l)\<^sup>*"
  shows "(b, x) \<in> (edge (set_next p (Some n', 0) l))\<^sup>*"
  using x
proof (induction rule: rtrancl_induct)
  case (step y z)
  show ?case
  proof (cases "y = p")
    case True
    then have "(p, n') \<in> edge (set_next p (Some n', 0) l)" "(n', z) \<in> edge (set_next p (Some n', 0) l)"
      using step.hyps(2) pc n by (simp_all add: edge_def)
    then show ?thesis using path_to_written [OF b n] by (meson rtrancl_into_rtrancl)
  next
    case False
    then have "(y, z) \<in> edge (set_next p (Some n', 0) l)" using step.hyps(2) n by (simp add: edge_set)
    then show ?thesis using step.IH by (rule rtrancl_into_rtrancl [rotated])
  qed
qed simp

text \<open>A path in another bucket does not pass the node that is written.\<close>

lemma other_bucket:
  assumes ok: "list_ok h l P" and p: "p < nn l" "home h l b \<noteq> home h l p" and b: "b \<in> P" "(b, x) \<in> (edge l)\<^sup>*"
  shows "(b, x) \<in> (edge (set_next p q l))\<^sup>*"
  using b(2)
proof (induction rule: rtrancl_induct)
  case (step y z)
  have "home h l y = home h l b" using path_P [OF ok step.hyps(1) b(1)] by blast
  then have "(y, z) \<in> edge (set_next p q l)" using step.hyps(2) p by (auto simp: edge_set)
  then show ?case using step.IH by (rule rtrancl_into_rtrancl [rotated])
qed simp

lemma ok_link:
  assumes ok: "list_ok h l P" and p: "p \<in> P" "next_of l p = (c, 0)" and n: "n \<notin> P" "n < nn l" "nb l \<le> n" "next_of l n = (c, 0)"
    and key: "bucket_of h l (key_at l n) = home h l p" "nb l \<le> p \<longrightarrow> key_at l p < key_at l n"
      "case c of None \<Rightarrow> True | Some d \<Rightarrow> key_at l n < key_at l d"
  shows "list_ok h (set_next p (Some n, 0) l) (insert n P)" "lmap (set_next p (Some n, 0) l) = (lmap l)(key_at l n \<mapsto> val_at l n)"
    "lmap l (key_at l n) = None"
proof -
  let ?l = "set_next p (Some n, 0) l"
  have pn: "p < nn l" "n \<noteq> p" using list_okD(4) [OF ok p(1)] n(1) p(1) by auto
  have up: "\<not> tagged l p" using p(2) by (simp add: tagged_def)
  note rp = list_okD(8) [OF ok p(1) up]
  have hn: "home h l n = home h l p" using n(3) key(1) by (simp add: home_def)
  have hb: "home h l x \<in> P \<and> home h l (home h l x) = home h l x" for x
    using home_less [OF ok, of x] list_okD(3) [OF ok] by (simp add: home_def)
  have r: "(home h l x, x) \<in> (edge ?l)\<^sup>*" if x: "(home h l x, x) \<in> (edge l)\<^sup>*" for x
  proof (cases "home h l x = home h l p")
    case True
    then show ?thesis using link_reach [OF pn(1) _ _ pn(2) _ x] rp p(2) n(4) by (metis fst_conv)
  next
    case False
    then show ?thesis using other_bucket [OF ok pn(1) _ _ x] hb by metis
  qed
  have rn: "(home h l n, n) \<in> (edge ?l)\<^sup>*"
    unfolding hn by (rule rtrancl_into_rtrancl [OF path_to_written [OF rp pn(1)]]) (simp add: edge_set pn)
  have sc: "links_sorted h l (insert n P) n d" if "c = Some d" for d
  proof -
    have "links_sorted h l P p d" using list_okD(7) [OF ok p(1)] p(2) that by simp
    then show ?thesis using hn key(3) that by (simp add: links_sorted_def)
  qed
  show ok': "list_ok h ?l (insert n P)"
  proof (rule list_okI [OF ok p(1)])
    show "links_sorted h l (insert n P) p d" if "fst (Some n, 0 :: usize) = Some d" for d
      using that n(3) hn key(2) by (simp add: links_sorted_def)
    show "(home h l x, x) \<in> (edge ?l)\<^sup>*" if "x \<in> insert n P" "\<not> tagged ?l x" for x
      using that rn r list_okD(8) [OF ok, of x] up pn by (auto split: if_splits)
    show "\<not> x < nb l \<and> snd (next_of l x) = 0 \<and> (\<forall>d. fst (next_of l x) = Some d \<longrightarrow> links_sorted h l (insert n P) x d)"
      if "x \<in> insert n P" "x \<notin> P" for x using that n(3,4) sc by auto
  qed (use n(2) list_okD(4) [OF ok] in auto)
  show none: "lmap l (key_at l n) = None"
    by (rule gap_absent [OF ok untagged_reach [OF ok p(1) up]]) (use key p(2) in auto)
  have lv: "live ?l x \<longleftrightarrow> live l x \<or> x = n" for x
    using pn up n(3,4) by (auto simp: live_iff [OF ok'] live_iff [OF ok] tagged_def)
  show "lmap ?l = (lmap l)(key_at l n \<mapsto> val_at l n)"
  proof (rule lmap_eqI [OF ok'])
    fix x assume "live ?l x"
    then have "x = n \<or> live l x" using lv by blast
    then show "((lmap l)(key_at l n \<mapsto> val_at l n)) (key_at ?l x) = Some (val_at ?l x)"
      using none lmap_live [OF ok, of x] by (auto simp: lmap_None)
  next
    fix k assume "((lmap l)(key_at l n \<mapsto> val_at l n)) k \<noteq> None"
    then show "\<exists>x. live ?l x \<and> key_at ?l x = k" using lv lmap_present [of l k] by (auto split: if_splits)
  qed
qed

section \<open>Nodes that are not linked\<close>

text \<open>Two states that agree on the linked nodes.\<close>

lemma ok_agree:
  assumes ok: "list_ok h l P" and f: "l_heads l' = l_heads l" "nn l \<le> nn l'"
    and a: "\<And>a. a \<in> P \<Longrightarrow> next_of l' a = next_of l a \<and> key_at l' a = key_at l a \<and> val_at l' a = val_at l a"
  shows "list_ok h l' P" "lmap l' = lmap l"
proof -
  have path: "(b, x) \<in> (edge l')\<^sup>*" if "(b, x) \<in> (edge l)\<^sup>*" "b \<in> P" for b x
    using that
  proof (induction rule: rtrancl_induct)
    case (step y z)
    then have "(y, z) \<in> edge l'" using path_P [OF ok step.hyps(1)] a by (simp add: edge_def)
    then show ?case using step by (meson rtrancl_into_rtrancl)
  qed simp
  have hm: "home h l' x = home h l x" if "x \<in> P" for x using a [OF that] f(1) by (simp add: home_def bucket_of_def)
  have s: "links_sorted h l' P x c" if "x \<in> P" "links_sorted h l P x c" for x c
    using that a hm f(1) by (auto simp: links_sorted_def)
  show ok': "list_ok h l' P"
    unfolding list_ok_def
  proof (intro conjI ballI allI impI)
    show "(home h l' x, x) \<in> (edge l')\<^sup>*" if "x \<in> P" "\<not> tagged l' x" for x
      using list_okD(8) [OF ok that(1)] that a path home_less [OF ok] list_okD(3) [OF ok] hm by (auto simp: tagged_def)
    show "links_sorted h l' P x c" if "x \<in> P" "fst (next_of l' x) = Some c" for x c
      using s [OF that(1)] list_okD(7) [OF ok that(1)] that a by simp
    show "\<not> tagged l' x" if "x < nb l'" for x
      using that list_okD(3,6) [OF ok, of x] a f(1) by (auto simp: tagged_def)
    show "snd (next_of l' x) \<in> {0, 1}" if "x \<in> P" for x using list_okD(5) [OF ok that] a [OF that] by auto
  qed (use list_okD(1-4) [OF ok] f in \<open>auto dest: le_trans\<close>, meson less_le_trans list_okD(4) [OF ok])
  have lv: "live l' x \<longleftrightarrow> live l x" for x using a f(1) by (auto simp: live_iff [OF ok'] live_iff [OF ok] tagged_def)
  show "lmap l' = lmap l"
  proof (rule lmap_eqI [OF ok'])
    fix x assume "live l' x"
    then have "live l x" "x \<in> P" using lv live_iff [OF ok] by blast+
    then show "lmap l (key_at l' x) = Some (val_at l' x)" using lmap_live [OF ok] a by simp
  next
    fix k assume "lmap l k \<noteq> None"
    then obtain x where x: "live l x" "key_at l x = k" using lmap_present [of l k] by auto
    then have "x \<in> P" using live_iff [OF ok] by blast
    then show "\<exists>x. live l' x \<and> key_at l' x = k" using lv a x by auto
  qed
qed

lemma ok_private: "list_ok h l P \<Longrightarrow> n \<notin> P \<Longrightarrow> n < nn l \<Longrightarrow> list_ok h (set_next n q l) P \<and> lmap (set_next n q l) = lmap l"
  using ok_agree [of h l P "set_next n q l"] by (metis next_of_set order_refl set_next_fields)

lemma list_alloc_fields:
  "l_heads (list_alloc k v l) = l_heads l" "nn (list_alloc k v l) = Suc (nn l)"
  "a < nn l \<Longrightarrow> next_of (list_alloc k v l) a = next_of l a" "a < nn l \<Longrightarrow> key_at (list_alloc k v l) a = key_at l a"
  "a < nn l \<Longrightarrow> val_at (list_alloc k v l) a = val_at l a" "next_of (list_alloc k v l) (nn l) = (None, 0)"
  "key_at (list_alloc k v l) (nn l) = k" "val_at (list_alloc k v l) (nn l) = v"
  by (simp_all add: list_alloc_def node_new_def next_of_def key_at_def val_at_def nth_append)

lemma ok_alloc: "list_ok h l P \<Longrightarrow> list_ok h (list_alloc k v l) P \<and> lmap (list_alloc k v l) = lmap l"
  using ok_agree [of h l P "list_alloc k v l"] list_okD(4) [of h l P] by (simp add: list_alloc_fields)

section \<open>Time\<close>

text \<open>What never changes: keys, values, heads, and pointers once they are tagged.\<close>

definition later :: "('k, 'v) lists \<Rightarrow> ('k, 'v) lists \<Rightarrow> bool" where
  "later l l' \<longleftrightarrow> l_heads l' = l_heads l \<and> nn l \<le> nn l' \<and>
     (\<forall>a < nn l. key_at l' a = key_at l a \<and> val_at l' a = val_at l a \<and> (tagged l a \<longrightarrow> next_of l' a = next_of l a))"

lemma later_refl [simp]: "later l l"
  by (simp add: later_def)

lemma later_trans: "later l l' \<Longrightarrow> later l' l'' \<Longrightarrow> later l l''"
  unfolding later_def tagged_def by (auto dest: le_trans)

lemma later_set: "a < nn l \<Longrightarrow> \<not> tagged l a \<Longrightarrow> later l (set_next a q l)"
  by (auto simp: later_def)

lemma later_alloc: "later l (list_alloc k v l)"
  by (simp add: later_def list_alloc_fields)

lemma later_tagged: "later l l' \<Longrightarrow> a < nn l \<Longrightarrow> tagged l a \<Longrightarrow> tagged l' a \<and> next_of l' a = next_of l a"
  by (simp add: later_def tagged_def)

lemma chain_later:
  assumes "tagged_chain l p c" "later l l'" "list_ok h l P" "\<forall>a. p = Some a \<longrightarrow> a \<in> P"
  shows "tagged_chain l' p c"
  using assms
proof (induction rule: tagged_chain.induct)
  case (tc_step a c)
  have a: "a \<in> P" "a < nn l" using tc_step.prems list_okD(4) by auto
  then have "\<forall>b. fst (next_of l a) = Some b \<longrightarrow> b \<in> P" using list_okD(7) [OF tc_step.prems(2)] by (simp add: links_sorted_def)
  then show ?case using tc_step later_tagged [OF tc_step.prems(1) a(2)] by (auto intro: tagged_chain.intros)
qed (rule tc_refl)

end
