(* ===== verification/Harris_Spec.thy ===== *)
theory Harris_Spec
  imports Harris_Inv
begin

text \<open>
  The lists are linearizable: an insertion takes effect when it links its node and a removal when it tags its victim, while all
  other calls are justified by a state that the lists were in at some time during the call. Each call is accompanied by the set of
  the states since its start; a node that the call has met was reachable in one of them.
\<close>

section \<open>The states since the start of a call\<close>

definition visited :: "('k, 'v) lists set \<Rightarrow> nat \<Rightarrow> bool" where
  "visited H x \<longleftrightarrow> (\<exists>l \<in> H. reach l x)"

definition absent :: "('k, 'v) lists set \<Rightarrow> 'k \<Rightarrow> bool" where
  "absent H k \<longleftrightarrow> (\<exists>l \<in> H. lmap l k = None)"

definition present :: "('k, 'v) lists set \<Rightarrow> 'k \<Rightarrow> 'v \<Rightarrow> bool" where
  "present H k v \<longleftrightarrow> (\<exists>l \<in> H. lmap l k = Some v)"

definition hist_ok :: "('k :: linorder \<Rightarrow> nat) \<Rightarrow> ('k, 'v) lists \<Rightarrow> nat set \<Rightarrow> ('k, 'v) lists set \<Rightarrow> bool" where
  "hist_ok h l P H \<longleftrightarrow> list_ok h l P \<and> l \<in> H \<and> (\<forall>l' \<in> H. later l' l \<and> (\<exists>P' \<subseteq> P. list_ok h l' P')) \<and>
     (\<forall>x. visited H x \<and> tagged l x \<longrightarrow> (\<exists>l' \<in> H. reach l' x \<and> tagged l' x))"

lemma hist_start: "list_ok h l P \<Longrightarrow> hist_ok h l P {l}"
  by (auto simp: hist_ok_def visited_def)

lemma histD:
  assumes "hist_ok h l P H"
  shows "list_ok h l P" "l \<in> H" "l' \<in> H \<Longrightarrow> later l' l" "l' \<in> H \<Longrightarrow> \<exists>Q. Q \<subseteq> P \<and> list_ok h l' Q"
    "visited H x \<Longrightarrow> tagged l x \<Longrightarrow> \<exists>l' \<in> H. reach l' x \<and> tagged l' x"
  using assms by (auto simp: hist_ok_def)

lemma visited_P:
  assumes h: "hist_ok h l P H" and x: "visited H x"
  shows "x \<in> P"
proof -
  obtain l' where l': "l' \<in> H" "reach l' x" using x by (auto simp: visited_def)
  then obtain Q where "Q \<subseteq> P" "list_ok h l' Q" using histD(4) [OF h] by blast
  then show ?thesis using reach_P l'(2) by blast
qed

lemma hist_step:
  assumes h: "hist_ok h l P H" and l': "later l l'" "list_ok h l' P'" "P \<subseteq> P'"
    and t: "\<And>x. tagged l' x \<Longrightarrow> \<not> tagged l x \<Longrightarrow> x \<in> P \<Longrightarrow> reach l' x"
  shows "hist_ok h l' P' (insert l' H)"
proof -
  have old: "later l'' l' \<and> (\<exists>Q \<subseteq> P'. list_ok h l'' Q)" if "l'' \<in> H" for l''
    using histD(3,4) [OF h that] l'(1,3) later_trans by (meson subset_trans)
  have "\<exists>l'' \<in> insert l' H. reach l'' x \<and> tagged l'' x" if x: "visited (insert l' H) x" "tagged l' x" for x
  proof (cases "reach l' x")
    case False
    then have v: "visited H x" using x(1) by (auto simp: visited_def)
    then have "tagged l x" using t x(2) False visited_P [OF h] by blast
    then show ?thesis using histD(5) [OF h v] by blast
  qed (use x in blast)
  then show ?thesis using l'(2) old unfolding hist_ok_def by auto
qed

text \<open>A link that is read now was there at a time when its node was reachable.\<close>

lemma hist_load:
  assumes h: "hist_ok h l P H" and c: "visited H c"
  obtains l' Q where "l' \<in> H" "later l' l" "list_ok h l' Q" "Q \<subseteq> P" "reach l' c" "next_of l' c = next_of l c"
proof (cases "tagged l c")
  case True
  then obtain l' where l': "l' \<in> H" "reach l' c" "tagged l' c" using histD(5) [OF h c] by blast
  then obtain Q where Q: "Q \<subseteq> P" "list_ok h l' Q" "later l' l" using histD(3,4) [OF h] by blast
  then have "c < nn l'" using reach_P [OF Q(2) l'(2)] list_okD(4) [OF Q(2)] by blast
  then have "next_of l' c = next_of l c" using later_tagged [OF Q(3) _ l'(3)] by simp
  then show ?thesis using that l' Q by blast
next
  case False
  then have "reach l c" using untagged_reach [OF histD(1) [OF h] visited_P [OF h c]] by blast
  then show ?thesis using that [of l P] histD(1,2) [OF h] by simp
qed

lemma load_next:
  assumes h: "hist_ok h l P H" and c: "visited H c" "next_of l c = (n, t)"
  shows "n = Some d \<Longrightarrow> visited H d \<and> links_sorted h l P c d"
    "home h l c = bucket_of h l k \<Longrightarrow> nb l \<le> c \<longrightarrow> key_at l c < k \<Longrightarrow> case n of None \<Rightarrow> True | Some d \<Rightarrow> k < key_at l d \<Longrightarrow> absent H k"
    "nb l \<le> c \<Longrightarrow> t \<noteq> 0 \<Longrightarrow> absent H (key_at l c)"
    "nb l \<le> c \<Longrightarrow> t = 0 \<Longrightarrow> present H (key_at l c) (val_at l c)"
proof -
  obtain l' Q where l': "l' \<in> H" "later l' l" "list_ok h l' Q" "Q \<subseteq> P" "reach l' c" "next_of l' c = next_of l c"
    using hist_load [OF h c(1)] by blast
  have ok: "list_ok h l P" using h by (simp add: hist_ok_def)
  have cQ: "c \<in> Q" using reach_P [OF l'(3,5)] .
  have same: "key_at l' a = key_at l a" "val_at l' a = val_at l a" "home h l' a = home h l a" if "a \<in> Q" for a
    using l'(2) list_okD(4) [OF l'(3) that] by (simp_all add: later_def home_def bucket_of_def)
  have hd: "l_heads l' = l_heads l" using l'(2) by (simp add: later_def)
  have dQ: "d \<in> Q \<and> reach l' d" if "n = Some d" for d
    using that list_okD(7) [OF l'(3) cQ] reach_next [OF l'(5)] l'(6) c(2) by (simp add: links_sorted_def)
  show "visited H d \<and> links_sorted h l P c d" if "n = Some d"
    using dQ [OF that] l'(1,4) cQ list_okD(7) [OF ok] that c(2) by (auto simp: visited_def)
  show "absent H k" if k: "home h l c = bucket_of h l k" "nb l \<le> c \<longrightarrow> key_at l c < k"
      "case n of None \<Rightarrow> True | Some d \<Rightarrow> k < key_at l d"
  proof -
    have "lmap l' k = None"
      by (rule gap_absent [OF l'(3,5)]) (use k same cQ dQ hd l'(6) c(2) in \<open>auto simp: bucket_of_def split: option.splits\<close>)
    then show ?thesis using l'(1) by (auto simp: absent_def)
  qed
  show "absent H (key_at l c)" if "nb l \<le> c" "t \<noteq> 0"
    using tagged_absent [OF l'(3,5)] that hd same(1) [OF cQ] l'(1,6) c(2) by (auto simp: absent_def tagged_def)
  show "present H (key_at l c) (val_at l c)" if "nb l \<le> c" "t = 0"
  proof -
    have "live l' c" using that l'(5,6) hd c(2) by (simp add: live_def tagged_def)
    from lmap_live [OF l'(3) this] show ?thesis using same(1,2) [OF cQ] l'(1) by (auto simp: present_def)
  qed
qed

section \<open>Cursors\<close>

definition prev_ok :: "('k :: linorder \<Rightarrow> nat) \<Rightarrow> ('k, 'v) lists \<Rightarrow> nat set \<Rightarrow> 'k \<Rightarrow> nat \<Rightarrow> bool" where
  "prev_ok h l P k p \<longleftrightarrow> p \<in> P \<and> home h l p = bucket_of h l k \<and> (nb l \<le> p \<longrightarrow> key_at l p < k)"

definition cur_ok :: "('k :: linorder \<Rightarrow> nat) \<Rightarrow> ('k, 'v) lists \<Rightarrow> nat set \<Rightarrow> ('k, 'v) lists set \<Rightarrow> 'k \<Rightarrow> nat option \<Rightarrow> bool" where
  "cur_ok h l P H k cur \<longleftrightarrow> (case cur of
     None \<Rightarrow> absent H k
   | Some c \<Rightarrow> c \<in> P \<and> nb l \<le> c \<and> home h l c = bucket_of h l k \<and> visited H c \<and> (k < key_at l c \<longrightarrow> absent H k))"

text \<open>Following a link keeps the cursor in order, unless it leaves a node with the key that is not tagged.\<close>

lemma cur_next:
  assumes h: "hist_ok h l P H" and c: "visited H c" "home h l c = bucket_of h l k" "next_of l c = (n, t)"
    and k: "\<not> nb l \<le> c \<or> key_at l c < k \<or> absent H k \<or> key_at l c = k \<and> t \<noteq> 0"
  shows "cur_ok h l P H k n"
proof -
  note ld = load_next [OF h c(1,3)]
  have ab: "absent H k" if "case n of None \<Rightarrow> True | Some d \<Rightarrow> k < key_at l d"
  proof (cases "nb l \<le> c \<longrightarrow> key_at l c < k")
    case True
    then show ?thesis using ld(2) c(2) that by blast
  next
    case False
    then show ?thesis using k ld(3) by auto
  qed
  show ?thesis
  proof (cases n)
    case None
    then show ?thesis using ab by (simp add: cur_ok_def)
  next
    case (Some d)
    then show ?thesis using ld(1) [OF Some] ab c(2) by (auto simp: cur_ok_def links_sorted_def)
  qed
qed

lemma chain_extend:
  assumes "tagged_chain l p c" "c = Some a" "tagged l a" "fst (next_of l a) = n"
  shows "tagged_chain l p n"
  using assms
proof (induction rule: tagged_chain.induct)
  case (tc_refl c)
  then show ?case by (auto intro: tagged_chain.intros)
qed (auto intro: tagged_chain.intros)

section \<open>Threads\<close>

definition chain_ok :: "('k, 'v) lists \<Rightarrow> nat set \<Rightarrow> nat option \<Rightarrow> nat option \<Rightarrow> bool" where
  "chain_ok l P pn cur \<longleftrightarrow> tagged_chain l pn cur \<and> (\<forall>a. pn = Some a \<longrightarrow> a \<in> P)"

definition before :: "('k :: linorder, 'v) lists \<Rightarrow> nat set \<Rightarrow> 'k \<Rightarrow> nat option \<Rightarrow> bool" where
  "before l P k cur \<longleftrightarrow> (case cur of None \<Rightarrow> True | Some d \<Rightarrow> d \<in> P \<and> k < key_at l d)"

definition find_ok :: "('k :: linorder, 'v) lists \<Rightarrow> nat set \<Rightarrow> ('k, 'v) lists set \<Rightarrow> finder \<Rightarrow> 'k \<Rightarrow> bool \<Rightarrow> nat option \<Rightarrow> bool" where
  "find_ok l P H f k found cur \<longleftrightarrow>
     (if found then (\<exists>c. cur = Some c \<and> c \<in> P \<and> nb l \<le> c \<and> key_at l c = k \<and> present H k (val_at l c))
      else absent H k \<and> (f \<noteq> Herlihy_Shavit \<longrightarrow> before l P k cur))"

fun pc_call :: "('k, 'v) list_pc \<Rightarrow> (finder \<times> 'k list_call) option" where
  "pc_call (LHead f call) = Some (f, call)"
| "pc_call (LFirst f call prev) = Some (f, call)"
| "pc_call (LLoop f call prev pn c) = Some (f, call)"
| "pc_call (LClean call prev pn cur found) = Some (Harris, call)"
| "pc_call (LHelp call prev c nxt) = Some (Harris_Michael, call)"
| "pc_call (LStore f call prev cur) = Some (f, call)"
| "pc_call (LLink f call prev cur) = Some (f, call)"
| "pc_call (LMark f call prev c) = Some (f, call)"
| "pc_call _ = None"

text \<open>The call that a thread executes, and the node of an insertion.\<close>

fun call_ok :: "('k, 'v) lists \<Rightarrow> nat set \<Rightarrow> finder \<Rightarrow> 'k list_call \<Rightarrow> ('k, 'v) map_op \<Rightarrow> bool" where
  "call_ok l P f (CGet k) p \<longleftrightarrow> p = MGet k"
| "call_ok l P f (CInsert k n) p \<longleftrightarrow> f \<noteq> Herlihy_Shavit \<and> p = MInsert k (val_at l n) \<and>
     n \<notin> P \<and> n < nn l \<and> nb l \<le> n \<and> key_at l n = k \<and> \<not> tagged l n"
| "call_ok l P f (CRemove k) p \<longleftrightarrow> f \<noteq> Herlihy_Shavit \<and> p = MRemove k"

fun pc_ok :: "('k :: linorder \<Rightarrow> nat) \<Rightarrow> ('k, 'v) lists \<Rightarrow> nat set \<Rightarrow> ('k, 'v) lists set \<Rightarrow> ('k, 'v) list_pc \<Rightarrow> bool" where
  "pc_ok h l P H (LFirst f call prev) \<longleftrightarrow> prev = bucket_of h l (call_key call)"
| "pc_ok h l P H (LLoop f call prev pn c) \<longleftrightarrow> prev_ok h l P (call_key call) prev \<and> cur_ok h l P H (call_key call) (Some c) \<and>
     (f = Harris \<longrightarrow> chain_ok l P pn (Some c))"
| "pc_ok h l P H (LClean call prev pn cur found) \<longleftrightarrow> prev_ok h l P (call_key call) prev \<and>
     find_ok l P H Harris (call_key call) found cur \<and> chain_ok l P pn cur"
| "pc_ok h l P H (LHelp call prev c nxt) \<longleftrightarrow> prev_ok h l P (call_key call) prev \<and> c \<in> P \<and> tagged l c \<and> fst (next_of l c) = nxt \<and>
     cur_ok h l P H (call_key call) nxt"
| "pc_ok h l P H (LStore f call prev cur) \<longleftrightarrow> prev_ok h l P (call_key call) prev \<and> before l P (call_key call) cur \<and>
     (\<exists>k n. call = CInsert k n)"
| "pc_ok h l P H (LLink f call prev cur) \<longleftrightarrow> prev_ok h l P (call_key call) prev \<and> before l P (call_key call) cur \<and>
     (\<exists>k n. call = CInsert k n \<and> next_of l n = (cur, 0))"
| "pc_ok h l P H (LMark f call prev c) \<longleftrightarrow> prev_ok h l P (call_key call) prev \<and> c \<in> P \<and> nb l \<le> c \<and> key_at l c = call_key call \<and>
     call = CRemove (call_key call)"
| "pc_ok h l P H (LUnlink prev c nxt tag) \<longleftrightarrow> prev \<in> P \<and> c \<in> P \<and> tagged l c \<and> fst (next_of l c) = nxt \<and> tag = 0"
| "pc_ok h l P H _ \<longleftrightarrow> True"

definition seen :: "('k, 'v) map_op \<Rightarrow> ('k, 'v) lists set \<Rightarrow> 'v map_res set" where
  "seen p H = (\<Union>l \<in> H. reads map_app p (lmap l))"

text \<open>What the specification knows about a thread: \<open>H\<close> are the states since the start of its call.\<close>

fun status_ok :: "('k, 'v) lists \<Rightarrow> nat set \<Rightarrow> ('k, 'v) lists set \<Rightarrow> ('k, 'v) list_pc \<Rightarrow> (('k, 'v) map_op, 'v map_res) hind_status \<Rightarrow> bool" where
  "status_ok l P H LIdle hs \<longleftrightarrow> hs = HQuiet"
| "status_ok l P H (LFinish r) hs \<longleftrightarrow> hs = HReady r \<or> (\<exists>p S. hs = HSeen p S \<and> r \<in> S)"
| "status_ok l P H (LUnlink prev c nxt tag) hs \<longleftrightarrow> hs = HReady (MValue (Some (val_at l c)))"
| "status_ok l P H pc hs \<longleftrightarrow> (\<exists>p. hs = HSeen p (seen p H) \<and> (case pc_call pc of Some (f, call) \<Rightarrow> call_ok l P f call p | None \<Rightarrow> False))"

definition thread_rel :: "('k :: linorder \<Rightarrow> nat) \<Rightarrow> ('k, 'v) lists \<Rightarrow> nat set \<Rightarrow> ('k, 'v) lists set \<Rightarrow> ('k, 'v) list_pc \<Rightarrow>
    (('k, 'v) map_op, 'v map_res) hind_status \<Rightarrow> bool" where
  "thread_rel h l P H pc hs \<longleftrightarrow> (pc_call pc \<noteq> None \<longrightarrow> hist_ok h l P H) \<and> pc_ok h l P H pc \<and> status_ok l P H pc hs"

lemma thread_relI:
  assumes "hist_ok h l P H" "pc_call pc = Some (f, call)" "pc_ok h l P H pc" "call_ok l P f call p"
  shows "thread_rel h l P H pc (HSeen p (seen p H))"
  using assms by (cases pc) (auto simp: thread_rel_def)

lemma thread_relE:
  assumes "thread_rel h l P H pc hs" "pc_call pc = Some (f, call)"
  obtains p where "hist_ok h l P H" "pc_ok h l P H pc" "hs = HSeen p (seen p H)" "call_ok l P f call p"
  using assms by (cases pc) (auto simp: thread_rel_def)

section \<open>Steps that only read\<close>

lemma seen_answers:
  "present H k v \<Longrightarrow> MValue (Some v) \<in> seen (MGet k) H" "absent H k \<Longrightarrow> MValue None \<in> seen (MGet k) H"
  "present H k v \<Longrightarrow> MInserted False \<in> seen (MInsert k v') H" "absent H k \<Longrightarrow> MValue None \<in> seen (MRemove k) H"
  unfolding seen_def reads_def present_def absent_def UN_iff mem_Collect_eq by (force simp: fun_upd_idem)+

lemma found_rel:
  assumes h: "hist_ok h l P H" and c: "call_ok l P f call p" and prev: "prev_ok h l P (call_key call) prev"
    and r: "find_ok l P H f (call_key call) found cur"
  shows "thread_rel h l P H (found_pc l f call found prev cur) (HSeen p (seen p H))"
proof (cases call)
  case (CGet k)
  then show ?thesis using r c by (cases found) (auto simp: thread_rel_def find_ok_def seen_answers)
next
  case (CInsert k n)
  show ?thesis
  proof (cases found)
    case True
    then have "\<exists>v. present H k v" using r CInsert by (auto simp: find_ok_def)
    then show ?thesis using CInsert True c seen_answers(3) by (fastforce simp: thread_rel_def)
  next
    case False
    then have "pc_ok h l P H (LStore f call prev cur)" using r c CInsert prev by (simp add: find_ok_def)
    from thread_relI [OF h _ this c] show ?thesis using CInsert False by simp
  qed
next
  case (CRemove k)
  show ?thesis
  proof (cases found)
    case True
    then obtain d where d: "cur = Some d" "d \<in> P" "nb l \<le> d" "key_at l d = k" using r CRemove by (auto simp: find_ok_def)
    then have "pc_ok h l P H (LMark f call prev d)" using CRemove prev by simp
    from thread_relI [OF h _ this c] show ?thesis using CRemove True d by simp
  next
    case False
    then show ?thesis using CRemove r c by (auto simp: thread_rel_def find_ok_def seen_answers)
  qed
qed

lemma loop_end_rel:
  assumes h: "hist_ok h l P H" and c: "call_ok l P f call p" and prev: "prev_ok h l P (call_key call) prev"
    and r: "find_ok l P H f (call_key call) found cur" and ch: "f = Harris \<longrightarrow> chain_ok l P pn cur"
  shows "thread_rel h l P H (loop_end l f call found prev pn cur) (HSeen p (seen p H))"
proof (cases "f = Harris \<and> pn \<noteq> cur")
  case True
  then have "pc_ok h l P H (LClean call prev pn cur found)" using assms by simp
  from thread_relI [OF h _ this] show ?thesis using True c by (simp add: loop_end_def)
next
  case False
  then show ?thesis using found_rel [OF h c prev r] unfolding loop_end_def by (simp only: if_False)
qed

lemma loop_top_rel:
  assumes h: "hist_ok h l P H" and c: "call_ok l P f call p" and prev: "prev_ok h l P (call_key call) prev"
    and r: "cur_ok h l P H (call_key call) cur" and ch: "f = Harris \<longrightarrow> chain_ok l P pn cur"
  shows "thread_rel h l P H (loop_top l f call prev pn cur) (HSeen p (seen p H))"
proof (cases cur)
  case None
  then show ?thesis using loop_end_rel [OF h c prev _ ch, of False] r by (simp add: loop_top_def find_ok_def cur_ok_def before_def)
next
  case (Some d)
  then have "pc_ok h l P H (LLoop f call prev pn d)" using prev r ch by simp
  from thread_relI [OF h _ this c] show ?thesis using Some by (simp add: loop_top_def)
qed

lemma find_step_rel:
  assumes h: "hist_ok h l P H" and call: "call_ok l P f call p" and pc: "pc_ok h l P H (LLoop f call prev pn c)"
  shows "thread_rel h l P H (find_step l f call prev pn c) (HSeen p (seen p H))"
proof -
  let ?k = "call_key call"
  obtain n t where n: "next_of l c = (n, t)" by fastforce
  have prev: "prev_ok h l P ?k prev" and ch: "f = Harris \<longrightarrow> chain_ok l P pn (Some c)"
    and c: "c \<in> P" "nb l \<le> c" "home h l c = bucket_of h l ?k" "visited H c" "?k < key_at l c \<longrightarrow> absent H ?k"
    using pc by (simp_all add: cur_ok_def)
  have P: "d \<in> P" if "n = Some d" for d using load_next(1) [OF h c(4) n that] by (simp add: links_sorted_def)
  have nxt: "cur_ok h l P H ?k n" if "key_at l c \<noteq> ?k \<or> t \<noteq> 0"
    using cur_next [OF h c(4,3) n] c(5) that by fastforce
  have skip: "f = Harris \<longrightarrow> chain_ok l P pn n" if "t \<noteq> 0"
    using ch chain_extend [of l pn "Some c" c n] n that by (simp add: chain_ok_def tagged_def)
  have fwd: "thread_rel h l P H (loop_top l f call c n n) (HSeen p (seen p H))" if "key_at l c < ?k"
  proof (rule loop_top_rel [OF h call _ nxt])
    show "key_at l c \<noteq> ?k \<or> t \<noteq> 0" using that by auto
  qed (use that c P in \<open>auto simp: prev_ok_def chain_ok_def tc_refl\<close>)
  have stop: "thread_rel h l P H (loop_end l f call (key_at l c = ?k \<and> t = 0) prev pn (Some c)) (HSeen p (seen p H))"
    if "\<not> key_at l c < ?k" "f = Herlihy_Shavit \<or> t = 0"
  proof (rule loop_end_rel [OF h call prev _ ch])
    have "present H ?k (val_at l c)" if "key_at l c = ?k" "t = 0" using load_next(4) [OF h c(4) n c(2)] that by simp
    moreover have "absent H ?k" if "key_at l c = ?k" "t \<noteq> 0" using load_next(3) [OF h c(4) n c(2)] that by simp
    ultimately show "find_ok l P H f ?k (key_at l c = ?k \<and> t = 0) (Some c)"
      using that c by (auto simp: find_ok_def before_def)
  qed
  show ?thesis
  proof (cases f)
    case Harris
    then show ?thesis using fwd stop loop_top_rel [OF h call prev nxt skip] n by (auto simp: finder_defs Let_def)
  next
    case Harris_Michael
    have "thread_rel h l P H (LHelp call prev c n) (HSeen p (seen p H))" if "t \<noteq> 0"
      using that nxt prev c n call Harris_Michael by (intro thread_relI [OF h, of _ f call]) (auto simp: tagged_def)
    then show ?thesis using Harris_Michael fwd stop n by (auto simp: finder_defs Let_def)
  next
    case Herlihy_Shavit
    then show ?thesis using fwd stop n by (auto simp: finder_defs Let_def)
  qed
qed

section \<open>Steps of other threads\<close>

text \<open>The lists go from \<open>l\<close> to \<open>l'\<close> by a step that tags only reachable nodes.\<close>

definition moves :: "('k :: linorder \<Rightarrow> nat) \<Rightarrow> ('k, 'v) lists \<Rightarrow> nat set \<Rightarrow> ('k, 'v) lists \<Rightarrow> nat set \<Rightarrow> bool" where
  "moves h l P l' P' \<longleftrightarrow> list_ok h l P \<and> later l l' \<and> list_ok h l' P' \<and> P \<subseteq> P' \<and>
     (\<forall>x \<in> P. tagged l' x \<and> \<not> tagged l x \<longrightarrow> reach l' x)"

lemma moves_refl: "list_ok h l P \<Longrightarrow> moves h l P l P"
  by (simp add: moves_def)

lemma moves_same:
  assumes "moves h l P l' P'" "a \<in> P"
  shows "key_at l' a = key_at l a" "val_at l' a = val_at l a" "home h l' a = home h l a" "nb l' = nb l" "a \<in> P'"
    "tagged l a \<Longrightarrow> tagged l' a \<and> next_of l' a = next_of l a" "bucket_of h l' k = bucket_of h l k"
  using assms list_okD(4) [of h l P a] by (auto simp: moves_def later_def home_def bucket_of_def tagged_def)

lemma moves_hist: "moves h l P l' P' \<Longrightarrow> hist_ok h l P H \<Longrightarrow> hist_ok h l' P' (insert l' H)"
  using hist_step unfolding moves_def by blast

lemma moves_prev: "moves h l P l' P' \<Longrightarrow> prev_ok h l P k p \<Longrightarrow> prev_ok h l' P' k p"
  using moves_same [of h l P l' P' p] by (auto simp: prev_ok_def)

lemma hist_mono:
  "visited H x \<Longrightarrow> visited (insert l H) x" "absent H k \<Longrightarrow> absent (insert l H) k" "present H k v \<Longrightarrow> present (insert l H) k v"
  by (auto simp: visited_def absent_def present_def)

lemma moves_cur: "moves h l P l' P' \<Longrightarrow> cur_ok h l P H k cur \<Longrightarrow> cur_ok h l' P' (insert l' H) k cur"
  using moves_same [of h l P l' P'] by (auto simp: cur_ok_def hist_mono split: option.splits)

lemma moves_chain: "moves h l P l' P' \<Longrightarrow> chain_ok l P pn cur \<Longrightarrow> chain_ok l' P' pn cur"
  using chain_later unfolding chain_ok_def moves_def by blast

lemma moves_before: "moves h l P l' P' \<Longrightarrow> before l P k cur \<Longrightarrow> before l' P' k cur"
  using moves_same [of h l P l' P'] by (auto simp: before_def split: option.splits)

lemma moves_find:
  assumes m: "moves h l P l' P'" and f: "find_ok l P H f k found cur"
  shows "find_ok l' P' (insert l' H) f k found cur"
proof (cases found)
  case True
  then obtain c where "cur = Some c" "c \<in> P" "nb l \<le> c" "key_at l c = k" "present H k (val_at l c)" using f by (auto simp: find_ok_def)
  then show ?thesis using True moves_same [OF m] by (auto simp: find_ok_def hist_mono)
next
  case False
  then show ?thesis using f moves_before [OF m] by (auto simp: find_ok_def hist_mono)
qed

lemma moves_call:
  assumes m: "moves h l P l' P'" and c: "call_ok l P f call p"
    and own: "\<And>k n. call = CInsert k n \<Longrightarrow> n \<notin> P' \<and> next_of l' n = next_of l n"
  shows "call_ok l' P' f call p"
proof (cases call)
  case (CInsert k n)
  then have "n < nn l" "\<not> tagged l n" using c by simp_all
  moreover have "later l l'" using m by (simp add: moves_def)
  ultimately show ?thesis using CInsert c own [OF CInsert] by (auto simp: later_def tagged_def)
qed (use c in simp_all)

lemma moves_pc:
  assumes m: "moves h l P l' P'" and pc: "pc_ok h l P H pc"
    and own: "\<And>f k n. pc_call pc = Some (f, CInsert k n) \<Longrightarrow> next_of l' n = next_of l n"
  shows "pc_ok h l' P' (insert l' H) pc"
proof (cases pc)
  case (LLink f call prev cur)
  then obtain k n where "call = CInsert k n" "next_of l n = (cur, 0)" using pc by auto
  then show ?thesis using LLink pc own moves_prev [OF m] moves_before [OF m] by auto
next
  case (LFirst f call prev)
  then show ?thesis using pc m by (simp add: moves_def later_def bucket_of_def)
qed (use pc moves_prev [OF m] moves_cur [OF m] moves_chain [OF m] moves_find [OF m] moves_before [OF m] moves_same [OF m] in auto)

lemma seen_insert: "seen p (insert l H) = seen p H \<union> reads map_app p (lmap l)"
  by (auto simp: seen_def)

lemma seen_current: "l \<in> H \<Longrightarrow> lmap l' = lmap l \<Longrightarrow> seen p (insert l' H) = seen p H"
  by (auto simp: seen_def)

lemma moves_rel:
  assumes rel: "thread_rel h l P H pc hs" and m: "moves h l P l' P'"
    and own: "\<And>f k n. pc_call pc = Some (f, CInsert k n) \<Longrightarrow> n \<notin> P' \<and> next_of l' n = next_of l n"
    and hs': "hs' = notice map_app (lmap l') hs \<or> lmap l' = lmap l \<and> hs' = hs"
  shows "thread_rel h l' P' (insert l' H) pc hs'"
proof (cases "pc_call pc")
  case None
  then have pc: "pc_ok h l P H pc" and st: "status_ok l P H pc hs" using rel by (simp_all add: thread_rel_def)
  have "pc_ok h l' P' (insert l' H) pc" by (rule moves_pc [OF m pc]) (use None in simp)
  moreover have "status_ok l' P' (insert l' H) pc hs'"
  proof (cases pc)
    case (LUnlink prev c nxt tag)
    then show ?thesis using pc st hs' moves_same(2) [OF m, of c] by auto
  next
    case (LFinish r)
    then show ?thesis using st hs' by auto
  qed (use None st hs' in auto)
  ultimately show ?thesis using None by (simp add: thread_rel_def)
next
  case (Some fc)
  then obtain f call where fc: "pc_call pc = Some (f, call)" by (cases fc) auto
  obtain p where p: "hist_ok h l P H" "pc_ok h l P H pc" "hs = HSeen p (seen p H)" "call_ok l P f call p"
    using thread_relE [OF rel fc] by blast
  have "hs' = HSeen p (seen p (insert l' H))"
    using hs' p(3) seen_insert [of p l' H] seen_current [OF histD(2) [OF p(1)]] by auto
  then show ?thesis
    using thread_relI [OF moves_hist [OF m p(1)] fc moves_pc [OF m p(2)] moves_call [OF m p(4)]] own fc by blast
qed

section \<open>Writes as moves\<close>

lemma moves_set:
  assumes ok: "list_ok h l P" "list_ok h (set_next a q l) P'" and a: "a < nn l" "\<not> tagged l a" "P \<subseteq> P'" "a \<in> P \<longrightarrow> snd q = 0"
  shows "moves h l P (set_next a q l) P'"
  using assms later_set [OF a(1,2)] by (auto simp: moves_def)

lemma moves_unlink:
  assumes ok: "list_ok h l P" and p: "p \<in> P" "next_of l p = (pn, 0)" and c: "tagged_chain l pn c"
  shows "moves h l P (set_next p (c, 0) l) P" "lmap (set_next p (c, 0) l) = lmap l"
  using ok_unlink [OF assms] moves_set [OF ok ok_unlink(1) [OF assms]] list_okD(4) [OF ok p(1)] p(2)
  by (simp_all add: tagged_def)

lemma moves_link:
  assumes ok: "list_ok h l P" and p: "p \<in> P" "next_of l p = (c, 0)" and n: "n \<notin> P" "n < nn l" "nb l \<le> n" "next_of l n = (c, 0)"
    and key: "bucket_of h l (key_at l n) = home h l p" "nb l \<le> p \<longrightarrow> key_at l p < key_at l n"
      "case c of None \<Rightarrow> True | Some d \<Rightarrow> key_at l n < key_at l d"
  shows "moves h l P (set_next p (Some n, 0) l) (insert n P)"
  by (rule moves_set [OF ok ok_link(1) [OF assms]]) (use list_okD(4) [OF ok p(1)] p(2) in \<open>auto simp: tagged_def\<close>)

lemma moves_private:
  assumes ok: "list_ok h l P" and n: "n \<notin> P" "n < nn l" "\<not> tagged l n"
  shows "moves h l P (set_next n q l) P" "lmap (set_next n q l) = lmap l"
  using ok_private [OF ok n(1,2)] moves_set [OF ok _ n(2,3)] n(1) by auto

lemma moves_tag:
  assumes ok: "list_ok h l P" and a: "a \<in> P" "nb l \<le> a" "next_of l a = (c, 0)"
  shows "moves h l P (set_next a (c, 1) l) P"
proof -
  have n: "a < nn l" "\<not> tagged l a" using list_okD(4) [OF ok a(1)] a(3) by (simp_all add: tagged_def)
  have "edge (set_next a (c, 1) l) = edge l" using n a(3) by (auto simp: edge_def split: if_splits)
  then have "reach (set_next a (c, 1) l) a" using untagged_reach [OF ok a(1) n(2)] by (simp add: reach_def)
  then show ?thesis using ok ok_tag(1) [OF assms] later_set [OF n] n by (auto simp: moves_def)
qed

lemma moves_alloc:
  assumes ok: "list_ok h l P"
  shows "moves h l P (list_alloc k v l) P"
  using ok_alloc [OF ok, of k v] ok later_alloc [of l k v] list_okD(4) [OF ok]
  by (auto simp: moves_def tagged_def list_alloc_fields)

section \<open>The simulation\<close>

definition node_of :: "('k, 'v) list_pc \<Rightarrow> nat option" where
  "node_of pc = (case pc_call pc of Some (f, CInsert k n) \<Rightarrow> Some n | _ \<Rightarrow> None)"

lemma node_of_Some: "node_of pc = Some n \<longleftrightarrow> (\<exists>f k. pc_call pc = Some (f, CInsert k n))"
  by (auto simp: node_of_def split: option.splits list_call.splits)

definition list_rel :: "('k :: linorder \<Rightarrow> nat) \<Rightarrow> nat set \<Rightarrow> (nat \<Rightarrow> ('k, 'v) lists set) \<Rightarrow> ('k, 'v) list_sys_state \<Rightarrow>
    ('k \<rightharpoonup> 'v) \<times> (nat \<Rightarrow> (('k, 'v) map_op, 'v map_res) hind_status) \<Rightarrow> bool" where
  "list_rel h P Hf c a \<longleftrightarrow> fst a = lmap (fst c) \<and> list_ok h (fst c) P \<and> (\<forall>t. thread_rel h (fst c) P (Hf t) (snd c t) (snd a t)) \<and>
     (\<forall>t u n. node_of (snd c t) = Some n \<and> node_of (snd c u) = Some n \<longrightarrow> t = u)"

definition list_sim :: "('k :: linorder \<Rightarrow> nat) \<Rightarrow> ('k, 'v) list_sys_state \<Rightarrow>
    ('k \<rightharpoonup> 'v) \<times> (nat \<Rightarrow> (('k, 'v) map_op, 'v map_res) hind_status) \<Rightarrow> bool" where
  "list_sim h c a \<longleftrightarrow> (\<exists>P Hf. list_rel h P Hf c a)"

lemma list_relD:
  assumes "list_rel h P Hf (l, th) (m, st)"
  shows "m = lmap l" "list_ok h l P" "thread_rel h l P (Hf t) (th t) (st t)"
    "node_of (th t) = Some n \<Longrightarrow> node_of (th u) = Some n \<Longrightarrow> t = u"
  using assms by (auto simp: list_rel_def)

text \<open>The node of an insertion is not linked.\<close>

lemma node_private:
  assumes "thread_rel h l P H pc hs" "node_of pc = Some n"
  shows "n \<notin> P" "n < nn l" "\<not> tagged l n" "nb l \<le> n"
proof -
  obtain f k where fk: "pc_call pc = Some (f, CInsert k n)" using assms(2) by (auto simp: node_of_Some)
  obtain p where "call_ok l P f (CInsert k n) p" using thread_relE [OF assms(1) fk] by blast
  then show "n \<notin> P" "n < nn l" "\<not> tagged l n" "nb l \<le> n" by simp_all
qed

text \<open>One thread makes a step; the others see it as a move.\<close>

lemma list_rel_step:
  assumes rel: "list_rel h P Hf (l, th) (m, st)" and mv: "moves h l P l' P'"
    and own: "thread_rel h l' P' H' pc hs"
    and others: "\<And>u n. u \<noteq> t \<Longrightarrow> node_of (th u) = Some n \<Longrightarrow> n \<notin> P' \<and> next_of l' n = next_of l n"
    and node: "\<And>u n. u \<noteq> t \<Longrightarrow> node_of pc = Some n \<Longrightarrow> node_of (th u) \<noteq> Some n"
    and st': "st' = (\<lambda>u. notice map_app (lmap l') (st u))(t := hs) \<or> lmap l' = lmap l \<and> st' = st(t := hs)"
  shows "list_sim h (l', th(t := pc)) (lmap l', st')"
proof -
  let ?H = "\<lambda>u. if u = t then H' else insert l' (Hf u)"
  have "thread_rel h l' P' (?H u) ((th(t := pc)) u) (st' u)" for u
  proof (cases "u = t")
    case True
    then show ?thesis using own st' by auto
  next
    case False
    have "thread_rel h l' P' (insert l' (Hf u)) (th u) (st' u)"
    proof (rule moves_rel [OF list_relD(3) [OF rel] mv])
      show "n \<notin> P' \<and> next_of l' n = next_of l n" if "pc_call (th u) = Some (f, CInsert k n)" for f k n
        using others [OF False, of n] that by (simp add: node_of_Some)
      show "st' u = notice map_app (lmap l') (st u) \<or> lmap l' = lmap l \<and> st' u = st u" using st' False by auto
    qed
    then show ?thesis using False by simp
  qed
  moreover have "list_ok h l' P'" using mv by (simp add: moves_def)
  moreover have "v = u" if "node_of ((th(t := pc)) v) = Some n" "node_of ((th(t := pc)) u) = Some n" for u v n
  proof (cases "u = t"; cases "v = t")
    assume "u \<noteq> t" "v \<noteq> t"
    then show ?thesis using that list_relD(4) [OF rel, of v n u] by simp
  qed (use that node [of u n] node [of v n] in auto)
  ultimately have "list_rel h P' ?H (l', th(t := pc)) (lmap l', st')"
    unfolding list_rel_def fst_conv snd_conv by blast
  then show ?thesis unfolding list_sim_def by blast
qed

text \<open>A step goes on with the same call or ends it.\<close>

definition keeps :: "'k list_call \<Rightarrow> ('k, 'v) list_pc \<Rightarrow> bool" where
  "keeps call pc \<longleftrightarrow> (\<forall>f c. pc_call pc = Some (f, c) \<longrightarrow> c = call)"

lemma keeps_simps [simp]:
  "keeps call (LHead f call)" "keeps call (LFirst f call prev)" "keeps call (LHelp call prev c nxt)" "keeps call (LLink f call prev cur)"
  "keeps call (LFinish r)" "keeps call (LUnlink prev c nxt tag)"
  by (simp_all add: keeps_def)

lemma keeps_found [simp]: "keeps call (found_pc l f call found prev cur)"
  by (cases call) (auto simp: keeps_def)

lemma keeps_loop [simp]: "keeps call (loop_end l f call found prev pn cur)" "keeps call (loop_top l f call prev pn cur)"
proof -
  show e: "keeps call (loop_end l f call found prev pn cur)" for found cur using keeps_found by (simp add: loop_end_def) (simp add: keeps_def)
  show "keeps call (loop_top l f call prev pn cur)" using e by (cases cur) (simp_all add: loop_top_def, simp add: keeps_def)
qed

lemma keeps_find [simp]: "keeps call (find_step l f call prev pn c)"
  by (cases f) (simp_all add: finder_defs Let_def split: prod.split)

lemma keeps_node: "keeps call pc \<Longrightarrow> pc_call pc' = Some (f, call) \<Longrightarrow> node_of pc = Some n \<Longrightarrow> node_of pc' = Some n"
  by (auto simp: keeps_def node_of_Some)

text \<open>A step of thread \<open>t\<close> that the specification does not see.\<close>

lemma quiet_sim:
  assumes rel: "list_rel h P Hf (l, th) (m, st)" and call: "pc_call (th t) = Some (f, call)" and mv: "moves h l P l' P" "lmap l' = lmap l"
    and own: "thread_rel h l' P H' pc (st t)" "keeps call pc"
    and others: "\<And>u n. u \<noteq> t \<Longrightarrow> node_of (th u) = Some n \<Longrightarrow> next_of l' n = next_of l n"
  shows "\<exists>a'. exec (hind_sys map_app) (m, st) [] a' \<and> list_sim h (l', th(t := pc)) a'"
proof -
  have "list_sim h (l', th(t := pc)) (lmap l', st(t := st t))"
  proof (rule list_rel_step [OF rel mv(1) own(1)])
    show "n \<notin> P \<and> next_of l' n = next_of l n" if "u \<noteq> t" "node_of (th u) = Some n" for u n
      using node_private(1) [OF list_relD(3) [OF rel] that(2)] others that by blast
    show "node_of (th u) \<noteq> Some n" if "u \<noteq> t" "node_of pc = Some n" for u n
      using keeps_node [OF own(2) call that(2)] list_relD(4) [OF rel, of t n u] that(1) by blast
  qed (use mv(2) in simp)
  then show ?thesis using exec_refl [of "hind_sys map_app" "(m, st)"] list_relD(1) [OF rel] mv(2) by (intro exI [of _ "(m, st)"]) simp
qed

lemma read_sim:
  assumes rel: "list_rel h P Hf (l, th) (m, st)" and call: "pc_call (th t) = Some (f, call)"
    and own: "thread_rel h l P (Hf t) pc (st t)" "keeps call pc"
  shows "\<exists>a'. exec (hind_sys map_app) (m, st) [] a' \<and> list_sim h (l, th(t := pc)) a'"
  by (rule quiet_sim [OF rel call moves_refl [OF list_relD(2) [OF rel]] refl own]) simp

lemma find_sim:
  assumes rel: "list_rel h P Hf (l, th) (m, st)" and pc: "th t = LHead f call \<or> th t = LFirst f call prev \<or> th t = LLoop f call prev pn c"
    and step: "list_step h (th t) l = (l', pc)"
  shows "\<exists>a'. exec (hind_sys map_app) (m, st) [] a' \<and> list_sim h (l', th(t := pc)) a'"
proof -
  have call: "pc_call (th t) = Some (f, call)" using pc by auto
  obtain p where p: "hist_ok h l P (Hf t)" "pc_ok h l P (Hf t) (th t)" "st t = HSeen p (seen p (Hf t))" "call_ok l P f call p"
    using thread_relE [OF list_relD(3) [OF rel, of t] call] by blast
  note ok = list_relD(2) [OF rel]
  let ?k = "call_key call"
  have b: "bucket_of h l ?k < nb l" using list_okD(2) [OF ok] by (simp add: bucket_of_def)
  have "l' = l \<and> thread_rel h l P (Hf t) pc (st t) \<and> keeps call pc"
    using pc
  proof (elim disjE)
    assume t: "th t = LHead f call"
    have "l_heads l ! bucket_of h l ?k = bucket_of h l ?k" using list_okD(1) [OF ok] b by (metis add_0 nth_upt)
    then have "pc = LFirst f call (bucket_of h l ?k)" "l' = l" using step t by auto
    then show ?thesis using thread_relI [OF p(1) _ _ p(4), of pc] p(3) by simp
  next
    assume t: "th t = LFirst f call prev"
    then have prev: "prev = bucket_of h l ?k" using p(2) by simp
    have pr: "prev_ok h l P ?k prev" using list_okD(3) [OF ok] b by (simp add: prev_ok_def prev home_def)
    have r: "reach l prev" using b prev by (auto simp: reach_def)
    then have v: "visited (Hf t) prev" using histD(2) [OF p(1)] by (auto simp: visited_def)
    obtain n tg where n: "next_of l prev = (n, tg)" by fastforce
    have "cur_ok h l P (Hf t) ?k n" using cur_next [OF p(1) v _ n] pr b prev by (simp add: prev_ok_def)
    moreover have "a \<in> P" if "n = Some a" for a using list_okD(7) [OF ok reach_P [OF ok r]] n that by (simp add: links_sorted_def)
    then have "chain_ok l P n n" by (simp add: chain_ok_def tc_refl)
    ultimately show ?thesis using step t n loop_top_rel [OF p(1,4) pr, of n n] p(3) by (auto simp: Let_def)
  next
    assume t: "th t = LLoop f call prev pn c"
    then show ?thesis using step find_step_rel [OF p(1,4)] p(2,3) by auto
  qed
  then show ?thesis using read_sim [OF rel call] by blast
qed

section \<open>Steps that write\<close>

lemma retry_rel: "hist_ok h l P H \<Longrightarrow> call_ok l P f call p \<Longrightarrow> thread_rel h l P H (LHead f call) (HSeen p (seen p H))"
  by (rule thread_relI) simp_all

lemma linked_others:
  assumes "list_rel h P Hf (l, th) (m, st)" "a \<in> P" "node_of (th u) = Some n"
  shows "next_of (set_next a q l) n = next_of l n"
  using node_private(1) [OF list_relD(3) [OF assms(1)] assms(3)] list_okD(4) [OF list_relD(2) [OF assms(1)] assms(2)] assms(2) by auto

text \<open>Unlinking tagged nodes while a position is being searched.\<close>

lemma unlink_sim:
  assumes rel: "list_rel h P Hf (l, th) (m, st)" and call: "pc_call (th t) = Some (f, call)"
    and prev: "prev \<in> P" "next_of l prev = (pn, 0)" and ch: "tagged_chain l pn cur" and l': "l' = set_next prev (cur, 0) l"
    and own: "\<And>p. hist_ok h l' P (insert l' (Hf t)) \<Longrightarrow> moves h l P l' P \<Longrightarrow> call_ok l' P f call p \<Longrightarrow>
      thread_rel h l' P (insert l' (Hf t)) pc (HSeen p (seen p (insert l' (Hf t))))" "keeps call pc"
  shows "\<exists>a'. exec (hind_sys map_app) (m, st) [] a' \<and> list_sim h (l', th(t := pc)) a'"
proof -
  note ok = list_relD(2) [OF rel] note u = moves_unlink [OF ok prev ch, folded l']
  obtain p where p: "hist_ok h l P (Hf t)" "st t = HSeen p (seen p (Hf t))" "call_ok l P f call p"
    using thread_relE [OF list_relD(3) [OF rel, of t] call] by blast
  have "call_ok l' P f call p"
  proof (rule moves_call [OF u(1) p(3)])
    show "n \<notin> P \<and> next_of l' n = next_of l n" if "call = CInsert k n" for k n
    proof -
      have n: "node_of (th t) = Some n" using call that by (simp add: node_of_Some)
      show ?thesis using linked_others [OF rel prev(1) n] node_private(1) [OF list_relD(3) [OF rel] n] l' by simp
    qed
  qed
  then have "thread_rel h l' P (insert l' (Hf t)) pc (st t)"
    using own(1) [OF moves_hist [OF u(1) p(1)] u(1)] p(2) seen_current [OF histD(2) [OF p(1)] u(2)] by simp
  then show ?thesis by (rule quiet_sim [OF rel call u _ own(2)]) (use linked_others [OF rel prev(1)] l' in simp)
qed

lemma clean_sim:
  assumes rel: "list_rel h P Hf (l, th) (m, st)" and t: "th t = LClean call prev pn cur found" and step: "list_step h (th t) l = (l', pc)"
  shows "\<exists>a'. exec (hind_sys map_app) (m, st) [] a' \<and> list_sim h (l', th(t := pc)) a'"
proof -
  have call: "pc_call (th t) = Some (Harris, call)" using t by simp
  obtain p where p: "hist_ok h l P (Hf t)" "pc_ok h l P (Hf t) (th t)" "st t = HSeen p (seen p (Hf t))" "call_ok l P Harris call p"
    using thread_relE [OF list_relD(3) [OF rel, of t] call] by blast
  then have c: "prev_ok h l P (call_key call) prev" "find_ok l P (Hf t) Harris (call_key call) found cur" "chain_ok l P pn cur" using t by simp_all
  show ?thesis
  proof (cases "next_of l prev = (pn, 0)")
    case True
    then have s: "l' = set_next prev (cur, 0) l" "pc = found_pc l' Harris call found prev cur"
      using step t by (auto simp: cas_next_def)
    show ?thesis
    proof (rule unlink_sim [OF rel call _ True _ s(1)])
      show "prev \<in> P" "tagged_chain l pn cur" using c by (simp_all add: prev_ok_def chain_ok_def)
      show "thread_rel h l' P (insert l' (Hf t)) pc (HSeen q (seen q (insert l' (Hf t))))"
        if "hist_ok h l' P (insert l' (Hf t))" "moves h l P l' P" "call_ok l' P Harris call q" for q
        unfolding s(2) by (rule found_rel [OF that(1,3) moves_prev [OF that(2) c(1)] moves_find [OF that(2) c(2)]])
    qed (simp add: s(2))
  next
    case False
    then have "l' = l" "pc = LHead Harris call" using step t by (auto simp: cas_next_def)
    then show ?thesis using read_sim [OF rel call] retry_rel [OF p(1,4)] p(3) by simp
  qed
qed

lemma help_sim:
  assumes rel: "list_rel h P Hf (l, th) (m, st)" and t: "th t = LHelp call prev c nxt" and step: "list_step h (th t) l = (l', pc)"
  shows "\<exists>a'. exec (hind_sys map_app) (m, st) [] a' \<and> list_sim h (l', th(t := pc)) a'"
proof -
  have call: "pc_call (th t) = Some (Harris_Michael, call)" using t by simp
  obtain p where p: "hist_ok h l P (Hf t)" "pc_ok h l P (Hf t) (th t)" "st t = HSeen p (seen p (Hf t))" "call_ok l P Harris_Michael call p"
    using thread_relE [OF list_relD(3) [OF rel, of t] call] by blast
  then have c: "prev_ok h l P (call_key call) prev" "c \<in> P" "tagged l c" "fst (next_of l c) = nxt" "cur_ok h l P (Hf t) (call_key call) nxt"
    using t by simp_all
  show ?thesis
  proof (cases "next_of l prev = (Some c, 0)")
    case True
    then have s: "l' = set_next prev (nxt, 0) l" "pc = loop_top l' Harris_Michael call prev nxt nxt"
      using step t by (auto simp: cas_next_def)
    show ?thesis
    proof (rule unlink_sim [OF rel call _ True _ s(1)])
      show "tagged_chain l (Some c) nxt" using c(3,4) by (auto intro: tagged_chain.intros)
      show "prev \<in> P" using c(1) by (simp add: prev_ok_def)
      show "thread_rel h l' P (insert l' (Hf t)) pc (HSeen q (seen q (insert l' (Hf t))))"
        if "hist_ok h l' P (insert l' (Hf t))" "moves h l P l' P" "call_ok l' P Harris_Michael call q" for q
        unfolding s(2) by (rule loop_top_rel [OF that(1,3) moves_prev [OF that(2) c(1)] moves_cur [OF that(2) c(5)]]) simp
    qed (simp add: s(2))
  next
    case False
    then have "l' = l" "pc = LHead Harris_Michael call" using step t by (auto simp: cas_next_def)
    then show ?thesis using read_sim [OF rel call] retry_rel [OF p(1,4)] p(3) by simp
  qed
qed

lemma store_sim:
  assumes rel: "list_rel h P Hf (l, th) (m, st)" and t: "th t = LStore f call prev cur" and step: "list_step h (th t) l = (l', pc)"
  shows "\<exists>a'. exec (hind_sys map_app) (m, st) [] a' \<and> list_sim h (l', th(t := pc)) a'"
proof -
  have call: "pc_call (th t) = Some (f, call)" using t by simp
  obtain p where p: "hist_ok h l P (Hf t)" "pc_ok h l P (Hf t) (th t)" "st t = HSeen p (seen p (Hf t))" "call_ok l P f call p"
    using thread_relE [OF list_relD(3) [OF rel, of t] call] by blast
  then obtain k n where c: "prev_ok h l P k prev" "before l P k cur" "call = CInsert k n" using t by auto
  then have n: "n \<notin> P" "n < nn l" "\<not> tagged l n" using p(4) by simp_all
  have s: "l' = set_next n (cur, 0) l" "pc = LLink f call prev cur" using step t c(3) by auto
  note mv = moves_private [OF list_relD(2) [OF rel] n, of "(cur, 0)", folded s(1)]
  have "call_ok l' P f call p" using p(4) c(3) n(2) by (simp add: s(1))
  moreover have "pc_ok h l' P (insert l' (Hf t)) pc"
    using s c n(2) moves_prev [OF mv(1)] moves_before [OF mv(1)] by simp
  ultimately have "thread_rel h l' P (insert l' (Hf t)) pc (st t)"
    using thread_relI [OF moves_hist [OF mv(1) p(1)]] s(2) p(3) seen_current [OF histD(2) [OF p(1)] mv(2)] by simp
  then show ?thesis
  proof (rule quiet_sim [OF rel call mv])
    show "next_of l' x = next_of l x" if "u \<noteq> t" "node_of (th u) = Some x" for u x
      using list_relD(4) [OF rel, of u x t] that call c(3) n(2) by (auto simp: s(1) node_of_Some)
  qed (simp add: s(2))
qed

text \<open>The two steps that change the contents.\<close>

lemma update_sim:
  assumes rel: "list_rel h P Hf (l, th) (m, st)" and t: "st t = HSeen p R" "map_app p m = (lmap l', r)"
    and mv: "moves h l P l' P'" and own: "thread_rel h l' P' H pc (HReady r)" "node_of pc = None"
    and others: "\<And>u n. u \<noteq> t \<Longrightarrow> node_of (th u) = Some n \<Longrightarrow> n \<notin> P' \<and> next_of l' n = next_of l n"
  shows "\<exists>a'. exec (hind_sys map_app) (m, st) [] a' \<and> list_sim h (l', th(t := pc)) a'"
proof -
  let ?st = "(\<lambda>u. notice map_app (lmap l') (st u))(t := HReady r)"
  have "list_sim h (l', th(t := pc)) (lmap l', ?st)"
    by (rule list_rel_step [OF rel mv own(1)]) (use others own(2) in auto)
  moreover have "exec (hind_sys map_app) (m, st) [] (lmap l', ?st)"
    using exec_step [where step = "hind_sys map_app", OF h_act [where st = st and app = map_app, OF t]] by simp
  ultimately show ?thesis by blast
qed

lemma link_sim:
  assumes rel: "list_rel h P Hf (l, th) (m, st)" and t: "th t = LLink f call prev cur" and step: "list_step h (th t) l = (l', pc)"
  shows "\<exists>a'. exec (hind_sys map_app) (m, st) [] a' \<and> list_sim h (l', th(t := pc)) a'"
proof -
  note ok = list_relD(2) [OF rel]
  have call: "pc_call (th t) = Some (f, call)" using t by simp
  obtain p where p: "hist_ok h l P (Hf t)" "pc_ok h l P (Hf t) (th t)" "st t = HSeen p (seen p (Hf t))" "call_ok l P f call p"
    using thread_relE [OF list_relD(3) [OF rel, of t] call] by blast
  then obtain k n where c: "prev_ok h l P k prev" "before l P k cur" "call = CInsert k n" "next_of l n = (cur, 0)" using t by auto
  then have n: "n \<notin> P" "n < nn l" "nb l \<le> n" "key_at l n = k" "p = MInsert k (val_at l n)" using p(4) by simp_all
  have nt: "node_of (th t) = Some n" using call c(3) by (simp add: node_of_Some)
  show ?thesis
  proof (cases "next_of l prev = (cur, 0)")
    case True
    then have s: "l' = set_next prev (Some n, 0) l" "pc = LFinish (MInserted True)" using step t c(3) by (auto simp: cas_next_def)
    have key: "bucket_of h l (key_at l n) = home h l prev" "nb l \<le> prev \<longrightarrow> key_at l prev < key_at l n"
      "case cur of None \<Rightarrow> True | Some d \<Rightarrow> key_at l n < key_at l d"
      using c(1,2) n(4) by (auto simp: prev_ok_def before_def split: option.splits)
    have prev: "prev \<in> P" using c(1) by (simp add: prev_ok_def)
    note lk = ok_link [OF ok prev True n(1-3) c(4) key, folded s(1)] moves_link [OF ok prev True n(1-3) c(4) key, folded s(1)]
    have "map_app p m = (lmap l', MInserted True)" using lk(2,3) n(4,5) list_relD(1) [OF rel] by simp
    then show ?thesis
    proof (rule update_sim [where t = t, OF rel p(3) _ lk(4)])
      show "x \<notin> insert n P \<and> next_of l' x = next_of l x" if "u \<noteq> t" "node_of (th u) = Some x" for u x
        using linked_others [OF rel prev that(2)] node_private(1) [OF list_relD(3) [OF rel] that(2)]
          list_relD(4) [OF rel, of u x t] that nt s(1) by auto
    qed (simp_all add: s(2) thread_rel_def node_of_def)
  next
    case False
    then have "l' = l" "pc = LHead f call" using step t c(3) by (auto simp: cas_next_def)
    then show ?thesis using read_sim [OF rel call] retry_rel [OF p(1,4)] p(3) by simp
  qed
qed

lemma set_next_same: "set_next a (next_of l a) l = l"
  by (simp add: set_next_def next_of_def)

lemma mark_sim:
  assumes rel: "list_rel h P Hf (l, th) (m, st)" and t: "th t = LMark f call prev c" and step: "list_step h (th t) l = (l', pc)"
  shows "\<exists>a'. exec (hind_sys map_app) (m, st) [] a' \<and> list_sim h (l', th(t := pc)) a'"
proof -
  note ok = list_relD(2) [OF rel]
  have call: "pc_call (th t) = Some (f, call)" using t by simp
  obtain p where p: "hist_ok h l P (Hf t)" "pc_ok h l P (Hf t) (th t)" "st t = HSeen p (seen p (Hf t))" "call_ok l P f call p"
    using thread_relE [OF list_relD(3) [OF rel, of t] call] by blast
  then obtain k where c: "prev_ok h l P k prev" "c \<in> P" "nb l \<le> c" "key_at l c = k" "call = CRemove k" using t by fastforce
  then have pk: "p = MRemove k" using p(4) by simp
  obtain nxt tag where n: "next_of l c = (nxt, tag)" by fastforce
  have "tag = 0 \<or> tag = 1" using list_okD(5) [OF ok c(2)] n by simp
  then show ?thesis
  proof
    assume tag: "tag = 1"
    then have "l' = l" "pc = LHead f call" using step t n set_next_same [of c l] by auto
    then show ?thesis using read_sim [OF rel call] retry_rel [OF p(1,4)] p(3) by simp
  next
    assume tag: "tag = 0"
    then have s: "l' = set_next c (nxt, 1) l" "pc = LUnlink prev c nxt 0" using step t n by auto
    have n0: "next_of l c = (nxt, 0)" using n tag by simp
    note tg = ok_tag [OF ok c(2,3) n0, folded s(1)] moves_tag [OF ok c(2,3) n0, folded s(1)]
    have "map_app p m = (lmap l', MValue (Some (val_at l c)))" using tg(2,3) c(4) pk list_relD(1) [OF rel] by simp
    then show ?thesis
    proof (rule update_sim [where t = t, OF rel p(3) _ tg(4)])
      show "x \<notin> P \<and> next_of l' x = next_of l x" if "u \<noteq> t" "node_of (th u) = Some x" for u x
        using linked_others [OF rel c(2) that(2)] node_private(1) [OF list_relD(3) [OF rel] that(2)] s(1) by simp
    qed (use c(1,2) list_okD(4) [OF ok c(2)] in \<open>simp_all add: s thread_rel_def node_of_def prev_ok_def\<close>)
  qed
qed

lemma last_sim:
  assumes rel: "list_rel h P Hf (l, th) (m, st)" and t: "th t = LUnlink prev c nxt tag" and step: "list_step h (th t) l = (l', pc)"
  shows "\<exists>a'. exec (hind_sys map_app) (m, st) [] a' \<and> list_sim h (l', th(t := pc)) a'"
proof -
  note ok = list_relD(2) [OF rel]
  have c: "prev \<in> P" "c \<in> P" "tagged l c" "fst (next_of l c) = nxt" "tag = 0" "st t = HReady (MValue (Some (val_at l c)))"
    using list_relD(3) [OF rel, of t] t by (simp_all add: thread_rel_def)
  have pc: "pc = LFinish (MValue (Some (val_at l c)))" and l': "l' = (if next_of l prev = (Some c, 0) then set_next prev (nxt, 0) l else l)"
    using step t c(5) by (auto simp: cas_next_def)
  have "tagged_chain l (Some c) nxt" using c(3,4) by (auto intro: tagged_chain.intros)
  then have mv: "moves h l P l' P \<and> lmap l' = lmap l"
    using moves_unlink [OF ok c(1), of "Some c" nxt] moves_refl [OF ok] by (simp add: l')
  have "list_sim h (l', th(t := pc)) (lmap l', st(t := st t))"
  proof (rule list_rel_step [OF rel conjunct1 [OF mv]])
    show "thread_rel h l' P (Hf t) pc (st t)" by (simp add: pc c(6) thread_rel_def)
    show "x \<notin> P \<and> next_of l' x = next_of l x" if "u \<noteq> t" "node_of (th u) = Some x" for u x
      using linked_others [OF rel c(1) that(2)] node_private(1) [OF list_relD(3) [OF rel] that(2)] by (simp add: l')
  qed (use mv in \<open>simp_all add: pc node_of_def\<close>)
  then show ?thesis using exec_refl [of "hind_sys map_app" "(m, st)"] list_relD(1) [OF rel] mv by (intro exI [of _ "(m, st)"]) simp
qed

section \<open>Calls and returns\<close>

lemma call_sim:
  assumes rel: "list_rel h P Hf (l, th) (m, st)" and t: "th t = LIdle" and start: "list_start kind p l = (l', pc)"
  shows "\<exists>a'. exec (hind_sys map_app) (m, st) [Inv t p] a' \<and> list_sim h (l', th(t := pc)) a'"
proof -
  note ok = list_relD(2) [OF rel]
  have q: "st t = HQuiet" using list_relD(3) [OF rel, of t] t by (simp add: thread_rel_def)
  have mv: "moves h l P l' P" "lmap l' = lmap l"
    using start moves_refl [OF ok] moves_alloc [OF ok] ok_alloc [OF ok] by (cases p; auto)+
  have ok': "list_ok h l' P" using mv(1) by (simp add: moves_def)
  have nnP: "nn l \<notin> P" "nb l \<le> nn l" using list_okD(3,4) [OF ok, of "nn l"] by (blast, force simp: not_le)
  obtain call where call: "pc = LHead (finder_of kind p) call" "call_ok l' P (finder_of kind p) call p"
  proof (cases p)
    case (MInsert k v)
    then show ?thesis using that [of "CInsert k (nn l)"] start nnP by (cases kind) (auto simp: list_alloc_fields tagged_def)
  next
    case (MGet k)
    then show ?thesis using that [of "CGet k"] start by auto
  next
    case (MRemove k)
    then show ?thesis using that [of "CRemove k"] start by (cases kind) auto
  qed
  have own: "thread_rel h l' P {l'} pc (HSeen p (reads map_app p m))"
    using retry_rel [OF hist_start [OF ok'] call(2)] call(1) list_relD(1) [OF rel] mv(2) by (simp add: seen_def)
  have n: "node_of pc = Some n \<Longrightarrow> n = nn l" for n using start by (cases p) (auto simp: node_of_def)
  have "list_sim h (l', th(t := pc)) (lmap l', st(t := HSeen p (reads map_app p m)))"
  proof (rule list_rel_step [OF rel mv(1) own])
    fix u x assume u: "u \<noteq> t" "node_of (th u) = Some x"
    note x = node_private [OF list_relD(3) [OF rel] u(2)]
    show "x \<notin> P \<and> next_of l' x = next_of l x" using x start by (cases p) (auto simp: list_alloc_fields)
  next
    show "node_of (th u) \<noteq> Some x" if "u \<noteq> t" "node_of pc = Some x" for u x
      using node_private(2) [OF list_relD(3) [OF rel, of u], of x] n [OF that(2)] by blast
  qed (use mv(2) in simp)
  moreover have "exec (hind_sys map_app) (m, st) [Inv t p] (m, st(t := HSeen p (reads map_app p m)))"
    using exec_step [where step = "hind_sys map_app", OF h_call [of st t, OF q]] by fastforce
  ultimately show ?thesis using list_relD(1) [OF rel] mv(2) by auto
qed

lemma return_sim:
  assumes rel: "list_rel h P Hf (l, th) (m, st)" and t: "th t = LFinish r"
  shows "\<exists>a'. exec (hind_sys map_app) (m, st) [Res t r] a' \<and> list_sim h (l, th(t := LIdle)) a'"
proof -
  note ok = list_relD(2) [OF rel]
  have "st t = HReady r \<or> (\<exists>p S. st t = HSeen p S \<and> r \<in> S)" using list_relD(3) [OF rel, of t] t by (simp add: thread_rel_def)
  then have "exec (hind_sys map_app) (m, st) [Res t r] (m, st(t := HQuiet))"
    using exec_step [where step = "hind_sys map_app", OF h_return [of st t r]] by fastforce
  moreover have "list_sim h (l, th(t := LIdle)) (lmap l, st(t := HQuiet))"
    by (rule list_rel_step [OF rel moves_refl [OF ok]])
      (use node_private(1) [OF list_relD(3) [OF rel]] in \<open>auto simp: thread_rel_def node_of_def\<close>)
  ultimately show ?thesis using list_relD(1) [OF rel] by auto
qed

lemma list_steps_sim:
  assumes rel: "list_rel h P Hf (l, th) (m, st)" and s: "list_sys kind h (l, th) e c'"
  shows "\<exists>a'. exec (hind_sys map_app) (m, st) (case e of None \<Rightarrow> [] | Some x \<Rightarrow> [x]) a' \<and> list_sim h c' a'"
  using s
proof (cases rule: list_sys.cases)
  case (l_call t p l' pc)
  then show ?thesis using call_sim [OF rel] by simp
next
  case (l_work t l' pc)
  note find = find_sim [OF rel _ l_work(4)] note step = clean_sim help_sim store_sim link_sim mark_sim last_sim
  have "\<exists>a'. exec (hind_sys map_app) (m, st) [] a' \<and> list_sim h (l', th(t := pc)) a'"
    using l_work(3)
  proof (cases "th t")
    case (LHead f call)
    then show ?thesis using find by blast
  next
    case (LFirst f call prev)
    then show ?thesis using find by blast
  next
    case (LLoop f call prev pn c)
    then show ?thesis using find by blast
  qed (use step [OF rel _ l_work(4)] in auto)
  then show ?thesis using l_work by simp
next
  case (l_return t r)
  then show ?thesis using return_sim [OF rel] by simp
qed

lemma list_sim_initial: "list_sim h (lists_new (Suc n) dk dv, \<lambda>_. LIdle) (Map.empty, \<lambda>_. HQuiet)"
proof -
  let ?l = "lists_new (Suc n) dk dv"
  have next0: "next_of ?l a = (None, 0)" if "a < Suc n" for a using that by (simp add: lists_new_def node_head_def next_of_def del: replicate_Suc)
  have len: "nb ?l = Suc n" "nn ?l = Suc n" by (simp_all add: lists_new_def)
  have ok: "list_ok h ?l {..<Suc n}"
    unfolding list_ok_def using next0 len by (auto simp: tagged_def home_def) (simp add: lists_new_def)
  then have "lmap ?l = Map.empty" using len by (intro lmap_eqI [OF ok]) (auto simp: live_iff [OF ok])
  then have "list_rel h {..<Suc n} (\<lambda>_. {}) (?l, \<lambda>_. LIdle) (Map.empty, \<lambda>_. HQuiet)"
    using ok by (simp add: list_rel_def thread_rel_def node_of_def)
  then show ?thesis unfolding list_sim_def by blast
qed

interpretation hl: forward_simulation "(lists_new (Suc n) dk dv, \<lambda>_. LIdle)" "list_sys kind h" "(Map.empty, \<lambda>_. HQuiet)"
  "hind_sys map_app" "list_sim h" for n :: nat and dk :: "'k :: linorder" and dv :: 'v and kind :: list_kind and h :: "'k \<Rightarrow> nat"
proof unfold_locales
  show "list_sim h (lists_new (Suc n) dk dv, \<lambda>_. LIdle) (Map.empty, \<lambda>_. HQuiet)" by (rule list_sim_initial)
  show "\<exists>a'. exec (hind_sys map_app) a (case e of None \<Rightarrow> [] | Some x \<Rightarrow> [x]) a' \<and> list_sim h c' a'"
    if "list_sim h c a" "list_sys kind h c e c'" for c c' :: "('k, 'v) list_sys_state" and a e
    using that list_steps_sim [of h _ _ "fst c" "snd c" "fst a" "snd a" kind e c'] by (auto simp: list_sim_def)
qed

section \<open>Schedules\<close>

fun list_run :: "list_kind \<Rightarrow> ('k :: linorder \<Rightarrow> nat) \<Rightarrow> ('k, 'v) map_choice list \<Rightarrow> ('k, 'v) list_sys_state \<Rightarrow>
    ((('k, 'v) map_op, 'v map_res) op_event list \<times> ('k, 'v) list_sys_state) option" where
  "list_run kind h [] s = Some ([], s)"
| "list_run kind h (Begin t p # cs) (l, th) =
     (case th t of
        LIdle \<Rightarrow> (let (l', pc) = list_start kind p l in
          map_option (\<lambda>(tr, s). (Inv t p # tr, s)) (list_run kind h cs (l', th(t := pc))))
      | _ \<Rightarrow> None)"
| "list_run kind h (Run t # cs) (l, th) =
     (if working (th t) then (let (l', pc) = list_step h (th t) l in list_run kind h cs (l', th(t := pc))) else None)"
| "list_run kind h (End t # cs) (l, th) =
     (case th t of
        LFinish r \<Rightarrow> map_option (\<lambda>(tr, s). (Res t r # tr, s)) (list_run kind h cs (l, th(t := LIdle)))
      | _ \<Rightarrow> None)"

lemma list_run_exec: "list_run kind h cs s = Some (tr, s') \<Longrightarrow> exec (list_sys kind h) s tr s'"
proof (induction kind h cs s arbitrary: tr rule: list_run.induct)
  case (1 kind h s)
  then show ?case by (simp add: exec_refl)
next
  case (2 kind h t p cs l th)
  then obtain l' pc tr' where r: "th t = LIdle" "list_start kind p l = (l', pc)" "list_run kind h cs (l', th(t := pc)) = Some (tr', s')"
    "tr = Inv t p # tr'" by (auto simp: Let_def split: list_pc.splits prod.splits)
  have "exec (list_sys kind h) (l', th(t := pc)) tr' s'" using 2(1) r by metis
  from exec_first [where step = "list_sys kind h", OF l_call [where th = th, OF r(1,2)] this] show ?case using r(4) by simp
next
  case (3 kind h t cs l th)
  then obtain l' pc where r: "working (th t)" "list_step h (th t) l = (l', pc)" "list_run kind h cs (l', th(t := pc)) = Some (tr, s')"
    by (auto simp: Let_def split: if_splits prod.splits)
  have "exec (list_sys kind h) (l', th(t := pc)) tr s'" using 3(1) r by metis
  from exec_first [where step = "list_sys kind h", OF l_work [where th = th, OF r(1,2)] this] show ?case by simp
next
  case (4 kind h t cs l th)
  then obtain r tr' where r: "th t = LFinish r" "list_run kind h cs (l, th(t := LIdle)) = Some (tr', s')" "tr = Res t r # tr'"
    by (auto split: list_pc.splits)
  have "exec (list_sys kind h) (l, th(t := LIdle)) tr' s'" using 4(1) r by metis
  from exec_first [where step = "list_sys kind h", OF l_return [where th = th, OF r(1)] this] show ?case using r(3) by simp
qed

section \<open>Linearizability\<close>

text \<open>
  C4: the lists of \<^verbatim>\<open>examples/ds/lists.rs\<close>, with any of their three ways to find a position, and the hash map of such lists are
  linearizable: whatever the interleaving of the accesses of any number of threads, the calls and returns are those of a map whose
  operations take place in one step each.
\<close>

theorem lists_linearizable:
  assumes "0 < n" "exec (list_sys kind hash) (lists_new n dk dv, \<lambda>_. LIdle) tr s"
  shows "\<exists>a. exec (atomic_sys map_app) (Map.empty, \<lambda>_. Quiet) tr a"
proof -
  obtain j where "n = Suc j" using assms(1) by (cases n) auto
  with assms(2) have "exec (list_sys kind hash) (lists_new (Suc j) dk dv, \<lambda>_. LIdle) tr s" by simp
  from hl.trace_inclusion [OF this] obtain a where "exec (hind_sys map_app) (Map.empty, \<lambda>_. HQuiet) tr a" ..
  then show ?thesis by (rule hind.histories)
qed

text \<open>
  A lookup walks past a node that another thread tags meanwhile: it misses the key although it has started when the key was present.
\<close>

theorem lists_linearizable_witness:
  "\<exists>a. exec (atomic_sys map_app) (Map.empty, \<lambda>_. Quiet)
     [Inv 0 (MInsert (5 :: nat) (50 :: nat)), Res 0 (MInserted True), Inv 1 (MGet 5), Inv 2 (MRemove 5), Res 1 (MValue None),
      Res 2 (MValue (Some 50))] a"
proof -
  let ?cs = "[Begin 0 (MInsert 5 50), Run 0, Run 0, Run 0, Run 0, End 0, Begin 1 (MGet 5), Run 1, Run 1, Begin 2 (MRemove 5),
    Run 2, Run 2, Run 2, Run 2, Run 1, End 1, Run 2, End 2] :: (nat, nat) map_choice list"
  let ?tr = "[Inv 0 (MInsert 5 50), Res 0 (MInserted True), Inv 1 (MGet 5), Inv 2 (MRemove 5), Res 1 (MValue None),
    Res 2 (MValue (Some 50))]"
  have "map_option fst (list_run HHSList (\<lambda>k. k) ?cs (lists_new 2 0 0, \<lambda>_. LIdle)) = Some ?tr" by code_simp
  then obtain s where "list_run HHSList (\<lambda>k. k) ?cs (lists_new 2 0 0, \<lambda>_. LIdle) = Some (?tr, s)" by auto
  from lists_linearizable [OF _ list_run_exec [OF this]] show ?thesis by simp
qed

end
