(* ===== verification/Treiber_Stack.thy ===== *)
theory Treiber_Stack
  imports Cdpt_Prelude Hindsight
begin

text \<open>
  The lock-free stack of \<^verbatim>\<open>examples/stack.rs\<close>, at the granularity of single accesses to shared memory, and its linearizability. As in
  \<open>Harris_List\<close>, nodes are managed objects: the collector does not reclaim a node that a thread refers to under its guard, so a node is its
  position in the list of all nodes, which only grows, and the compare-exchange of the top cannot be fooled by a reused address.
\<close>

section \<open>State\<close>

record 'a snode =
  s_item :: 'a
  s_next :: "nat option"

record 'a stack =
  s_top :: "nat option"
  s_nodes :: "'a snode list"

datatype 'a stack_op = SPush 'a | SPop | SEmpty

datatype 'a stack_res = SPushed | SPopped "'a option" | SIsEmpty bool

text \<open>Where a thread stands; the constructors follow the accesses to shared memory in program order.\<close>

datatype 'a stack_pc =
    SIdle
  | SPopLoad                     \<comment> \<open>\<^verbatim>\<open>pop\<close>: load the top\<close>
  | SPopNext nat                 \<comment> \<open>load \<^verbatim>\<open>old.next\<close>\<close>
  | SPopCas nat "nat option"     \<comment> \<open>move the top to the next node\<close>
  | SPushLoad nat                \<comment> \<open>\<^verbatim>\<open>push\<close>: load the top\<close>
  | SPushStore nat "nat option"  \<comment> \<open>store \<^verbatim>\<open>new.next\<close>\<close>
  | SPushCas nat "nat option"    \<comment> \<open>move the top to the new node\<close>
  | SEmptyLoad                   \<comment> \<open>\<^verbatim>\<open>is_empty\<close>: load the top\<close>
  | SFinish "'a stack_res"

section \<open>Operations\<close>

definition stack_new :: "'a stack" where
  "stack_new = \<lparr>s_top = None, s_nodes = []\<rparr>"

text \<open>One access of a thread inside \<^verbatim>\<open>pop\<close>.\<close>

fun stack_pop_step :: "'a stack_pc \<Rightarrow> 'a stack \<Rightarrow> 'a stack \<times> 'a stack_pc" where
  "stack_pop_step SPopLoad s = (s, case s_top s of None \<Rightarrow> SFinish (SPopped None) | Some old \<Rightarrow> SPopNext old)"
| "stack_pop_step (SPopNext old) s = (s, SPopCas old (s_next (s_nodes s ! old)))"
| "stack_pop_step (SPopCas old new) s =
     (if s_top s = Some old then (s\<lparr>s_top := new\<rparr>, SFinish (SPopped (Some (s_item (s_nodes s ! old))))) else (s, SPopLoad))"
| "stack_pop_step pc s = (s, pc)"

text \<open>One access of a thread inside \<^verbatim>\<open>push\<close>, after the allocation of its node.\<close>

fun stack_push_step :: "'a stack_pc \<Rightarrow> 'a stack \<Rightarrow> 'a stack \<times> 'a stack_pc" where
  "stack_push_step (SPushLoad n) s = (s, SPushStore n (s_top s))"
| "stack_push_step (SPushStore n old) s = (s\<lparr>s_nodes := (s_nodes s)[n := (s_nodes s ! n)\<lparr>s_next := old\<rparr>]\<rparr>, SPushCas n old)"
| "stack_push_step (SPushCas n old) s =
     (if s_top s = old then (s\<lparr>s_top := Some n\<rparr>, SFinish SPushed) else (s, SPushLoad n))"
| "stack_push_step pc s = (s, pc)"

fun stack_step :: "'a stack_pc \<Rightarrow> 'a stack \<Rightarrow> 'a stack \<times> 'a stack_pc" where
  "stack_step SEmptyLoad s = (s, SFinish (SIsEmpty (s_top s = None)))"
| "stack_step (SPushLoad n) s = stack_push_step (SPushLoad n) s"
| "stack_step (SPushStore n old) s = stack_push_step (SPushStore n old) s"
| "stack_step (SPushCas n old) s = stack_push_step (SPushCas n old) s"
| "stack_step pc s = stack_pop_step pc s"

fun stack_start :: "'a stack_op \<Rightarrow> 'a stack \<Rightarrow> 'a stack \<times> 'a stack_pc" where
  "stack_start (SPush x) s = (s\<lparr>s_nodes := s_nodes s @ [\<lparr>s_item = x, s_next = None\<rparr>]\<rparr>, SPushLoad (length (s_nodes s)))"
| "stack_start SPop s = (s, SPopLoad)"
| "stack_start SEmpty s = (s, SEmptyLoad)"

fun stack_busy :: "'a stack_pc \<Rightarrow> bool" where
  "stack_busy SIdle = False"
| "stack_busy (SFinish r) = False"
| "stack_busy _ = True"

inductive stack_sys :: "'a stack \<times> (nat \<Rightarrow> 'a stack_pc) \<Rightarrow> ('a stack_op, 'a stack_res) op_event option \<Rightarrow>
    'a stack \<times> (nat \<Rightarrow> 'a stack_pc) \<Rightarrow> bool" where
  s_call: "th t = SIdle \<Longrightarrow> stack_start p s = (s', pc) \<Longrightarrow> stack_sys (s, th) (Some (Inv t p)) (s', th(t := pc))"
| s_work: "stack_busy (th t) \<Longrightarrow> stack_step (th t) s = (s', pc) \<Longrightarrow> stack_sys (s, th) None (s', th(t := pc))"
| s_return: "th t = SFinish r \<Longrightarrow> stack_sys (s, th) (Some (Res t r)) (s, th(t := SIdle))"

text \<open>A last-in first-out stack.\<close>

fun lifo_app :: "'a stack_op \<Rightarrow> 'a list \<Rightarrow> 'a list \<times> 'a stack_res" where
  "lifo_app (SPush x) xs = (x # xs, SPushed)"
| "lifo_app SPop [] = ([], SPopped None)"
| "lifo_app SPop (x # xs) = (xs, SPopped (Some x))"
| "lifo_app SEmpty xs = (xs, SIsEmpty (xs = []))"

section \<open>The invariant\<close>

text \<open>The nodes from a pointer on. \<open>P\<close> are the nodes that have been pushed: their links do not change any more.\<close>

inductive chain :: "'a snode list \<Rightarrow> nat option \<Rightarrow> nat list \<Rightarrow> bool" for ns where
  chain_nil: "chain ns None []"
| chain_cons: "chain ns (s_next (ns ! a)) as \<Longrightarrow> chain ns (Some a) (a # as)"

inductive_cases chain_noneE: "chain ns None as"
inductive_cases chain_someE: "chain ns (Some a) as"

definition pushed_ok :: "'a stack \<Rightarrow> nat set \<Rightarrow> 'a list \<Rightarrow> bool" where
  "pushed_ok s P xs \<longleftrightarrow> P \<subseteq> {..<length (s_nodes s)} \<and>
     (\<exists>as. chain (s_nodes s) (s_top s) as \<and> set as \<subseteq> P \<and> xs = map (\<lambda>a. s_item (s_nodes s ! a)) as)"

text \<open>The specification's view of a thread.\<close>

fun stack_rel :: "'a stack \<Rightarrow> nat set \<Rightarrow> 'a stack_pc \<Rightarrow> ('a stack_op, 'a stack_res) op_status \<Rightarrow> bool" where
  "stack_rel s P SIdle x \<longleftrightarrow> x = Quiet"
| "stack_rel s P SPopLoad x \<longleftrightarrow> x = Waiting SPop"
| "stack_rel s P (SPopNext old) x \<longleftrightarrow> x = Waiting SPop \<and> old \<in> P"
| "stack_rel s P (SPopCas old new) x \<longleftrightarrow> x = Waiting SPop \<and> old \<in> P \<and> s_next (s_nodes s ! old) = new"
| "stack_rel s P (SPushLoad n) x \<longleftrightarrow> n \<notin> P \<and> n < length (s_nodes s) \<and> x = Waiting (SPush (s_item (s_nodes s ! n)))"
| "stack_rel s P (SPushStore n old) x \<longleftrightarrow> n \<notin> P \<and> n < length (s_nodes s) \<and> x = Waiting (SPush (s_item (s_nodes s ! n)))"
| "stack_rel s P (SPushCas n old) x \<longleftrightarrow> n \<notin> P \<and> n < length (s_nodes s) \<and> x = Waiting (SPush (s_item (s_nodes s ! n))) \<and>
     s_next (s_nodes s ! n) = old"
| "stack_rel s P SEmptyLoad x \<longleftrightarrow> x = Waiting SEmpty"
| "stack_rel s P (SFinish r) x \<longleftrightarrow> x = Ready r"

fun own_node :: "'a stack_pc \<Rightarrow> nat option" where
  "own_node (SPushLoad n) = Some n"
| "own_node (SPushStore n old) = Some n"
| "own_node (SPushCas n old) = Some n"
| "own_node _ = None"

definition stack_inv :: "nat set \<Rightarrow> 'a stack \<times> (nat \<Rightarrow> 'a stack_pc) \<Rightarrow> 'a list \<times> (nat \<Rightarrow> ('a stack_op, 'a stack_res) op_status) \<Rightarrow> bool" where
  "stack_inv P c a \<longleftrightarrow> pushed_ok (fst c) P (fst a) \<and> (\<forall>t. stack_rel (fst c) P (snd c t) (snd a t)) \<and>
     (\<forall>t u n. own_node (snd c t) = Some n \<and> own_node (snd c u) = Some n \<longrightarrow> t = u)"

definition stack_sim :: "'a stack \<times> (nat \<Rightarrow> 'a stack_pc) \<Rightarrow> 'a list \<times> (nat \<Rightarrow> ('a stack_op, 'a stack_res) op_status) \<Rightarrow> bool" where
  "stack_sim c a \<longleftrightarrow> (\<exists>P. stack_inv P c a)"

lemma own_private:
  assumes "stack_rel s P pc x" "own_node pc = Some n"
  shows "n \<notin> P" "n < length (s_nodes s)"
  using assms by (cases pc; simp)+

text \<open>Writes to nodes that are not pushed leave the contents alone.\<close>

lemma chain_agree:
  assumes "chain ns p as" "\<And>a. a \<in> set as \<Longrightarrow> s_next (ns' ! a) = s_next (ns ! a)"
  shows "chain ns' p as"
  using assms by (induction rule: chain.induct) (auto intro: chain.intros)

definition nodes_agree :: "'a stack \<Rightarrow> 'a stack \<Rightarrow> nat set \<Rightarrow> bool" where
  "nodes_agree s s' P \<longleftrightarrow> length (s_nodes s) \<le> length (s_nodes s') \<and> (\<forall>a \<in> P. s_nodes s' ! a = s_nodes s ! a)"

lemma pushed_agree:
  assumes ok: "pushed_ok s P xs" and a: "nodes_agree s s' P" "s_top s' = s_top s"
  shows "pushed_ok s' P xs"
proof -
  obtain as where as: "chain (s_nodes s) (s_top s) as" "set as \<subseteq> P" "xs = map (\<lambda>a. s_item (s_nodes s ! a)) as"
    using ok by (auto simp: pushed_ok_def)
  have "chain (s_nodes s') (s_top s') as" unfolding a(2) by (rule chain_agree [OF as(1)]) (use as(2) a(1) in \<open>auto simp: nodes_agree_def\<close>)
  moreover have "xs = map (\<lambda>a. s_item (s_nodes s' ! a)) as" using as(2,3) a(1) by (auto simp: nodes_agree_def)
  moreover have "P \<subseteq> {..<length (s_nodes s')}" using ok a(1) by (auto simp: pushed_ok_def nodes_agree_def)
  ultimately show ?thesis using as(2) unfolding pushed_ok_def by blast
qed

lemma rel_agree:
  assumes r: "stack_rel s P pc x" and a: "nodes_agree s s' (P \<union> set_option (own_node pc))" "P \<subseteq> P'" and n: "\<And>n. own_node pc = Some n \<Longrightarrow> n \<notin> P'"
  shows "stack_rel s' P' pc x"
  using assms by (cases pc) (auto simp: nodes_agree_def)

text \<open>A step of thread \<open>t\<close>, seen by the others.\<close>

lemma stack_inv_step:
  assumes inv: "stack_inv P (s, th) (xs, st)" and ok: "pushed_ok s' P' xs'" and P: "P \<subseteq> P'"
    and own: "stack_rel s' P' pc x" "\<And>u n. u \<noteq> t \<Longrightarrow> own_node pc = Some n \<Longrightarrow> own_node (th u) \<noteq> Some n"
    and others: "\<And>u. u \<noteq> t \<Longrightarrow> nodes_agree s s' (P \<union> set_option (own_node (th u)))"
    and fresh: "\<And>u n. u \<noteq> t \<Longrightarrow> own_node (th u) = Some n \<Longrightarrow> n \<notin> P'"
  shows "stack_sim (s', th(t := pc)) (xs', st(t := x))"
proof -
  have r: "stack_rel s P (th u) (st u)" for u using inv by (simp add: stack_inv_def)
  have "stack_rel s' P' ((th(t := pc)) u) ((st(t := x)) u)" for u
    using own(1) rel_agree [OF r others P fresh, of u] by (cases "u = t") auto
  moreover have "v = u" if "own_node ((th(t := pc)) v) = Some n" "own_node ((th(t := pc)) u) = Some n" for u v n
  proof (cases "u = t"; cases "v = t")
    assume "u \<noteq> t" "v \<noteq> t"
    then show ?thesis using that inv by (auto simp: stack_inv_def)
  qed (use that own(2) [of u n] own(2) [of v n] in auto)
  ultimately have "stack_inv P' (s', th(t := pc)) (xs', st(t := x))" using ok unfolding stack_inv_def fst_conv snd_conv by blast
  then show ?thesis unfolding stack_sim_def by blast
qed

section \<open>Simulation\<close>

lemma stack_invD:
  assumes "stack_inv P (s, th) (xs, st)"
  shows "pushed_ok s P xs" "stack_rel s P (th t) (st t)" "own_node (th t) = Some n \<Longrightarrow> u \<noteq> t \<Longrightarrow> own_node (th u) \<noteq> Some n"
  using assms by (auto simp: stack_inv_def)

lemma nodes_agree_refl [simp]: "s_nodes s' = s_nodes s \<Longrightarrow> nodes_agree s s' P"
  by (simp add: nodes_agree_def)

text \<open>The case of most steps: the thread reads, and owns the node that it has owned before.\<close>

lemma stack_inv_read:
  assumes inv: "stack_inv P (s, th) (xs, st)" and own: "stack_rel s P pc x" "own_node pc = None \<or> own_node pc = own_node (th t)"
  shows "stack_sim (s, th(t := pc)) (xs, st(t := x))"
proof (rule stack_inv_step [OF inv stack_invD(1) [OF inv] subset_refl own(1)])
  show "own_node (th u) \<noteq> Some n" if "u \<noteq> t" "own_node pc = Some n" for u n
    using stack_invD(3) [OF inv, of t n u] own(2) that by auto
  show "n \<notin> P" if "own_node (th u) = Some n" for u n by (rule own_private(1) [OF stack_invD(2) [OF inv] that])
qed simp

text \<open>The moment at which an operation takes place.\<close>

lemma stack_act:
  assumes "st t = Waiting p" "lifo_app p xs = (xs', r)"
  shows "exec (atomic_sys lifo_app) (xs, st) [] (xs', st(t := Ready r))"
  using exec_step [where step = "atomic_sys lifo_app", OF a_act [where app = lifo_app and st = st, OF assms]] by simp

lemma top_contents:
  assumes "pushed_ok s P xs"
  shows "s_top s = None \<Longrightarrow> xs = []" "s_top s = Some a \<Longrightarrow> a \<in> P \<and> xs \<noteq> []"
    "s_top s = Some a \<Longrightarrow> \<exists>ys. xs = s_item (s_nodes s ! a) # ys \<and> pushed_ok (s\<lparr>s_top := s_next (s_nodes s ! a)\<rparr>) P ys"
  using assms by (fastforce simp: pushed_ok_def elim: chain_noneE chain_someE)+

lemma push_contents:
  assumes ok: "pushed_ok s P xs" and n: "n < length (s_nodes s)" "s_next (s_nodes s ! n) = s_top s"
  shows "pushed_ok (s\<lparr>s_top := Some n\<rparr>) (insert n P) (s_item (s_nodes s ! n) # xs)"
proof -
  obtain as where as: "chain (s_nodes s) (s_top s) as" "set as \<subseteq> P" "xs = map (\<lambda>a. s_item (s_nodes s ! a)) as"
    using ok by (auto simp: pushed_ok_def)
  have "chain (s_nodes s) (Some n) (n # as)" using as(1) n(2) by (intro chain_cons) simp
  moreover have "set (n # as) \<subseteq> insert n P" using as(2) by auto
  ultimately show ?thesis using as(3) n(1) ok unfolding pushed_ok_def by (auto intro!: exI [of _ "n # as"])
qed

lemma pop_load_sim:
  assumes inv: "stack_inv P (s, th) (xs, st)" and t: "th t = SPopLoad" "stack_step (th t) s = (s', pc)"
  shows "\<exists>a'. exec (atomic_sys lifo_app) (xs, st) [] a' \<and> stack_sim (s', th(t := pc)) a'"
proof (cases "s_top s")
  case None
  then have "xs = []" using top_contents(1) [OF stack_invD(1) [OF inv]] by simp
  moreover have st: "st t = Waiting SPop" using stack_invD(2) [OF inv, of t] t(1) by simp
  ultimately have "exec (atomic_sys lifo_app) (xs, st) [] (xs, st(t := Ready (SPopped None)))" using stack_act by fastforce
  moreover have "stack_sim (s, th(t := SFinish (SPopped None))) (xs, st(t := Ready (SPopped None)))" by (rule stack_inv_read [OF inv]) auto
  ultimately show ?thesis using t None by auto
next
  case (Some a)
  have "stack_sim (s, th(t := SPopNext a)) (xs, st(t := st t))"
    by (rule stack_inv_read [OF inv]) (use stack_invD(2) [OF inv, of t] t(1) top_contents(2) [OF stack_invD(1) [OF inv] Some] in auto)
  then show ?thesis using t Some exec_refl by fastforce
qed

lemma pop_cas_sim:
  assumes inv: "stack_inv P (s, th) (xs, st)" and t: "th t = SPopCas old new" "stack_step (th t) s = (s', pc)"
  shows "\<exists>a'. exec (atomic_sys lifo_app) (xs, st) [] a' \<and> stack_sim (s', th(t := pc)) a'"
proof (cases "s_top s = Some old")
  case False
  have "stack_sim (s, th(t := SPopLoad)) (xs, st(t := st t))" by (rule stack_inv_read [OF inv]) (use stack_invD(2) [OF inv, of t] t(1) in auto)
  then show ?thesis using t False exec_refl by fastforce
next
  case True
  let ?r = "SPopped (Some (s_item (s_nodes s ! old)))"
  have st: "st t = Waiting SPop" "s_next (s_nodes s ! old) = new" using stack_invD(2) [OF inv, of t] t(1) by auto
  then obtain ys where ys: "xs = s_item (s_nodes s ! old) # ys" "pushed_ok (s\<lparr>s_top := new\<rparr>) P ys"
    using top_contents(3) [OF stack_invD(1) [OF inv] True] by auto
  have "stack_sim (s\<lparr>s_top := new\<rparr>, th(t := SFinish ?r)) (ys, st(t := Ready ?r))"
    by (rule stack_inv_step [OF inv ys(2) subset_refl]) (use own_private(1) [OF stack_invD(2) [OF inv]] in auto)
  moreover have "exec (atomic_sys lifo_app) (xs, st) [] (ys, st(t := Ready ?r))" using stack_act [of st t, OF st(1)] ys(1) by simp
  ultimately show ?thesis using t True by auto
qed

lemma push_store_sim:
  assumes inv: "stack_inv P (s, th) (xs, st)" and t: "th t = SPushStore n old" "stack_step (th t) s = (s', pc)"
  shows "\<exists>a'. exec (atomic_sys lifo_app) (xs, st) [] a' \<and> stack_sim (s', th(t := pc)) a'"
proof -
  let ?s = "s\<lparr>s_nodes := (s_nodes s)[n := (s_nodes s ! n)\<lparr>s_next := old\<rparr>]\<rparr>"
  have r: "n \<notin> P" "n < length (s_nodes s)" "st t = Waiting (SPush (s_item (s_nodes s ! n)))" using stack_invD(2) [OF inv, of t] t(1) by auto
  have agree: "nodes_agree s ?s A" if "n \<notin> A" for A
  proof -
    have "n \<noteq> a" if "a \<in> A" for a using that \<open>n \<notin> A\<close> by blast
    then show ?thesis by (simp add: nodes_agree_def)
  qed
  have other: "own_node (th u) \<noteq> Some n" if "u \<noteq> t" for u using stack_invD(3) [OF inv, of t n u] t(1) that by simp
  have "stack_sim (?s, th(t := SPushCas n old)) (xs, st(t := st t))"
  proof (rule stack_inv_step [OF inv _ subset_refl])
    show "pushed_ok ?s P xs" by (rule pushed_agree [OF stack_invD(1) [OF inv] agree [OF r(1)]]) simp
    show "nodes_agree s ?s (P \<union> set_option (own_node (th u)))" if "u \<noteq> t" for u using other [OF that] r(1) by (intro agree) auto
    show "k \<notin> P" if "own_node (th u) = Some k" for u k by (rule own_private(1) [OF stack_invD(2) [OF inv] that])
  qed (use r other in auto)
  then show ?thesis using t exec_refl by fastforce
qed

lemma push_cas_sim:
  assumes inv: "stack_inv P (s, th) (xs, st)" and t: "th t = SPushCas n old" "stack_step (th t) s = (s', pc)"
  shows "\<exists>a'. exec (atomic_sys lifo_app) (xs, st) [] a' \<and> stack_sim (s', th(t := pc)) a'"
proof (cases "s_top s = old")
  case False
  have "stack_sim (s, th(t := SPushLoad n)) (xs, st(t := st t))"
    by (rule stack_inv_read [OF inv]) (use stack_invD(2) [OF inv, of t] t(1) in auto)
  then show ?thesis using t False exec_refl by fastforce
next
  case True
  have r: "n \<notin> P" "n < length (s_nodes s)" "st t = Waiting (SPush (s_item (s_nodes s ! n)))" "s_next (s_nodes s ! n) = s_top s"
    using stack_invD(2) [OF inv, of t] t(1) True by auto
  have "stack_sim (s\<lparr>s_top := Some n\<rparr>, th(t := SFinish SPushed)) (s_item (s_nodes s ! n) # xs, st(t := Ready SPushed))"
  proof (rule stack_inv_step [OF inv push_contents [OF stack_invD(1) [OF inv] r(2,4)]])
    show "k \<notin> insert n P" if "u \<noteq> t" "own_node (th u) = Some k" for u k
      using own_private(1) [OF stack_invD(2) [OF inv] that(2)] stack_invD(3) [OF inv, of t n u] t(1) that by auto
  qed auto
  moreover have "exec (atomic_sys lifo_app) (xs, st) [] (s_item (s_nodes s ! n) # xs, st(t := Ready SPushed))" by (rule stack_act [of st t, OF r(3)]) simp
  ultimately show ?thesis using t True by auto
qed

lemma empty_sim:
  assumes inv: "stack_inv P (s, th) (xs, st)" and t: "th t = SEmptyLoad" "stack_step (th t) s = (s', pc)"
  shows "\<exists>a'. exec (atomic_sys lifo_app) (xs, st) [] a' \<and> stack_sim (s', th(t := pc)) a'"
proof -
  have st: "st t = Waiting SEmpty" using stack_invD(2) [OF inv, of t] t(1) by simp
  have "(s_top s = None) = (xs = [])" using top_contents(1,2) [OF stack_invD(1) [OF inv]] by (cases "s_top s") auto
  then have "exec (atomic_sys lifo_app) (xs, st) [] (xs, st(t := Ready (SIsEmpty (s_top s = None))))" by (intro stack_act [of st t, OF st]) simp
  moreover have "stack_sim (s, th(t := pc)) (xs, st(t := Ready (SIsEmpty (s_top s = None))))"
    by (rule stack_inv_read [OF inv]) (use t in auto)
  ultimately show ?thesis using t by auto
qed

text \<open>Loads on which nothing depends yet.\<close>

lemma load_sim:
  assumes inv: "stack_inv P (s, th) (xs, st)" and t: "(\<exists>old. th t = SPopNext old) \<or> (\<exists>n. th t = SPushLoad n)" "stack_step (th t) s = (s', pc)"
  shows "\<exists>a'. exec (atomic_sys lifo_app) (xs, st) [] a' \<and> stack_sim (s', th(t := pc)) a'"
proof -
  have "stack_sim (s, th(t := pc)) (xs, st(t := st t))" by (rule stack_inv_read [OF inv]) (use stack_invD(2) [OF inv, of t] t in auto)
  moreover have "s' = s" using t by auto
  ultimately show ?thesis using exec_refl by fastforce
qed

lemma stack_call_sim:
  assumes inv: "stack_inv P (s, th) (xs, st)" and t: "th t = SIdle" "stack_start p s = (s', pc)"
  shows "\<exists>a'. exec (atomic_sys lifo_app) (xs, st) [Inv t p] a' \<and> stack_sim (s', th(t := pc)) a'"
proof -
  note ok = stack_invD(1) [OF inv] note rel = stack_invD(2) [OF inv]
  have st: "st t = Quiet" using rel [of t] t(1) by simp
  have agree: "nodes_agree s s' A" if "A \<subseteq> {..<length (s_nodes s)}" for A
    using t(2) that by (cases p) (auto simp: nodes_agree_def nth_append)
  have P: "P \<subseteq> {..<length (s_nodes s)}" using ok by (simp add: pushed_ok_def)
  have "stack_sim (s', th(t := pc)) (xs, st(t := Waiting p))"
  proof (rule stack_inv_step [OF inv _ subset_refl])
    show "pushed_ok s' P xs" by (rule pushed_agree [OF ok agree [OF P]]) (use t(2) in \<open>cases p, auto\<close>)
    show "stack_rel s' P pc (Waiting p)" using t(2) P by (cases p) auto
    show "nodes_agree s s' (P \<union> set_option (own_node (th u)))" if "u \<noteq> t" for u
      using P own_private(2) [OF rel, of u] by (intro agree) auto
    show "own_node (th u) \<noteq> Some n" if "own_node pc = Some n" for u n
      using own_private(2) [OF rel, of u n] t(2) that by (cases p) auto
    show "n \<notin> P" if "own_node (th u) = Some n" for u n by (rule own_private(1) [OF rel that])
  qed
  moreover have "exec (atomic_sys lifo_app) (xs, st) [Inv t p] (xs, st(t := Waiting p))"
    using exec_step [where step = "atomic_sys lifo_app", OF a_call [of st t, OF st]] by fastforce
  ultimately show ?thesis by blast
qed

lemma stack_return_sim:
  assumes inv: "stack_inv P (s, th) (xs, st)" and t: "th t = SFinish r"
  shows "\<exists>a'. exec (atomic_sys lifo_app) (xs, st) [Res t r] a' \<and> stack_sim (s, th(t := SIdle)) a'"
proof -
  have st: "st t = Ready r" using stack_invD(2) [OF inv, of t] t by simp
  have "stack_sim (s, th(t := SIdle)) (xs, st(t := Quiet))" by (rule stack_inv_read [OF inv]) auto
  moreover have "exec (atomic_sys lifo_app) (xs, st) [Res t r] (xs, st(t := Quiet))"
    using exec_step [where step = "atomic_sys lifo_app", OF a_return [of st t r, OF st]] by fastforce
  ultimately show ?thesis by blast
qed

lemma stack_steps_sim:
  assumes inv: "stack_inv P (s, th) (xs, st)" and step: "stack_sys (s, th) e c'"
  shows "\<exists>a'. exec (atomic_sys lifo_app) (xs, st) (case e of None \<Rightarrow> [] | Some x \<Rightarrow> [x]) a' \<and> stack_sim c' a'"
  using step
proof (cases rule: stack_sys.cases)
  case (s_call t p s' pc)
  then show ?thesis using stack_call_sim [OF inv] by simp
next
  case (s_work t s' pc)
  note sims = pop_load_sim pop_cas_sim push_store_sim push_cas_sim empty_sim load_sim
  have "\<exists>a'. exec (atomic_sys lifo_app) (xs, st) [] a' \<and> stack_sim (s', th(t := pc)) a'"
    using s_work(3) by (cases "th t") (use sims [OF inv _ s_work(4)] in auto)
  then show ?thesis using s_work by simp
next
  case (s_return t r)
  then show ?thesis using stack_return_sim [OF inv] by simp
qed

lemma stack_sim_initial: "stack_sim (stack_new, \<lambda>_. SIdle) ([], \<lambda>_. Quiet)"
proof -
  have "chain [] None []" by (rule chain_nil)
  then have "stack_inv {} (stack_new, \<lambda>_. SIdle) ([], \<lambda>_. Quiet)" by (simp add: stack_inv_def pushed_ok_def stack_new_def)
  then show ?thesis unfolding stack_sim_def by blast
qed

interpretation ts: forward_simulation "(stack_new, \<lambda>_. SIdle)" stack_sys "([], \<lambda>_. Quiet)" "atomic_sys lifo_app" stack_sim
proof unfold_locales
  show "stack_sim (stack_new, \<lambda>_. SIdle) ([], \<lambda>_. Quiet)" by (rule stack_sim_initial)
  show "\<exists>a'. exec (atomic_sys lifo_app) a (case e of None \<Rightarrow> [] | Some x \<Rightarrow> [x]) a' \<and> stack_sim c' a'"
    if "stack_sim c a" "stack_sys c e c'" for c c' :: "'a stack \<times> (nat \<Rightarrow> 'a stack_pc)" and a e
    using that stack_steps_sim [of _ "fst c" "snd c" "fst a" "snd a" e c'] by (auto simp: stack_sim_def)
qed

section \<open>Schedules\<close>

datatype 'a stack_choice = SBegin nat "'a stack_op" | SRun nat | SEnd nat

fun stack_run :: "'a stack_choice list \<Rightarrow> 'a stack \<times> (nat \<Rightarrow> 'a stack_pc) \<Rightarrow>
    (('a stack_op, 'a stack_res) op_event list \<times> 'a stack \<times> (nat \<Rightarrow> 'a stack_pc)) option" where
  "stack_run [] c = Some ([], c)"
| "stack_run (SBegin t p # cs) (s, th) =
     (case th t of
        SIdle \<Rightarrow> (let (s', pc) = stack_start p s in map_option (\<lambda>(tr, c). (Inv t p # tr, c)) (stack_run cs (s', th(t := pc))))
      | _ \<Rightarrow> None)"
| "stack_run (SRun t # cs) (s, th) =
     (if stack_busy (th t) then (let (s', pc) = stack_step (th t) s in stack_run cs (s', th(t := pc))) else None)"
| "stack_run (SEnd t # cs) (s, th) =
     (case th t of SFinish r \<Rightarrow> map_option (\<lambda>(tr, c). (Res t r # tr, c)) (stack_run cs (s, th(t := SIdle))) | _ \<Rightarrow> None)"

lemma stack_run_exec: "stack_run cs c = Some (tr, c') \<Longrightarrow> exec stack_sys c tr c'"
proof (induction cs c arbitrary: tr rule: stack_run.induct)
  case (1 c)
  then show ?case by (simp add: exec_refl)
next
  case (2 t p cs s th)
  then obtain s' pc tr' where r: "th t = SIdle" "stack_start p s = (s', pc)" "stack_run cs (s', th(t := pc)) = Some (tr', c')"
    "tr = Inv t p # tr'" by (auto simp: Let_def split: stack_pc.splits prod.splits)
  have "exec stack_sys (s', th(t := pc)) tr' c'" using 2(1) r by metis
  from exec_first [where step = stack_sys, OF s_call [where th = th, OF r(1,2)] this] show ?case using r(4) by simp
next
  case (3 t cs s th)
  then obtain s' pc where r: "stack_busy (th t)" "stack_step (th t) s = (s', pc)" "stack_run cs (s', th(t := pc)) = Some (tr, c')"
    by (auto simp: Let_def split: if_splits prod.splits)
  have "exec stack_sys (s', th(t := pc)) tr c'" using 3(1) r by metis
  from exec_first [where step = stack_sys, OF s_work [where th = th, OF r(1,2)] this] show ?case by simp
next
  case (4 t cs s th)
  then obtain r tr' where r: "th t = SFinish r" "stack_run cs (s, th(t := SIdle)) = Some (tr', c')" "tr = Res t r # tr'"
    by (auto split: stack_pc.splits)
  have "exec stack_sys (s, th(t := SIdle)) tr' c'" using 4(1) r by metis
  from exec_first [where step = stack_sys, OF s_return [where th = th, OF r(1)] this] show ?case using r(3) by simp
qed

section \<open>Linearizability\<close>

text \<open>
  C10: the stack of \<^verbatim>\<open>examples/stack.rs\<close> is linearizable: whatever the interleaving of the accesses of any number of threads, the calls
  and returns of \<^verbatim>\<open>push\<close>, \<^verbatim>\<open>pop\<close> and \<^verbatim>\<open>is_empty\<close> are those of a last-in first-out stack whose operations take place in one step each.
\<close>

theorem stack_linearizable:
  assumes "exec stack_sys (stack_new, \<lambda>_. SIdle) tr c"
  shows "\<exists>a. exec (atomic_sys lifo_app) ([], \<lambda>_. Quiet) tr a"
  by (rule ts.trace_inclusion [OF assms])

text \<open>A pop reads the next node of the top before another thread pushes: its compare-exchange fails, and it pops the newer item.\<close>

theorem stack_linearizable_witness:
  "\<exists>a. exec (atomic_sys lifo_app) ([], \<lambda>_. Quiet)
     [Inv 0 (SPush (5 :: nat)), Res 0 SPushed, Inv 1 SPop, Inv 0 (SPush 6), Res 0 SPushed, Res 1 (SPopped (Some 6))] a"
proof -
  let ?cs = "[SBegin 0 (SPush 5), SRun 0, SRun 0, SRun 0, SEnd 0, SBegin 1 SPop, SRun 1, SRun 1, SBegin 0 (SPush 6), SRun 0, SRun 0, SRun 0,
    SEnd 0, SRun 1, SRun 1, SRun 1, SRun 1, SEnd 1] :: nat stack_choice list"
  let ?tr = "[Inv 0 (SPush 5), Res 0 SPushed, Inv 1 SPop, Inv 0 (SPush 6), Res 0 SPushed, Res 1 (SPopped (Some 6))]"
  have "map_option fst (stack_run ?cs (stack_new, \<lambda>_. SIdle)) = Some ?tr" by code_simp
  then obtain s where "stack_run ?cs (stack_new, \<lambda>_. SIdle) = Some (?tr, s)" by auto
  from stack_linearizable [OF stack_run_exec [OF this]] show ?thesis .
qed

end
