(* ===== verification/NM_Tree.thy ===== *)
theory NM_Tree
  imports Cdpt_Prelude Concurrent_Map
begin

unbundle bit_operations_syntax

text \<open>
  The lock-free search tree of \<^verbatim>\<open>examples/ds/nm_tree.rs\<close> (Natarajan and Mittal), at the granularity of single accesses to shared
  memory. Keys are in the leaves. A removal flags the edge to its leaf, then tags the edge to the sibling of the leaf, and at last moves the
  sibling up: the edge above the highest node on the way that is being removed is pointed to the sibling, which may unlink the
  leaves of several removals at once.

  As in \<open>Harris_List\<close>, a node is its position in the list of all nodes, which only grows: the collector keeps the
  nodes that a thread refers to under its guard.
\<close>

section \<open>Marks and keys\<close>

text \<open>\<^verbatim>\<open>Marks\<close>: the bits in the tag of an edge.\<close>

definition FLAG :: usize where
  "FLAG = push_bit 1 1"

definition TAG :: usize where
  "TAG = push_bit 0 1"

definition marks_new :: "bool \<Rightarrow> bool \<Rightarrow> usize" where
  "marks_new flag tag = (if flag then FLAG else 0) OR (if tag then TAG else 0)"

definition from_bits_truncate :: "usize \<Rightarrow> usize" where
  "from_bits_truncate bits = bits AND (FLAG OR TAG)"

definition marks_flag :: "usize \<Rightarrow> bool" where
  "marks_flag m \<longleftrightarrow> m AND FLAG \<noteq> 0"

definition marks_tag :: "usize \<Rightarrow> bool" where
  "marks_tag m \<longleftrightarrow> m AND TAG \<noteq> 0"

text \<open>\<^verbatim>\<open>Key\<close> with its two comparisons: among each other (\<^verbatim>\<open>partial_cmp\<close>) and with a key of the map (\<^verbatim>\<open>cmp\<close>).\<close>

datatype 'k tkey = Fin 'k | Inf

fun key_partial_cmp :: "'k :: linorder tkey \<Rightarrow> 'k tkey \<Rightarrow> cmp_ordering option" where
  "key_partial_cmp (Fin k1) (Fin k2) = Some (if k1 < k2 then Less else if k1 = k2 then Equal else Greater)"
| "key_partial_cmp (Fin _) Inf = Some Less"
| "key_partial_cmp Inf (Fin _) = Some Greater"
| "key_partial_cmp Inf Inf = Some Equal"

fun key_cmp :: "'k :: linorder tkey \<Rightarrow> 'k \<Rightarrow> cmp_ordering" where
  "key_cmp (Fin k) rhs = (if k < rhs then Less else if k = rhs then Equal else Greater)"
| "key_cmp Inf rhs = Greater"

section \<open>State\<close>

record ('k, 'v) tnode =
  t_key :: "'k tkey"
  t_value :: "'v option"
  t_left :: "nat option \<times> usize"
  t_right :: "nat option \<times> usize"

record ('k, 'v) nm_tree =
  t_r :: nat
  t_nodes :: "('k, 'v) tnode list"

definition key_of :: "('k, 'v) nm_tree \<Rightarrow> nat \<Rightarrow> 'k tkey" where
  "key_of l a = t_key (t_nodes l ! a)"

definition value_of :: "('k, 'v) nm_tree \<Rightarrow> nat \<Rightarrow> 'v option" where
  "value_of l a = t_value (t_nodes l ! a)"

definition edge :: "('k, 'v) nm_tree \<Rightarrow> nat \<times> direction \<Rightarrow> nat option \<times> usize" where
  "edge l e = (case e of (a, DirL) \<Rightarrow> t_left (t_nodes l ! a) | (a, DirR) \<Rightarrow> t_right (t_nodes l ! a))"

definition set_edge :: "nat \<times> direction \<Rightarrow> nat option \<times> usize \<Rightarrow> ('k, 'v) nm_tree \<Rightarrow> ('k, 'v) nm_tree" where
  "set_edge e p l = l\<lparr>t_nodes := (case e of
     (a, DirL) \<Rightarrow> (t_nodes l)[a := (t_nodes l ! a)\<lparr>t_left := p\<rparr>]
   | (a, DirR) \<Rightarrow> (t_nodes l)[a := (t_nodes l ! a)\<lparr>t_right := p\<rparr>])\<rparr>"

text \<open>\<^verbatim>\<open>compare_exchange_with_tag\<close> on an edge; the failure returns what it has found.\<close>

definition cas_edge ::
  "nat \<times> direction \<Rightarrow> nat option \<times> usize \<Rightarrow> nat option \<times> usize \<Rightarrow> ('k, 'v) nm_tree \<Rightarrow> ('k, 'v) nm_tree \<times> (nat option \<times> usize) option" where
  "cas_edge e old new l = (if edge l e = old then (set_edge e new l, None) else (l, Some (edge l e)))"

text \<open>\<^verbatim>\<open>SeekRecord\<close>.\<close>

record seek_record =
  sr_ancestor :: nat
  sr_successor :: nat
  sr_successor_dir :: direction
  sr_parent :: nat
  sr_leaf :: nat
  sr_leaf_dir :: direction

fun other_dir :: "direction \<Rightarrow> direction" where
  "other_dir DirL = DirR"
| "other_dir DirR = DirL"

definition successor_addr :: "seek_record \<Rightarrow> nat \<times> direction" where
  "successor_addr rec = (sr_ancestor rec, sr_successor_dir rec)"

definition leaf_addr :: "seek_record \<Rightarrow> nat \<times> direction" where
  "leaf_addr rec = (sr_parent rec, sr_leaf_dir rec)"

definition leaf_sibling_addr :: "seek_record \<Rightarrow> nat \<times> direction" where
  "leaf_sibling_addr rec = (sr_parent rec, other_dir (sr_leaf_dir rec))"

section \<open>Calls\<close>

text \<open>
  A call in progress. An insertion keeps its two lazily allocated nodes; a removal that has flagged the edge to a leaf is in its cleanup
  phase for that leaf.
\<close>

datatype ('k, 'v) tcall = TInsert 'k 'v "nat option" "nat option" | TRemove 'k | TCleanup 'k nat

fun tcall_key :: "('k, 'v) tcall \<Rightarrow> 'k" where
  "tcall_key (TInsert k v nl ni) = k"
| "tcall_key (TRemove k) = k"
| "tcall_key (TCleanup k b) = k"

datatype ('k, 'v) nm_pc =
    TIdle
  | TRoot "('k, 'v) tcall"                                            \<comment> \<open>\<^verbatim>\<open>seek\<close>: load \<^verbatim>\<open>self.r\<close>\<close>
  | TLoadS "('k, 'v) tcall" nat                                       \<comment> \<open>load \<^verbatim>\<open>r.left\<close>\<close>
  | TFirst "('k, 'v) tcall" nat nat                                   \<comment> \<open>load \<^verbatim>\<open>s.left\<close>\<close>
  | TSecond "('k, 'v) tcall" seek_record bool                         \<comment> \<open>load \<^verbatim>\<open>leaf.left\<close>\<close>
  | TSeek "('k, 'v) tcall" seek_record bool direction nat usize       \<comment> \<open>load the child of \<^verbatim>\<open>curr\<close>\<close>
  | GRoot 'k                                                          \<comment> \<open>\<^verbatim>\<open>seek_leaf\<close>: the same accesses\<close>
  | GLoadS 'k nat
  | GFirst 'k nat
  | GSecond 'k nat
  | GSeek 'k nat
  | TStoreL "('k, 'v) tcall" seek_record nat nat nat                  \<comment> \<open>\<^verbatim>\<open>insert\<close>: store \<^verbatim>\<open>new_internal.left\<close>\<close>
  | TStoreR "('k, 'v) tcall" seek_record nat nat                      \<comment> \<open>store \<^verbatim>\<open>new_internal.right\<close>\<close>
  | TLink "('k, 'v) tcall" seek_record nat                            \<comment> \<open>link the new node\<close>
  | TFlag 'k seek_record                                              \<comment> \<open>\<^verbatim>\<open>remove\<close>: flag the edge to the leaf\<close>
  | CLoad "('k, 'v) tcall" seek_record                                \<comment> \<open>\<^verbatim>\<open>cleanup\<close>: load the edge to the leaf\<close>
  | CTag "('k, 'v) tcall" seek_record "nat \<times> direction"                \<comment> \<open>tag the edge to the sibling\<close>
  | CRead "('k, 'v) tcall" seek_record "nat \<times> direction"               \<comment> \<open>load the edge to the sibling\<close>
  | CCas "('k, 'v) tcall" seek_record "nat option" bool               \<comment> \<open>move the sibling up\<close>
  | TFinish "'v map_res"
  | TPanic

section \<open>Operations\<close>

definition new_leaf :: "'k tkey \<Rightarrow> 'v option \<Rightarrow> ('k, 'v) tnode" where
  "new_leaf key value = \<lparr>t_key = key, t_value = value, t_left = (None, 0), t_right = (None, 0)\<rparr>"

definition tree_alloc :: "('k, 'v) tnode \<Rightarrow> ('k, 'v) tnode list \<Rightarrow> ('k, 'v) tnode list \<times> nat" where
  "tree_alloc n ns = (ns @ [n], length ns)"

text \<open>\<^verbatim>\<open>new_internal\<close> allocates its two children and makes a node of them.\<close>

definition new_internal :: "('k, 'v) tnode \<Rightarrow> ('k, 'v) tnode \<Rightarrow> ('k, 'v) tnode list \<Rightarrow> ('k, 'v) tnode list \<times> ('k, 'v) tnode" where
  "new_internal left right ns =
     (let (ns, a) = tree_alloc left ns; (ns, b) = tree_alloc right ns in
      (ns, \<lparr>t_key = t_key right, t_value = None, t_left = (Some a, 0), t_right = (Some b, 0)\<rparr>))"

definition nm_new :: "('k, 'v) nm_tree" where
  "nm_new =
     (let inf0 = new_leaf Inf None; inf1 = new_leaf Inf None; inf2 = new_leaf Inf None;
          (ns, s) = new_internal inf0 inf1 [];
          (ns, r) = new_internal s inf2 ns;
          (ns, a) = tree_alloc r ns in
      \<lparr>t_r = a, t_nodes = ns\<rparr>)"

definition set_key :: "nat \<Rightarrow> 'k tkey \<Rightarrow> ('k, 'v) nm_tree \<Rightarrow> ('k, 'v) nm_tree" where
  "set_key a key l = l\<lparr>t_nodes := (t_nodes l)[a := (t_nodes l ! a)\<lparr>t_key := key\<rparr>]\<rparr>"

text \<open>The first use of a \<^verbatim>\<open>LazyCell\<close> allocates its node.\<close>

definition force_node :: "('k, 'v) tnode \<Rightarrow> nat option \<Rightarrow> ('k, 'v) nm_tree \<Rightarrow> ('k, 'v) nm_tree \<times> nat" where
  "force_node n cell l =
     (case cell of
        Some a \<Rightarrow> (l, a)
      | None \<Rightarrow> (let (ns, a) = tree_alloc n (t_nodes l) in (l\<lparr>t_nodes := ns\<rparr>, a)))"

text \<open>The value that the caller of \<^verbatim>\<open>get\<close> or \<^verbatim>\<open>remove\<close> borrows from the holder of a leaf.\<close>

definition value_holder :: "('k, 'v) nm_tree \<Rightarrow> nat \<Rightarrow> ('k, 'v) nm_pc" where
  "value_holder l a = (case value_of l a of Some v \<Rightarrow> TFinish (MValue (Some v)) | None \<Rightarrow> TPanic)"

text \<open>\<^verbatim>\<open>insert\<close> between its \<^verbatim>\<open>seek\<close> and its first store.\<close>

definition insert_prepare ::
  "'k :: linorder \<Rightarrow> 'v \<Rightarrow> nat option \<Rightarrow> nat option \<Rightarrow> seek_record \<Rightarrow> ('k, 'v) nm_tree \<Rightarrow> ('k, 'v) nm_tree \<times> ('k, 'v) nm_pc" where
  "insert_prepare k v nl ni rec l =
     (let ord = key_cmp (key_of l (sr_leaf rec)) k in
      if ord = Equal then (l, TFinish (MInserted False))
      else
        let (l, n) = force_node (new_leaf (Fin k) (Some v)) nl l;
            (left, right) = (if ord = Greater then (n, sr_leaf rec) else (sr_leaf rec, n));
            (l, i) = force_node \<lparr>t_key = Inf, t_value = None, t_left = (None, 0), t_right = (None, 0)\<rparr> ni l;
            l = set_key i (key_of l right) l in
        (l, TStoreL (TInsert k v (Some n) (Some i)) rec i left right))"

text \<open>What the operations do with the record that \<^verbatim>\<open>seek\<close> returns.\<close>

fun seek_done :: "('k :: linorder, 'v) tcall \<Rightarrow> seek_record \<Rightarrow> ('k, 'v) nm_tree \<Rightarrow> ('k, 'v) nm_tree \<times> ('k, 'v) nm_pc" where
  "seek_done (TInsert k v nl ni) rec l = insert_prepare k v nl ni rec l"
| "seek_done (TRemove k) rec l =
     (l, if key_cmp (key_of l (sr_leaf rec)) k \<noteq> Equal then TFinish (MValue None) else TFlag k rec)"
| "seek_done (TCleanup k b) rec l = (l, if sr_leaf rec \<noteq> b then value_holder l b else CLoad (TCleanup k b) rec)"

definition seek_next ::
  "('k :: linorder, 'v) tcall \<Rightarrow> seek_record \<Rightarrow> bool \<Rightarrow> direction \<Rightarrow> ('k, 'v) nm_tree \<Rightarrow> ('k, 'v) nm_tree \<times> ('k, 'v) nm_pc" where
  "seek_next call rec prev_tag curr_dir l =
     (case edge l (sr_leaf rec, curr_dir) of
        (None, _) \<Rightarrow> seek_done call rec l
      | (Some c, curr_tag) \<Rightarrow> (l, TSeek call rec prev_tag curr_dir c curr_tag))"

text \<open>The loop body of \<^verbatim>\<open>seek\<close> up to its load: move ancestor and successor, then parent and leaf.\<close>

definition advance :: "seek_record \<Rightarrow> bool \<Rightarrow> direction \<Rightarrow> nat \<Rightarrow> seek_record" where
  "advance rec prev_tag curr_dir c =
     (let rec = (if prev_tag then rec
                 else rec\<lparr>sr_ancestor := sr_parent rec, sr_successor := sr_leaf rec, sr_successor_dir := sr_leaf_dir rec\<rparr>) in
      rec\<lparr>sr_parent := sr_leaf rec, sr_leaf := c, sr_leaf_dir := curr_dir\<rparr>)"

definition next_dir :: "('k :: linorder, 'v) nm_tree \<Rightarrow> 'k \<Rightarrow> nat \<Rightarrow> direction" where
  "next_dir l k c = (if key_cmp (key_of l c) k = Greater then DirL else DirR)"

fun seek :: "('k :: linorder, 'v) nm_pc \<Rightarrow> ('k, 'v) nm_tree \<Rightarrow> ('k, 'v) nm_tree \<times> ('k, 'v) nm_pc" where
  "seek (TRoot call) l = (l, TLoadS call (t_r l))"
| "seek (TLoadS call r) l = (l, case fst (edge l (r, DirL)) of None \<Rightarrow> TPanic | Some s \<Rightarrow> TFirst call r s)"
| "seek (TFirst call r s) l =
     (l, case edge l (s, DirL) of
           (None, _) \<Rightarrow> TPanic
         | (Some a, leaf_tag) \<Rightarrow>
             TSecond call \<lparr>sr_ancestor = r, sr_successor = s, sr_successor_dir = DirL, sr_parent = s, sr_leaf = a, sr_leaf_dir = DirL\<rparr>
               (marks_tag (from_bits_truncate leaf_tag)))"
| "seek (TSecond call rec prev_tag) l = seek_next call rec prev_tag DirL l"
| "seek (TSeek call rec prev_tag curr_dir c curr_tag) l =
     seek_next call (advance rec prev_tag curr_dir c) (marks_tag (from_bits_truncate curr_tag)) (next_dir l (tcall_key call) c) l"
| "seek pc l = (l, pc)"

text \<open>\<^verbatim>\<open>get\<close> with its \<^verbatim>\<open>seek_leaf\<close>.\<close>

definition get_done :: "'k :: linorder \<Rightarrow> nat \<Rightarrow> ('k, 'v) nm_tree \<Rightarrow> ('k, 'v) nm_pc" where
  "get_done k a l = (if key_cmp (key_of l a) k \<noteq> Equal then TFinish (MValue None) else value_holder l a)"

fun seek_leaf :: "('k :: linorder, 'v) nm_pc \<Rightarrow> ('k, 'v) nm_tree \<Rightarrow> ('k, 'v) nm_tree \<times> ('k, 'v) nm_pc" where
  "seek_leaf (GRoot k) l = (l, GLoadS k (t_r l))"
| "seek_leaf (GLoadS k r) l = (l, case fst (edge l (r, DirL)) of None \<Rightarrow> TPanic | Some s \<Rightarrow> GFirst k s)"
| "seek_leaf (GFirst k s) l = (l, case fst (edge l (s, DirL)) of None \<Rightarrow> TPanic | Some a \<Rightarrow> GSecond k a)"
| "seek_leaf (GSecond k a) l = (l, case fst (edge l (a, DirL)) of None \<Rightarrow> get_done k a l | Some c \<Rightarrow> GSeek k c)"
| "seek_leaf (GSeek k c) l = (l, case fst (edge l (c, next_dir l k c)) of None \<Rightarrow> get_done k c l | Some d \<Rightarrow> GSeek k d)"
| "seek_leaf pc l = (l, pc)"

text \<open>What the callers of \<^verbatim>\<open>cleanup\<close> do with its result.\<close>

fun cleanup_done :: "('k, 'v) tcall \<Rightarrow> bool \<Rightarrow> ('k, 'v) nm_tree \<Rightarrow> ('k, 'v) nm_pc" where
  "cleanup_done (TCleanup k b) is_unlinked l = (if is_unlinked then value_holder l b else TRoot (TCleanup k b))"
| "cleanup_done call is_unlinked l = TRoot call"

fun cleanup :: "('k, 'v) nm_pc \<Rightarrow> ('k, 'v) nm_tree \<Rightarrow> ('k, 'v) nm_tree \<times> ('k, 'v) nm_pc" where
  "cleanup (CLoad call rec) l =
     (l, CTag call rec (if marks_flag (from_bits_truncate (snd (edge l (leaf_addr rec)))) then leaf_sibling_addr rec else leaf_addr rec))"
| "cleanup (CTag call rec target) l =
     (set_edge target (fst (edge l target), snd (edge l target) OR TAG) l, CRead call rec target)"
| "cleanup (CRead call rec target) l =
     (l, CCas call rec (fst (edge l target)) (marks_flag (from_bits_truncate (snd (edge l target)))))"
| "cleanup (CCas call rec sibling flag) l =
     (case cas_edge (successor_addr rec) (Some (sr_successor rec), 0) (sibling, marks_new flag False) l of
        (l', None) \<Rightarrow> (l', cleanup_done call True l')
      | (l', Some _) \<Rightarrow> (l', cleanup_done call False l'))"
| "cleanup pc l = (l, pc)"

text \<open>One access of a thread that is inside an operation.\<close>

fun nm_step :: "('k :: linorder, 'v) nm_pc \<Rightarrow> ('k, 'v) nm_tree \<Rightarrow> ('k, 'v) nm_tree \<times> ('k, 'v) nm_pc" where
  "nm_step (TStoreL call rec i left right) l = (set_edge (i, DirL) (Some left, 0) l, TStoreR call rec i right)"
| "nm_step (TStoreR call rec i right) l = (set_edge (i, DirR) (Some right, 0) l, TLink call rec i)"
| "nm_step (TLink call rec i) l =
     (case cas_edge (leaf_addr rec) (Some (sr_leaf rec), 0) (Some i, 0) l of
        (l', None) \<Rightarrow> (l', TFinish (MInserted True))
      | (l', Some (current, _)) \<Rightarrow> (l', if current = Some (sr_leaf rec) then CLoad call rec else TRoot call))"
| "nm_step (TFlag k rec) l =
     (case cas_edge (leaf_addr rec) (Some (sr_leaf rec), 0) (Some (sr_leaf rec), marks_new True False) l of
        (l', None) \<Rightarrow> (l', CLoad (TCleanup k (sr_leaf rec)) rec)
      | (l', Some (current, _)) \<Rightarrow> (l', if current = Some (sr_leaf rec) then CLoad (TRemove k) rec else TRoot (TRemove k)))"
| "nm_step (CLoad call rec) l = cleanup (CLoad call rec) l"
| "nm_step (CTag call rec target) l = cleanup (CTag call rec target) l"
| "nm_step (CRead call rec target) l = cleanup (CRead call rec target) l"
| "nm_step (CCas call rec sibling flag) l = cleanup (CCas call rec sibling flag) l"
| "nm_step (GRoot k) l = seek_leaf (GRoot k) l"
| "nm_step (GLoadS k r) l = seek_leaf (GLoadS k r) l"
| "nm_step (GFirst k s) l = seek_leaf (GFirst k s) l"
| "nm_step (GSecond k a) l = seek_leaf (GSecond k a) l"
| "nm_step (GSeek k c) l = seek_leaf (GSeek k c) l"
| "nm_step pc l = seek pc l"

fun nm_start :: "('k, 'v) map_op \<Rightarrow> ('k, 'v) nm_pc" where
  "nm_start (MGet k) = GRoot k"
| "nm_start (MInsert k v) = TRoot (TInsert k v None None)"
| "nm_start (MRemove k) = TRoot (TRemove k)"

section \<open>The system\<close>

type_synonym ('k, 'v) nm_sys_state = "('k, 'v) nm_tree \<times> (nat \<Rightarrow> ('k, 'v) nm_pc)"

fun nm_busy :: "('k, 'v) nm_pc \<Rightarrow> bool" where
  "nm_busy TIdle = False"
| "nm_busy (TFinish r) = False"
| "nm_busy TPanic = False"
| "nm_busy _ = True"

inductive nm_sys :: "('k :: linorder, 'v) nm_sys_state \<Rightarrow> (('k, 'v) map_op, 'v map_res) op_event option \<Rightarrow> ('k, 'v) nm_sys_state \<Rightarrow> bool" where
  n_call: "th t = TIdle \<Longrightarrow> nm_sys (l, th) (Some (Inv t p)) (l, th(t := nm_start p))"
| n_work: "nm_busy (th t) \<Longrightarrow> nm_step (th t) l = (l', pc) \<Longrightarrow> nm_sys (l, th) None (l', th(t := pc))"
| n_return: "th t = TFinish r \<Longrightarrow> nm_sys (l, th) (Some (Res t r)) (l, th(t := TIdle))"

end
