(* ===== verification/Ghost_Tree.thy ===== *)
theory Ghost_Tree
  imports Concurrent_Map
begin

text \<open>
  The tree that the nodes form which can be reached from the root, as a datatype over the addresses of the nodes: search paths in it,
  and the replacement of a subtree, which describes both insertions and removals.
\<close>

section \<open>Trees of addresses\<close>

datatype gtree = GLeaf nat | GNode nat gtree gtree

fun gaddr :: "gtree \<Rightarrow> nat" where
  "gaddr (GLeaf a) = a"
| "gaddr (GNode a L R) = a"

fun gset :: "gtree \<Rightarrow> nat set" where
  "gset (GLeaf a) = {a}"
| "gset (GNode a L R) = insert a (gset L \<union> gset R)"

fun gdist :: "gtree \<Rightarrow> bool" where
  "gdist (GLeaf a) \<longleftrightarrow> True"
| "gdist (GNode a L R) \<longleftrightarrow> a \<notin> gset L \<and> a \<notin> gset R \<and> gset L \<inter> gset R = {} \<and> gdist L \<and> gdist R"

fun gsub :: "gtree \<Rightarrow> gtree set" where
  "gsub (GLeaf a) = {GLeaf a}"
| "gsub (GNode a L R) = insert (GNode a L R) (gsub L \<union> gsub R)"

fun gchild :: "gtree \<Rightarrow> direction \<Rightarrow> gtree" where
  "gchild (GNode a L R) DirL = L"
| "gchild (GNode a L R) DirR = R"
| "gchild (GLeaf a) d = GLeaf a"

lemma gset_finite [simp]: "finite (gset T)"
  by (induction T) auto

lemma gaddr_in [simp]: "gaddr T \<in> gset T"
  by (cases T) auto

lemma gsub_refl [simp]: "T \<in> gsub T"
  by (cases T) auto

lemma gsub_trans: "X \<in> gsub Y \<Longrightarrow> Y \<in> gsub T \<Longrightarrow> X \<in> gsub T"
  by (induction T) auto

lemma gsub_set: "X \<in> gsub T \<Longrightarrow> gset X \<subseteq> gset T"
  by (induction T) auto

lemma gsub_dist: "X \<in> gsub T \<Longrightarrow> gdist T \<Longrightarrow> gdist X"
  by (induction T) auto

lemma gsub_child: "GNode a L R \<in> gsub T \<Longrightarrow> L \<in> gsub T \<and> R \<in> gsub T"
  using gsub_trans [of L "GNode a L R" T] gsub_trans [of R "GNode a L R" T] by simp

lemma gsub_at: "x \<in> gset T \<Longrightarrow> \<exists>X \<in> gsub T. gaddr X = x"
  by (induction T) auto

lemma gset_sub: "X \<in> gsub T \<Longrightarrow> gaddr X \<in> gset T"
  using gsub_set by fastforce

lemma gsub_unique: "gdist T \<Longrightarrow> X \<in> gsub T \<Longrightarrow> Y \<in> gsub T \<Longrightarrow> gaddr X = gaddr Y \<Longrightarrow> X = Y"
proof (induction T)
  case (GNode a L R)
  then show ?case using gset_sub by fastforce
qed simp

lemma gsub_side:
  assumes "gdist (GNode a L R)" "X \<in> gsub (GNode a L R)" "X \<noteq> GNode a L R"
  obtains "X \<in> gsub L" "gaddr X \<notin> gset R" "a \<notin> gset X" "gset X \<inter> gset R = {}"
    | "X \<in> gsub R" "gaddr X \<notin> gset L" "a \<notin> gset X" "gset X \<inter> gset L = {}"
proof -
  have "X \<in> gsub L \<or> X \<in> gsub R" using assms by simp
  then show ?thesis
  proof
    assume X: "X \<in> gsub L"
    then show ?thesis using that(1) assms(1) gsub_set [OF X] gset_sub [OF X] by auto
  next
    assume X: "X \<in> gsub R"
    then show ?thesis using that(2) assms(1) gsub_set [OF X] gset_sub [OF X] by auto
  qed
qed

lemma gdist_roots: "gdist (GNode a L R) \<Longrightarrow> gaddr L \<noteq> gaddr R \<and> gaddr L \<notin> gset R \<and> gaddr R \<notin> gset L"
  using gaddr_in [of L] gaddr_in [of R] by (metis disjoint_iff gdist.simps(2))

text \<open>The pointers \<open>E\<close> of the nodes form the tree.\<close>

fun shape :: "(nat \<times> direction \<Rightarrow> nat option) \<Rightarrow> gtree \<Rightarrow> bool" where
  "shape E (GLeaf a) \<longleftrightarrow> E (a, DirL) = None \<and> E (a, DirR) = None"
| "shape E (GNode a L R) \<longleftrightarrow> E (a, DirL) = Some (gaddr L) \<and> E (a, DirR) = Some (gaddr R) \<and> shape E L \<and> shape E R"

lemma shape_cong: "shape E T \<Longrightarrow> (\<And>a d. a \<in> gset T \<Longrightarrow> E' (a, d) = E (a, d)) \<Longrightarrow> shape E' T"
  by (induction T) auto

lemma shape_sub: "shape E T \<Longrightarrow> X \<in> gsub T \<Longrightarrow> shape E X"
  by (induction T) auto

lemma shape_child:
  assumes "shape E X" "E (gaddr X, d) = Some c"
  obtains a L R where "X = GNode a L R" "gaddr (gchild X d) = c"
  using assms by (cases X; cases d) auto

lemma gchild_sub: "gchild X d \<in> gsub X"
  by (cases X; cases d) auto

lemma gchild_dist: "gdist (GNode a L R) \<Longrightarrow> a \<notin> gset (gchild (GNode a L R) d)"
  by (cases d) auto

lemma gchild_ne: "gdist X \<Longrightarrow> X = GNode a L R \<Longrightarrow> gchild X d \<noteq> X"
  using gchild_dist by (metis gaddr.simps(2) gaddr_in)

lemma shape_leaf: "shape E T \<Longrightarrow> GLeaf a \<in> gsub T \<Longrightarrow> E (a, d) = None"
  using shape_sub [of E T "GLeaf a"] by (cases d) auto

lemma shape_edge_set: "shape E T \<Longrightarrow> a \<in> gset T \<Longrightarrow> E (a, d) = Some c \<Longrightarrow> c \<in> gset T"
proof -
  assume s: "shape E T" "a \<in> gset T" "E (a, d) = Some c"
  obtain X where X: "X \<in> gsub T" "gaddr X = a" using gsub_at [OF s(2)] by blast
  then have "c = gaddr (gchild X d)" using shape_child [OF shape_sub [OF s(1) X(1)]] s(3) by metis
  then show ?thesis using gset_sub [OF gsub_trans [OF gchild_sub X(1)]] by simp
qed

text \<open>No pointer leads back to the root, and every other node has one parent.\<close>

lemma shape_no_back:
  assumes "gdist M" "shape E M" "y \<in> gset M"
  shows "E (y, e) \<noteq> Some (gaddr M)"
proof (cases M)
  case (GNode m M1 M2)
  have "E (y, e) = None \<or> (\<exists>w. E (y, e) = Some w \<and> w \<in> gset M1 \<union> gset M2)"
  proof (cases "y = m")
    case True
    then show ?thesis using assms GNode by (cases e) auto
  next
    case False
    then have "y \<in> gset M1 \<or> y \<in> gset M2" using assms(3) GNode by simp
    then show ?thesis using assms GNode shape_edge_set [of E M1 y e] shape_edge_set [of E M2 y e] by (cases "E (y, e)") auto
  qed
  then show ?thesis using assms(1) GNode by auto
next
  case (GLeaf m)
  then show ?thesis using assms by (cases e) auto
qed

lemma shape_parent_unique:
  assumes "gdist T" "shape E T" "a \<in> gset T" "b \<in> gset T" "E (a, d) = Some c" "E (b, d') = Some c"
  shows "a = b \<and> d = d'"
  using assms
proof (induction T arbitrary: a b d d')
  case (GNode x L R)
  have root: "z = x" if "z \<in> gset (GNode x L R)" "E (z, e) = Some c" "c = gaddr L \<or> c = gaddr R" for z e
  proof (rule ccontr)
    assume "z \<noteq> x"
    then have "z \<in> gset L \<or> z \<in> gset R" using that(1) by simp
    then show False
      using shape_no_back [of L E z e] shape_no_back [of R E z e] that GNode.prems(1,2) shape_edge_set [of E L z e c] shape_edge_set [of E R z e c]
      by (metis (no_types, lifting) disjoint_iff gaddr_in gdist.simps(2) shape.simps(2))
  qed
  show ?case
  proof (cases "c = gaddr L \<or> c = gaddr R")
    case True
    then have "a = x" "b = x" using root GNode.prems by blast+
    moreover have "gaddr L \<noteq> gaddr R" using gdist_roots [OF GNode.prems(1)] by simp
    ultimately show ?thesis using GNode.prems by (cases d; cases d') auto
  next
    case False
    then have "a \<noteq> x" "b \<noteq> x" using GNode.prems by (cases d; cases d'; auto)+
    then consider "a \<in> gset L" "b \<in> gset L" | "a \<in> gset R" "b \<in> gset R" | "a \<in> gset L" "b \<in> gset R" | "a \<in> gset R" "b \<in> gset L"
      using GNode.prems by auto
    then show ?thesis
    proof cases
      case 1
      then show ?thesis using GNode.IH(1) GNode.prems by auto
    next
      case 2
      then show ?thesis using GNode.IH(2) GNode.prems by auto
    next
      case 3
      then show ?thesis using GNode.prems shape_edge_set [of E L a d c] shape_edge_set [of E R b d' c] by auto
    next
      case 4
      then show ?thesis using GNode.prems shape_edge_set [of E R a d c] shape_edge_set [of E L b d' c] by auto
    qed
  qed
next
  case (GLeaf x)
  then show ?case by (cases d) auto
qed

section \<open>Search paths\<close>

text \<open>\<open>D\<close> gives the direction in which a search goes on at each node.\<close>

fun gpath :: "(nat \<Rightarrow> direction) \<Rightarrow> gtree \<Rightarrow> nat set" where
  "gpath D (GLeaf a) = {a}"
| "gpath D (GNode a L R) = insert a (case D a of DirL \<Rightarrow> gpath D L | DirR \<Rightarrow> gpath D R)"

fun gend :: "(nat \<Rightarrow> direction) \<Rightarrow> gtree \<Rightarrow> nat" where
  "gend D (GLeaf a) = a"
| "gend D (GNode a L R) = (case D a of DirL \<Rightarrow> gend D L | DirR \<Rightarrow> gend D R)"

lemma gpath_set: "x \<in> gpath D T \<Longrightarrow> x \<in> gset T"
  by (induction T) (auto split: direction.splits)

lemma gpath_root [simp]: "gaddr T \<in> gpath D T"
  by (cases T) auto

lemma gend_path [simp]: "gend D T \<in> gpath D T"
  by (induction T) (auto split: direction.splits)

lemma gend_leaf: "GLeaf (gend D T) \<in> gsub T"
  by (induction T) (auto split: direction.splits)

lemma gpath_cong: "(\<And>a. a \<in> gset T \<Longrightarrow> D' a = D a) \<Longrightarrow> gpath D' T = gpath D T \<and> gend D' T = gend D T"
  by (induction T) (auto split: direction.splits)

lemma gpath_next:
  assumes "shape E T" "x \<in> gpath D T" "E (x, D x) = Some y" "gdist T"
  shows "y \<in> gpath D T"
  using assms
proof (induction T)
  case (GNode a L R)
  show ?case
  proof (cases "x = a")
    case True
    then show ?thesis using GNode.prems by (cases "D a") auto
  next
    case False
    then show ?thesis using GNode by (cases "D a") auto
  qed
next
  case (GLeaf a)
  then show ?case by (cases "D a") auto
qed

lemma gpath_last:
  assumes "shape E T" "x \<in> gpath D T" "E (x, D x) = None"
  shows "x = gend D T"
  using assms
proof (induction T)
  case (GNode a L R)
  then show ?case by (cases "D a") auto
qed simp

text \<open>The part of a search path below a node of it.\<close>

lemma gpath_sub:
  assumes "gdist T" "X \<in> gsub T" "gaddr X \<in> gpath D T"
  shows "gpath D X \<subseteq> gpath D T" "gend D X = gend D T" "x \<in> gpath D T \<Longrightarrow> x \<in> gset X \<Longrightarrow> x \<in> gpath D X"
proof -
  have "gpath D X \<subseteq> gpath D T \<and> gend D X = gend D T \<and> (\<forall>x. x \<in> gpath D T \<longrightarrow> x \<in> gset X \<longrightarrow> x \<in> gpath D X)"
    using assms
  proof (induction T)
    case (GNode a L R)
    show ?case
    proof (cases "X = GNode a L R")
      case False
      then have X: "X \<in> gsub (gchild (GNode a L R) (D a))" "gaddr X \<in> gpath D (gchild (GNode a L R) (D a))"
        using GNode.prems gset_sub [of X L] gset_sub [of X R] gpath_set [of "gaddr X" D L] gpath_set [of "gaddr X" D R] by (cases "D a"; auto)+
      have "a \<notin> gset X" using GNode.prems(1) X(1) gsub_set [of X] by (cases "D a") fastforce+
      then show ?thesis using GNode X by (cases "D a") auto
    qed simp
  qed simp
  then show "gpath D X \<subseteq> gpath D T" "gend D X = gend D T" "x \<in> gpath D T \<Longrightarrow> x \<in> gset X \<Longrightarrow> x \<in> gpath D X" by blast+
qed

text \<open>A node of the path that lies in a subtree: the path enters the subtree at its root.\<close>

lemma gpath_enter:
  assumes "gdist T" "X \<in> gsub T" "x \<in> gpath D T" "x \<in> gset X"
  shows "gaddr X \<in> gpath D T"
  using assms
proof (induction T)
  case (GNode a L R)
  show ?case
  proof (cases "X = GNode a L R")
    case False
    then have X: "X \<in> gsub L \<or> X \<in> gsub R" using GNode.prems(2) by simp
    then have "x \<noteq> a" using GNode.prems gsub_set by fastforce
    then show ?thesis using X GNode gsub_set [of X L] gsub_set [of X R] gpath_set [of x D L] gpath_set [of x D R] by (cases "D a") auto
  qed simp
qed simp

section \<open>Replacing a subtree\<close>

fun repl :: "nat \<Rightarrow> gtree \<Rightarrow> gtree \<Rightarrow> gtree" where
  "repl x S (GLeaf a) = (if a = x then S else GLeaf a)"
| "repl x S (GNode a L R) = (if a = x then S else GNode a (repl x S L) (repl x S R))"

lemma repl_id: "x \<notin> gset T \<Longrightarrow> repl x S T = T"
  by (induction T) auto

lemma repl_root [simp]: "repl (gaddr T) S T = S"
  by (cases T) auto

lemma repl_set:
  assumes "gdist T" "X \<in> gsub T"
  shows "gset (repl (gaddr X) S T) = gset T - gset X \<union> gset S"
  using assms
proof (induction T)
  case (GNode a L R)
  show ?case
  proof (cases "X = GNode a L R")
    case False
    show ?thesis
      using GNode.prems(1,2) False
    proof (cases rule: gsub_side)
      case 1
      then have "gaddr X \<noteq> a" by auto
      then show ?thesis using 1 GNode repl_id by auto
    next
      case 2
      then have "gaddr X \<noteq> a" by auto
      then show ?thesis using 2 GNode repl_id by auto
    qed
  qed auto
qed auto

lemma repl_dist:
  assumes "gdist T" "X \<in> gsub T" "gdist S" "gset S \<inter> (gset T - gset X) = {}"
  shows "gdist (repl (gaddr X) S T)"
  using assms
proof (induction T)
  case (GNode a L R)
  show ?case
  proof (cases "X = GNode a L R")
    case False
    show ?thesis
      using GNode.prems(1,2) False
    proof (cases rule: gsub_side)
      case 1
      then have "gdist (repl (gaddr X) S L)" by (intro GNode.IH(1)) (use GNode.prems in auto)
      moreover have "gaddr X \<noteq> a" using 1 by auto
      ultimately show ?thesis using 1 GNode.prems repl_set [OF _ 1(1), of S] repl_id [OF 1(2)] by auto
    next
      case 2
      then have "gdist (repl (gaddr X) S R)" by (intro GNode.IH(2)) (use GNode.prems in auto)
      moreover have "gaddr X \<noteq> a" using 2 by auto
      ultimately show ?thesis using 2 GNode.prems repl_set [OF _ 2(1), of S] repl_id [OF 2(2)] by auto
    qed
  qed (use GNode.prems in simp)
qed auto

lemma repl_gaddr: "x \<noteq> gaddr T \<Longrightarrow> gaddr (repl x S T) = gaddr T"
  by (cases T) auto

lemma repl_shape:
  assumes "gdist T" "shape E T" "a \<in> gset T" "E (a, d) = Some x"
    and E': "E' (a, d) = Some (gaddr S)" "\<And>b e. b \<in> gset T \<Longrightarrow> (b, e) \<noteq> (a, d) \<Longrightarrow> E' (b, e) = E (b, e)"
    and S: "shape E' S"
  shows "shape E' (repl x S T)"
  using assms(1-4) E'(2)
proof (induction T)
  case (GLeaf b)
  then show ?case by (cases d) auto
next
  case (GNode b L R)
  have keep: "shape E' M" if "shape E M" "a \<notin> gset M" "gset M \<subseteq> gset (GNode b L R)" for M
  proof (rule shape_cong [OF that(1)])
    show "E' (m, e) = E (m, e)" if "m \<in> gset M" for m e
      using that \<open>a \<notin> gset M\<close> \<open>gset M \<subseteq> _\<close> by (intro GNode.prems(5)) auto
  qed
  have xb: "x \<in> gset L \<union> gset R"
    using GNode.prems shape_edge_set [of E L a d x] shape_edge_set [of E R a d x] by (cases "a = b"; cases d) auto
  then have "x \<noteq> b" using GNode.prems(1) by auto
  have root: "a = b" if "x = gaddr M" "M = L \<or> M = R" for M
  proof -
    have "b \<in> gset (GNode b L R)" "E (b, if M = L then DirL else DirR) = Some x" using that GNode.prems(2) by auto
    from shape_parent_unique [OF GNode.prems(1,2) this(1) GNode.prems(3) this(2) GNode.prems(4)] show ?thesis by simp
  qed
  show ?case
  proof (cases "a = b")
    case True
    show ?thesis
    proof (cases d)
      case DirL
      then have x: "x = gaddr L" using True GNode.prems by simp
      then have "x \<notin> gset R" using gdist_roots [OF GNode.prems(1)] by simp
      then show ?thesis using True DirL x GNode.prems S repl_id keep [of R] \<open>x \<noteq> b\<close> E'(1) by auto
    next
      case DirR
      then have x: "x = gaddr R" using True GNode.prems by simp
      then have "x \<notin> gset L" using gdist_roots [OF GNode.prems(1)] by simp
      then show ?thesis using True DirR x GNode.prems S repl_id keep [of L] \<open>x \<noteq> b\<close> E'(1) by auto
    qed
  next
    case False
    then have ne: "x \<noteq> gaddr L" "x \<noteq> gaddr R" using root by blast+
    from False GNode.prems(1,3) consider "a \<in> gset L" "a \<notin> gset R" | "a \<in> gset R" "a \<notin> gset L" by auto
    then show ?thesis
    proof cases
      case 1
      then have "x \<in> gset L" using GNode.prems shape_edge_set [of E L a d x] by auto
      then have "x \<notin> gset R" using GNode.prems(1) by auto
      then show ?thesis using 1 GNode repl_id repl_gaddr [OF ne(1)] keep [of R] \<open>x \<noteq> b\<close> False by auto
    next
      case 2
      then have "x \<in> gset R" using GNode.prems shape_edge_set [of E R a d x] by auto
      then have "x \<notin> gset L" using GNode.prems(1) by auto
      then show ?thesis using 2 GNode repl_id repl_gaddr [OF ne(2)] keep [of L] \<open>x \<noteq> b\<close> False by auto
    qed
  qed
qed

lemma repl_path:
  assumes "gdist T" "X \<in> gsub T"
  shows "gaddr X \<in> gpath D T \<Longrightarrow> gpath D (repl (gaddr X) S T) = gpath D T - gset X \<union> gpath D S \<and> gend D (repl (gaddr X) S T) = gend D S"
    "gaddr X \<notin> gpath D T \<Longrightarrow> gpath D (repl (gaddr X) S T) = gpath D T \<and> gend D (repl (gaddr X) S T) = gend D T"
proof -
  have "(gaddr X \<in> gpath D T \<longrightarrow> gpath D (repl (gaddr X) S T) = gpath D T - gset X \<union> gpath D S \<and> gend D (repl (gaddr X) S T) = gend D S) \<and>
    (gaddr X \<notin> gpath D T \<longrightarrow> gpath D (repl (gaddr X) S T) = gpath D T \<and> gend D (repl (gaddr X) S T) = gend D T)"
    using assms
  proof (induction T)
    case (GNode a L R)
    show ?case
    proof (cases "X = GNode a L R")
      case True
      then show ?thesis using gpath_set [of _ D "GNode a L R"] by (simp add: subset_iff) blast
    next
      case False
      show ?thesis
        using GNode.prems(1,2) False
      proof (cases rule: gsub_side)
        case 1
        then have "gaddr X \<noteq> a" by auto
        then show ?thesis using 1 GNode repl_id [OF 1(2)] gpath_set [of _ D R] by (cases "D a") auto
      next
        case 2
        then have "gaddr X \<noteq> a" by auto
        then show ?thesis using 2 GNode repl_id [OF 2(2)] gpath_set [of _ D L] by (cases "D a") auto
      qed
    qed
  qed auto
  then show "gaddr X \<in> gpath D T \<Longrightarrow> gpath D (repl (gaddr X) S T) = gpath D T - gset X \<union> gpath D S \<and> gend D (repl (gaddr X) S T) = gend D S"
    "gaddr X \<notin> gpath D T \<Longrightarrow> gpath D (repl (gaddr X) S T) = gpath D T \<and> gend D (repl (gaddr X) S T) = gend D T" by blast+
qed

end
