(* ===== verification/NM_Inv.thy ===== *)
theory NM_Inv
  imports NM_Tree Ghost_Tree
begin

unbundle bit_operations_syntax

text \<open>
  The invariant of the search tree. \<open>P\<close> are the nodes that have been published, \<open>T\<close> is the tree that is reachable from the root. A node that
  has left the tree has marks on both its edges, so that it does not change any more. Every change of the tree is a move, and a
  move keeps what other threads have found out.
\<close>

section \<open>Marks\<close>

lemma mark_bits [simp]: "FLAG = 2" "TAG = 1"
  by (simp_all add: FLAG_def TAG_def)

lemma truncate_marks [simp]: "marks_flag (from_bits_truncate m) = marks_flag m" "marks_tag (from_bits_truncate m) = marks_tag m"
  by (simp_all add: marks_flag_def marks_tag_def from_bits_truncate_def and.assoc)

lemma marks_new_simps [simp]: "marks_new True False = 2" "marks_new False False = 0"
  by (simp_all add: marks_new_def)

lemma marks_simps [simp]: "\<not> marks_flag 0" "\<not> marks_tag 0" "marks_flag 2" "\<not> marks_tag 2" "marks_flag 3" "marks_tag 3" "\<not> marks_flag 1" "marks_tag 1"
  by (simp_all add: marks_flag_def marks_tag_def)

lemma tag_marks: "m \<in> {0, 1, 2, 3} \<Longrightarrow> m OR 1 \<in> {1, 3 :: usize} \<and> (marks_flag (m OR 1) \<longleftrightarrow> marks_flag m)"
  by auto

lemma marks_zero: "m \<in> {0, 1, 2, 3 :: usize} \<Longrightarrow> m \<noteq> 0 \<longleftrightarrow> marks_flag m \<or> marks_tag m"
  by auto

lemma marks_tag_or: "m \<in> {0, 1, 2, 3 :: usize} \<Longrightarrow> marks_tag m \<Longrightarrow> m OR 1 = m"
  by auto

lemma other_dir_simps [simp]: "other_dir (other_dir d) = d" "other_dir d \<noteq> d" "d \<noteq> other_dir d"
  by (cases d; simp)+

lemma dir_cases: "e = d \<or> e = other_dir d"
  by (cases e; cases d) auto

section \<open>Edges\<close>

abbreviation tn :: "('k, 'v) nm_tree \<Rightarrow> nat" where
  "tn l \<equiv> length (t_nodes l)"

definition ptr :: "('k, 'v) nm_tree \<Rightarrow> nat \<times> direction \<Rightarrow> nat option" where
  "ptr l e = fst (edge l e)"

definition marked :: "('k, 'v) nm_tree \<Rightarrow> nat \<times> direction \<Rightarrow> bool" where
  "marked l e \<longleftrightarrow> snd (edge l e) \<noteq> 0"

definition flagged :: "('k, 'v) nm_tree \<Rightarrow> nat \<times> direction \<Rightarrow> bool" where
  "flagged l e \<longleftrightarrow> marks_flag (snd (edge l e))"

definition tagged :: "('k, 'v) nm_tree \<Rightarrow> nat \<times> direction \<Rightarrow> bool" where
  "tagged l e \<longleftrightarrow> marks_tag (snd (edge l e))"

definition is_leaf :: "('k, 'v) nm_tree \<Rightarrow> nat \<Rightarrow> bool" where
  "is_leaf l a \<longleftrightarrow> ptr l (a, DirL) = None"

lemma set_edge_simps [simp]:
  "key_of (set_edge e p l) a = key_of l a" "value_of (set_edge e p l) a = value_of l a" "tn (set_edge e p l) = tn l"
  "t_r (set_edge e p l) = t_r l"
proof -
  obtain b d where e: "e = (b, d)" by (cases e)
  show "key_of (set_edge e p l) a = key_of l a"
    unfolding e set_edge_def key_of_def by (cases d; cases "b < tn l"; simp add: nth_list_update not_less list_update_beyond)
  show "value_of (set_edge e p l) a = value_of l a"
    unfolding e set_edge_def value_of_def by (cases d; cases "b < tn l"; simp add: nth_list_update not_less list_update_beyond)
  show "tn (set_edge e p l) = tn l" unfolding e set_edge_def by (cases d) simp_all
qed (simp add: set_edge_def)

lemma edge_set_edge: "a < tn l \<Longrightarrow> edge (set_edge (a, d) p l) e = (if e = (a, d) then p else edge l e)"
  by (cases e; cases d; cases "snd e"; auto simp: set_edge_def edge_def nth_list_update)

lemma next_dir_cong: "key_of l' a = key_of l a \<Longrightarrow> next_dir l' k a = next_dir l k a"
  by (simp add: next_dir_def)

lemma next_dir_Inf [simp]: "key_of l a = Inf \<Longrightarrow> next_dir l k a = DirL"
  by (simp add: next_dir_def)

lemma key_cmp_Equal [simp]: "key_cmp x k = Equal \<longleftrightarrow> x = Fin k"
  by (cases x) auto

lemma key_cmp_consistent: "key_partial_cmp x (Fin k) = Some (key_cmp x k)"
  by (cases x) auto

section \<open>The invariant\<close>

definition edges_ok :: "('k, 'v) nm_tree \<Rightarrow> nat set \<Rightarrow> bool" where
  "edges_ok l P \<longleftrightarrow> (\<forall>a \<in> P. a < tn l \<and>
     ((\<forall>d. edge l (a, d) = (None, 0)) \<or> (\<forall>d. \<exists>b \<in> P. ptr l (a, d) = Some b)) \<and>
     (\<forall>d. snd (edge l (a, d)) \<in> {0, 1, 2, 3}) \<and>
     (\<forall>d. tagged l (a, d) \<longrightarrow> flagged l (a, other_dir d)) \<and>
     (\<forall>d. flagged l (a, d) \<longrightarrow> (\<exists>b k. ptr l (a, d) = Some b \<and> is_leaf l b \<and> key_of l b = Fin k)) \<and>
     (\<forall>k. is_leaf l a \<and> key_of l a = Fin k \<longrightarrow> value_of l a \<noteq> None))"

text \<open>The sentinels of the empty tree stay where they are: 4 is \<^verbatim>\<open>r\<close>, 2 is \<^verbatim>\<open>s\<close>, and 0, 1 and 3 are the infinite leaves.\<close>

definition top_ok :: "('k, 'v) nm_tree \<Rightarrow> gtree \<Rightarrow> bool" where
  "top_ok l T \<longleftrightarrow> t_r l = 4 \<and>
     (\<exists>A. T = GNode 4 (GNode 2 A (GLeaf 1)) (GLeaf 3) \<and> (A = GLeaf 0 \<or> (\<exists>n B. A = GNode n B (GLeaf 0) \<and> key_of l n = Inf))) \<and>
     (\<forall>a \<in> {0, 1, 2, 3, 4}. key_of l a = Inf) \<and> (\<forall>d. \<not> marked l (2, d) \<and> \<not> marked l (4, d))"

definition tree_ok :: "('k :: linorder, 'v) nm_tree \<Rightarrow> nat set \<Rightarrow> gtree \<Rightarrow> bool" where
  "tree_ok l P T \<longleftrightarrow> edges_ok l P \<and> gset T \<subseteq> P \<and> gdist T \<and> shape (ptr l) T \<and>
     (\<forall>a \<in> P - gset T. \<forall>d. ptr l (a, d) \<noteq> None \<longrightarrow> marked l (a, d)) \<and>
     (\<forall>b \<in> gset T. \<forall>k. is_leaf l b \<and> key_of l b = Fin k \<longrightarrow> gend (next_dir l k) T = b) \<and> top_ok l T"

lemma edges_okD:
  assumes "edges_ok l P" "a \<in> P"
  shows "a < tn l" "snd (edge l (a, d)) \<in> {0, 1, 2, 3}" "tagged l (a, d) \<Longrightarrow> flagged l (a, other_dir d)"
    "flagged l (a, d) \<Longrightarrow> \<exists>b k. ptr l (a, d) = Some b \<and> is_leaf l b \<and> key_of l b = Fin k"
    "is_leaf l a \<Longrightarrow> key_of l a = Fin k \<Longrightarrow> value_of l a \<noteq> None"
    "is_leaf l a \<Longrightarrow> edge l (a, d) = (None, 0)" "\<not> is_leaf l a \<Longrightarrow> \<exists>b \<in> P. ptr l (a, d) = Some b"
    "ptr l (a, d) = None \<longleftrightarrow> is_leaf l a" "marked l (a, d) \<longleftrightarrow> flagged l (a, d) \<or> tagged l (a, d)"
proof -
  show "marked l (a, d) \<longleftrightarrow> flagged l (a, d) \<or> tagged l (a, d)"
  proof -
    have "snd (edge l (a, d)) \<in> {0, 1, 2, 3}" using assms unfolding edges_ok_def by blast
    from marks_zero [OF this] show ?thesis by (simp add: marked_def flagged_def tagged_def)
  qed
  have "(\<forall>d. edge l (a, d) = (None, 0)) \<or> (\<forall>d. \<exists>b \<in> P. ptr l (a, d) = Some b)"
    using assms unfolding edges_ok_def by blast
  then have "(is_leaf l a \<longrightarrow> edge l (a, d) = (None, 0)) \<and> (\<not> is_leaf l a \<longrightarrow> (\<exists>b \<in> P. ptr l (a, d) = Some b)) \<and>
    (ptr l (a, d) = None \<longleftrightarrow> is_leaf l a)"
  proof
    assume x: "\<forall>d. \<exists>b \<in> P. ptr l (a, d) = Some b"
    show ?thesis using spec [OF x, of DirL] spec [OF x, of d] unfolding is_leaf_def by force
  qed (simp add: is_leaf_def ptr_def)
  then show "is_leaf l a \<Longrightarrow> edge l (a, d) = (None, 0)" "\<not> is_leaf l a \<Longrightarrow> \<exists>b \<in> P. ptr l (a, d) = Some b" "ptr l (a, d) = None \<longleftrightarrow> is_leaf l a"
    by blast+
qed (use assms in \<open>unfold edges_ok_def, blast\<close>)+

lemma tree_okD:
  assumes "tree_ok l P T"
  shows "edges_ok l P" "gset T \<subseteq> P" "gdist T" "shape (ptr l) T"
    "a \<in> P \<Longrightarrow> a \<notin> gset T \<Longrightarrow> ptr l (a, d) \<noteq> None \<Longrightarrow> marked l (a, d)"
    "b \<in> gset T \<Longrightarrow> is_leaf l b \<Longrightarrow> key_of l b = Fin k \<Longrightarrow> gend (next_dir l k) T = b" "top_ok l T"
  using assms by (auto simp: tree_ok_def)

text \<open>A node whose edge has no marks is in the tree.\<close>

lemma unmarked_in_tree:
  assumes "tree_ok l P T" "a \<in> P" "edge l (a, d) = (Some x, 0)"
  shows "a \<in> gset T" "x \<in> gset T"
proof -
  show a: "a \<in> gset T" using tree_okD(5) [OF assms(1,2), of d] assms(3) by (auto simp: ptr_def marked_def)
  show "x \<in> gset T" using shape_edge_set [OF tree_okD(4) [OF assms(1)] a, of d x] assms(3) by (simp add: ptr_def)
qed

lemma end_leaf:
  assumes "tree_ok l P T"
  shows "is_leaf l (gend D T)" "x \<in> gpath D T \<Longrightarrow> is_leaf l x \<Longrightarrow> x = gend D T"
proof -
  show "is_leaf l (gend D T)"
    using shape_leaf [OF tree_okD(4) [OF assms] gend_leaf] by (simp add: is_leaf_def)
  assume x: "x \<in> gpath D T" "is_leaf l x"
  then have "x \<in> P" using gpath_set tree_okD(2) [OF assms] by blast
  then have "ptr l (x, D x) = None" using edges_okD(6) [OF tree_okD(1) [OF assms] _ x(2)] by (simp add: ptr_def)
  then show "x = gend D T" using gpath_last [OF tree_okD(4) [OF assms] x(1)] by simp
qed

text \<open>The contents of the tree.\<close>

definition tmap :: "('k :: linorder, 'v) nm_tree \<Rightarrow> gtree \<Rightarrow> 'k \<rightharpoonup> 'v" where
  "tmap l T k = (let b = gend (next_dir l k) T in if key_of l b = Fin k then value_of l b else None)"

lemma tmap_leaf:
  assumes "tree_ok l P T" "b \<in> gset T" "is_leaf l b" "key_of l b = Fin k"
  shows "tmap l T k = value_of l b"
  using tree_okD(6) [OF assms] assms(4) by (simp add: tmap_def)

section \<open>Moves\<close>

definition moves :: "('k :: linorder, 'v) nm_tree \<Rightarrow> nat set \<Rightarrow> gtree \<Rightarrow> ('k, 'v) nm_tree \<Rightarrow> nat set \<Rightarrow> gtree \<Rightarrow> bool" where
  "moves l P T l' P' T' \<longleftrightarrow> tree_ok l' P' T' \<and> P \<subseteq> P' \<and> (P - gset T) \<inter> gset T' = {} \<and>
     (\<forall>a \<in> P. key_of l' a = key_of l a \<and> value_of l' a = value_of l a) \<and>
     (\<forall>a \<in> P. \<forall>d. ptr l' (a, d) = None \<longleftrightarrow> ptr l (a, d) = None) \<and>
     (\<forall>a \<in> P. \<forall>d. marked l (a, d) \<longrightarrow> ptr l' (a, d) = ptr l (a, d) \<and> (flagged l (a, d) \<longrightarrow> flagged l' (a, d)) \<and>
        (tagged l (a, d) \<longrightarrow> edge l' (a, d) = edge l (a, d))) \<and>
     (\<forall>a \<in> P - gset T'. \<forall>d. ptr l' (a, d) = ptr l (a, d)) \<and>
     (\<forall>k. \<forall>a \<in> gset T \<inter> gset T'. \<not> is_leaf l a \<and> a \<in> gpath (next_dir l k) T \<longrightarrow> a \<in> gpath (next_dir l' k) T') \<and>
     (\<forall>b \<in> P. (\<forall>a \<in> gset T. \<forall>d. ptr l (a, d) = Some b \<longrightarrow> flagged l (a, d)) \<longrightarrow>
        (\<forall>a \<in> gset T'. \<forall>d. ptr l' (a, d) = Some b \<longrightarrow> flagged l' (a, d)))"

lemma movesD:
  assumes "moves l P T l' P' T'"
  shows "tree_ok l' P' T'" "P \<subseteq> P'" "a \<in> P \<Longrightarrow> a \<in> gset T' \<Longrightarrow> a \<in> gset T"
    "a \<in> P \<Longrightarrow> key_of l' a = key_of l a" "a \<in> P \<Longrightarrow> value_of l' a = value_of l a"
    "a \<in> P \<Longrightarrow> is_leaf l' a \<longleftrightarrow> is_leaf l a"
    "a \<in> P \<Longrightarrow> marked l (a, d) \<Longrightarrow> ptr l' (a, d) = ptr l (a, d)"
    "a \<in> P \<Longrightarrow> flagged l (a, d) \<Longrightarrow> flagged l' (a, d)"
    "a \<in> P \<Longrightarrow> tagged l (a, d) \<Longrightarrow> edge l' (a, d) = edge l (a, d)"
    "a \<in> P \<Longrightarrow> a \<notin> gset T' \<Longrightarrow> ptr l' (a, d) = ptr l (a, d)"
    "a \<in> gset T \<Longrightarrow> a \<in> gset T' \<Longrightarrow> \<not> is_leaf l a \<Longrightarrow> a \<in> gpath (next_dir l k) T \<Longrightarrow> a \<in> gpath (next_dir l' k) T'"
    "b \<in> P \<Longrightarrow> \<forall>a \<in> gset T. \<forall>d. ptr l (a, d) = Some b \<longrightarrow> flagged l (a, d) \<Longrightarrow> c \<in> gset T' \<Longrightarrow> ptr l' (c, d) = Some b \<Longrightarrow> flagged l' (c, d)"
proof -
  have m: "marked l (a, d)" if "flagged l (a, d) \<or> tagged l (a, d)" for a d
    using that by (auto simp: marked_def flagged_def tagged_def)
  show "a \<in> P \<Longrightarrow> flagged l (a, d) \<Longrightarrow> flagged l' (a, d)" "a \<in> P \<Longrightarrow> tagged l (a, d) \<Longrightarrow> edge l' (a, d) = edge l (a, d)"
    using assms m unfolding moves_def by blast+
  show "a \<in> P \<Longrightarrow> a \<in> gset T' \<Longrightarrow> a \<in> gset T" using assms unfolding moves_def by blast
  show "b \<in> P \<Longrightarrow> \<forall>a \<in> gset T. \<forall>d. ptr l (a, d) = Some b \<longrightarrow> flagged l (a, d) \<Longrightarrow> c \<in> gset T' \<Longrightarrow> ptr l' (c, d) = Some b \<Longrightarrow> flagged l' (c, d)"
    using assms unfolding moves_def by blast
  show "a \<in> gset T \<Longrightarrow> a \<in> gset T' \<Longrightarrow> \<not> is_leaf l a \<Longrightarrow> a \<in> gpath (next_dir l k) T \<Longrightarrow> a \<in> gpath (next_dir l' k) T'"
    using assms unfolding moves_def by blast
qed (use assms in \<open>auto simp: moves_def is_leaf_def\<close>)

lemma movesI:
  assumes "tree_ok l' P' T'" "P \<subseteq> P'" "\<And>a. a \<in> P \<Longrightarrow> a \<notin> gset T \<Longrightarrow> a \<notin> gset T'"
    and "\<And>a. a \<in> P \<Longrightarrow> key_of l' a = key_of l a" "\<And>a. a \<in> P \<Longrightarrow> value_of l' a = value_of l a"
    and "\<And>a d. a \<in> P \<Longrightarrow> ptr l' (a, d) = None \<longleftrightarrow> ptr l (a, d) = None"
    and "\<And>a d. a \<in> P \<Longrightarrow> marked l (a, d) \<Longrightarrow> ptr l' (a, d) = ptr l (a, d)"
    and "\<And>a d. a \<in> P \<Longrightarrow> flagged l (a, d) \<Longrightarrow> flagged l' (a, d)"
    and "\<And>a d. a \<in> P \<Longrightarrow> tagged l (a, d) \<Longrightarrow> edge l' (a, d) = edge l (a, d)"
    and "\<And>a d. a \<in> P \<Longrightarrow> a \<notin> gset T' \<Longrightarrow> ptr l' (a, d) = ptr l (a, d)"
    and "\<And>a k. a \<in> gset T \<Longrightarrow> a \<in> gset T' \<Longrightarrow> \<not> is_leaf l a \<Longrightarrow> a \<in> gpath (next_dir l k) T \<Longrightarrow> a \<in> gpath (next_dir l' k) T'"
    and "\<And>a b d. b \<in> P \<Longrightarrow> \<forall>a \<in> gset T. \<forall>d. ptr l (a, d) = Some b \<longrightarrow> flagged l (a, d) \<Longrightarrow> a \<in> gset T' \<Longrightarrow>
      ptr l' (a, d) = Some b \<Longrightarrow> flagged l' (a, d)"
  shows "moves l P T l' P' T'"
  unfolding moves_def
proof (intro conjI ballI allI impI)
  show "(P - gset T) \<inter> gset T' = {}" using assms(3) by blast
qed (use assms in auto)

end
