(* ===== verification/NM_Moves.thy ===== *)
theory NM_Moves
  imports NM_Inv
begin

unbundle bit_operations_syntax

text \<open>
  The changes that the operations make to the tree are moves: work on nodes that are not published yet, marking an edge, linking a new
  leaf, and unlinking a chain of nodes that are being removed.
\<close>

section \<open>Work on private nodes\<close>

definition same_nodes :: "('k, 'v) nm_tree \<Rightarrow> ('k, 'v) nm_tree \<Rightarrow> nat set \<Rightarrow> bool" where
  "same_nodes l l' A \<longleftrightarrow> t_r l' = t_r l \<and> tn l \<le> tn l' \<and> (\<forall>a \<in> A. t_nodes l' ! a = t_nodes l ! a)"

lemma same_nodesD:
  assumes "same_nodes l l' A" "a \<in> A"
  shows "edge l' (a, d) = edge l (a, d)" "key_of l' a = key_of l a" "value_of l' a = value_of l a" "ptr l' (a, d) = ptr l (a, d)"
    "marked l' (a, d) = marked l (a, d)" "flagged l' (a, d) = flagged l (a, d)" "tagged l' (a, d) = tagged l (a, d)" "is_leaf l' a = is_leaf l a"
    "next_dir l' k a = next_dir l k a"
  using assms
  by (auto simp: same_nodes_def edge_def key_of_def value_of_def ptr_def marked_def flagged_def tagged_def is_leaf_def next_dir_def
      split: direction.splits)

lemma same_edges:
  fixes l :: "('k :: linorder, 'v) nm_tree"
  assumes ok: "edges_ok l P" and s: "same_nodes l l' P"
  shows "edges_ok l' P"
  unfolding edges_ok_def
proof
  fix a
  assume a: "a \<in> P"
  note e = edges_okD [OF ok a] and d = same_nodesD [OF s a]
  have flag: "\<exists>b k. ptr l' (a, d) = Some b \<and> is_leaf l' b \<and> key_of l' b = Fin k" if "flagged l' (a, d)" for d
  proof -
    have "flagged l (a, d)" using that d(6) by simp
    from e(4) [OF this] obtain b k where b: "ptr l (a, d) = Some b" "is_leaf l b" "key_of l b = Fin k" by blast
    then have "b \<in> P" using e(7,8) [of d] by auto
    then show ?thesis using b d(4) same_nodesD(2,8) [OF s, of b] by auto
  qed
  have "a < tn l'" using e(1) s by (simp add: same_nodes_def)
  moreover have "(\<forall>d. edge l' (a, d) = (None, 0)) \<or> (\<forall>d. \<exists>b \<in> P. ptr l' (a, d) = Some b)" using e(6,7) d(1,4) by (cases "is_leaf l a") auto
  moreover have "\<forall>d. snd (edge l' (a, d)) \<in> {0, 1, 2, 3}" using e(2) d(1) by simp
  moreover have "\<forall>d. tagged l' (a, d) \<longrightarrow> flagged l' (a, other_dir d)" using e(3) d(6,7) by simp
  moreover have "\<forall>k. is_leaf l' a \<and> key_of l' a = Fin k \<longrightarrow> value_of l' a \<noteq> None" using e(5) d(2,3,8) by simp
  ultimately show "a < tn l' \<and> ((\<forall>d. edge l' (a, d) = (None, 0)) \<or> (\<forall>d. \<exists>b \<in> P. ptr l' (a, d) = Some b)) \<and>
     (\<forall>d. snd (edge l' (a, d)) \<in> {0, 1, 2, 3}) \<and> (\<forall>d. tagged l' (a, d) \<longrightarrow> flagged l' (a, other_dir d)) \<and>
     (\<forall>d. flagged l' (a, d) \<longrightarrow> (\<exists>b k. ptr l' (a, d) = Some b \<and> is_leaf l' b \<and> key_of l' b = Fin k)) \<and>
     (\<forall>k. is_leaf l' a \<and> key_of l' a = Fin k \<longrightarrow> value_of l' a \<noteq> None)"
    using flag by blast
qed

text \<open>The search paths of a tree whose nodes keep their keys.\<close>

lemma path_cong:
  assumes "\<And>a. a \<in> gset T \<Longrightarrow> key_of l' a = key_of l a"
  shows "gpath (next_dir l' k) T = gpath (next_dir l k) T" "gend (next_dir l' k) T = gend (next_dir l k) T"
  using gpath_cong [of T "next_dir l' k" "next_dir l k"] next_dir_cong assms by blast+

lemma sentinels: "top_ok l T \<Longrightarrow> {0, 1, 2, 3, 4} \<subseteq> gset T"
  by (auto simp: top_ok_def)

lemma top_cong:
  assumes top: "top_ok l T" and r: "t_r l' = t_r l" and k: "\<And>a. a \<in> gset T \<Longrightarrow> key_of l' a = key_of l a"
    and m: "\<And>d. marked l' (2, d) = marked l (2, d)" "\<And>d. marked l' (4, d) = marked l (4, d)"
  shows "top_ok l' T"
proof -
  have "\<forall>a \<in> {0, 1, 2, 3, 4}. key_of l' a = Inf" using sentinels [OF top] k top unfolding top_ok_def by (metis subsetD)
  moreover obtain A where A: "T = GNode 4 (GNode 2 A (GLeaf 1)) (GLeaf 3)"
    "A = GLeaf 0 \<or> (\<exists>n B. A = GNode n B (GLeaf 0) \<and> key_of l n = Inf)" using top by (auto simp: top_ok_def)
  moreover have "A = GLeaf 0 \<or> (\<exists>n B. A = GNode n B (GLeaf 0) \<and> key_of l' n = Inf)" using A k by auto
  ultimately show ?thesis using top r m unfolding top_ok_def by simp
qed

lemma nm_moves_same:
  assumes ok: "tree_ok l P T" and s: "same_nodes l l' P"
  shows "moves l P T l' P T"
proof -
  note d = same_nodesD [OF s]
  have P: "gset T \<subseteq> P" by (rule tree_okD(2) [OF ok])
  have key: "key_of l' a = key_of l a" if "a \<in> gset T" for a using d(2) P that by blast
  have path: "gpath (next_dir l' k) T = gpath (next_dir l k) T" "gend (next_dir l' k) T = gend (next_dir l k) T" for k
    using path_cong [of T l' l k] key by blast+
  have "top_ok l' T"
    by (rule top_cong [OF tree_okD(7) [OF ok]]) (use s key sentinels [OF tree_okD(7) [OF ok]] P d(5) in \<open>auto simp: same_nodes_def\<close>)
  moreover have "shape (ptr l') T" by (rule shape_cong [OF tree_okD(4) [OF ok]]) (use d(4) P in blast)
  moreover have "gend (next_dir l' k) T = b" if "b \<in> gset T" "is_leaf l' b" "key_of l' b = Fin k" for b k
    using tree_okD(6) [OF ok that(1)] that path(2) d(2,8) P by auto
  moreover have "marked l' (a, e)" if "a \<in> P" "a \<notin> gset T" "ptr l' (a, e) \<noteq> None" for a e
    using tree_okD(5) [OF ok that(1,2), of e] that d(4,5) by simp
  ultimately have "tree_ok l' P T"
    using same_edges [OF tree_okD(1) [OF ok] s] P tree_okD(3) [OF ok] unfolding tree_ok_def by blast
  then show ?thesis by (rule movesI) (use d path(1) P in auto)
qed

lemma nm_moves_refl: "tree_ok l P T \<Longrightarrow> moves l P T l P T"
  by (rule nm_moves_same) (simp_all add: same_nodes_def)

section \<open>Marking an edge\<close>

lemma moves_mark:
  assumes ok: "tree_ok l P T" and a: "a \<in> P" "a \<noteq> 2" "a \<noteq> 4" "edge l (a, d) = (Some b, m)"
    and m': "m' \<in> {1, 2, 3}" "marks_flag m \<Longrightarrow> marks_flag m'" "marks_tag m \<Longrightarrow> m' = m"
    and tag: "marks_tag m' \<Longrightarrow> flagged l (a, other_dir d)"
    and flag: "marks_flag m' \<Longrightarrow> is_leaf l b \<and> (\<exists>k. key_of l b = Fin k)"
  shows "moves l P T (set_edge (a, d) (Some b, m') l) P T"
proof -
  let ?l = "set_edge (a, d) (Some b, m') l"
  note e = tree_okD(1) [OF ok]
  have at: "edge ?l x = (if x = (a, d) then (Some b, m') else edge l x)" for x using edge_set_edge edges_okD(1) [OF e a(1)] by blast
  have other: "edge ?l x = edge l x" if "x \<noteq> (a, d)" for x using that at [of x] by (simp only: if_False)
  have p: "ptr ?l x = ptr l x" for x using at a(4) by (simp add: ptr_def)
  have leaf: "is_leaf ?l x = is_leaf l x" for x by (simp add: is_leaf_def p)
  have mono: "flagged ?l x" if "flagged l x" for x using that at m'(2) a(4) by (auto simp: flagged_def)
  have mk: "marked ?l x" if "marked l x" for x using that at m'(1) by (auto simp: marked_def)
  have tg: "edge ?l x = edge l x" if "tagged l x" for x using that at m'(3) a(4) by (auto simp: tagged_def)
  have "edges_ok ?l P"
    unfolding edges_ok_def
  proof
    fix c
    assume c: "c \<in> P"
    have "(\<forall>d. edge ?l (c, d) = (None, 0)) \<or> (\<forall>d. \<exists>b \<in> P. ptr ?l (c, d) = Some b)"
    proof (cases "is_leaf l c")
      case True
      then have "(c, f) \<noteq> (a, d)" for f using edges_okD(6) [OF e c True, of d] a(4) by auto
      then show ?thesis using at edges_okD(6) [OF e c True] by simp
    qed (use p edges_okD(7) [OF e c] in auto)
    moreover have "snd (edge ?l (c, f)) \<in> {0, 1, 2, 3}" for f using at edges_okD(2) [OF e c, of f] m'(1) by auto
    moreover have "flagged ?l (c, other_dir f)" if "tagged ?l (c, f)" for f
    proof (cases "(c, f) = (a, d)")
      case True
      then show ?thesis using that at tag mono by (auto simp: tagged_def)
    next
      case False
      then have "tagged l (c, f)" using that other by (simp add: tagged_def)
      then show ?thesis using edges_okD(3) [OF e c] mono by blast
    qed
    moreover have "\<exists>b k. ptr ?l (c, f) = Some b \<and> is_leaf ?l b \<and> key_of ?l b = Fin k" if "flagged ?l (c, f)" for f
    proof (cases "(c, f) = (a, d)")
      case True
      then show ?thesis using that at flag leaf by (auto simp: flagged_def ptr_def)
    next
      case False
      then have "flagged l (c, f)" using that other by (simp add: flagged_def)
      then show ?thesis using edges_okD(4) [OF e c] p leaf by auto
    qed
    ultimately show "c < tn ?l \<and> ((\<forall>d. edge ?l (c, d) = (None, 0)) \<or> (\<forall>d. \<exists>b \<in> P. ptr ?l (c, d) = Some b)) \<and>
      (\<forall>d. snd (edge ?l (c, d)) \<in> {0, 1, 2, 3}) \<and> (\<forall>d. tagged ?l (c, d) \<longrightarrow> flagged ?l (c, other_dir d)) \<and>
      (\<forall>d. flagged ?l (c, d) \<longrightarrow> (\<exists>b k. ptr ?l (c, d) = Some b \<and> is_leaf ?l b \<and> key_of ?l b = Fin k)) \<and>
      (\<forall>k. is_leaf ?l c \<and> key_of ?l c = Fin k \<longrightarrow> value_of ?l c \<noteq> None)"
      using edges_okD(1,5) [OF e c] leaf by simp
  qed
  moreover have "shape (ptr ?l) T" using tree_okD(4) [OF ok] p by (simp add: shape_cong)
  moreover have "top_ok ?l T" by (rule top_cong [OF tree_okD(7) [OF ok]]) (use a(2,3) at in \<open>auto simp: marked_def\<close>)
  moreover have nd: "next_dir ?l k = next_dir l k" for k by (rule ext) (simp add: next_dir_def)
  ultimately have "tree_ok ?l P T"
    using tree_okD(2,3,5,6) [OF ok] mk p leaf unfolding tree_ok_def by simp
  then show ?thesis by (rule movesI) (use mono tg p nd in auto)
qed

section \<open>Replacing a subtree\<close>

lemma moves_repl:
  assumes ok: "tree_ok l P T" and a: "a \<in> gset T" "edge l (a, d) = (Some x, 0)" and X: "X \<in> gsub T" "gaddr X = x"
    and S: "shape (ptr l') S" "gdist S" "gset S \<subseteq> gset X \<union> (P' - P)"
    and P': "edges_ok l' P'" "P \<subseteq> P'" "P' \<subseteq> P \<union> gset S" "gset S \<subseteq> P'"
    and key: "\<And>b. b \<in> P \<Longrightarrow> key_of l' b = key_of l b" and val: "\<And>b. b \<in> P \<Longrightarrow> value_of l' b = value_of l b"
    and new: "edge l' (a, d) = (Some (gaddr S), m')" and other: "\<And>b e. b \<in> P \<Longrightarrow> (b, e) \<noteq> (a, d) \<Longrightarrow> edge l' (b, e) = edge l (b, e)"
    and dead: "\<And>z e. z \<in> gset X \<Longrightarrow> z \<notin> gset S \<Longrightarrow> ptr l (z, e) \<noteq> None \<Longrightarrow> marked l (z, e)"
    and leaves: "\<And>b k. b \<in> gset S \<Longrightarrow> is_leaf l' b \<Longrightarrow> key_of l' b = Fin k \<Longrightarrow> x \<in> gpath (next_dir l k) T \<and> gend (next_dir l' k) S = b"
    and path: "\<And>k z. z \<in> gset X \<Longrightarrow> z \<in> gset S \<Longrightarrow> \<not> is_leaf l z \<Longrightarrow> z \<in> gpath (next_dir l k) X \<Longrightarrow> z \<in> gpath (next_dir l' k) S"
    and flags: "\<And>b. b \<in> P \<Longrightarrow> \<forall>c \<in> gset T. \<forall>e. ptr l (c, e) = Some b \<longrightarrow> flagged l (c, e) \<Longrightarrow>
      (b = gaddr S \<longrightarrow> marks_flag m') \<and> (\<forall>c \<in> gset S. \<forall>e. ptr l' (c, e) = Some b \<longrightarrow> flagged l' (c, e))"
    and top: "top_ok l' (repl x S T)"
  shows "moves l P T l' P' (repl x S T)"
proof -
  let ?T = "repl x S T"
  have d: "gdist T" and sh: "shape (ptr l) T" and TP: "gset T \<subseteq> P" by (rule tree_okD [OF ok])+
  have ax: "ptr l (a, d) = Some x" using a(2) by (simp add: ptr_def)
  have aX: "a \<notin> gset X" using shape_no_back [OF gsub_dist [OF X(1) d] shape_sub [OF sh X(1)]] ax X(2) by blast
  have aP: "a \<in> P" using a(1) TP by blast
  have aS: "a \<notin> gset S" using aX aP S(3) by blast
  have set: "gset ?T = gset T - gset X \<union> gset S" using repl_set [OF d X(1)] X(2) by simp
  have XT: "gset X \<subseteq> gset T" by (rule gsub_set [OF X(1)])
  have SX: "z \<in> gset X" if "z \<in> gset S" "z \<in> P" for z using that S(3) by blast
  have o: "edge l' (z, e) = edge l (z, e)" if "z \<in> P" "z \<noteq> a" for z e using other [OF that(1)] that(2) by blast
  have ptro: "ptr l' (z, e) = ptr l (z, e)" if "z \<in> P" "(z, e) \<noteq> (a, d)" for z e using other [OF that] by (simp add: ptr_def)
  have lf: "ptr l' (z, e) = None \<longleftrightarrow> ptr l (z, e) = None" if "z \<in> P" for z e
    using ptro [OF that, of e] new ax by (cases "(z, e) = (a, d)") (auto simp: ptr_def)
  have leaf: "is_leaf l' z = is_leaf l z" if "z \<in> P" for z using lf [OF that] by (simp add: is_leaf_def)
  have nd: "gpath (next_dir l' k) T = gpath (next_dir l k) T" "gend (next_dir l' k) T = gend (next_dir l k) T" for k
    using path_cong [of T l' l k] key TP by blast+
  note rp = repl_path [OF d X(1), unfolded X(2), of "next_dir l' _" S, unfolded nd]
  have "shape (ptr l') ?T"
  proof (rule repl_shape [OF d sh a(1) ax _ _ S(1)])
    show "ptr l' (a, d) = Some (gaddr S)" using new by (simp add: ptr_def)
    show "ptr l' (b, e) = ptr l (b, e)" if "b \<in> gset T" "(b, e) \<noteq> (a, d)" for b e using ptro that TP by blast
  qed
  moreover have "gset ?T \<subseteq> P'" using set TP P'(2,4) by blast
  moreover have "gdist ?T" using repl_dist [OF d X(1) S(2)] X(2) S(3) TP by blast
  moreover have "marked l' (z, e)" if z: "z \<in> P'" "z \<notin> gset ?T" "ptr l' (z, e) \<noteq> None" for z e
  proof -
    have zP: "z \<in> P" "z \<notin> gset S" "z \<noteq> a" using z(1,2) P'(3) set a(1) aX by blast+
    then have p: "ptr l (z, e) \<noteq> None" using z(3) lf [OF zP(1), of e] by simp
    have "marked l (z, e)"
    proof (cases "z \<in> gset T")
      case True
      then show ?thesis using dead zP(2) z(2) set p by blast
    qed (use tree_okD(5) [OF ok zP(1)] p in blast)
    then show ?thesis using o [OF zP(1,3)] by (simp add: marked_def)
  qed
  moreover have "gend (next_dir l' k) ?T = b" if b: "b \<in> gset ?T" "is_leaf l' b" "key_of l' b = Fin k" for b k
  proof (cases "b \<in> gset S")
    case True
    then show ?thesis using leaves [OF True b(2,3)] rp(1) [of k] by simp
  next
    case False
    then have bT: "b \<in> gset T" "b \<notin> gset X" "b \<in> P" using b(1) set TP by blast+
    then have e: "gend (next_dir l k) T = b" using tree_okD(6) [OF ok bT(1)] b(2,3) leaf key by simp
    have "x \<notin> gpath (next_dir l k) T"
    proof
      assume "x \<in> gpath (next_dir l k) T"
      then have "gend (next_dir l k) X = b" using gpath_sub(2) [OF d X(1)] X(2) e by simp
      then show False using bT(2) gpath_set [OF gend_path] by blast
    qed
    then show ?thesis using rp(2) [of k] e by simp
  qed
  ultimately have ok': "tree_ok l' P' ?T" using P'(1) top unfolding tree_ok_def by blast
  show ?thesis
  proof (rule movesI [OF ok' P'(2)])
    show "z \<notin> gset ?T" if "z \<in> P" "z \<notin> gset T" for z using that set SX XT by blast
    show "ptr l' (z, e) = ptr l (z, e)" if "z \<in> P" "marked l (z, e)" for z e
      using ptro [OF that(1), of e] that(2) a(2) by (cases "(z, e) = (a, d)") (auto simp: marked_def)
    show "flagged l' (z, e)" if "z \<in> P" "flagged l (z, e)" for z e
      using other [OF that(1), of e] that(2) a(2) by (cases "(z, e) = (a, d)") (auto simp: flagged_def)
    show "edge l' (z, e) = edge l (z, e)" if "z \<in> P" "tagged l (z, e)" for z e
      using other [OF that(1), of e] that(2) a(2) by (cases "(z, e) = (a, d)") (auto simp: tagged_def)
    show "ptr l' (z, e) = ptr l (z, e)" if "z \<in> P" "z \<notin> gset ?T" for z e
    proof -
      have "z \<noteq> a" using that(2) set a(1) aX by blast
      then show ?thesis using o [OF that(1)] by (simp add: ptr_def)
    qed
    show "z \<in> gpath (next_dir l' k) ?T" if z: "z \<in> gset T" "z \<in> gset ?T" "\<not> is_leaf l z" "z \<in> gpath (next_dir l k) T" for z k
    proof (cases "x \<in> gpath (next_dir l k) T")
      case True
      have "z \<in> gpath (next_dir l' k) S" if "z \<in> gset X"
        using path [OF that _ z(3)] gpath_sub(3) [OF d X(1) _ z(4) that] X(2) True z(2) set that by blast
      then show ?thesis using rp(1) [OF True] z(4) by blast
    qed (use rp(2) z(4) in simp)
    show "flagged l' (c, e)" if b: "b \<in> P" "\<forall>a \<in> gset T. \<forall>d. ptr l (a, d) = Some b \<longrightarrow> flagged l (a, d)" "c \<in> gset ?T" "ptr l' (c, e) = Some b" for c b e
    proof (cases "c \<in> gset S")
      case True
      then show ?thesis using flags [OF b(1,2)] b(4) by blast
    next
      case False
      then have c: "c \<in> gset T" "c \<in> P" using b(3) set TP by blast+
      show ?thesis
      proof (cases "(c, e) = (a, d)")
        case True
        then have "b = gaddr S" using b(4) new by (simp add: ptr_def)
        then show ?thesis using flags [OF b(1,2)] True new by (simp add: flagged_def)
      next
        case False
        then have "ptr l (c, e) = Some b" using ptro [OF c(2) False] b(4) by simp
        then show ?thesis using b(2) c(1) other [OF c(2) False] by (simp add: flagged_def)
      qed
    qed
  qed (use key val lf in auto)
qed

section \<open>Linking a new leaf\<close>

definition leaf_sides :: "('k :: linorder, 'v) nm_tree \<Rightarrow> 'k \<Rightarrow> nat \<Rightarrow> nat \<Rightarrow> nat \<times> nat" where
  "leaf_sides l k n x = (if key_cmp (key_of l x) k = Greater then (n, x) else (x, n))"

text \<open>The two nodes of an insertion before they are linked.\<close>

definition insert_nodes :: "('k :: linorder, 'v) nm_tree \<Rightarrow> 'k \<Rightarrow> 'v \<Rightarrow> nat \<Rightarrow> nat \<Rightarrow> nat \<Rightarrow> bool" where
  "insert_nodes l k v n i x \<longleftrightarrow> (\<forall>d. edge l (n, d) = (None, 0)) \<and> key_of l n = Fin k \<and> value_of l n = Some v \<and> n < tn l \<and> i < tn l \<and> n \<noteq> i \<and>
     edge l (i, DirL) = (Some (fst (leaf_sides l k n x)), 0) \<and> edge l (i, DirR) = (Some (snd (leaf_sides l k n x)), 0) \<and>
     key_of l i = key_of l (snd (leaf_sides l k n x))"

lemma insert_dir:
  assumes "insert_nodes l k v n i x" "key_of l x \<noteq> Fin k"
  shows "edge l (i, next_dir l k i) = (Some n, 0)" "key_of l x = Fin k' \<Longrightarrow> edge l (i, next_dir l k' i) = (Some x, 0)"
  using assms by (cases "key_of l x"; auto simp: insert_nodes_def leaf_sides_def next_dir_def split: if_splits)+

lemma top_path:
  assumes top: "top_ok l T" and x: "x \<in> gpath (next_dir l k) T" "x \<noteq> 4" "x \<noteq> 2"
  obtains A where "T = GNode 4 (GNode 2 A (GLeaf 1)) (GLeaf 3)" "x \<in> gpath (next_dir l k) A"
    "A = GLeaf 0 \<or> (\<exists>n B. A = GNode n B (GLeaf 0) \<and> key_of l n = Inf)"
proof -
  obtain A where A: "T = GNode 4 (GNode 2 A (GLeaf 1)) (GLeaf 3)" "A = GLeaf 0 \<or> (\<exists>n B. A = GNode n B (GLeaf 0) \<and> key_of l n = Inf)"
    using top by (auto simp: top_ok_def)
  have "next_dir l k 4 = DirL" "next_dir l k 2 = DirL" using top by (simp_all add: top_ok_def)
  then show ?thesis using that A x by simp
qed

text \<open>Below the sentinels the tree may change, as long as the infinite leaf stays.\<close>

lemma top_repl:
  assumes ok: "tree_ok l P T" and x: "x \<in> gpath (next_dir l k) T" "x \<noteq> 4" "x \<noteq> 2"
    and k: "\<And>a. a \<in> P \<Longrightarrow> key_of l' a = key_of l a" and r: "t_r l' = t_r l"
    and m: "\<And>d. \<not> marked l' (2, d)" "\<And>d. \<not> marked l' (4, d)"
    and S: "\<And>A. T = GNode 4 (GNode 2 A (GLeaf 1)) (GLeaf 3) \<Longrightarrow> x = gaddr A \<Longrightarrow> S = GLeaf 0 \<or> (\<exists>n B. S = GNode n B (GLeaf 0) \<and> key_of l' n = Inf)"
  shows "top_ok l' (repl x S T)"
proof -
  have top: "top_ok l T" by (rule tree_okD(7) [OF ok])
  obtain A where A: "T = GNode 4 (GNode 2 A (GLeaf 1)) (GLeaf 3)" "x \<in> gpath (next_dir l k) A"
    "A = GLeaf 0 \<or> (\<exists>n B. A = GNode n B (GLeaf 0) \<and> key_of l n = Inf)" using top_path [OF top x] by blast
  have d: "gdist T" and P: "gset T \<subseteq> P" by (rule tree_okD [OF ok])+
  have xA: "x \<in> gset A" using A(2) gpath_set by blast
  then have T: "repl x S T = GNode 4 (GNode 2 (repl x S A) (GLeaf 1)) (GLeaf 3)" using A(1) d x(2,3) by auto
  have "repl x S A = GLeaf 0 \<or> (\<exists>n B. repl x S A = GNode n B (GLeaf 0) \<and> key_of l' n = Inf)"
  proof (cases "x = gaddr A")
    case True
    then show ?thesis using S [OF A(1)] by simp
  next
    case False
    then obtain n B where n: "A = GNode n B (GLeaf 0)" "key_of l n = Inf" using A(2,3) by auto
    then have "x \<in> gset B" using A(2) False gpath_set by auto
    moreover have "0 \<notin> gset B" using d A(1) n(1) by simp
    ultimately have "x \<noteq> 0" by metis
    moreover have "key_of l' n = Inf" using k P A(1) n by auto
    ultimately show ?thesis using n(1) False by auto
  qed
  moreover have "\<forall>a \<in> {0, 1, 2, 3, 4}. key_of l' a = Inf" using sentinels [OF top] P k top unfolding top_ok_def by (metis subsetD)
  ultimately show ?thesis using T top r m unfolding top_ok_def by simp
qed

text \<open>Pointing an edge without marks elsewhere.\<close>

lemma edges_set:
  assumes e: "edges_ok l P" and a: "a \<in> P" "edge l (a, d) = (Some x, 0)" and z: "z \<in> P" "m \<in> {0, 2}"
    and flag: "marks_flag m \<Longrightarrow> is_leaf l z \<and> (\<exists>k. key_of l z = Fin k)"
  shows "edges_ok (set_edge (a, d) (Some z, m) l) P"
proof -
  let ?l = "set_edge (a, d) (Some z, m) l"
  have at: "edge ?l f = (if f = (a, d) then (Some z, m) else edge l f)" for f using edge_set_edge edges_okD(1) [OF e a(1)] by blast
  have other: "edge ?l f = edge l f" if "f \<noteq> (a, d)" for f using that at [of f] by (simp only: if_False)
  have leaf: "is_leaf ?l b = is_leaf l b" for b using at [of "(b, DirL)"] a(2) by (cases d) (auto simp: is_leaf_def ptr_def)
  have inner: "\<not> is_leaf l a" using a(2) edges_okD(8) [OF e a(1), of d] by (simp add: ptr_def)
  show ?thesis
    unfolding edges_ok_def
  proof
    fix b
    assume b: "b \<in> P"
    have "(\<forall>f. edge ?l (b, f) = (None, 0)) \<or> (\<forall>f. \<exists>c \<in> P. ptr ?l (b, f) = Some c)"
    proof (cases "is_leaf l b")
      case True
      then have "b \<noteq> a" using inner by auto
      then show ?thesis using other edges_okD(6) [OF e b True] by simp
    next
      case False
      have "\<exists>c \<in> P. ptr ?l (b, f) = Some c" for f using at [of "(b, f)"] edges_okD(7) [OF e b False, of f] z(1) by (auto simp: ptr_def)
      then show ?thesis by blast
    qed
    moreover have "snd (edge ?l (b, f)) \<in> {0, 1, 2, 3}" for f using at [of "(b, f)"] edges_okD(2) [OF e b, of f] z(2) by auto
    moreover have "flagged ?l (b, other_dir f)" if "tagged ?l (b, f)" for f
    proof -
      have ne: "(b, f) \<noteq> (a, d)" using that at z(2) by (auto simp: tagged_def)
      then have "flagged l (b, other_dir f)" using that other edges_okD(3) [OF e b] by (simp add: tagged_def)
      moreover from this have "(b, other_dir f) \<noteq> (a, d)" using a(2) by (auto simp: flagged_def)
      ultimately show ?thesis using other by (simp add: flagged_def)
    qed
    moreover have "\<exists>c k. ptr ?l (b, f) = Some c \<and> is_leaf ?l c \<and> key_of ?l c = Fin k" if "flagged ?l (b, f)" for f
    proof (cases "(b, f) = (a, d)")
      case True
      then show ?thesis using that at flag leaf by (auto simp: flagged_def ptr_def)
    next
      case False
      then show ?thesis using that other edges_okD(4) [OF e b, of f] leaf by (simp add: flagged_def ptr_def)
    qed
    ultimately show "b < tn ?l \<and> ((\<forall>f. edge ?l (b, f) = (None, 0)) \<or> (\<forall>f. \<exists>c \<in> P. ptr ?l (b, f) = Some c)) \<and>
      (\<forall>f. snd (edge ?l (b, f)) \<in> {0, 1, 2, 3}) \<and> (\<forall>f. tagged ?l (b, f) \<longrightarrow> flagged ?l (b, other_dir f)) \<and>
      (\<forall>f. flagged ?l (b, f) \<longrightarrow> (\<exists>c k. ptr ?l (b, f) = Some c \<and> is_leaf ?l c \<and> key_of ?l c = Fin k)) \<and>
      (\<forall>k. is_leaf ?l b \<and> key_of ?l b = Fin k \<longrightarrow> value_of ?l b \<noteq> None)"
      using edges_okD(1,5) [OF e b] leaf by simp
  qed
qed

text \<open>Publishing the two nodes of an insertion.\<close>

lemma edges_publish:
  assumes e: "edges_ok l P" and x: "x \<in> P" and new: "insert_nodes l k v n i x"
  shows "edges_ok l (insert n (insert i P))"
proof -
  let ?P = "insert n (insert i P)"
  have n: "n < tn l" "i < tn l" "\<And>f. edge l (n, f) = (None, 0)" "key_of l n = Fin k" "value_of l n = Some v" using new by (simp_all add: insert_nodes_def)
  have i: "\<exists>c \<in> ?P. edge l (i, f) = (Some c, 0)" for f using new x by (cases f) (auto simp: insert_nodes_def leaf_sides_def)
  have i0: "snd (edge l (i, f)) = 0" "ptr l (i, f) \<noteq> None" for f using i [of f] by (auto simp: ptr_def)
  have "b < tn l \<and> ((\<forall>f. edge l (b, f) = (None, 0)) \<or> (\<forall>f. \<exists>c \<in> ?P. ptr l (b, f) = Some c)) \<and>
      (\<forall>f. snd (edge l (b, f)) \<in> {0, 1, 2, 3}) \<and> (\<forall>f. tagged l (b, f) \<longrightarrow> flagged l (b, other_dir f)) \<and>
      (\<forall>f. flagged l (b, f) \<longrightarrow> (\<exists>c k. ptr l (b, f) = Some c \<and> is_leaf l c \<and> key_of l c = Fin k)) \<and>
      (\<forall>k. is_leaf l b \<and> key_of l b = Fin k \<longrightarrow> value_of l b \<noteq> None)" if "b = n \<or> b = i \<or> b \<in> P" for b
    using that
  proof (elim disjE)
    assume "b = n"
    then show ?thesis using n by (simp add: tagged_def flagged_def)
  next
    assume "b = i"
    moreover have "\<forall>f. \<exists>c \<in> ?P. ptr l (i, f) = Some c" using i unfolding ptr_def by (metis fst_conv)
    moreover have "\<not> is_leaf l i" using i0(2) by (simp add: is_leaf_def)
    ultimately show ?thesis using n(2) i0(1) by (simp add: tagged_def flagged_def)
  next
    assume "b \<in> P"
    then show ?thesis using e unfolding edges_ok_def by blast
  qed
  then show ?thesis unfolding edges_ok_def by blast
qed

lemma moves_insert:
  assumes ok: "tree_ok l P T" and a: "a \<in> gpath (next_dir l k) T" "edge l (a, next_dir l k a) = (Some x, 0)"
    and x: "is_leaf l x" "key_of l x \<noteq> Fin k" and new: "insert_nodes l k v n i x" "n \<notin> P" "i \<notin> P"
    and l': "l' = set_edge (a, next_dir l k a) (Some i, 0) l"
    and S: "S = GNode i (GLeaf (fst (leaf_sides l k n x))) (GLeaf (snd (leaf_sides l k n x)))"
  shows "moves l P T l' (insert n (insert i P)) (repl x S T)" "tmap l' (repl x S T) = (tmap l T)(k \<mapsto> v)"
    "GLeaf x \<in> gsub T" "gset S = {n, i, x}"
proof -
  have e: "edges_ok l P" and P: "gset T \<subseteq> P" and d: "gdist T" and sh: "shape (ptr l) T" by (rule tree_okD [OF ok])+
  have aT: "a \<in> gset T" "a \<in> P" using gpath_set [OF a(1)] P by auto
  have n: "n \<noteq> a" "i \<noteq> a" "n \<noteq> i" "n < tn l" "i < tn l" using new aT(2) by (auto simp: insert_nodes_def)
  have at: "edge l' f = (if f = (a, next_dir l k a) then (Some i, 0) else edge l f)" for f
    using edge_set_edge edges_okD(1) [OF e aT(2)] unfolding l' by blast
  have other: "edge l' f = edge l f" if "f \<noteq> (a, next_dir l k a)" for f using that at [of f] by (simp only: if_False)
  have ni: "edge l' (n, f) = edge l (n, f)" "edge l' (i, f) = edge l (i, f)" for f using other n(1,2) by simp_all
  have key: "key_of l' b = key_of l b" "value_of l' b = value_of l b" "next_dir l' k' b = next_dir l k' b" for b k'
    unfolding l' by (simp_all add: next_dir_def)
  have ax: "ptr l (a, next_dir l k a) = Some x" using a(2) by (simp add: ptr_def)
  have xp: "x \<in> gpath (next_dir l k) T" by (rule gpath_next [OF sh a(1) ax d])
  have xT: "x \<in> gset T" "x \<in> P" using gpath_set [OF xp] P by auto
  have xn: "x \<noteq> n" "x \<noteq> i" "x \<noteq> a" using xT(2) new(2,3) x(1) ax edges_okD(8) [OF e aT(2), of "next_dir l k a"] by auto
  have ex: "edge l (x, f) = (None, 0)" for f by (rule edges_okD(6) [OF e xT(2) x(1)])
  have en: "edge l (n, f) = (None, 0)" for f using new(1) by (simp add: insert_nodes_def)
  obtain X where X: "X \<in> gsub T" "gaddr X = x" using gsub_at [OF xT(1)] by blast
  have "X = GLeaf x" using shape_sub [OF sh X(1)] X(2) ex by (cases X) (auto simp: ptr_def)
  then show Xs: "GLeaf x \<in> gsub T" using X(1) by simp
  have sides: "leaf_sides l k n x = (n, x) \<or> leaf_sides l k n x = (x, n)" by (simp add: leaf_sides_def)
  then show gS: "gset S = {n, i, x}" using S by auto
  have ptrS: "ptr l' (i, DirL) = Some (fst (leaf_sides l k n x))" "ptr l' (i, DirR) = Some (snd (leaf_sides l k n x))"
    "\<And>f. ptr l' (n, f) = None" "\<And>f. ptr l' (x, f) = None"
    using ni new(1) other xn(3) ex by (simp_all add: insert_nodes_def ptr_def)
  have endS: "gend (next_dir l' k') S = the (ptr l' (i, next_dir l' k' i))" for k' using S ptrS(1,2) by (simp split: direction.splits)
  have end_k: "gend (next_dir l' k) S = n" using endS insert_dir(1) [OF new(1) x(2)] key(3) ni(2) by (simp add: ptr_def)
  have end_x: "gend (next_dir l' k') S = x" if "key_of l x = Fin k'" for k'
    using endS insert_dir(2) [OF new(1) x(2) that] key(3) ni(2) by (simp add: ptr_def)
  have end_nx: "gend (next_dir l' k') S \<in> {n, x}" for k' using S sides by (auto split: direction.splits)
  have leaf': "is_leaf l' b = is_leaf l b" for b using at [of "(b, DirL)"] a(2) by (cases "next_dir l k a") (auto simp: is_leaf_def ptr_def)
  have fin: "gend (next_dir l k') T = x" if "key_of l x = Fin k'" for k' using tree_okD(6) [OF ok xT(1) x(1) that] .
  have ea: "edges_ok l' (insert n (insert i P))" 
    unfolding l' by (rule edges_set [OF edges_publish [OF e xT(2) new(1)] _ a(2)]) (use aT(2) in auto)
  show "moves l P T l' (insert n (insert i P)) (repl x S T)"
  proof (rule moves_repl [OF ok aT(1) a(2) Xs _ _ _ _ ea])
    show "shape (ptr l') S" using S ptrS sides by auto
    show "gdist S" using S sides n(3) xn by auto
    show "edge l' (a, next_dir l k a) = (Some (gaddr S), 0)" using at S by simp
    show "x \<in> gpath (next_dir l k') T \<and> gend (next_dir l' k') S = b" if "b \<in> gset S" "is_leaf l' b" "key_of l' b = Fin k'" for b k'
    proof -
      have "\<not> is_leaf l' i" using ptrS(1) by (simp add: is_leaf_def)
      then have "b = n \<or> b = x" using that(1,2) gS by auto
      then show ?thesis
      proof
        assume "b = n"
        then show ?thesis using that(3) key(1) new(1) end_k xp by (simp add: insert_nodes_def)
      next
        assume "b = x"
        then show ?thesis using that(3) key(1) end_x fin gend_path by metis
      qed
    qed
    show "(b = gaddr S \<longrightarrow> marks_flag 0) \<and> (\<forall>c \<in> gset S. \<forall>f. ptr l' (c, f) = Some b \<longrightarrow> flagged l' (c, f))"
      if b: "b \<in> P" "\<forall>c \<in> gset T. \<forall>f. ptr l (c, f) = Some b \<longrightarrow> flagged l (c, f)" for b
    proof -
      have "\<not> flagged l (a, next_dir l k a)" using a(2) by (simp add: flagged_def)
      then have "b \<noteq> x" using b(2) aT(1) ax by metis
      moreover have "b \<noteq> n" "b \<noteq> i" using b(1) new(2,3) by auto
      ultimately have "ptr l' (c, f) \<noteq> Some b" if "c \<in> gset S" for c f using that gS ptrS sides by (cases f) auto
      then show ?thesis using S \<open>b \<noteq> i\<close> by simp
    qed
    have "marked l' (b, f) = marked l (b, f)" if "b \<in> P" for b f using at [of "(b, f)"] a(2) by (simp add: marked_def)
    then have m: "\<not> marked l' (2, f)" "\<not> marked l' (4, f)" for f
      using tree_okD(7) [OF ok] sentinels [OF tree_okD(7) [OF ok]] P by (auto simp: top_ok_def)
    have x24: "x \<noteq> 4" "x \<noteq> 2" using tree_okD(7) [OF ok] x(1) sh by (auto simp: top_ok_def is_leaf_def)
    show "top_ok l' (repl x S T)"
    proof (rule top_repl [OF ok xp x24])
      fix A
      assume A: "T = GNode 4 (GNode 2 A (GLeaf 1)) (GLeaf 3)" "x = gaddr A"
      have "A \<in> gsub T" using A(1) by simp
      then have "A = GLeaf x" using gsub_unique [OF d _ Xs] A(2) by simp
      then have "x = 0" using tree_okD(7) [OF ok] A(1) by (auto simp: top_ok_def)
      moreover have "key_of l 0 = Inf" using tree_okD(7) [OF ok] by (simp add: top_ok_def)
      ultimately have "leaf_sides l k n x = (n, 0)" "key_of l i = Inf" using new(1) by (auto simp: leaf_sides_def insert_nodes_def)
      then show "S = GLeaf 0 \<or> (\<exists>n B. S = GNode n B (GLeaf 0) \<and> key_of l' n = Inf)" using S key(1) by simp
    qed (use key m l' in auto)
  qed (use gS new(2,3) xn ex other x(1) key xT(2) in \<open>auto simp: ptr_def\<close>)
  show "tmap l' (repl x S T) = (tmap l T)(k \<mapsto> v)"
  proof
    fix k'
    have nd: "gpath (next_dir l' k') T = gpath (next_dir l k') T" "gend (next_dir l' k') T = gend (next_dir l k') T"
      using gpath_cong [of T "next_dir l' k'" "next_dir l k'"] key(3) by blast+
    note rp = repl_path [OF d Xs, of "next_dir l' k'" S, unfolded nd gaddr.simps]
    show "tmap l' (repl x S T) k' = ((tmap l T)(k \<mapsto> v)) k'"
    proof (cases "x \<in> gpath (next_dir l k') T")
      case False
      then have "k' \<noteq> k" using xp by auto
      then show ?thesis using rp(2) [OF False] key(1,2) by (simp add: tmap_def Let_def)
    next
      case True
      then have old: "gend (next_dir l k') T = x" using end_leaf(2) [OF ok True x(1)] by simp
      show ?thesis
      proof (cases "k' = k")
        case True
        then show ?thesis using rp(1) xp end_k key new(1) by (simp add: tmap_def insert_nodes_def)
      next
        case False
        then show ?thesis
          using rp(1) [OF True] old end_nx [of k'] end_x [of k'] key(1,2) new(1) by (auto simp: tmap_def Let_def insert_nodes_def)
      qed
    qed
  qed
qed

section \<open>Unlinking a chain\<close>

text \<open>The path of a search along tagged edges.\<close>

inductive tag_chain :: "('k :: linorder, 'v) nm_tree \<Rightarrow> 'k \<Rightarrow> nat \<Rightarrow> nat \<Rightarrow> bool" for l k where
  chain_refl: "tag_chain l k x x"
| chain_step: "tagged l (x, next_dir l k x) \<Longrightarrow> ptr l (x, next_dir l k x) = Some x' \<Longrightarrow> tag_chain l k x' y \<Longrightarrow> tag_chain l k x y"

lemma tag_chain_snoc:
  "tag_chain l k x y \<Longrightarrow> tagged l (y, next_dir l k y) \<Longrightarrow> ptr l (y, next_dir l k y) = Some z \<Longrightarrow> tag_chain l k x z"
  by (induction rule: tag_chain.induct) (auto intro: tag_chain.intros)

text \<open>A subtree that remains when nodes are taken off whose one edge is tagged and whose other one is flagged.\<close>

inductive peel :: "('k, 'v) nm_tree \<Rightarrow> gtree \<Rightarrow> gtree \<Rightarrow> bool" for l where
  peel_refl: "peel l S S"
| peel_L: "tagged l (a, DirL) \<Longrightarrow> flagged l (a, DirR) \<Longrightarrow> peel l L S \<Longrightarrow> peel l (GNode a L (GLeaf b)) S"
| peel_R: "tagged l (a, DirR) \<Longrightarrow> flagged l (a, DirL) \<Longrightarrow> peel l R S \<Longrightarrow> peel l (GNode a (GLeaf b) R) S"

lemma mark_of: "tagged l e \<Longrightarrow> marked l e" "flagged l e \<Longrightarrow> marked l e"
  by (auto simp: tagged_def flagged_def marked_def)

lemma peel_sub: "peel l X S \<Longrightarrow> S \<in> gsub X"
  by (induction rule: peel.induct) auto

lemma peel_dead:
  assumes "peel l X S" "shape (ptr l) X" "z \<in> gset X" "z \<notin> gset S" "ptr l (z, e) \<noteq> None"
  shows "marked l (z, e)"
  using assms
proof (induction rule: peel.induct)
  case (peel_L a L S b)
  then show ?case using mark_of by (cases e) auto
next
  case (peel_R a R S b)
  then show ?case using mark_of by (cases e) auto
qed simp

lemma peel_flag:
  assumes "peel l X S" "shape (ptr l) X" "b \<in> gset X" "b \<notin> gset S" "is_leaf l b"
  shows "\<exists>c e. c \<in> gset X \<and> flagged l (c, e) \<and> ptr l (c, e) = Some b"
  using assms
proof (induction rule: peel.induct)
  case (peel_L a L S b')
  then consider "b = b'" | "b \<in> gset L" by (auto simp: is_leaf_def)
  then show ?case
  proof cases
    case 1
    then show ?thesis using peel_L by (intro exI [of _ a] exI [of _ DirR]) auto
  qed (use peel_L in fastforce)
next
  case (peel_R a R S b')
  then consider "b = b'" | "b \<in> gset R" by (auto simp: is_leaf_def)
  then show ?case
  proof cases
    case 1
    then show ?thesis using peel_R by (intro exI [of _ a] exI [of _ DirL]) auto
  qed (use peel_R in fastforce)
qed simp

text \<open>A node with a tagged edge can be taken off.\<close>

lemma peel_node:
  assumes ok: "tree_ok l P T" and X: "X \<in> gsub T" "gaddr X = a" and t: "tagged l (a, d)" "ptr l (a, d) = Some c"
  obtains M b where "M \<in> gsub X" "gaddr M = c" "\<And>S. peel l M S \<Longrightarrow> peel l X S" "ptr l (a, other_dir d) = Some b" "b \<in> gset X" "b \<notin> gset M"
proof -
  have sh: "shape (ptr l) X" and dX: "gdist X" using shape_sub gsub_dist X(1) tree_okD(3,4) [OF ok] by blast+
  have aP: "a \<in> P" using X tree_okD(2) [OF ok] gset_sub by blast
  obtain L R where LR: "X = GNode a L R" using shape_child [OF sh, of d c] t(2) X(2) by (metis gaddr.simps(2))
  have f: "flagged l (a, other_dir d)" by (rule edges_okD(3) [OF tree_okD(1) [OF ok] aP t(1)])
  then obtain b where b: "ptr l (a, other_dir d) = Some b" "is_leaf l b" using edges_okD(4) [OF tree_okD(1) [OF ok] aP] by blast
  have one: "M = GLeaf b" if "shape (ptr l) M" "gaddr M = b" for M using that b(2) by (cases M) (auto simp: is_leaf_def)
  show ?thesis
  proof (cases d)
    case DirL
    then have "R = GLeaf b" using one LR sh b(1) by auto
    moreover have "peel l X S" if "peel l L S" for S using peel_L [of l a, OF _ _ that] t(1) f DirL LR \<open>R = _\<close> by simp
    ultimately show ?thesis using that [of L b] LR DirL t(2) sh dX b(1) by auto
  next
    case DirR
    then have "L = GLeaf b" using one LR sh b(1) by auto
    moreover have "peel l X S" if "peel l R S" for S using peel_R [of l a, OF _ _ that] t(1) f DirR LR \<open>L = _\<close> by simp
    ultimately show ?thesis using that [of R b] LR DirR t(2) sh dX b(1) by auto
  qed
qed

lemma chain_peel:
  assumes "tag_chain l k x y" "tree_ok l P T" "X \<in> gsub T" "gaddr X = x" "tagged l (y, e)" "ptr l (y, e) = Some z" "ptr l (y, other_dir e) = Some b"
  shows "\<exists>S. peel l X S \<and> gaddr S = z \<and> b \<in> gset X \<and> b \<notin> gset S \<and> y \<in> gset X"
  using assms
proof (induction arbitrary: X rule: tag_chain.induct)
  case (chain_refl x)
  obtain M b' where M: "M \<in> gsub X" "gaddr M = z" "\<And>S. peel l M S \<Longrightarrow> peel l X S" "ptr l (x, other_dir e) = Some b'" "b' \<in> gset X" "b' \<notin> gset M"
    using peel_node [OF chain_refl.prems(1-5)] by blast
  then show ?case using peel_refl [of l M] chain_refl.prems(3,6) gaddr_in by (intro exI [of _ M]) auto
next
  case (chain_step x x' y)
  obtain M b' where M: "M \<in> gsub X" "gaddr M = x'" "\<And>S. peel l M S \<Longrightarrow> peel l X S"
    using peel_node [OF chain_step.prems(1-3) chain_step.hyps(1,2)] by blast
  have "M \<in> gsub T" using gsub_trans [OF M(1) chain_step.prems(2)] .
  then show ?case using chain_step.IH [OF chain_step.prems(1) _ M(2) chain_step.prems(4-6)] M(1,3) gsub_set by blast
qed

inductive_cases peel_leafE: "peel l (GLeaf b) S"
inductive_cases peel_nodeE: "peel l (GNode a L R) S"

lemma chain_first: "tag_chain l k x y \<Longrightarrow> tagged l (y, e) \<Longrightarrow> \<exists>f. tagged l (x, f)"
  by (cases rule: tag_chain.cases) auto

text \<open>Directly below the sentinels only the infinite leaf can be moved up.\<close>

lemma peel_top:
  assumes ok: "tree_ok l P T" and p: "peel l A S" "S \<noteq> A" and T: "T = GNode 4 (GNode 2 A (GLeaf 1)) (GLeaf 3)"
  shows "S = GLeaf 0"
proof -
  have "A = GLeaf 0 \<or> (\<exists>n B. A = GNode n B (GLeaf 0))" using tree_okD(7) [OF ok] T by (auto simp: top_ok_def)
  then obtain n B where A: "A = GNode n B (GLeaf 0)" using p by (auto elim: peel_leafE)
  have "n \<in> P" "ptr l (n, DirR) = Some 0" using tree_okD(2,4) [OF ok] T A by auto
  moreover have "key_of l 0 = Inf" using tree_okD(7) [OF ok] by (simp add: top_ok_def)
  ultimately have "\<not> flagged l (n, DirR)" using edges_okD(4) [OF tree_okD(1) [OF ok], of n DirR] by auto
  then show ?thesis using p A by (auto elim!: peel_nodeE peel_leafE)
qed

definition unlinked :: "('k :: linorder, 'v) nm_tree \<Rightarrow> gtree \<Rightarrow> ('k, 'v) nm_tree \<Rightarrow> gtree \<Rightarrow> bool" where
  "unlinked l T l' T' \<longleftrightarrow>
     (\<forall>b \<in> gset T - gset T'. is_leaf l b \<longrightarrow> (\<exists>c \<in> gset T. \<exists>e. flagged l (c, e) \<and> ptr l (c, e) = Some b)) \<and>
     (\<forall>c \<in> gset T'. \<forall>e b. flagged l' (c, e) \<and> ptr l' (c, e) = Some b \<longrightarrow> (\<exists>c \<in> gset T. \<exists>e. flagged l (c, e) \<and> ptr l (c, e) = Some b)) \<and>
     (\<forall>k. tmap l' T' k = (if \<exists>b \<in> gset T - gset T'. is_leaf l b \<and> key_of l b = Fin k then None else tmap l T k))"

lemma tmap_prune:
  assumes ok: "tree_ok l P T" and X: "X \<in> gsub T" and SX: "S \<in> gsub X"
    and key: "\<And>c. key_of l' c = key_of l c" "\<And>c. value_of l' c = value_of l c"
  shows "tmap l' (repl (gaddr X) S T) k' =
    (if \<exists>c \<in> gset T - gset (repl (gaddr X) S T). is_leaf l c \<and> key_of l c = Fin k' then None else tmap l T k')"
proof -
  have d: "gdist T" and sh: "shape (ptr l) T" and ST: "S \<in> gsub T" using tree_okD(3,4) [OF ok] gsub_trans [OF SX X] by blast+
  have set: "gset (repl (gaddr X) S T) = gset T - gset X \<union> gset S" by (rule repl_set [OF d X])
  have nd: "next_dir l' k' = next_dir l k'" using key(1) by (simp add: next_dir_def fun_eq_iff)
  have last: "gend (next_dir l k') S = c" if "gend (next_dir l k') T = c" "c \<in> gset S" for c
    using gpath_enter [OF d ST, of c] gpath_sub(2) [OF d ST] that gend_path by metis
  let ?e = "gend (next_dir l k') T"
  have gone: "?e = c" if "c \<in> gset T" "is_leaf l c" "key_of l c = Fin k'" for c using tree_okD(6) [OF ok that] .
  have eT: "?e \<in> gset T" by (rule gpath_set [OF gend_path])
  note rp = repl_path [OF d X, of "next_dir l k'" S]
  show ?thesis
  proof (cases "?e \<in> gset (repl (gaddr X) S T)")
    case True
    have "gend (next_dir l k') (repl (gaddr X) S T) = ?e"
    proof (cases "gaddr X \<in> gpath (next_dir l k') T")
      case xk: True
      have "?e \<in> gset X" using gpath_sub(2) [OF d X] xk gpath_set [OF gend_path] by metis
      then have "gend (next_dir l k') S = ?e" using last True set by blast
      then show ?thesis using rp(1) [OF xk] by simp
    qed (use rp(2) in simp)
    then have "tmap l' (repl (gaddr X) S T) k' = tmap l T k'" using key nd by (simp add: tmap_def Let_def)
    moreover have "\<not> (\<exists>c \<in> gset T - gset (repl (gaddr X) S T). is_leaf l c \<and> key_of l c = Fin k')" using gone True by blast
    ultimately show ?thesis by (simp only: if_False)
  next
    case False
    have sT: "gend (next_dir l k') S \<in> gset T" "is_leaf l (gend (next_dir l k') S)"
      using subsetD [OF gsub_set [OF ST] gpath_set [OF gend_path]] shape_leaf [OF sh gsub_trans [OF gend_leaf ST]]
      unfolding is_leaf_def by blast+
    have "?e \<in> gset X" using False eT set by blast
    then have "gaddr X \<in> gpath (next_dir l k') T" using gpath_enter [OF d X gend_path] by blast
    then have new: "gend (next_dir l k') (repl (gaddr X) S T) = gend (next_dir l k') S" using rp(1) by simp
    have "key_of l (gend (next_dir l k') S) \<noteq> Fin k'"
    proof
      assume "key_of l (gend (next_dir l k') S) = Fin k'"
      then have "?e = gend (next_dir l k') S" by (rule gone [OF sT])
      then have "?e \<in> gset S" using gpath_set [OF gend_path, of "next_dir l k'" S] by (simp only:)
      then show False using False set by blast
    qed
    then have "tmap l' (repl (gaddr X) S T) k' = None" using new key nd by (simp add: tmap_def Let_def)
    moreover have "\<exists>c \<in> gset T - gset (repl (gaddr X) S T). is_leaf l c \<and> key_of l c = Fin k'" if "tmap l T k' \<noteq> None"
    proof (intro bexI [of _ ?e] conjI)
      show "key_of l ?e = Fin k'" using that by (auto simp: tmap_def Let_def split: if_splits)
    qed (use end_leaf(1) [OF ok] eT False in auto)
    ultimately show ?thesis by (cases "tmap l T k'") auto
  qed
qed

lemma nm_moves_unlink:
  assumes ok: "tree_ok l P T" and a: "a \<in> gpath (next_dir l k) T" "edge l (a, next_dir l k a) = (Some x, 0)"
    and ch: "tag_chain l k x y" and y: "tagged l (y, e)" "ptr l (y, e) = Some z" "ptr l (y, other_dir e) = Some b"
    and l': "l' = set_edge (a, next_dir l k a) (Some z, marks_new (flagged l (y, e)) False) l"
  obtains S where "moves l P T l' P (repl x S T)" "unlinked l T l' (repl x S T)" "b \<in> gset T" "b \<notin> gset (repl x S T)"
proof -
  let ?m = "marks_new (flagged l (y, e)) False"
  have eo: "edges_ok l P" and P: "gset T \<subseteq> P" and d: "gdist T" and sh: "shape (ptr l) T" by (rule tree_okD [OF ok])+
  have aT: "a \<in> gset T" "a \<in> P" using gpath_set [OF a(1)] P by auto
  have ax: "ptr l (a, next_dir l k a) = Some x" using a(2) by (simp add: ptr_def)
  have xp: "x \<in> gpath (next_dir l k) T" by (rule gpath_next [OF sh a(1) ax d])
  obtain X where X: "X \<in> gsub T" "gaddr X = x" using gsub_at [OF gpath_set [OF xp]] by blast
  obtain S where S: "peel l X S" "gaddr S = z" "b \<in> gset X" "b \<notin> gset S" "y \<in> gset X" using chain_peel [OF ch ok X y] by blast
  have XT: "gset X \<subseteq> gset T" and SX: "S \<in> gsub X" and ST: "S \<in> gsub T"
    using gsub_set [OF X(1)] peel_sub [OF S(1)] gsub_trans [OF _ X(1)] by blast+
  have Xs: "shape (ptr l) X" "gdist X" using shape_sub [OF sh X(1)] gsub_dist [OF X(1) d] .
  have aX: "a \<notin> gset X" using shape_no_back [OF Xs(2,1)] ax X(2) by blast
  have aS: "a \<notin> gset S" using aX gsub_set [OF SX] by blast
  have yP: "y \<in> P" "y \<in> gset T" "z \<in> P" using S(5) XT P gset_sub [OF ST] S(2) by auto
  have at: "edge l' f = (if f = (a, next_dir l k a) then (Some z, ?m) else edge l f)" for f
    using edge_set_edge edges_okD(1) [OF eo aT(2)] unfolding l' by blast
  have other: "edge l' f = edge l f" if "f \<noteq> (a, next_dir l k a)" for f using that at [of f] by (simp only: if_False)
  have oth: "edge l' (c, f) = edge l (c, f)" "ptr l' (c, f) = ptr l (c, f)" "flagged l' (c, f) = flagged l (c, f)" if "c \<noteq> a" for c f
    using other that by (simp_all add: ptr_def flagged_def)
  have key: "key_of l' c = key_of l c" "value_of l' c = value_of l c" "next_dir l' k' = next_dir l k'" for c k'
    unfolding l' by (simp_all add: next_dir_def fun_eq_iff)
  have m: "?m \<in> {0, 2}" "marks_flag ?m = flagged l (y, e)" by (cases "flagged l (y, e)"; simp)+
  have set: "gset (repl x S T) = gset T - gset X \<union> gset S" using repl_set [OF d X(1)] X(2) by simp
  have last: "x \<in> gpath (next_dir l k') T \<and> gend (next_dir l k') S = c" if "gend (next_dir l k') T = c" "c \<in> gset S" for c k'
    using gpath_enter [OF d X(1), of c] gpath_enter [OF d ST, of c] gpath_sub(2) [OF d ST] that gsub_set [OF SX] gend_path X(2) by (metis subsetD)
  obtain f where f: "tagged l (x, f)" using chain_first [OF ch y(1)] by blast
  have x24: "x \<noteq> 4" "x \<noteq> 2" using f mark_of(1) tree_okD(7) [OF ok] by (auto simp: top_ok_def)
  have mk: "?m = 0" if "a = 2"
  proof -
    obtain A where A: "T = GNode 4 (GNode 2 A (GLeaf 1)) (GLeaf 3)" using tree_okD(7) [OF ok] by (auto simp: top_ok_def)
    have "next_dir l k 2 = DirL" "key_of l 0 = Inf" using tree_okD(7) [OF ok] by (simp_all add: top_ok_def)
    then have "A = X" using gsub_unique [OF d _ X(1), of A] X(2) ax A that sh by simp
    then have "S = GLeaf 0" using peel_top [OF ok S(1) _ ] A S(3,4) by auto
    then have "\<not> flagged l (y, e)" using edges_okD(4) [OF eo yP(1), of e] y(2) S(2) \<open>key_of l 0 = Inf\<close> by auto
    then show ?thesis by simp
  qed
  have a4: "a \<noteq> 4" using ax sh x24(2) tree_okD(7) [OF ok] by (auto simp: top_ok_def)
  have mv: "moves l P T l' P (repl x S T)"
  proof (rule moves_repl [OF ok aT(1) a(2) X])
    have "ptr l' (c, f) = ptr l (c, f)" if "c \<in> gset S" for c f using that aS by (intro oth(2)) auto
    then show "shape (ptr l') S" by (rule shape_cong [OF shape_sub [OF sh ST]])
    show "edges_ok l' P" unfolding l' by (rule edges_set [OF eo aT(2) a(2) yP(3) m(1)]) (use m(2) edges_okD(4) [OF eo yP(1), of e] y(2) in auto)
    show "edge l' (a, next_dir l k a) = (Some (gaddr S), ?m)" using at S(2) by simp
    show "marked l (c, f)" if "c \<in> gset X" "c \<notin> gset S" "ptr l (c, f) \<noteq> None" for c f by (rule peel_dead [OF S(1) Xs(1) that])
    show "x \<in> gpath (next_dir l k') T \<and> gend (next_dir l' k') S = c" if c: "c \<in> gset S" "is_leaf l' c" "key_of l' c = Fin k'" for c k'
    proof -
      have "c \<noteq> a" using c(1) aS by blast
      then have "is_leaf l c" using c(2) oth(2) by (simp add: is_leaf_def)
      then have "gend (next_dir l k') T = c" using tree_okD(6) [OF ok] c(1,3) key(1) gsub_set [OF ST] by auto
      then show ?thesis using last c(1) key(3) by metis
    qed
    show "c \<in> gpath (next_dir l' k') S" if "c \<in> gset S" "c \<in> gpath (next_dir l k') X" for k' c
      using gpath_sub(3) [OF Xs(2) SX gpath_enter [OF Xs(2) SX that(2,1)] that(2,1)] key(3) by simp
    show "(c = gaddr S \<longrightarrow> marks_flag ?m) \<and> (\<forall>c' \<in> gset S. \<forall>f. ptr l' (c', f) = Some c \<longrightarrow> flagged l' (c', f))"
      if c: "\<forall>c' \<in> gset T. \<forall>f. ptr l (c', f) = Some c \<longrightarrow> flagged l (c', f)" for c
      using c yP(2) y(2) S(2) m(2) oth(2,3) aS gsub_set [OF ST] by (metis subsetD)
    have mm: "marked l' (2, f) = marked l (2, f)" "marked l' (4, f) = marked l (4, f)" for f
      using at [of "(2, f)"] at [of "(4, f)"] mk a4 a(2) by (auto simp: marked_def)
    show "top_ok l' (repl x S T)"
    proof (rule top_repl [OF ok xp x24])
      fix A
      assume A: "T = GNode 4 (GNode 2 A (GLeaf 1)) (GLeaf 3)" "x = gaddr A"
      then have "A = X" using gsub_unique [OF d _ X(1), of A] X(2) by simp
      then show "S = GLeaf 0 \<or> (\<exists>n B. S = GNode n B (GLeaf 0) \<and> key_of l' n = Inf)" using peel_top [OF ok S(1)] A(1) S(3,4) by auto
    qed (use key mm l' tree_okD(7) [OF ok] in \<open>auto simp: top_ok_def\<close>)
  qed (use key other gsub_dist [OF ST d] gsub_set [OF SX] gsub_set [OF ST] P in auto)
  have "tmap l' (repl x S T) k' = (if \<exists>c \<in> gset T - gset (repl x S T). is_leaf l c \<and> key_of l c = Fin k' then None else tmap l T k')" for k'
    using tmap_prune [OF ok X(1) SX] X(2) key(1,2) by simp
  moreover have "\<exists>c' \<in> gset T. \<exists>f. flagged l (c', f) \<and> ptr l (c', f) = Some c" if "c \<in> gset T - gset (repl x S T)" "is_leaf l c" for c
    using peel_flag [OF S(1) Xs(1), of c] that set XT by blast
  moreover have "\<exists>c' \<in> gset T. \<exists>f. flagged l (c', f) \<and> ptr l (c', f) = Some c"
    if c: "c' \<in> gset (repl x S T)" "flagged l' (c', f)" "ptr l' (c', f) = Some c" for c c' f
  proof (cases "(c', f) = (a, next_dir l k a)")
    case True
    then show ?thesis using c at m(2) y(2) yP(2) by (auto simp: flagged_def ptr_def)
  next
    case False
    then show ?thesis using c other [OF False] set XT gsub_set [OF ST] by (auto simp: flagged_def ptr_def)
  qed
  ultimately have "unlinked l T l' (repl x S T)" unfolding unlinked_def by blast
  then show ?thesis using that mv S(3,4) XT set by blast
qed

end
