(* ===== verification/NM_Threads.thy ===== *)
theory NM_Threads
  imports NM_Moves
begin

text \<open>
  What a thread knows about the tree while it executes an operation, and that no move of another thread invalidates it. A search is
  accompanied by the set of nodes that have been on the path of its key since it started: the set is closed under following
  the path, because a node that leaves the tree keeps its edges.
\<close>

section \<open>Searches\<close>

definition hind_ok :: "('k :: linorder, 'v) nm_tree \<Rightarrow> nat set \<Rightarrow> gtree \<Rightarrow> 'k \<Rightarrow> nat set \<Rightarrow> bool" where
  "hind_ok l P T k H \<longleftrightarrow> H \<subseteq> P \<and> gpath (next_dir l k) T \<subseteq> H \<and> (\<forall>x \<in> H. \<forall>y. ptr l (x, next_dir l k x) = Some y \<longrightarrow> y \<in> H) \<and>
     (\<forall>x \<in> H. x \<in> gset T \<and> \<not> is_leaf l x \<longrightarrow> x \<in> gpath (next_dir l k) T)"

lemma hind_okD:
  assumes "hind_ok l P T k H"
  shows "H \<subseteq> P" "gpath (next_dir l k) T \<subseteq> H" "x \<in> H \<Longrightarrow> ptr l (x, next_dir l k x) = Some y \<Longrightarrow> y \<in> H"
    "x \<in> H \<Longrightarrow> x \<in> gset T \<Longrightarrow> \<not> is_leaf l x \<Longrightarrow> x \<in> gpath (next_dir l k) T"
  using assms by (auto simp: hind_ok_def)

lemma hind_begin:
  assumes "tree_ok l P T"
  shows "hind_ok l P T k (gpath (next_dir l k) T)"
  using gpath_next [OF tree_okD(4) [OF assms] _ _ tree_okD(3) [OF assms]] gpath_set tree_okD(2) [OF assms]
  unfolding hind_ok_def by blast

lemma moves_dir: "moves l P T l' P' T' \<Longrightarrow> a \<in> P \<Longrightarrow> next_dir l' k a = next_dir l k a"
  by (rule next_dir_cong [OF movesD(4)])

lemma moves_stays:
  assumes mv: "moves l P T l' P' T'" and h: "hind_ok l P T k H" and x: "x \<in> H" "x \<in> gset T'" "\<not> is_leaf l x"
  shows "x \<in> gpath (next_dir l' k) T'"
proof -
  have "x \<in> P" using hind_okD(1) [OF h] x(1) by blast
  then have "x \<in> gset T" by (rule movesD(3) [OF mv _ x(2)])
  then show ?thesis using movesD(11) [OF mv _ x(2,3)] hind_okD(4) [OF h x(1) _ x(3)] by blast
qed

lemma hind_moves:
  assumes mv: "moves l P T l' P' T'" and h: "hind_ok l P T k H"
  shows "hind_ok l' P' T' k (H \<union> gpath (next_dir l' k) T')"
proof -
  have ok: "tree_ok l' P' T'" by (rule movesD(1) [OF mv])
  note st = moves_stays [OF mv h]
  have closed: "y \<in> H \<union> gpath (next_dir l' k) T'" if "x \<in> H \<union> gpath (next_dir l' k) T'" "ptr l' (x, next_dir l' k x) = Some y" for x y
  proof (cases "x \<in> gpath (next_dir l' k) T'")
    case True
    then show ?thesis using gpath_next [OF tree_okD(4) [OF ok] True that(2) tree_okD(3) [OF ok]] by blast
  next
    case False
    then have x: "x \<in> H" "x \<in> P" using that(1) hind_okD(1) [OF h] by auto
    have p: "x \<in> P'" using x(2) movesD(2) [OF mv] by blast
    have "\<not> is_leaf l' x" using edges_okD(8) [OF tree_okD(1) [OF ok] p, of "next_dir l' k x"] that(2) by simp
    then have "\<not> is_leaf l x" using movesD(6) [OF mv x(2)] by simp
    then have "x \<notin> gset T'" using st x(1) False by blast
    then have "ptr l (x, next_dir l k x) = Some y" using movesD(10) [OF mv x(2)] that(2) moves_dir [OF mv x(2)] by simp
    then show ?thesis using hind_okD(3) [OF h x(1)] by blast
  qed
  have "x \<in> gpath (next_dir l' k) T'" if "x \<in> H" "x \<in> gset T'" "\<not> is_leaf l' x" for x
    using st [OF that(1,2)] that(1,3) movesD(6) [OF mv] hind_okD(1) [OF h] by blast
  moreover have "H \<union> gpath (next_dir l' k) T' \<subseteq> P'" using hind_okD(1) [OF h] movesD(2) [OF mv] tree_okD(2) [OF ok] gpath_set by blast
  ultimately show ?thesis using closed unfolding hind_ok_def by blast
qed

section \<open>Records\<close>

definition on_path :: "('k :: linorder, 'v) nm_tree \<Rightarrow> nat set \<Rightarrow> gtree \<Rightarrow> 'k \<Rightarrow> nat \<Rightarrow> bool" where
  "on_path l P T k a \<longleftrightarrow> a \<in> P \<and> \<not> is_leaf l a \<and> (a \<in> gset T \<longrightarrow> a \<in> gpath (next_dir l k) T)"

definition rec_ok :: "('k :: linorder, 'v) nm_tree \<Rightarrow> nat set \<Rightarrow> gtree \<Rightarrow> 'k \<Rightarrow> seek_record \<Rightarrow> bool" where
  "rec_ok l P T k rec \<longleftrightarrow> on_path l P T k (sr_ancestor rec) \<and> sr_successor_dir rec = next_dir l k (sr_ancestor rec) \<and>
     on_path l P T k (sr_parent rec) \<and> sr_leaf_dir rec = next_dir l k (sr_parent rec) \<and>
     sr_successor rec \<in> P \<and> tag_chain l k (sr_successor rec) (sr_parent rec)"

lemma on_path_moves:
  assumes mv: "moves l P T l' P' T'" and a: "on_path l P T k a"
  shows "on_path l' P' T' k a"
proof -
  have p: "a \<in> P" "\<not> is_leaf l a" "a \<in> gset T \<longrightarrow> a \<in> gpath (next_dir l k) T" using a by (simp_all add: on_path_def)
  then show ?thesis
    using movesD(2) [OF mv] movesD(3) [OF mv p(1)] movesD(6) [OF mv p(1)] movesD(11) [OF mv _ _ p(2), of k] unfolding on_path_def by blast
qed

lemma ptr_in_P:
  assumes "tree_ok l P T" "a \<in> P" "ptr l (a, d) = Some c"
  shows "c \<in> P"
proof -
  have "\<not> is_leaf l a" using edges_okD(8) [OF tree_okD(1) [OF assms(1)] assms(2), of d] assms(3) by simp
  from edges_okD(7) [OF tree_okD(1) [OF assms(1)] assms(2) this, of d] show ?thesis using assms(3) by simp
qed

lemma moves_tagged:
  assumes "moves l P T l' P' T'" "a \<in> P" "tagged l (a, d)"
  shows "tagged l' (a, d)" "ptr l' (a, d) = ptr l (a, d)" "flagged l' (a, d) = flagged l (a, d)"
  using movesD(9) [OF assms] assms(3) by (simp_all add: tagged_def ptr_def flagged_def)

lemma chain_moves:
  assumes "tag_chain l k x y" "moves l P T l' P' T'" "tree_ok l P T" "x \<in> P"
  shows "tag_chain l' k x y"
  using assms
proof (induction rule: tag_chain.induct)
  case (chain_step x x' y)
  note t = moves_tagged [OF chain_step.prems(1,3) chain_step.hyps(1)]
  have "x' \<in> P" by (rule ptr_in_P [OF chain_step.prems(2,3) chain_step.hyps(2)])
  then have "tag_chain l' k x' y" using chain_step.IH chain_step.prems by blast
  from tag_chain.chain_step [OF _ _ this, of x] show ?case using t(1,2) chain_step.hyps(2) moves_dir [OF chain_step.prems(1,3), of k] by simp
qed (rule chain_refl)

lemma rec_moves:
  assumes mv: "moves l P T l' P' T'" and ok: "tree_ok l P T" and r: "rec_ok l P T k rec"
  shows "rec_ok l' P' T' k rec"
proof -
  have P: "sr_ancestor rec \<in> P" "sr_parent rec \<in> P" "sr_successor rec \<in> P" "tag_chain l k (sr_successor rec) (sr_parent rec)"
    using r by (auto simp: rec_ok_def on_path_def)
  then show ?thesis
    using r on_path_moves [OF mv] moves_dir [OF mv] chain_moves [OF P(4) mv ok] movesD(2) [OF mv] unfolding rec_ok_def by auto
qed

text \<open>What was read when an edge was followed.\<close>

definition edge_seen :: "('k :: linorder, 'v) nm_tree \<Rightarrow> ('k, 'v) tcall \<Rightarrow> bool \<Rightarrow> nat \<Rightarrow> nat \<Rightarrow> bool" where
  "edge_seen l call tag a c \<longleftrightarrow> (let e = (a, next_dir l (tcall_key call) a) in
     (tag \<longrightarrow> tagged l e \<and> ptr l e = Some c) \<and> (\<forall>k b. call = TCleanup k b \<and> c = b \<longrightarrow> flagged l e \<and> ptr l e = Some b))"

lemma moves_flagged:
  assumes "moves l P T l' P' T'" "a \<in> P" "flagged l (a, d)"
  shows "flagged l' (a, d)" "ptr l' (a, d) = ptr l (a, d)"
  using movesD(8) [OF assms] movesD(7) [OF assms(1,2) mark_of(2) [OF assms(3)]] .

lemma edge_seen_moves:
  assumes mv: "moves l P T l' P' T'" and a: "a \<in> P" and s: "edge_seen l call tag a c"
  shows "edge_seen l' call tag a c"
  using s moves_tagged(1,2) [OF mv a, of "next_dir l (tcall_key call) a"] moves_flagged [OF mv a, of "next_dir l (tcall_key call) a"]
  unfolding edge_seen_def Let_def moves_dir [OF mv a] by (cases call) auto

section \<open>Threads\<close>

definition answered :: "('k :: linorder, 'v) nm_tree \<Rightarrow> 'k \<Rightarrow> nat \<Rightarrow> ('k, 'v) map_status \<Rightarrow> bool" where
  "answered l k x hs \<longleftrightarrow> (\<exists>p R m. hs = HSeen p R \<and> reads map_app p m \<subseteq> R \<and> m k = (if key_of l x = Fin k then value_of l x else None))"

text \<open>The leaves that a search may have seen.\<close>

definition leaves_ok :: "('k :: linorder, 'v) nm_tree \<Rightarrow> gtree \<Rightarrow> nat set \<Rightarrow> ('k, 'v) tcall \<Rightarrow> ('k, 'v) map_status \<Rightarrow> bool" where
  "leaves_ok l T H call hs \<longleftrightarrow> (case call of
     TCleanup k b \<Rightarrow> (b \<in> gset T \<longrightarrow> (\<forall>x \<in> H. is_leaf l x \<longrightarrow> x = b)) \<and>
       (\<forall>x \<in> H. ptr l (x, next_dir l k x) = Some b \<longrightarrow> flagged l (x, next_dir l k x))
   | _ \<Rightarrow> \<forall>x \<in> H. is_leaf l x \<longrightarrow> answered l (tcall_key call) x hs)"

text \<open>The private nodes of an insertion, and the leaf that a removal has flagged.\<close>

fun tcall_ok :: "('k :: linorder, 'v) nm_tree \<Rightarrow> nat set \<Rightarrow> gtree \<Rightarrow> ('k, 'v) tcall \<Rightarrow> ('k, 'v) map_status \<Rightarrow> bool" where
  "tcall_ok l P T (TInsert k v nl ni) hs \<longleftrightarrow> (\<exists>R. hs = HSeen (MInsert k v) R) \<and>
     (\<forall>n. nl = Some n \<longrightarrow> n \<notin> P \<and> n < tn l \<and> (\<forall>d. edge l (n, d) = (None, 0)) \<and> key_of l n = Fin k \<and> value_of l n = Some v) \<and>
     (\<forall>i. ni = Some i \<longrightarrow> i \<notin> P \<and> i < tn l \<and> nl \<noteq> Some i)"
| "tcall_ok l P T (TRemove k) hs \<longleftrightarrow> (\<exists>R. hs = HSeen (MRemove k) R)"
| "tcall_ok l P T (TCleanup k b) hs \<longleftrightarrow> b \<in> P \<and> is_leaf l b \<and> key_of l b = Fin k \<and>
     (if b \<in> gset T then (\<exists>R. hs = HSeen (MRemove k) R) \<and> (\<forall>a \<in> gset T. \<forall>d. ptr l (a, d) = Some b \<longrightarrow> flagged l (a, d))
      else hs = HReady (MValue (value_of l b)))"

fun tpc_call :: "('k, 'v) nm_pc \<Rightarrow> ('k, 'v) tcall option" where
  "tpc_call (TRoot call) = Some call"
| "tpc_call (TLoadS call r) = Some call"
| "tpc_call (TFirst call r s) = Some call"
| "tpc_call (TSecond call rec pt) = Some call"
| "tpc_call (TSeek call rec pt d c tg) = Some call"
| "tpc_call (TStoreL call rec i left right) = Some call"
| "tpc_call (TStoreR call rec i right) = Some call"
| "tpc_call (TLink call rec i) = Some call"
| "tpc_call (TFlag k rec) = Some (TRemove k)"
| "tpc_call (CLoad call rec) = Some call"
| "tpc_call (CTag call rec target) = Some call"
| "tpc_call (CRead call rec target) = Some call"
| "tpc_call (CCas call rec sib flag) = Some call"
| "tpc_call _ = None"

fun seeking :: "('k, 'v) nm_pc \<Rightarrow> bool" where
  "seeking (TLoadS call r) = True"
| "seeking (TFirst call r s) = True"
| "seeking (TSecond call rec pt) = True"
| "seeking (TSeek call rec pt d c tg) = True"
| "seeking _ = False"

fun get_key :: "('k, 'v) nm_pc \<Rightarrow> 'k option" where
  "get_key (GRoot k) = Some k"
| "get_key (GLoadS k r) = Some k"
| "get_key (GFirst k s) = Some k"
| "get_key (GSecond k a) = Some k"
| "get_key (GSeek k c) = Some k"
| "get_key _ = None"

definition owned_edge :: "('k, 'v) nm_tree \<Rightarrow> ('k, 'v) tcall \<Rightarrow> nat \<times> direction \<Rightarrow> bool" where
  "owned_edge l call e \<longleftrightarrow> (\<forall>k b. call = TCleanup k b \<longrightarrow> flagged l e \<and> ptr l e = Some b)"

definition new_leaf_ok :: "('k :: linorder, 'v) nm_tree \<Rightarrow> nat set \<Rightarrow> 'k \<Rightarrow> seek_record \<Rightarrow> bool" where
  "new_leaf_ok l P k rec \<longleftrightarrow> sr_leaf rec \<in> P \<and> is_leaf l (sr_leaf rec) \<and> key_of l (sr_leaf rec) \<noteq> Fin k"

fun tpc_ok :: "('k :: linorder, 'v) nm_tree \<Rightarrow> nat set \<Rightarrow> gtree \<Rightarrow> nat set \<Rightarrow> ('k, 'v) nm_pc \<Rightarrow> bool" where
  "tpc_ok l P T H (TLoadS call r) \<longleftrightarrow> r = 4"
| "tpc_ok l P T H (TFirst call r s) \<longleftrightarrow> r = 4 \<and> s = 2"
| "tpc_ok l P T H (TSecond call rec pt) \<longleftrightarrow> rec_ok l P T (tcall_key call) rec \<and> sr_leaf rec \<in> H \<and> key_of l (sr_leaf rec) = Inf \<and>
     edge_seen l call pt (sr_parent rec) (sr_leaf rec)"
| "tpc_ok l P T H (TSeek call rec pt d c tg) \<longleftrightarrow> rec_ok l P T (tcall_key call) rec \<and> sr_leaf rec \<in> H \<and> \<not> is_leaf l (sr_leaf rec) \<and>
     edge_seen l call pt (sr_parent rec) (sr_leaf rec) \<and> d = next_dir l (tcall_key call) (sr_leaf rec) \<and> c \<in> H \<and>
     edge_seen l call (marks_tag tg) (sr_leaf rec) c"
| "tpc_ok l P T H (GLoadS k r) \<longleftrightarrow> r = 4"
| "tpc_ok l P T H (GFirst k s) \<longleftrightarrow> s = 2"
| "tpc_ok l P T H (GSecond k a) \<longleftrightarrow> a \<in> H \<and> key_of l a = Inf"
| "tpc_ok l P T H (GSeek k c) \<longleftrightarrow> c \<in> H"
| "tpc_ok l P T H (TStoreL call rec i left right) \<longleftrightarrow> rec_ok l P T (tcall_key call) rec \<and> new_leaf_ok l P (tcall_key call) rec \<and>
     (\<exists>k v n. call = TInsert k v (Some n) (Some i) \<and> (left, right) = leaf_sides l k n (sr_leaf rec) \<and> key_of l i = key_of l right)"
| "tpc_ok l P T H (TStoreR call rec i right) \<longleftrightarrow> rec_ok l P T (tcall_key call) rec \<and> new_leaf_ok l P (tcall_key call) rec \<and>
     (\<exists>k v n. call = TInsert k v (Some n) (Some i) \<and> edge l (i, DirL) = (Some (fst (leaf_sides l k n (sr_leaf rec))), 0) \<and>
       right = snd (leaf_sides l k n (sr_leaf rec)) \<and> key_of l i = key_of l right)"
| "tpc_ok l P T H (TLink call rec i) \<longleftrightarrow> rec_ok l P T (tcall_key call) rec \<and> new_leaf_ok l P (tcall_key call) rec \<and>
     (\<exists>k v n. call = TInsert k v (Some n) (Some i) \<and> insert_nodes l k v n i (sr_leaf rec))"
| "tpc_ok l P T H (TFlag k rec) \<longleftrightarrow> rec_ok l P T k rec \<and> sr_leaf rec \<in> P \<and> is_leaf l (sr_leaf rec) \<and> key_of l (sr_leaf rec) = Fin k"
| "tpc_ok l P T H (CLoad call rec) \<longleftrightarrow> rec_ok l P T (tcall_key call) rec \<and> (\<exists>d. flagged l (sr_parent rec, d)) \<and> owned_edge l call (leaf_addr rec)"
| "tpc_ok l P T H (CTag call rec target) \<longleftrightarrow> rec_ok l P T (tcall_key call) rec \<and>
     (\<exists>d. target = (sr_parent rec, d) \<and> flagged l (sr_parent rec, other_dir d) \<and> owned_edge l call (sr_parent rec, other_dir d))"
| "tpc_ok l P T H (CRead call rec target) \<longleftrightarrow> rec_ok l P T (tcall_key call) rec \<and>
     (\<exists>d. target = (sr_parent rec, d) \<and> tagged l (sr_parent rec, d) \<and> owned_edge l call (sr_parent rec, other_dir d))"
| "tpc_ok l P T H (CCas call rec sib flag) \<longleftrightarrow> rec_ok l P T (tcall_key call) rec \<and>
     (\<exists>d. tagged l (sr_parent rec, d) \<and> ptr l (sr_parent rec, d) = sib \<and> flag = flagged l (sr_parent rec, d) \<and>
       owned_edge l call (sr_parent rec, other_dir d))"
| "tpc_ok l P T H TPanic \<longleftrightarrow> False"
| "tpc_ok l P T H _ \<longleftrightarrow> True"

definition nm_thread :: "('k :: linorder, 'v) nm_tree \<Rightarrow> nat set \<Rightarrow> gtree \<Rightarrow> nat set \<Rightarrow> ('k, 'v) nm_pc \<Rightarrow> ('k, 'v) map_status \<Rightarrow> bool" where
  "nm_thread l P T H pc hs \<longleftrightarrow> tpc_ok l P T H pc \<and>
     (\<forall>call. tpc_call pc = Some call \<longrightarrow> tcall_ok l P T call hs \<and>
        (seeking pc \<longrightarrow> hind_ok l P T (tcall_key call) H \<and> leaves_ok l T H call hs)) \<and>
     (\<forall>k. get_key pc = Some k \<longrightarrow> (\<exists>R. hs = HSeen (MGet k) R) \<and>
        (pc \<noteq> GRoot k \<longrightarrow> hind_ok l P T k H \<and> (\<forall>x \<in> H. is_leaf l x \<longrightarrow> answered l k x hs))) \<and>
     (pc = TIdle \<longrightarrow> hs = HQuiet) \<and> (\<forall>r. pc = TFinish r \<longrightarrow> hs = HReady r \<or> (\<exists>p R. hs = HSeen p R \<and> r \<in> R))"

lemma nm_threadD:
  assumes "nm_thread l P T H pc hs"
  shows "tpc_ok l P T H pc" "tpc_call pc = Some call \<Longrightarrow> tcall_ok l P T call hs"
    "tpc_call pc = Some call \<Longrightarrow> seeking pc \<Longrightarrow> hind_ok l P T (tcall_key call) H"
    "tpc_call pc = Some call \<Longrightarrow> seeking pc \<Longrightarrow> leaves_ok l T H call hs"
    "get_key pc = Some k \<Longrightarrow> \<exists>R. hs = HSeen (MGet k) R" "get_key pc = Some k \<Longrightarrow> pc \<noteq> GRoot k \<Longrightarrow> hind_ok l P T k H"
    "get_key pc = Some k \<Longrightarrow> pc \<noteq> GRoot k \<Longrightarrow> x \<in> H \<Longrightarrow> is_leaf l x \<Longrightarrow> answered l k x hs"
  using assms by (auto simp: nm_thread_def)

section \<open>Noninterference\<close>

definition owner :: "('k, 'v) nm_pc \<Rightarrow> nat option" where
  "owner pc = (case tpc_call pc of Some (TCleanup k b) \<Rightarrow> Some b | _ \<Rightarrow> None)"

definition privs :: "('k, 'v) nm_pc \<Rightarrow> nat set" where
  "privs pc = (case tpc_call pc of Some (TInsert k v nl ni) \<Rightarrow> set_option nl \<union> set_option ni | _ \<Rightarrow> {})"

definition pc_key :: "('k, 'v) nm_pc \<Rightarrow> 'k option" where
  "pc_key pc = (case tpc_call pc of Some call \<Rightarrow> Some (tcall_key call) | None \<Rightarrow> get_key pc)"

text \<open>The specification notices the current contents; the owner of a leaf that has left the tree is done.\<close>

definition status_step :: "('k, 'v) nm_tree \<Rightarrow> gtree \<Rightarrow> gtree \<Rightarrow> ('k \<rightharpoonup> 'v) \<Rightarrow> ('k, 'v) nm_pc \<Rightarrow> ('k, 'v) map_status \<Rightarrow> ('k, 'v) map_status \<Rightarrow> bool" where
  "status_step l T T' m pc hs hs' \<longleftrightarrow>
     (case owner pc of
        Some b \<Rightarrow> if b \<in> gset T - gset T' then hs' = HReady (MValue (value_of l b)) else keep m hs hs'
      | None \<Rightarrow> keep m hs hs')"

definition grow :: "('k :: linorder, 'v) nm_tree \<Rightarrow> gtree \<Rightarrow> ('k, 'v) nm_pc \<Rightarrow> nat set \<Rightarrow> nat set" where
  "grow l T pc H = H \<union> (case pc_key pc of None \<Rightarrow> {} | Some k \<Rightarrow> gpath (next_dir l k) T)"

lemma answered_moves:
  assumes mv: "moves l P T l' P' T'" and x: "x \<in> P" "answered l k x hs" and k: "keep m hs hs'"
  shows "answered l' k x hs'"
proof -
  obtain p R m0 where h: "hs = HSeen p R" "reads map_app p m0 \<subseteq> R" "m0 k = (if key_of l x = Fin k then value_of l x else None)"
    using x(2) by (auto simp: answered_def)
  moreover obtain R' where "hs' = HSeen p R'" "R \<subseteq> R'" using k h(1) by auto
  ultimately show ?thesis unfolding answered_def movesD(4,5) [OF mv x(1)] by blast
qed

lemma answered_now:
  assumes ok: "tree_ok l P T" and x: "x \<in> gpath (next_dir l k) T" "is_leaf l x" and s: "reads map_app p (tmap l T) \<subseteq> R"
  shows "answered l k x (HSeen p R)"
proof -
  have "x = gend (next_dir l k) T" by (rule end_leaf(2) [OF ok x])
  then have "tmap l T k = (if key_of l x = Fin k then value_of l x else None)" by (simp add: tmap_def Let_def)
  then show ?thesis using s unfolding answered_def by blast
qed

lemma tcall_moves:
  assumes mv: "moves l P T l' P' T'" and c: "tcall_ok l P T call hs" "tpc_call pc = Some call"
    and priv: "\<And>a. a \<in> privs pc \<Longrightarrow> t_nodes l' ! a = t_nodes l ! a \<and> a \<notin> P'" "tn l \<le> tn l'" and st: "status_step l T T' m pc hs hs'"
  shows "tcall_ok l' P' T' call hs'"
proof (cases call)
  case (TInsert k v nl ni)
  have same: "edge l' (a, d) = edge l (a, d)" "key_of l' a = key_of l a" "value_of l' a = value_of l a" "a \<notin> P'" if "a \<in> set_option nl \<union> set_option ni" for a d
    using priv(1) [of a] that c(2) TInsert by (auto simp: privs_def edge_def key_of_def value_of_def split: direction.splits)
  have k: "keep m hs hs'" using st c(2) TInsert by (simp add: status_step_def owner_def)
  have "n \<notin> P' \<and> n < tn l' \<and> (\<forall>d. edge l' (n, d) = (None, 0)) \<and> key_of l' n = Fin k \<and> value_of l' n = Some v" if "nl = Some n" for n
    using same [of n] that c(1) TInsert priv(2) by auto
  moreover have "i \<notin> P' \<and> i < tn l' \<and> nl \<noteq> Some i" if "ni = Some i" for i using same(4) [of i] that c(1) TInsert priv(2) by auto
  ultimately show ?thesis using k c(1) TInsert by auto
next
  case (TRemove k)
  then show ?thesis using st c by (auto simp: status_step_def owner_def)
next
  case (TCleanup k b)
  have b: "b \<in> P" "is_leaf l b" "key_of l b = Fin k" using c(1) TCleanup by auto
  have own: "owner pc = Some b" using c(2) TCleanup by (simp add: owner_def)
  have same: "b \<in> P'" "is_leaf l' b" "key_of l' b = Fin k" "value_of l' b = value_of l b"
    using b movesD(2) [OF mv] movesD(4-6) [OF mv b(1)] by auto
  show ?thesis
  proof (cases "b \<in> gset T'")
    case True
    then have T: "b \<in> gset T" by (rule movesD(3) [OF mv b(1)])
    then have "\<forall>a \<in> gset T'. \<forall>d. ptr l' (a, d) = Some b \<longrightarrow> flagged l' (a, d)" using movesD(12) [OF mv b(1)] c(1) TCleanup by auto
    then show ?thesis using same True T TCleanup c(1) st own by (auto simp: status_step_def)
  next
    case False
    then show ?thesis using same TCleanup c(1) st own by (auto simp: status_step_def split: if_splits)
  qed
qed

lemma leaves_moves:
  assumes mv: "moves l P T l' P' T'" and c: "tcall_ok l P T call hs" "tpc_call pc = Some call"
    and h: "hind_ok l P T (tcall_key call) H" "leaves_ok l T H call hs" and st: "status_step l T T' (tmap l' T') pc hs hs'"
  shows "leaves_ok l' T' (H \<union> gpath (next_dir l' (tcall_key call)) T') call hs'"
proof -
  have ok: "tree_ok l' P' T'" by (rule movesD(1) [OF mv])
  have P: "x \<in> P" if "x \<in> H" for x using that hind_okD(1) [OF h(1)] by blast
  show ?thesis
  proof (cases "\<exists>k b. call = TCleanup k b")
    case True
    then obtain k b where call: "call = TCleanup k b" by blast
    have b: "b \<in> P" "is_leaf l b" "key_of l b = Fin k" using c(1) call by auto
    have one: "x = b" if "b \<in> gset T'" "x \<in> H \<union> gpath (next_dir l' k) T'" "is_leaf l' x" for x
      using that(2)
    proof
      assume x: "x \<in> H"
      have "b \<in> gset T" by (rule movesD(3) [OF mv b(1) that(1)])
      then show ?thesis using h(2) call x that(3) movesD(6) [OF mv P [OF x]] by (simp add: leaves_ok_def)
    next
      assume "x \<in> gpath (next_dir l' k) T'"
      then have "x = gend (next_dir l' k) T'" using end_leaf(2) [OF ok] that(3) by blast
      also have "\<dots> = b" using tree_okD(6) [OF ok that(1)] b movesD(4,6) [OF mv b(1)] by simp
      finally show ?thesis .
    qed
    have "flagged l' (x, next_dir l' k x)" if x: "x \<in> H \<union> gpath (next_dir l' k) T'" "ptr l' (x, next_dir l' k x) = Some b" for x
    proof (cases "x \<in> gset T'")
      case True
      then have bT: "b \<in> gset T'" using shape_edge_set [OF tree_okD(4) [OF ok] _ x(2)] by blast
      then have "b \<in> gset T" by (rule movesD(3) [OF mv b(1)])
      then have "\<forall>a \<in> gset T. \<forall>d. ptr l (a, d) = Some b \<longrightarrow> flagged l (a, d)" using c(1) call by auto
      from movesD(12) [OF mv b(1) this True x(2)] show ?thesis .
    next
      case False
      then have xH: "x \<in> H" using x(1) gpath_set by blast
      note xP = P [OF xH]
      have "ptr l (x, next_dir l k x) = Some b" using movesD(10) [OF mv xP False] x(2) moves_dir [OF mv xP] by simp
      then have "flagged l (x, next_dir l k x)" using h(2) call xH by (simp add: leaves_ok_def)
      then show ?thesis using movesD(8) [OF mv xP] moves_dir [OF mv xP] by simp
    qed
    then show ?thesis using one call by (simp add: leaves_ok_def)
  next
    case False
    then have own: "owner pc = None" using c(2) by (auto simp: owner_def split: tcall.splits)
    then have k: "keep (tmap l' T') hs hs'" using st by (simp add: status_step_def)
    obtain p R where hs: "hs = HSeen p R" using c(1) False by (cases call) auto
    then obtain R' where hs': "hs' = HSeen p R'" "reads map_app p (tmap l' T') \<subseteq> R'" using k by auto
    have "answered l' (tcall_key call) x hs'" if x: "x \<in> H \<union> gpath (next_dir l' (tcall_key call)) T'" "is_leaf l' x" for x
      using x(1)
    proof
      assume H: "x \<in> H"
      then have "answered l (tcall_key call) x hs" using h(2) False x(2) movesD(6) [OF mv P [OF H]] by (cases call) (auto simp: leaves_ok_def)
      then show ?thesis by (rule answered_moves [OF mv P [OF H] _ k])
    next
      assume "x \<in> gpath (next_dir l' (tcall_key call)) T'"
      then show ?thesis using answered_now [OF ok _ x(2) hs'(2)] hs'(1) by blast
    qed
    then show ?thesis using False by (cases call) (auto simp: leaves_ok_def)
  qed
qed

lemma owned_moves:
  assumes mv: "moves l P T l' P' T'" and a: "a \<in> P" "owned_edge l call (a, d)"
  shows "owned_edge l' call (a, d)"
  using a(2) moves_flagged [OF mv a(1), of d] unfolding owned_edge_def by simp

lemma insert_moves:
  assumes mv: "moves l P T l' P' T'" and x: "new_leaf_ok l P k rec" and n: "\<And>a. a \<in> {n, i} \<Longrightarrow> t_nodes l' ! a = t_nodes l ! a" "tn l \<le> tn l'"
  shows "new_leaf_ok l' P' k rec" "leaf_sides l' k' n (sr_leaf rec) = leaf_sides l k' n (sr_leaf rec)"
    "edge l' (i, d) = edge l (i, d)" "key_of l' i = key_of l i"
    "key_of l' (fst (leaf_sides l k' n (sr_leaf rec))) = key_of l (fst (leaf_sides l k' n (sr_leaf rec)))"
    "key_of l' (snd (leaf_sides l k' n (sr_leaf rec))) = key_of l (snd (leaf_sides l k' n (sr_leaf rec)))"
    "insert_nodes l k' v n i (sr_leaf rec) \<Longrightarrow> insert_nodes l' k' v n i (sr_leaf rec)"
proof -
  have xP: "sr_leaf rec \<in> P" using x by (simp add: new_leaf_ok_def)
  note d = movesD(4,6) [OF mv xP]
  show "new_leaf_ok l' P' k rec" using x d movesD(2) [OF mv] by (auto simp: new_leaf_ok_def)
  show sd: "leaf_sides l' k' n (sr_leaf rec) = leaf_sides l k' n (sr_leaf rec)" using d(1) by (simp add: leaf_sides_def)
  show ei: "edge l' (i, d) = edge l (i, d)" "key_of l' i = key_of l i" for d using n(1) [of i] by (simp_all add: edge_def key_of_def)
  have en: "edge l' (n, d) = edge l (n, d)" "key_of l' n = key_of l n" "value_of l' n = value_of l n" for d
    using n(1) [of n] by (simp_all add: edge_def key_of_def value_of_def)
  show k: "key_of l' (fst (leaf_sides l k' n (sr_leaf rec))) = key_of l (fst (leaf_sides l k' n (sr_leaf rec)))"
    "key_of l' (snd (leaf_sides l k' n (sr_leaf rec))) = key_of l (snd (leaf_sides l k' n (sr_leaf rec)))"
    using en(2) d(1) by (simp_all add: leaf_sides_def)
  show "insert_nodes l k' v n i (sr_leaf rec) \<Longrightarrow> insert_nodes l' k' v n i (sr_leaf rec)"
    using ei en k sd n(2) by (auto simp: insert_nodes_def)
qed

lemma tpc_moves:
  assumes mv: "moves l P T l' P' T'" and ok: "tree_ok l P T" and pc: "tpc_ok l P T H pc"
    and H: "H \<subseteq> H'" "seeking pc \<or> get_key pc \<noteq> None \<and> (\<forall>k. pc \<noteq> GRoot k) \<Longrightarrow> H \<subseteq> P"
    and priv: "\<And>a. a \<in> privs pc \<Longrightarrow> t_nodes l' ! a = t_nodes l ! a" "tn l \<le> tn l'"
  shows "tpc_ok l' P' T' H' pc"
proof -
  note rm = rec_moves [OF mv ok] note em = edge_seen_moves [OF mv]
  have par: "sr_parent rec \<in> P" if "rec_ok l P T k rec" for k rec using that by (simp add: rec_ok_def on_path_def)
  show ?thesis
  proof (cases pc)
    case (TSecond call rec pt)
    then have r: "rec_ok l P T (tcall_key call) rec" "sr_leaf rec \<in> P" "sr_leaf rec \<in> H'" using pc H by auto
    then show ?thesis using pc TSecond rm em [OF par [OF r(1)]] movesD(4) [OF mv r(2)] by simp
  next
    case (TSeek call rec pt d c tg)
    then have r: "rec_ok l P T (tcall_key call) rec" "sr_leaf rec \<in> P" "sr_leaf rec \<in> H'" "c \<in> H'" using pc H by auto
    then show ?thesis
      using pc TSeek rm em [OF par [OF r(1)]] em [OF r(2)] movesD(6) [OF mv r(2)] moves_dir [OF mv r(2)] by simp
  next
    case (GSecond k a)
    then have "a \<in> P" "a \<in> H'" using pc H by auto
    then show ?thesis using pc GSecond movesD(4) [OF mv] by simp
  next
    case (TStoreL call rec i left right)
    then obtain k v n where n: "call = TInsert k v (Some n) (Some i)" "(left, right) = leaf_sides l k n (sr_leaf rec)" "key_of l i = key_of l right" using pc by auto
    have p: "new_leaf_ok l P (tcall_key call) rec" "rec_ok l P T (tcall_key call) rec" using pc TStoreL by auto
    have "t_nodes l' ! a = t_nodes l ! a" if "a \<in> {n, i}" for a using priv(1) [of a] that TStoreL n(1) by (auto simp: privs_def)
    note im = insert_moves [OF mv p(1) this priv(2)]
    have "right = snd (leaf_sides l k n (sr_leaf rec))" using n(2) by (metis snd_conv)
    then show ?thesis using TStoreL n im(1,2,4,6) rm [OF p(2)] by simp
  next
    case (TStoreR call rec i right)
    then obtain k v n where n: "call = TInsert k v (Some n) (Some i)" "edge l (i, DirL) = (Some (fst (leaf_sides l k n (sr_leaf rec))), 0)"
      "right = snd (leaf_sides l k n (sr_leaf rec))" "key_of l i = key_of l right" using pc by auto
    have p: "new_leaf_ok l P (tcall_key call) rec" "rec_ok l P T (tcall_key call) rec" using pc TStoreR by auto
    have "t_nodes l' ! a = t_nodes l ! a" if "a \<in> {n, i}" for a using priv(1) [of a] that TStoreR n(1) by (auto simp: privs_def)
    note im = insert_moves [OF mv p(1) this priv(2)]
    show ?thesis using TStoreR n im(1,2,3,4,6) rm [OF p(2)] by simp
  next
    case (TLink call rec i)
    then obtain k v n where n: "call = TInsert k v (Some n) (Some i)" "insert_nodes l k v n i (sr_leaf rec)" using pc by auto
    have p: "new_leaf_ok l P (tcall_key call) rec" "rec_ok l P T (tcall_key call) rec" using pc TLink by auto
    have "t_nodes l' ! a = t_nodes l ! a" if "a \<in> {n, i}" for a using priv(1) [of a] that TLink n(1) by (auto simp: privs_def)
    note im = insert_moves [OF mv p(1) this priv(2)]
    show ?thesis using TLink n im(1,7) rm [OF p(2)] by simp
  next
    case (TFlag k rec)
    then show ?thesis using pc rm movesD(2) [OF mv] movesD(4,6) [OF mv, of "sr_leaf rec"] by auto
  next
    case (CLoad call rec)
    then have r: "rec_ok l P T (tcall_key call) rec" using pc by simp
    show ?thesis using pc CLoad rm [OF r] moves_flagged(1) [OF mv par [OF r]] owned_moves [OF mv par [OF r]] by (auto simp: leaf_addr_def)
  next
    case (CTag call rec target)
    then have r: "rec_ok l P T (tcall_key call) rec" using pc by simp
    show ?thesis using pc CTag rm [OF r] moves_flagged(1) [OF mv par [OF r]] owned_moves [OF mv par [OF r]] by auto
  next
    case (CRead call rec target)
    then have r: "rec_ok l P T (tcall_key call) rec" using pc by simp
    show ?thesis using pc CRead rm [OF r] moves_tagged(1) [OF mv par [OF r]] owned_moves [OF mv par [OF r]] by auto
  next
    case (CCas call rec sib flag)
    then have r: "rec_ok l P T (tcall_key call) rec" using pc by simp
    obtain d where d: "tagged l (sr_parent rec, d)" "ptr l (sr_parent rec, d) = sib" "flag = flagged l (sr_parent rec, d)"
      "owned_edge l call (sr_parent rec, other_dir d)" using pc CCas by auto
    note t = moves_tagged [OF mv par [OF r] d(1)]
    show ?thesis using CCas rm [OF r] t d(2,3) owned_moves [OF mv par [OF r] d(4)] by auto
  qed (use pc H in auto)
qed

lemma nm_thread_moves:
  assumes ok: "tree_ok l P T" and mv: "moves l P T l' P' T'" and thr: "nm_thread l P T H pc hs"
    and priv: "\<And>a. a \<in> privs pc \<Longrightarrow> t_nodes l' ! a = t_nodes l ! a \<and> a \<notin> P'" "tn l \<le> tn l'"
    and st: "status_step l T T' (tmap l' T') pc hs hs'"
  shows "nm_thread l' P' T' (grow l' T' pc H) pc hs'"
proof -
  note D = nm_threadD [OF thr]
  have keep: "keep (tmap l' T') hs hs'" if "owner pc = None" using st that by (simp add: status_step_def)
  have "tpc_ok l' P' T' (grow l' T' pc H) pc"
  proof (rule tpc_moves [OF mv ok D(1)])
    assume "seeking pc \<or> get_key pc \<noteq> None \<and> (\<forall>k. pc \<noteq> GRoot k)"
    then show "H \<subseteq> P"
    proof
      assume s: "seeking pc"
      then obtain call where "tpc_call pc = Some call" by (cases pc) auto
      then show ?thesis using hind_okD(1) [OF D(3) [OF _ s]] by blast
    next
      assume "get_key pc \<noteq> None \<and> (\<forall>k. pc \<noteq> GRoot k)"
      then show ?thesis using hind_okD(1) [OF D(6)] by blast
    qed
  qed (use priv in \<open>auto simp: grow_def\<close>)
  moreover have "hind_ok l' P' T' (tcall_key call) (grow l' T' pc H) \<and> leaves_ok l' T' (grow l' T' pc H) call hs'"
    if "tpc_call pc = Some call" "seeking pc" for call
    using hind_moves [OF mv D(3) [OF that]] leaves_moves [OF mv D(2) [OF that(1)] that(1) D(3,4) [OF that] st] that(1) by (simp add: grow_def pc_key_def)
  moreover have "(\<exists>R. hs' = HSeen (MGet k) R) \<and> (pc \<noteq> GRoot k \<longrightarrow> hind_ok l' P' T' k (grow l' T' pc H) \<and>
      (\<forall>x \<in> grow l' T' pc H. is_leaf l' x \<longrightarrow> answered l' k x hs'))" if k: "get_key pc = Some k" for k
  proof -
    have none: "tpc_call pc = None" using k by (cases pc) auto
    then have own: "owner pc = None" by (simp add: owner_def)
    obtain R where R: "hs = HSeen (MGet k) R" using D(5) [OF k] by blast
    then obtain R' where R': "hs' = HSeen (MGet k) R'" "reads map_app (MGet k) (tmap l' T') \<subseteq> R'" using keep [OF own] by auto
    have gr: "grow l' T' pc H = H \<union> gpath (next_dir l' k) T'" using none k by (simp add: grow_def pc_key_def)
    have "hind_ok l' P' T' k (grow l' T' pc H)" if "pc \<noteq> GRoot k" using hind_moves [OF mv D(6) [OF k that]] gr by simp
    moreover have "answered l' k x hs'" if x: "pc \<noteq> GRoot k" "x \<in> H \<union> gpath (next_dir l' k) T'" "is_leaf l' x" for x
      using x(2)
    proof
      assume H: "x \<in> H"
      have xP: "x \<in> P" using H hind_okD(1) [OF D(6) [OF k x(1)]] by blast
      have "answered l k x hs" using D(7) [OF k x(1) H] x(3) movesD(6) [OF mv xP] by simp
      then show ?thesis by (rule answered_moves [OF mv xP _ keep [OF own]])
    next
      assume "x \<in> gpath (next_dir l' k) T'"
      then show ?thesis using answered_now [OF movesD(1) [OF mv] _ x(3) R'(2)] R'(1) by blast
    qed
    ultimately show ?thesis using R'(1) gr by blast
  qed
  moreover have "hs' = HQuiet" if "pc = TIdle" using thr that keep by (auto simp: nm_thread_def owner_def)
  moreover have "hs' = HReady r \<or> (\<exists>p R. hs' = HSeen p R \<and> r \<in> R)" if "pc = TFinish r" for r
  proof -
    have "hs = HReady r \<or> (\<exists>p R. hs = HSeen p R \<and> r \<in> R)" "owner pc = None" using thr that by (auto simp: nm_thread_def owner_def)
    then show ?thesis using keep by (auto; blast)
  qed
  ultimately show ?thesis
    using tcall_moves [OF mv D(2) _ priv st] unfolding nm_thread_def by blast
qed

end
