(* ===== verification/NM_Sim.thy ===== *)
theory NM_Sim
  imports NM_Threads
begin

unbundle bit_operations_syntax

text \<open>
  The search tree is linearizable: an insertion takes effect when it links its leaf, a removal when some thread unlinks the leaf that it
  has flagged, and all other calls are justified by the contents of the tree at some time during the call.
\<close>

section \<open>The simulation relation\<close>

definition nm_rel :: "nat set \<Rightarrow> gtree \<Rightarrow> (nat \<Rightarrow> nat set) \<Rightarrow> ('k :: linorder, 'v) nm_sys_state \<Rightarrow>
    ('k \<rightharpoonup> 'v) \<times> (nat \<Rightarrow> ('k, 'v) map_status) \<Rightarrow> bool" where
  "nm_rel P T Hf c a \<longleftrightarrow> tree_ok (fst c) P T \<and> fst a = tmap (fst c) T \<and> (\<forall>t. nm_thread (fst c) P T (Hf t) (snd c t) (snd a t)) \<and>
     (\<forall>t p R. snd a t = HSeen p R \<longrightarrow> reads map_app p (fst a) \<subseteq> R) \<and>
     (\<forall>x \<in> gset T. \<forall>e b. flagged (fst c) (x, e) \<and> ptr (fst c) (x, e) = Some b \<longrightarrow> (\<exists>t. owner (snd c t) = Some b)) \<and>
     (\<forall>t u b. owner (snd c t) = Some b \<and> owner (snd c u) = Some b \<longrightarrow> t = u) \<and>
     (\<forall>t u. t \<noteq> u \<longrightarrow> privs (snd c t) \<inter> privs (snd c u) = {})"

definition nm_sim :: "('k :: linorder, 'v) nm_sys_state \<Rightarrow> ('k \<rightharpoonup> 'v) \<times> (nat \<Rightarrow> ('k, 'v) map_status) \<Rightarrow> bool" where
  "nm_sim c a \<longleftrightarrow> (\<exists>P T Hf. nm_rel P T Hf c a)"

lemma nm_relD:
  assumes "nm_rel P T Hf (l, th) (m, st)"
  shows "tree_ok l P T" "m = tmap l T" "nm_thread l P T (Hf t) (th t) (st t)" "st t = HSeen p R \<Longrightarrow> reads map_app p m \<subseteq> R"
    "x \<in> gset T \<Longrightarrow> flagged l (x, e) \<Longrightarrow> ptr l (x, e) = Some b \<Longrightarrow> \<exists>t. owner (th t) = Some b"
    "owner (th t) = Some b \<Longrightarrow> owner (th u) = Some b \<Longrightarrow> t = u" "t \<noteq> u \<Longrightarrow> privs (th t) \<inter> privs (th u) = {}"
  using assms unfolding nm_rel_def fst_conv snd_conv by blast+

lemma privs_private:
  assumes "nm_thread l P T H pc hs" "a \<in> privs pc"
  shows "a \<notin> P" "a < tn l"
proof -
  obtain k v nl ni where c: "tpc_call pc = Some (TInsert k v nl ni)" "nl = Some a \<or> ni = Some a"
    using assms(2) by (auto simp: privs_def split: option.splits tcall.splits)
  then show "a \<notin> P" "a < tn l" using nm_threadD(2) [OF assms(1) c(1)] by auto
qed

lemma owner_call: "owner pc = Some b \<longleftrightarrow> (\<exists>k. tpc_call pc = Some (TCleanup k b))"
  by (auto simp: owner_def split: option.splits tcall.splits)

lemma set_edge_other: "c \<noteq> a \<Longrightarrow> t_nodes (set_edge (a, d) p l) ! c = t_nodes l ! c"
  by (simp add: set_edge_def split: direction.splits)

text \<open>A step of thread \<open>t\<close>, seen by all threads.\<close>

lemma nm_rel_step:
  assumes rel: "nm_rel P T Hf (l, th) (m, st)" and mv: "moves l P T l' P' T'" and tn: "tn l \<le> tn l'"
    and priv: "\<And>u a. u \<noteq> t \<Longrightarrow> a \<in> privs (th u) \<Longrightarrow> t_nodes l' ! a = t_nodes l ! a \<and> a \<notin> P'"
    and stat: "\<And>u. u \<noteq> t \<Longrightarrow> status_step l T T' (tmap l' T') (th u) (st u) (st' u)"
    and me: "nm_thread l' P' T' H pc (st' t)" "\<And>p R. st' t = HSeen p R \<Longrightarrow> reads map_app p (tmap l' T') \<subseteq> R"
    and flags: "\<And>x e b. x \<in> gset T' \<Longrightarrow> flagged l' (x, e) \<Longrightarrow> ptr l' (x, e) = Some b \<Longrightarrow>
      owner pc = Some b \<or> (\<exists>x \<in> gset T. \<exists>e. flagged l (x, e) \<and> ptr l (x, e) = Some b) \<and> owner (th t) \<noteq> Some b"
    and own: "\<And>u b. u \<noteq> t \<Longrightarrow> owner pc = Some b \<Longrightarrow> owner (th u) \<noteq> Some b" and new: "\<And>u. u \<noteq> t \<Longrightarrow> privs pc \<inter> privs (th u) = {}"
  shows "nm_sim (l', th(t := pc)) (tmap l' T', st')"
proof -
  let ?th = "th(t := pc)" and ?H = "(\<lambda>u. grow l' T' (th u) (Hf u))(t := H)"
  have "nm_thread l' P' T' (?H u) (?th u) (st' u)" for u
  proof (cases "u = t")
    case False
    then show ?thesis using nm_thread_moves [OF nm_relD(1) [OF rel] mv nm_relD(3) [OF rel] _ tn stat] priv by simp
  qed (use me(1) in simp)
  moreover have "reads map_app p (tmap l' T') \<subseteq> R" if "st' u = HSeen p R" for u p R
  proof (cases "u = t")
    case False
    have "keep (tmap l' T') (st u) (st' u)" using stat [OF False] that by (auto simp: status_step_def split: option.splits if_splits)
    then show ?thesis using that by (cases "st u") auto
  qed (use that me(2) in simp)
  moreover have "\<exists>u. owner (?th u) = Some b" if "x \<in> gset T'" "flagged l' (x, e)" "ptr l' (x, e) = Some b" for x e b
    using flags [OF that]
  proof
    assume "(\<exists>x \<in> gset T. \<exists>e. flagged l (x, e) \<and> ptr l (x, e) = Some b) \<and> owner (th t) \<noteq> Some b"
    then obtain u where "owner (th u) = Some b" "u \<noteq> t" using nm_relD(5) [OF rel] by metis
    then show ?thesis by (intro exI [of _ u]) simp
  qed (auto intro: exI [of _ t])
  moreover have "v = u" if "owner (?th v) = Some b" "owner (?th u) = Some b" for u v b
    using that own [of u b] own [of v b] nm_relD(6) [OF rel, of v b u] by (cases "u = t"; cases "v = t") auto
  moreover have "privs (?th v) \<inter> privs (?th u) = {}" if "v \<noteq> u" for u v
    using that new [of u] new [of v] nm_relD(7) [OF rel, of v u] by (cases "u = t"; cases "v = t") auto
  ultimately have "nm_rel P' T' ?H (l', ?th) (tmap l' T', st')" using movesD(1) [OF mv] unfolding nm_rel_def fst_conv snd_conv by blast
  then show ?thesis unfolding nm_sim_def by blast
qed

lemma status_refl:
  assumes "nm_rel P T Hf (l, th) (m, st)"
  shows "status_step l T T m (th u) (st u) (st u)"
  using nm_relD(4) [OF assms, of u] by (cases "st u") (auto simp: status_step_def split: option.splits)

text \<open>A step that leaves the tree, the owners and the private nodes as they are.\<close>

lemma quiet_rel:
  assumes rel: "nm_rel P T Hf (l, th) (m, st)" and me: "nm_thread l P T H pc (st t)"
    and own: "owner pc = owner (th t) \<or> owner pc = None \<and> (\<forall>b. owner (th t) = Some b \<longrightarrow> b \<notin> gset T)" and new: "privs pc \<subseteq> privs (th t)"
  shows "nm_sim (l, th(t := pc)) (m, st)"
proof -
  note ok = nm_relD(1) [OF rel]
  have "nm_sim (l, th(t := pc)) (tmap l T, st)"
  proof (rule nm_rel_step [where t = t and st' = st, OF rel nm_moves_refl [OF ok] order_refl _ _ me])
    show "t_nodes l ! a = t_nodes l ! a \<and> a \<notin> P" if "a \<in> privs (th u)" for u a using privs_private(1) [OF nm_relD(3) [OF rel] that] by simp
    show "status_step l T T (tmap l T) (th u) (st u) (st u)" for u using status_refl [OF rel] nm_relD(2) [OF rel] by simp
    show "reads map_app p (tmap l T) \<subseteq> R" if "st t = HSeen p R" for p R using nm_relD(2,4) [OF rel] that by simp
    show "owner pc = Some b \<or> (\<exists>x \<in> gset T. \<exists>e. flagged l (x, e) \<and> ptr l (x, e) = Some b) \<and> owner (th t) \<noteq> Some b"
      if "x \<in> gset T" "flagged l (x, e)" "ptr l (x, e) = Some b" for x e b
    proof -
      have "b \<in> gset T" by (rule shape_edge_set [OF tree_okD(4) [OF ok] that(1,3)])
      moreover have "\<exists>x \<in> gset T. \<exists>e. flagged l (x, e) \<and> ptr l (x, e) = Some b" using that by blast
      ultimately show ?thesis using own by (cases "owner (th t) = Some b") auto
    qed
    show "owner (th u) \<noteq> Some b" if "u \<noteq> t" "owner pc = Some b" for u b using own that nm_relD(6) [OF rel, of t b u] by auto
    show "privs pc \<inter> privs (th u) = {}" if "u \<noteq> t" for u using new nm_relD(7) [OF rel, of t u] that by blast
  qed
  then show ?thesis using nm_relD(2) [OF rel] by simp
qed

lemma quiet_step:
  assumes "nm_rel P T Hf (l, th) (m, st)" "nm_thread l P T H pc (st t)"
    "owner pc = owner (th t) \<or> owner pc = None \<and> (\<forall>b. owner (th t) = Some b \<longrightarrow> b \<notin> gset T)" "privs pc \<subseteq> privs (th t)"
  shows "\<exists>a'. exec (hind_sys map_app) (m, st) [] a' \<and> nm_sim (l, th(t := pc)) a'"
  by (intro exI [of _ "(m, st)"] conjI exec_refl quiet_rel [OF assms])

section \<open>Searching\<close>

lemma value_ok:
  assumes "tree_ok l P T" "b \<in> P" "is_leaf l b" "key_of l b = Fin k"
  obtains v where "value_of l b = Some v" "value_holder l b = TFinish (MValue (Some v))"
  using edges_okD(5) [OF tree_okD(1) [OF assms(1)] assms(2-4)] by (auto simp: value_holder_def)

lemma nm_thread_finish: "nm_thread l P T H (TFinish r) hs \<longleftrightarrow> hs = HReady r \<or> (\<exists>p R. hs = HSeen p R \<and> r \<in> R)"
  by (simp add: nm_thread_def)

lemma finish_call [simp]: "owner (TFinish r) = None" "privs (TFinish r) = {}"
  by (simp_all add: owner_def privs_def)

lemma call_fields: "tpc_call pc = tpc_call pc' \<Longrightarrow> owner pc = owner pc' \<and> privs pc = privs pc'"
  by (simp add: owner_def privs_def)

lemma get_fields [simp]: "get_key pc = Some k \<Longrightarrow> owner pc = None" "get_key pc = Some k \<Longrightarrow> privs pc = {}"
  by (cases pc; simp add: owner_def privs_def)+

lemma get_threadI:
  assumes "get_key pc = Some k" "tpc_ok l P T H pc" "hs = HSeen (MGet k) R" "hind_ok l P T k H" "\<And>x. x \<in> H \<Longrightarrow> is_leaf l x \<Longrightarrow> answered l k x hs"
  shows "nm_thread l P T H pc hs"
  using assms by (cases pc) (auto simp: nm_thread_def)

lemma call_threadI:
  assumes "tpc_call pc = Some call" "tpc_ok l P T H pc" "tcall_ok l P T call hs" "seeking pc \<Longrightarrow> hind_ok l P T (tcall_key call) H \<and> leaves_ok l T H call hs"
  shows "nm_thread l P T H pc hs"
  using assms by (cases pc) (auto simp: nm_thread_def)

text \<open>Edges of the sentinels.\<close>

lemma top_edges:
  assumes "tree_ok l P T"
  obtains a where "ptr l (4, DirL) = Some 2" "edge l (2, DirL) = (Some a, 0)" "key_of l a = Inf" "{2, 4} \<subseteq> gpath (next_dir l k) T"
    "\<not> is_leaf l 2" "\<not> is_leaf l 4" "next_dir l k 2 = DirL" "next_dir l k 4 = DirL" "t_r l = 4" "2 \<in> P" "4 \<in> P"
proof -
  obtain A where A: "T = GNode 4 (GNode 2 A (GLeaf 1)) (GLeaf 3)" "A = GLeaf 0 \<or> (\<exists>n B. A = GNode n B (GLeaf 0) \<and> key_of l n = Inf)"
    and top: "t_r l = 4" "\<forall>a \<in> {0, 1, 2, 3, 4}. key_of l a = Inf" "\<forall>d. \<not> marked l (2, d)"
    using tree_okD(7) [OF assms] by (auto simp: top_ok_def)
  have "key_of l (gaddr A) = Inf" using A(2) top(2) by auto
  moreover have "snd (edge l (2, DirL)) = 0" using top(3) by (simp add: marked_def)
  moreover have "shape (ptr l) T" "gset T \<subseteq> P" by (rule tree_okD [OF assms])+
  ultimately show ?thesis using that [of "gaddr A"] A(1) top(1,2) by (auto simp: ptr_def is_leaf_def prod_eq_iff)
qed

lemma get_done_thread:
  assumes ok: "tree_ok l P T" and a: "a \<in> P" "is_leaf l a" "answered l k a (HSeen (MGet k) R)"
  shows "nm_thread l P T H (get_done k a l) (HSeen (MGet k) R) \<and> owner (get_done k a l) = None \<and> privs (get_done k a l) = {}"
proof -
  obtain m where m: "reads map_app (MGet k) m \<subseteq> R" "m k = (if key_of l a = Fin k then value_of l a else None)" using a(3) by (auto simp: answered_def)
  show ?thesis
  proof (cases "key_of l a = Fin k")
    case True
    obtain v where "value_of l a = Some v" "value_holder l a = TFinish (MValue (Some v))" using value_ok [OF ok a(1,2) True] by blast
    then show ?thesis using True m map_reads(1) [of m k v] by (auto simp: get_done_def nm_thread_finish)
  next
    case False
    then show ?thesis using m map_reads(2) [of m k] by (auto simp: get_done_def nm_thread_finish)
  qed
qed

lemma get_sim:
  assumes rel: "nm_rel P T Hf (l, th) (m, st)" and t: "get_key (th t) = Some k" "nm_step (th t) l = (l', pc)"
  shows "\<exists>a'. exec (hind_sys map_app) (m, st) [] a' \<and> nm_sim (l', th(t := pc)) a'"
proof -
  note ok = nm_relD(1) [OF rel] and thr = nm_threadD [OF nm_relD(3) [OF rel, of t]]
  obtain R where R: "st t = HSeen (MGet k) R" using thr(5) [OF t(1)] by blast
  obtain a where top: "ptr l (4, DirL) = Some 2" "edge l (2, DirL) = (Some a, 0)" "key_of l a = Inf" "{2, 4} \<subseteq> gpath (next_dir l k) T"
    "next_dir l k 2 = DirL" "t_r l = 4" using top_edges [OF ok, of k] by blast
  have leaf: "is_leaf l x" if "x \<in> P" "ptr l (x, d) = None" for x d using edges_okD(8) [OF tree_okD(1) [OF ok] that(1)] that(2) by blast
  have "\<exists>H. nm_thread l P T H pc (st t) \<and> owner pc = None \<and> privs pc = {} \<and> l' = l"
  proof (cases "th t = GRoot k")
    case True
    let ?H = "gpath (next_dir l k) T"
    have "answered l k x (st t)" if "x \<in> ?H" "is_leaf l x" for x
      using answered_now [OF ok that] nm_relD(2,4) [OF rel] R by metis
    then have "nm_thread l P T ?H (GLoadS k (t_r l)) (st t)" by (intro get_threadI [OF _ _ R hind_begin [OF ok]]) (use top(6) in auto)
    then show ?thesis using t True get_fields [of "GLoadS k (t_r l)" k] by auto
  next
    case False
    note h = thr(6) [OF t(1) False] and an = thr(7) [OF t(1) False]
    have HP: "x \<in> P" if "x \<in> Hf t" for x using that hind_okD(1) [OF h] by blast
    have get: "nm_thread l P T (Hf t) pc (st t) \<and> owner pc = None \<and> privs pc = {}" if "get_key pc = Some k" "tpc_ok l P T (Hf t) pc" for pc
      using get_threadI [OF that R h an] get_fields [OF that(1)] by blast
    have fin: "nm_thread l P T (Hf t) (get_done k x l) (st t) \<and> owner (get_done k x l) = None \<and> privs (get_done k x l) = {}"
      if "x \<in> Hf t" "ptr l (x, d) = None" for x d
      using get_done_thread [OF ok HP [OF that(1)] leaf [OF HP [OF that(1)] that(2)]] an [OF that(1) leaf [OF HP [OF that(1)] that(2)]] R by simp
    have nxt: "y \<in> Hf t" if "x \<in> Hf t" "ptr l (x, next_dir l k x) = Some y" for x y using hind_okD(3) [OF h that] .
    have "2 \<in> Hf t" using hind_okD(2) [OF h] top(4) by blast
    then have aH: "a \<in> Hf t" using nxt [of 2 a] top(2,5) by (simp add: ptr_def)
    show ?thesis
    proof (cases "th t")
      case (GLoadS k' r)
      then have "pc = GFirst k 2" "l' = l" using t thr(1) top(1) by (auto simp: ptr_def)
      then show ?thesis using get [of pc] by auto
    next
      case (GFirst k' s)
      then have "pc = GSecond k a" "l' = l" using t thr(1) top(2) by auto
      then show ?thesis using get [of pc] aH top(3) by auto
    next
      case (GSecond k' x)
      then have x: "x \<in> Hf t" "key_of l x = Inf" "k' = k" using thr(1) t(1) by auto
      show ?thesis
      proof (cases "ptr l (x, DirL)")
        case None
        then show ?thesis using fin [OF x(1) None] t GSecond x(3) by (auto simp: ptr_def)
      next
        case (Some c)
        then have "c \<in> Hf t" using nxt [OF x(1)] x(2) by simp
        then show ?thesis using get [of "GSeek k c"] Some t GSecond x(3) by (auto simp: ptr_def)
      qed
    next
      case (GSeek k' x)
      then have x: "x \<in> Hf t" "k' = k" using thr(1) t(1) by auto
      show ?thesis
      proof (cases "ptr l (x, next_dir l k x)")
        case None
        then show ?thesis using fin [OF x(1) None] t GSeek x(2) by (auto simp: ptr_def)
      next
        case (Some c)
        then have "c \<in> Hf t" using nxt [OF x(1)] by simp
        then show ?thesis using get [of "GSeek k c"] Some t GSeek x(2) by (auto simp: ptr_def)
      qed
    qed (use t(1) False in auto)
  qed
  then obtain H where H: "nm_thread l P T H pc (st t)" "owner pc = None" "privs pc = {}" "l' = l" by blast
  from quiet_step [OF rel H(1)] show ?thesis using H(2-4) get_fields [OF t(1)] by simp
qed

section \<open>Work on private nodes\<close>

lemma private_sim:
  assumes rel: "nm_rel P T Hf (l, th) (m, st)" and l': "tn l \<le> tn l'" "t_r l' = t_r l" "\<And>a. a < tn l \<Longrightarrow> a \<notin> X \<Longrightarrow> t_nodes l' ! a = t_nodes l ! a"
    and X: "X \<inter> P = {}" "\<And>u. u \<noteq> t \<Longrightarrow> X \<inter> privs (th u) = {}" and me: "nm_thread l' P T H pc (st t)"
    and own: "owner pc = None" "owner (th t) = None" and new: "\<And>a. a \<in> privs pc \<Longrightarrow> a \<in> privs (th t) \<or> tn l \<le> a"
  shows "\<exists>a'. exec (hind_sys map_app) (m, st) [] a' \<and> nm_sim (l', th(t := pc)) a'"
proof -
  note ok = nm_relD(1) [OF rel]
  have len: "a < tn l" if "a \<in> P" for a using edges_okD(1) [OF tree_okD(1) [OF ok] that] .
  have same: "t_nodes l' ! a = t_nodes l ! a" if "a \<in> P" for a using l'(3) [OF len [OF that]] that X(1) by blast
  have s: "same_nodes l l' P" using l'(1,2) same by (simp add: same_nodes_def)
  note d = same_nodesD [OF s]
  have PT: "gset T \<subseteq> P" by (rule tree_okD(2) [OF ok])
  have "gend (next_dir l' k) T = gend (next_dir l k) T" for k using path_cong(2) [of T l' l k] d(2) PT by blast
  moreover have "gend (next_dir l k) T \<in> P" for k using gpath_set [OF gend_path] PT by blast
  ultimately have tm: "tmap l' T = m" using nm_relD(2) [OF rel] d(2,3) by (simp add: tmap_def Let_def fun_eq_iff)
  have "nm_sim (l', th(t := pc)) (tmap l' T, st)"
  proof (rule nm_rel_step [where t = t and st' = st, OF rel nm_moves_same [OF ok s] l'(1) _ _ me])
    show "t_nodes l' ! a = t_nodes l ! a \<and> a \<notin> P" if u: "u \<noteq> t" "a \<in> privs (th u)" for u a
      using privs_private [OF nm_relD(3) [OF rel] u(2)] l'(3) [of a] X(2) [OF u(1)] u(2) by blast
    show "status_step l T T (tmap l' T) (th u) (st u) (st u)" for u using status_refl [OF rel] tm by simp
    show "reads map_app p (tmap l' T) \<subseteq> R" if "st t = HSeen p R" for p R using nm_relD(4) [OF rel] that tm by simp
    show "owner pc = Some b \<or> (\<exists>x \<in> gset T. \<exists>e. flagged l (x, e) \<and> ptr l (x, e) = Some b) \<and> owner (th t) \<noteq> Some b"
      if "x \<in> gset T" "flagged l' (x, e)" "ptr l' (x, e) = Some b" for x e b
      using that d(4,6) PT own(2) by auto
    show "privs pc \<inter> privs (th u) = {}" if "u \<noteq> t" for u
    proof (rule ccontr)
      assume "privs pc \<inter> privs (th u) \<noteq> {}"
      then obtain a where a: "a \<in> privs pc" "a \<in> privs (th u)" by blast
      have "a < tn l" by (rule privs_private(2) [OF nm_relD(3) [OF rel] a(2)])
      then have "a \<in> privs (th t)" using new [OF a(1)] by simp
      then show False using nm_relD(7) [OF rel, of t u] a(2) that by blast
    qed
  qed (use own in auto)
  then show ?thesis using tm by (intro exI [of _ "(m, st)"] conjI exec_refl) simp
qed

lemma force_node_facts:
  assumes "force_node nd cell l = (l1, a)" "\<And>b. cell = Some b \<Longrightarrow> b < tn l"
  shows "tn l \<le> tn l1" "t_r l1 = t_r l" "a < tn l1" "b < tn l \<Longrightarrow> t_nodes l1 ! b = t_nodes l ! b"
    "cell = Some a \<and> l1 = l \<or> cell = None \<and> a = tn l \<and> t_nodes l1 ! a = nd"
  using assms by (auto simp: force_node_def tree_alloc_def nth_append split: option.splits)

lemma set_key_facts:
  assumes "i < tn l"
  shows "tn (set_key i x l) = tn l" "t_r (set_key i x l) = t_r l" "key_of (set_key i x l) a = (if a = i then x else key_of l a)"
    "value_of (set_key i x l) a = value_of l a" "edge (set_key i x l) e = edge l e" "a \<noteq> i \<Longrightarrow> t_nodes (set_key i x l) ! a = t_nodes l ! a"
proof -
  obtain b d where e: "e = (b, d)" by (cases e)
  show "edge (set_key i x l) e = edge l e"
    unfolding e using assms by (cases d; cases "b = i"; simp add: set_key_def edge_def)
qed (use assms in \<open>auto simp: set_key_def key_of_def value_of_def nth_list_update\<close>)

lemma insert_prepare_new:
  assumes c: "tcall_ok l P T (TInsert k v nl ni) hs" and x: "new_leaf_ok l P k rec" and P: "\<And>a. a \<in> P \<Longrightarrow> a < tn l"
  obtains l' n i left right where
    "insert_prepare k v nl ni rec l = (l', TStoreL (TInsert k v (Some n) (Some i)) rec i left right)"
    "tn l \<le> tn l'" "t_r l' = t_r l" "\<And>a. a < tn l \<Longrightarrow> a \<notin> {i} \<Longrightarrow> t_nodes l' ! a = t_nodes l ! a"
    "tcall_ok l' P T (TInsert k v (Some n) (Some i)) hs" "(left, right) = leaf_sides l' k n (sr_leaf rec)" "key_of l' i = key_of l' right"
    "nl = Some n \<or> tn l \<le> n" "ni = Some i \<or> tn l \<le> i" "n \<noteq> i"
proof -
  let ?lf = "new_leaf (Fin k) (Some v)" and ?in = "\<lparr>t_key = Inf, t_value = None, t_left = (None, 0), t_right = (None, 0)\<rparr>"
  obtain l1 n where 1: "force_node ?lf nl l = (l1, n)" by fastforce
  have len: "b < tn l" if "nl = Some b \<or> ni = Some b" for b using c that by auto
  have f1: "tn l \<le> tn l1" "t_r l1 = t_r l" "n < tn l1" "\<And>b. b < tn l \<Longrightarrow> t_nodes l1 ! b = t_nodes l ! b"
    "nl = Some n \<and> l1 = l \<or> nl = None \<and> n = tn l \<and> t_nodes l1 ! n = ?lf"
    using force_node_facts [OF 1] len by blast+
  obtain l2 i where 2: "force_node ?in ni l1 = (l2, i)" by fastforce
  have len1: "b < tn l1" if "ni = Some b" for b using len [of b] that f1(1) by simp
  have f2: "tn l1 \<le> tn l2" "t_r l2 = t_r l1" "i < tn l2" "\<And>b. b < tn l1 \<Longrightarrow> t_nodes l2 ! b = t_nodes l1 ! b"
    "ni = Some i \<and> l2 = l1 \<or> ni = None \<and> i = tn l1 \<and> t_nodes l2 ! i = ?in"
    using force_node_facts [OF 2] len1 by blast+
  have ni: "n \<noteq> i" using f1(3,5) f2(5) c len [of i] by auto
  have side: "nl = Some n \<or> tn l \<le> n" "ni = Some i \<or> tn l \<le> i" using f1(1,5) f2(5) by auto
  have nP: "n \<notin> P" "i \<notin> P" using side c P by (auto dest: P)
  have xP: "sr_leaf rec \<in> P" "key_of l (sr_leaf rec) \<noteq> Fin k" using x by (auto simp: new_leaf_ok_def)
  have n: "(\<forall>d. edge l2 (n, d) = (None, 0)) \<and> key_of l2 n = Fin k \<and> value_of l2 n = Some v"
  proof -
    have "t_nodes l2 ! n = t_nodes l1 ! n" using f2(4) f1(3) by blast
    moreover have "(\<forall>d. edge l1 (n, d) = (None, 0)) \<and> key_of l1 n = Fin k \<and> value_of l1 n = Some v"
      using f1(5) c by (auto simp: edge_def key_of_def value_of_def new_leaf_def split: direction.splits)
    ultimately show ?thesis by (simp add: edge_def key_of_def value_of_def)
  qed
  have kx: "key_of l2 (sr_leaf rec) = key_of l (sr_leaf rec)" using f1(1,4) f2(4) P [OF xP(1)] by (simp add: key_of_def)
  define right where "right = snd (leaf_sides l k n (sr_leaf rec))"
  let ?l = "set_key i (key_of l2 right) l2"
  note sk = set_key_facts [where x = "key_of l2 right", OF f2(3)]
  have ri: "right \<noteq> i" using ni nP(2) xP(1) by (auto simp: right_def leaf_sides_def)
  have xi: "sr_leaf rec \<noteq> i" using nP(2) xP(1) by auto
  have eq: "insert_prepare k v nl ni rec l =
    (?l, TStoreL (TInsert k v (Some n) (Some i)) rec i (fst (leaf_sides l k n (sr_leaf rec))) right)"
    using 1 2 xP(2) by (auto simp: insert_prepare_def right_def leaf_sides_def Let_def)
  show ?thesis
  proof (rule that [OF eq])
    show "tcall_ok ?l P T (TInsert k v (Some n) (Some i)) hs" using c n nP ni sk f1(3) f2(1,3) by auto
    show "(fst (leaf_sides l k n (sr_leaf rec)), right) = leaf_sides ?l k n (sr_leaf rec)"
      using kx sk(3) xi by (simp add: leaf_sides_def right_def)
    show "key_of ?l i = key_of ?l right" using sk(3) ri by simp
    show "t_nodes ?l ! a = t_nodes l ! a" if "a < tn l" "a \<notin> {i}" for a using that sk(6) f2(4) f1(1,4) by simp
  qed (use sk f1 f2 side ni in auto)
qed

lemma nm_store_sim:
  assumes rel: "nm_rel P T Hf (l, th) (m, st)"
    and t: "(\<exists>call rec i left right. th t = TStoreL call rec i left right) \<or> (\<exists>call rec i right. th t = TStoreR call rec i right)" "nm_step (th t) l = (l', pc)"
  shows "\<exists>a'. exec (hind_sys map_app) (m, st) [] a' \<and> nm_sim (l', th(t := pc)) a'"
proof -
  note ok = nm_relD(1) [OF rel] and thr = nm_threadD [OF nm_relD(3) [OF rel, of t]]
  obtain call rec i d c where call: "tpc_call (th t) = Some call" "tpc_call pc = Some call" "\<not> seeking pc" "get_key pc = None" "l' = set_edge (i, d) (Some c, 0) l"
    and p: "rec_ok l P T (tcall_key call) rec" "new_leaf_ok l P (tcall_key call) rec" "\<exists>k v n. call = TInsert k v (Some n) (Some i)"
    and cases: "(\<exists>left right. th t = TStoreL call rec i left right \<and> d = DirL \<and> c = left \<and> pc = TStoreR call rec i right) \<or>
      (\<exists>right. th t = TStoreR call rec i right \<and> d = DirR \<and> c = right \<and> pc = TLink call rec i)"
    using t thr(1) by auto
  then obtain k v n where n: "call = TInsert k v (Some n) (Some i)" by blast
  have co: "tcall_ok l P T call (st t)" by (rule thr(2) [OF call(1)])
  then have i: "i \<notin> P" "i < tn l" "n \<noteq> i" "n < tn l" "n \<notin> P" using n by auto
  have e: "edge l' f = (if f = (i, d) then (Some c, 0) else edge l f)" for f unfolding call(5) by (rule edge_set_edge [OF i(2)])
  have key: "key_of l' b = key_of l b" "value_of l' b = value_of l b" for b unfolding call(5) by simp_all
  have nodes: "t_nodes l' ! b = t_nodes l ! b" if "b \<noteq> i" for b unfolding call(5) using that by (rule set_edge_other)
  have "t_nodes l' ! b = t_nodes l ! b" if "b \<in> P" for b using that i(1) by (intro nodes) auto
  then have s: "same_nodes l l' P" by (simp add: same_nodes_def call(5))
  have sides: "leaf_sides l' k n x = leaf_sides l k n x" for x using key(1) by (simp add: leaf_sides_def)
  have mv: "moves l P T l' P T" by (rule nm_moves_same [OF ok s])
  have r: "rec_ok l' P T (tcall_key call) rec" "new_leaf_ok l' P (tcall_key call) rec"
    using rec_moves [OF mv ok p(1)] p(2) same_nodesD(8) [OF s] key(1) by (auto simp: new_leaf_ok_def)
  have "tcall_ok l' P T call (st t)" using co n key e i(3) by (simp add: call(5))
  moreover have "tpc_ok l' P T {} pc"
    using cases
  proof (elim disjE exE conjE)
    fix left right
    assume a: "th t = TStoreL call rec i left right" "d = DirL" "c = left" "pc = TStoreR call rec i right"
    then have "(left, right) = leaf_sides l k n (sr_leaf rec)" "key_of l i = key_of l right" using thr(1) n by auto
    then have "left = fst (leaf_sides l k n (sr_leaf rec))" "right = snd (leaf_sides l k n (sr_leaf rec))" "key_of l i = key_of l right" by (metis fst_conv snd_conv)+
    then show ?thesis using a(2-4) r n e sides key(1) by simp
  next
    fix right
    assume a: "th t = TStoreR call rec i right" "d = DirR" "c = right" "pc = TLink call rec i"
    then have "edge l (i, DirL) = (Some (fst (leaf_sides l k n (sr_leaf rec))), 0)" "right = snd (leaf_sides l k n (sr_leaf rec))" "key_of l i = key_of l right"
      using thr(1) n by auto
    then have "insert_nodes l' k v n i (sr_leaf rec)"
      using e i co n key sides a(2,3) unfolding insert_nodes_def by (simp add: call(5))
    then show ?thesis using a(4) r n by simp
  qed
  ultimately have me: "nm_thread l' P T {} pc (st t)" using call_threadI [OF call(2)] call(3) by blast
  show ?thesis
  proof (rule private_sim [where X = "{i}" and t = t, OF rel _ _ _ _ _ me])
    show "{i} \<inter> privs (th u) = {}" if "u \<noteq> t" for u
    proof -
      have "i \<in> privs (th t)" using call(1) n by (simp add: privs_def)
      then show ?thesis using nm_relD(7) [OF rel, of t u] that by auto
    qed
    show "a \<in> privs (th t) \<or> tn l \<le> a" if "a \<in> privs pc" for a using that call_fields [of pc "th t"] call(1,2) by simp
  qed (use nodes i(1) n call in \<open>auto simp: owner_def\<close>)
qed

section \<open>The seek of insertions and removals\<close>

lemma leaves_begin:
  assumes ok: "tree_ok l P T" and c: "tcall_ok l P T call hs" and n: "\<And>p R. hs = HSeen p R \<Longrightarrow> reads map_app p (tmap l T) \<subseteq> R"
  shows "leaves_ok l T (gpath (next_dir l (tcall_key call)) T) call hs"
proof (cases "\<exists>k b. call = TCleanup k b")
  case True
  then obtain k b where call: "call = TCleanup k b" by blast
  have "x = b" if "b \<in> gset T" "x \<in> gpath (next_dir l k) T" "is_leaf l x" for x
  proof -
    have "x = gend (next_dir l k) T" by (rule end_leaf(2) [OF ok that(2,3)])
    also have "\<dots> = b" using tree_okD(6) [OF ok that(1)] c call by simp
    finally show ?thesis .
  qed
  moreover have "flagged l (x, next_dir l k x)" if "x \<in> gpath (next_dir l k) T" "ptr l (x, next_dir l k x) = Some b" for x
  proof -
    have x: "x \<in> gset T" by (rule gpath_set [OF that(1)])
    then have "b \<in> gset T" using shape_edge_set [OF tree_okD(4) [OF ok] _ that(2)] by blast
    then show ?thesis using c call x that(2) by auto
  qed
  ultimately show ?thesis using call by (simp add: leaves_ok_def)
next
  case False
  then obtain p R where hs: "hs = HSeen p R" using c by (cases call) auto
  have "answered l (tcall_key call) x hs" if "x \<in> gpath (next_dir l (tcall_key call)) T" "is_leaf l x" for x
    using answered_now [OF ok that n [OF hs]] hs by simp
  then show ?thesis using False by (cases call) (auto simp: leaves_ok_def)
qed

text \<open>A step that stays inside the same call.\<close>

lemma call_step:
  assumes "nm_rel P T Hf (l, th) (m, st)" "tpc_call (th t) = Some call" "tpc_call pc = Some call" "nm_thread l P T H pc (st t)"
  shows "\<exists>a'. exec (hind_sys map_app) (m, st) [] a' \<and> nm_sim (l, th(t := pc)) a'"
  using quiet_step [OF assms(1,4)] call_fields [of pc "th t"] assms(2,3) by simp

lemma finish_step:
  assumes "nm_rel P T Hf (l, th) (m, st)" "st t = HReady r \<or> (\<exists>p R. st t = HSeen p R \<and> r \<in> R)" "\<And>b. owner (th t) = Some b \<Longrightarrow> b \<notin> gset T"
  shows "\<exists>a'. exec (hind_sys map_app) (m, st) [] a' \<and> nm_sim (l, th(t := TFinish r)) a'"
  by (rule quiet_step [OF assms(1), where H = "{}"]) (use assms(2,3) in \<open>auto simp: nm_thread_finish\<close>)

lemma seek_done_insert:
  assumes rel: "nm_rel P T Hf (l, th) (m, st)" and call: "tpc_call (th t) = Some (TInsert k v nl ni)"
    and r: "rec_ok l P T k rec" "sr_leaf rec \<in> P" "is_leaf l (sr_leaf rec)" "answered l k (sr_leaf rec) (st t)"
  shows "\<exists>a'. exec (hind_sys map_app) (m, st) [] a' \<and> nm_sim (fst (insert_prepare k v nl ni rec l), th(t := snd (insert_prepare k v nl ni rec l))) a'"
proof -
  note ok = nm_relD(1) [OF rel] and thr = nm_threadD [OF nm_relD(3) [OF rel, of t]]
  note co = thr(2) [OF call]
  obtain R where R: "st t = HSeen (MInsert k v) R" using co by auto
  show ?thesis
  proof (cases "key_of l (sr_leaf rec) = Fin k")
    case True
    obtain w where w: "value_of l (sr_leaf rec) = Some w" using value_ok [OF ok r(2,3) True] by blast
    obtain m0 where "reads map_app (MInsert k v) m0 \<subseteq> R" "m0 k = Some w" using r(4) R True w by (auto simp: answered_def)
    then have "MInserted False \<in> R" using map_reads(3) [of m0 k w v] by blast
    then show ?thesis using finish_step [OF rel, of t "MInserted False"] R True call by (auto simp: insert_prepare_def owner_def)
  next
    case False
    then have x: "new_leaf_ok l P k rec" using r by (simp add: new_leaf_ok_def)
    obtain l' n i left right where p: "insert_prepare k v nl ni rec l = (l', TStoreL (TInsert k v (Some n) (Some i)) rec i left right)"
      "tn l \<le> tn l'" "t_r l' = t_r l" "\<And>a. a < tn l \<Longrightarrow> a \<notin> {i} \<Longrightarrow> t_nodes l' ! a = t_nodes l ! a"
      "tcall_ok l' P T (TInsert k v (Some n) (Some i)) (st t)" "(left, right) = leaf_sides l' k n (sr_leaf rec)" "key_of l' i = key_of l' right"
      "nl = Some n \<or> tn l \<le> n" "ni = Some i \<or> tn l \<le> i" "n \<noteq> i"
      using insert_prepare_new [OF co x edges_okD(1) [OF tree_okD(1) [OF ok]]] by blast
    have i: "i \<notin> P" using p(5) by simp
    have "t_nodes l' ! a = t_nodes l ! a" if "a \<in> P" for a using p(4) [OF edges_okD(1) [OF tree_okD(1) [OF ok] that]] that i by blast
    then have s: "same_nodes l l' P" using p(2,3) by (simp add: same_nodes_def)
    note mv = nm_moves_same [OF ok s]
    have "rec_ok l' P T k rec" "new_leaf_ok l' P k rec"
      using rec_moves [OF mv ok r(1)] x same_nodesD(2,8) [OF s r(2)] by (auto simp: new_leaf_ok_def)
    then have me: "nm_thread l' P T {} (TStoreL (TInsert k v (Some n) (Some i)) rec i left right) (st t)"
      by (intro call_threadI [OF _ _ p(5)]) (use p(6,7) in auto)
    have priv: "a \<in> privs (th t)" if "a \<in> {n, i}" "a < tn l" for a using p(8,9) that call by (auto simp: privs_def)
    have "\<exists>a'. exec (hind_sys map_app) (m, st) [] a' \<and> nm_sim (l', th(t := TStoreL (TInsert k v (Some n) (Some i)) rec i left right)) a'"
    proof (rule private_sim [where X = "{i}" and t = t, OF rel p(2-4) _ _ me])
      show "{i} \<inter> privs (th u) = {}" if "u \<noteq> t" for u
      proof (rule ccontr)
        assume "{i} \<inter> privs (th u) \<noteq> {}"
        then have u: "i \<in> privs (th u)" by simp
        then have "i \<in> privs (th t)" using priv [of i] privs_private(2) [OF nm_relD(3) [OF rel] u] by simp
        then show False using nm_relD(7) [OF rel that] u by blast
      qed
      show "a \<in> privs (th t) \<or> tn l \<le> a" if "a \<in> privs (TStoreL (TInsert k v (Some n) (Some i)) rec i left right)" for a
        using priv [of a] that by (cases "a < tn l") (auto simp: privs_def)
    qed (use i call in \<open>auto simp: owner_def\<close>)
    then show ?thesis using p(1) by simp
  qed
qed

lemma seek_done_sim:
  assumes rel: "nm_rel P T Hf (l, th) (m, st)" and call: "tpc_call (th t) = Some call" "seeking (th t)"
    and r: "rec_ok l P T (tcall_key call) rec" "sr_leaf rec \<in> Hf t" "is_leaf l (sr_leaf rec)" "edge_seen l call pt (sr_parent rec) (sr_leaf rec)"
    and s: "seek_done call rec l = (l', pc)"
  shows "\<exists>a'. exec (hind_sys map_app) (m, st) [] a' \<and> nm_sim (l', th(t := pc)) a'"
proof -
  note ok = nm_relD(1) [OF rel] and thr = nm_threadD [OF nm_relD(3) [OF rel, of t]]
  note co = thr(2) [OF call(1)] and h = thr(3) [OF call] and lv = thr(4) [OF call]
  have xP: "sr_leaf rec \<in> P" using hind_okD(1) [OF h] r(2) by blast
  show ?thesis
  proof (cases call)
    case (TInsert k v nl ni)
    then have "answered l k (sr_leaf rec) (st t)" using lv r(2,3) by (simp add: leaves_ok_def)
    from seek_done_insert [OF rel _ _ xP r(3) this, of v nl ni] show ?thesis using TInsert call(1) r(1) s by simp
  next
    case (TRemove k)
    then obtain R m0 where R: "st t = HSeen (MRemove k) R" "reads map_app (MRemove k) m0 \<subseteq> R"
      "m0 k = (if key_of l (sr_leaf rec) = Fin k then value_of l (sr_leaf rec) else None)"
      using co lv r(2,3) by (auto simp: leaves_ok_def answered_def)
    show ?thesis
    proof (cases "key_of l (sr_leaf rec) = Fin k")
      case True
      then have "nm_thread l P T {} (TFlag k rec) (st t)" by (intro call_threadI [of _ "TRemove k"]) (use r xP R TRemove in auto)
      from call_step [OF rel _ _ this] show ?thesis using True s TRemove call(1) by auto
    next
      case False
      then have "MValue None \<in> R" using R(2,3) map_reads(4) [of m0 k] by auto
      then show ?thesis using finish_step [OF rel, of t "MValue None"] R(1) False s TRemove call(1) by (auto simp: owner_def)
    qed
  next
    case (TCleanup k b)
    show ?thesis
    proof (cases "sr_leaf rec = b")
      case True
      then have f: "flagged l (sr_parent rec, next_dir l k (sr_parent rec))" "ptr l (sr_parent rec, next_dir l k (sr_parent rec)) = Some b"
        using r(4) TCleanup by (auto simp: edge_seen_def Let_def)
      have "sr_leaf_dir rec = next_dir l k (sr_parent rec)" using r(1) TCleanup by (simp add: rec_ok_def)
      then have "nm_thread l P T {} (CLoad call rec) (st t)"
        by (intro call_threadI [OF _ _ co]) (use r(1) f TCleanup in \<open>auto simp: owned_edge_def leaf_addr_def\<close>)
      from call_step [OF rel call(1) _ this] show ?thesis using True s TCleanup by auto
    next
      case False
      then have b: "b \<notin> gset T" using lv r(2,3) TCleanup by (auto simp: leaves_ok_def)
      then have "st t = HReady (MValue (value_of l b))" "b \<in> P" "is_leaf l b" "key_of l b = Fin k" using co TCleanup by auto
      moreover then obtain v where "value_of l b = Some v" "value_holder l b = TFinish (MValue (Some v))" using value_ok [OF ok] by blast
      ultimately show ?thesis using finish_step [OF rel, of t "MValue (Some v)"] b False s TCleanup call(1) by (auto simp: owner_def)
    qed
  qed
qed

lemma seek_next_sim:
  assumes rel: "nm_rel P T Hf (l, th) (m, st)" and call: "tpc_call (th t) = Some call" "seeking (th t)"
    and r: "rec_ok l P T (tcall_key call) rec" "sr_leaf rec \<in> Hf t" "edge_seen l call pt (sr_parent rec) (sr_leaf rec)"
    and s: "seek_next call rec pt (next_dir l (tcall_key call) (sr_leaf rec)) l = (l', pc)"
  shows "\<exists>a'. exec (hind_sys map_app) (m, st) [] a' \<and> nm_sim (l', th(t := pc)) a'"
proof -
  note ok = nm_relD(1) [OF rel] and thr = nm_threadD [OF nm_relD(3) [OF rel, of t]]
  note co = thr(2) [OF call(1)] and h = thr(3) [OF call] and lv = thr(4) [OF call]
  let ?d = "next_dir l (tcall_key call) (sr_leaf rec)"
  have xP: "sr_leaf rec \<in> P" using hind_okD(1) [OF h] r(2) by blast
  note lf = edges_okD(8) [OF tree_okD(1) [OF ok] xP, of ?d]
  obtain q tg where e: "edge l (sr_leaf rec, ?d) = (q, tg)" by fastforce
  show ?thesis
  proof (cases q)
    case None
    then have "is_leaf l (sr_leaf rec)" using lf e by (simp add: ptr_def)
    from seek_done_sim [OF rel call r(1,2) this r(3)] show ?thesis using s e None by (simp add: seek_next_def)
  next
    case (Some c)
    then have p: "ptr l (sr_leaf rec, ?d) = Some c" using e by (simp add: ptr_def)
    have "c \<in> Hf t" by (rule hind_okD(3) [OF h r(2) p])
    moreover have "flagged l (sr_leaf rec, ?d)" if "call = TCleanup k b" "c = b" for k b
      using lv r(2) p that by (simp add: leaves_ok_def)
    then have "edge_seen l call (marks_tag tg) (sr_leaf rec) c" using p e by (auto simp: edge_seen_def Let_def tagged_def)
    ultimately have "nm_thread l P T (Hf t) (TSeek call rec pt ?d c tg) (st t)"
      by (intro call_threadI [OF _ _ co]) (use r lf p h lv in auto)
    from call_step [OF rel call(1) _ this] show ?thesis using s e Some by (auto simp: seek_next_def)
  qed
qed

lemma advance_ok:
  assumes ok: "tree_ok l P T" and h: "hind_ok l P T (tcall_key call) H" and pc: "tpc_ok l P T H (TSeek call rec pt d c tg)"
  shows "rec_ok l P T (tcall_key call) (advance rec pt d c)" "sr_leaf (advance rec pt d c) \<in> H"
    "edge_seen l call (marks_tag tg) (sr_parent (advance rec pt d c)) (sr_leaf (advance rec pt d c))" "sr_leaf (advance rec pt d c) = c"
proof -
  have p: "rec_ok l P T (tcall_key call) rec" "sr_leaf rec \<in> H" "\<not> is_leaf l (sr_leaf rec)" "edge_seen l call pt (sr_parent rec) (sr_leaf rec)"
    "d = next_dir l (tcall_key call) (sr_leaf rec)" "c \<in> H" "edge_seen l call (marks_tag tg) (sr_leaf rec) c" using pc by auto
  have lf: "on_path l P T (tcall_key call) (sr_leaf rec)" using hind_okD(1) [OF h] hind_okD(4) [OF h p(2) _ p(3)] p(2,3) by (auto simp: on_path_def)
  have "tag_chain l (tcall_key call) (sr_successor rec) (sr_leaf rec)" if pt
    using tag_chain_snoc [of l "tcall_key call" "sr_successor rec" "sr_parent rec" "sr_leaf rec"] p(1,4) that by (simp add: rec_ok_def edge_seen_def Let_def)
  then show "rec_ok l P T (tcall_key call) (advance rec pt d c)"
    using p(1,5) lf chain_refl by (auto simp: advance_def rec_ok_def on_path_def)
  show "sr_leaf (advance rec pt d c) \<in> H" "sr_leaf (advance rec pt d c) = c"
    "edge_seen l call (marks_tag tg) (sr_parent (advance rec pt d c)) (sr_leaf (advance rec pt d c))"
    using p(6,7) by (simp_all add: advance_def)
qed

lemma seek_sim:
  assumes rel: "nm_rel P T Hf (l, th) (m, st)" and t: "seeking (th t) \<or> (\<exists>call. th t = TRoot call)" "nm_step (th t) l = (l', pc)"
  shows "\<exists>a'. exec (hind_sys map_app) (m, st) [] a' \<and> nm_sim (l', th(t := pc)) a'"
proof -
  note ok = nm_relD(1) [OF rel] and thr = nm_threadD [OF nm_relD(3) [OF rel, of t]]
  obtain call where call: "tpc_call (th t) = Some call" using t(1) by (cases "th t") auto
  let ?k = "tcall_key call"
  note co = thr(2) [OF call]
  obtain a where top: "ptr l (4, DirL) = Some 2" "edge l (2, DirL) = (Some a, 0)" "key_of l a = Inf" "{2, 4} \<subseteq> gpath (next_dir l ?k) T"
    "\<not> is_leaf l 2" "\<not> is_leaf l 4" "next_dir l ?k 2 = DirL" "next_dir l ?k 4 = DirL" "t_r l = 4" "2 \<in> P" "4 \<in> P" using top_edges [OF ok, of ?k] by blast
  show ?thesis
  proof (cases "seeking (th t)")
    case False
    then have root: "th t = TRoot call" using t(1) call by auto
    have "reads map_app p (tmap l T) \<subseteq> R" if "st t = HSeen p R" for p R using nm_relD(2,4) [OF rel] that by simp
    then have "nm_thread l P T (gpath (next_dir l ?k) T) (TLoadS call 4) (st t)"
      by (intro call_threadI [OF _ _ co]) (use hind_begin [OF ok] leaves_begin [OF ok co] in auto)
    from call_step [OF rel call _ this] show ?thesis using t(2) root top(9) by auto
  next
    case True
    note h = thr(3) [OF call True] and lv = thr(4) [OF call True]
    show ?thesis
    proof (cases "th t")
      case (TLoadS call' r)
      have "nm_thread l P T (Hf t) (TFirst call 4 2) (st t)" by (intro call_threadI [OF _ _ co]) (use h lv in auto)
      moreover have "pc = TFirst call 4 2" "l' = l" using t(2) TLoadS call thr(1) top(1) by (auto simp: ptr_def)
      ultimately show ?thesis using call_step [OF rel call] by simp
    next
      case (TFirst call' r s)
      let ?rec = "\<lparr>sr_ancestor = 4, sr_successor = 2, sr_successor_dir = DirL, sr_parent = 2, sr_leaf = a, sr_leaf_dir = DirL\<rparr>"
      have 2: "2 \<in> Hf t" using hind_okD(2) [OF h] top(4) by blast
      have p: "ptr l (2, DirL) = Some a" using top(2) by (simp add: ptr_def)
      then have aH: "a \<in> Hf t" using hind_okD(3) [OF h 2] top(7) by simp
      have "flagged l (2, DirL)" if "call = TCleanup k b" "a = b" for k b using lv 2 p top(7) that by (auto simp: leaves_ok_def)
      then have "edge_seen l call False 2 a" using p top(7) by (auto simp: edge_seen_def Let_def)
      moreover have "rec_ok l P T ?k ?rec" using top(4-8,10,11) chain_refl by (auto simp: rec_ok_def on_path_def)
      ultimately have "nm_thread l P T (Hf t) (TSecond call ?rec False) (st t)" by (intro call_threadI [OF _ _ co]) (use h lv aH top(3) in auto)
      moreover have "pc = TSecond call ?rec False" "l' = l" using t(2) TFirst call thr(1) top(2) by auto
      ultimately show ?thesis using call_step [OF rel call] by simp
    next
      case (TSecond call' rec pt)
      then have p: "call' = call" "rec_ok l P T ?k rec" "sr_leaf rec \<in> Hf t" "key_of l (sr_leaf rec) = Inf" "edge_seen l call pt (sr_parent rec) (sr_leaf rec)"
        using thr(1) call by auto
      have "seek_next call rec pt (next_dir l ?k (sr_leaf rec)) l = (l', pc)" using t(2) TSecond p(1,4) by simp
      then show ?thesis by (rule seek_next_sim [OF rel call True p(2,3,5)])
    next
      case (TSeek call' rec pt d c tg)
      then have c: "call' = call" using call by simp
      note ad = advance_ok [OF ok h thr(1) [unfolded TSeek c]]
      have "seek_next call (advance rec pt d c) (marks_tag tg) (next_dir l ?k (sr_leaf (advance rec pt d c))) l = (l', pc)"
        using t(2) TSeek c ad(4) by simp
      then show ?thesis by (rule seek_next_sim [OF rel call True ad(1,2,3)])
    qed (use True in auto)
  qed
qed

section \<open>Changes of the tree\<close>

lemma tmap_same:
  assumes "\<And>a. key_of l' a = key_of l a" "\<And>a. value_of l' a = value_of l a"
  shows "tmap l' T = tmap l T"
proof -
  have "next_dir l' k = next_dir l k" for k using assms(1) by (simp add: next_dir_def fun_eq_iff)
  then show ?thesis using assms by (intro ext) (simp add: tmap_def Let_def)
qed

text \<open>A step that marks an edge of a published node.\<close>

lemma nm_mark_sim:
  assumes rel: "nm_rel P T Hf (l, th) (m, st)" and mv: "moves l P T l' P T" and l': "l' = set_edge (a, d) (Some b, x) l" "a \<in> P"
    and me: "nm_thread l' P T H pc (st t)" and privs: "privs pc \<subseteq> privs (th t)"
    and flags: "\<And>b. owner (th t) = Some b \<Longrightarrow> owner pc = Some b" "\<And>u b. u \<noteq> t \<Longrightarrow> owner pc = Some b \<Longrightarrow> owner (th u) \<noteq> Some b"
    and e: "edge l (a, d) = (Some b, y)" "marks_flag x \<Longrightarrow> marks_flag y \<or> owner pc = Some b"
  shows "\<exists>a'. exec (hind_sys map_app) (m, st) [] a' \<and> nm_sim (l', th(t := pc)) a'"
proof -
  note ok = nm_relD(1) [OF rel]
  have lt: "a < tn l" by (rule edges_okD(1) [OF tree_okD(1) [OF ok] l'(2)])
  have at: "edge l' f = (if f = (a, d) then (Some b, x) else edge l f)" for f unfolding l'(1) by (rule edge_set_edge [OF lt])
  have tm: "tmap l' T = m" using tmap_same [of l' l T] nm_relD(2) [OF rel] by (simp add: l'(1))
  have "nm_sim (l', th(t := pc)) (tmap l' T, st)"
  proof (rule nm_rel_step [where t = t and st' = st, OF rel mv _ _ _ me])
    show "t_nodes l' ! c = t_nodes l ! c \<and> c \<notin> P" if "c \<in> privs (th u)" for u c
    proof -
      have "c \<notin> P" by (rule privs_private(1) [OF nm_relD(3) [OF rel] that])
      moreover have "t_nodes l' ! c = t_nodes l ! c" if "c \<noteq> a" using that unfolding l'(1) by (rule set_edge_other)
      ultimately show ?thesis using l'(2) by blast
    qed
    show "status_step l T T (tmap l' T) (th u) (st u) (st u)" for u using status_refl [OF rel] tm by simp
    show "reads map_app p (tmap l' T) \<subseteq> R" if "st t = HSeen p R" for p R using nm_relD(4) [OF rel] that tm by simp
    show "owner pc = Some c \<or> (\<exists>x \<in> gset T. \<exists>e. flagged l (x, e) \<and> ptr l (x, e) = Some c) \<and> owner (th t) \<noteq> Some c"
      if f: "z \<in> gset T" "flagged l' (z, f)" "ptr l' (z, f) = Some c" for z f c
    proof (cases "owner pc = Some c")
      case False
      have "flagged l (z, f) \<and> ptr l (z, f) = Some c"
      proof (cases "(z, f) = (a, d)")
        case True
        then show ?thesis using f at e False by (auto simp: flagged_def ptr_def)
      next
        case ne: False
        then have "edge l' (z, f) = edge l (z, f)" using at [of "(z, f)"] by (simp only: if_False)
        then show ?thesis using f(2,3) by (simp add: flagged_def ptr_def)
      qed
      then show ?thesis using f(1) flags(1) False by blast
    qed simp
    show "privs pc \<inter> privs (th u) = {}" if "u \<noteq> t" for u using privs nm_relD(7) [OF rel, of t u] that by blast
  qed (use flags l'(1) in auto)
  then show ?thesis using tm by (intro exI [of _ "(m, st)"] conjI exec_refl) simp
qed

lemma mark_dir:
  assumes "tree_ok l P T" "a \<in> P" "marked l (a, d)"
  obtains f where "flagged l (a, f)"
  using assms edges_okD(3,9) [OF tree_okD(1) [OF assms(1)] assms(2)] by metis

text \<open>The edge to a finite leaf does not start at a sentinel.\<close>

lemma flag_not_top:
  assumes ok: "tree_ok l P T" and a: "on_path l P T k a" "edge l (a, next_dir l k a) = (Some x, 0)" and x: "is_leaf l x" "key_of l x = Fin k'"
  shows "a \<noteq> 2" "a \<noteq> 4"
proof -
  obtain b where top: "ptr l (4, DirL) = Some 2" "edge l (2, DirL) = (Some b, 0)" "key_of l b = Inf" "\<not> is_leaf l 2" "next_dir l k 2 = DirL" "next_dir l k 4 = DirL"
    using top_edges [OF ok, of k] by blast
  show "a \<noteq> 2" "a \<noteq> 4" using top a(2) x by (auto simp: ptr_def)
qed

lemma flag_sim:
  assumes rel: "nm_rel P T Hf (l, th) (m, st)" and t: "th t = TFlag k rec" "nm_step (th t) l = (l', pc)"
  shows "\<exists>a'. exec (hind_sys map_app) (m, st) [] a' \<and> nm_sim (l', th(t := pc)) a'"
proof -
  note ok = nm_relD(1) [OF rel] and thr = nm_threadD [OF nm_relD(3) [OF rel, of t]]
  let ?a = "sr_parent rec" and ?x = "sr_leaf rec"
  have r: "rec_ok l P T k rec" "?x \<in> P" "is_leaf l ?x" "key_of l ?x = Fin k" using thr(1) t(1) by auto
  have p: "on_path l P T k ?a" "sr_leaf_dir rec = next_dir l k ?a" "?a \<in> P" using r(1) by (auto simp: rec_ok_def on_path_def)
  have call: "tpc_call (th t) = Some (TRemove k)" using t(1) by simp
  note co = thr(2) [OF call]
  show ?thesis
  proof (cases "edge l (leaf_addr rec) = (Some ?x, 0)")
    case True
    then have e: "edge l (?a, next_dir l k ?a) = (Some ?x, 0)" using p(2) by (simp add: leaf_addr_def)
    let ?l = "set_edge (?a, next_dir l k ?a) (Some ?x, 2) l"
    note nt = flag_not_top [OF ok p(1) e r(3,4)]
    have mv: "moves l P T ?l P T" by (rule moves_mark [OF ok p(3) nt e]) (use r(3,4) in auto)
    have at: "edge ?l f = (if f = (?a, next_dir l k ?a) then (Some ?x, 2) else edge l f)" for f
      by (rule edge_set_edge [OF edges_okD(1) [OF tree_okD(1) [OF ok] p(3)]])
    have aT: "?a \<in> gset T" "?x \<in> gset T" using unmarked_in_tree [OF ok p(3) e] by auto
    have f: "flagged ?l (?a, next_dir l k ?a)" "ptr ?l (?a, next_dir l k ?a) = Some ?x" using at by (simp_all add: flagged_def ptr_def)
    have sh: "shape (ptr ?l) T" by (rule tree_okD(4) [OF movesD(1) [OF mv]])
    have one: "flagged ?l (c, g)" if "c \<in> gset T" "ptr ?l (c, g) = Some ?x" for c g
      using shape_parent_unique [OF tree_okD(3) [OF ok] sh that(1) aT(1) that(2) f(2)] f(1) by simp
    have "tcall_ok ?l P T (TCleanup k ?x) (st t)" using co r(2-4) aT(2) one movesD(6) [OF mv r(2)] by simp
    then have me: "nm_thread ?l P T {} (CLoad (TCleanup k ?x) rec) (st t)"
      by (intro call_threadI) (use rec_moves [OF mv ok r(1)] f p(2) in \<open>auto simp: owned_edge_def leaf_addr_def\<close>)
    have "\<exists>a'. exec (hind_sys map_app) (m, st) [] a' \<and> nm_sim (?l, th(t := CLoad (TCleanup k ?x) rec)) a'"
    proof (rule nm_mark_sim [OF rel mv refl p(3) me _ _ _ e])
      show "owner (th u) \<noteq> Some b" if "u \<noteq> t" "owner (CLoad (TCleanup k ?x) rec) = Some b" for u b
      proof
        assume "owner (th u) = Some b"
        then obtain k' where "tpc_call (th u) = Some (TCleanup k' b)" by (auto simp: owner_call)
        then have "tcall_ok l P T (TCleanup k' b) (st u)" by (rule nm_threadD(2) [OF nm_relD(3) [OF rel]])
        moreover have "b = ?x" using that(2) by (simp add: owner_def)
        ultimately have "flagged l (?a, next_dir l k ?a)" using aT e by (auto simp: ptr_def)
        then show False using e by (simp add: flagged_def)
      qed
    qed (use t(1) in \<open>auto simp: owner_def privs_def\<close>)
    then show ?thesis using t True p(2) by (simp add: cas_edge_def leaf_addr_def)
  next
    case False
    have root: "nm_thread l P T {} (TRoot (TRemove k)) (st t)" by (rule call_threadI [OF _ _ co]) auto
    have clean: "nm_thread l P T {} (CLoad (TRemove k) rec) (st t)" if "fst (edge l (leaf_addr rec)) = Some ?x"
    proof -
      have "marked l (?a, sr_leaf_dir rec)" using False that by (auto simp: marked_def leaf_addr_def prod_eq_iff)
      then obtain f where "flagged l (?a, f)" using mark_dir [OF ok p(3)] by blast
      then show ?thesis by (intro call_threadI [OF _ _ co]) (use r(1) in \<open>auto simp: owned_edge_def\<close>)
    qed
    show ?thesis
    proof (cases "fst (edge l (leaf_addr rec)) = Some ?x")
      case True
      then have "pc = CLoad (TRemove k) rec" "l' = l" using t False by (auto simp: cas_edge_def split: prod.splits)
      then show ?thesis using call_step [OF rel call _ clean [OF True]] by simp
    next
      case ne: False
      then have "pc = TRoot (TRemove k)" "l' = l" using t False by (auto simp: cas_edge_def split: prod.splits)
      then show ?thesis using call_step [OF rel call _ root] by simp
    qed
  qed
qed

lemma clean_read_sim:
  assumes rel: "nm_rel P T Hf (l, th) (m, st)" and t: "th t = CLoad call rec \<or> th t = CRead call rec target" "nm_step (th t) l = (l', pc)"
  shows "\<exists>a'. exec (hind_sys map_app) (m, st) [] a' \<and> nm_sim (l', th(t := pc)) a'"
proof -
  note thr = nm_threadD [OF nm_relD(3) [OF rel, of t]]
  have call: "tpc_call (th t) = Some call" using t(1) by auto
  note co = thr(2) [OF call]
  have r: "rec_ok l P T (tcall_key call) rec" using thr(1) t(1) by auto
  show ?thesis
    using t(1)
  proof
    assume p: "th t = CLoad call rec"
    then have f: "\<exists>d. flagged l (sr_parent rec, d)" "owned_edge l call (leaf_addr rec)" using thr(1) by auto
    define g where "g = (if flagged l (leaf_addr rec) then other_dir (sr_leaf_dir rec) else sr_leaf_dir rec)"
    have pc: "pc = CTag call rec (sr_parent rec, g)" "l' = l"
      using t(2) p by (auto simp: g_def flagged_def leaf_addr_def leaf_sibling_addr_def)
    have "flagged l (sr_parent rec, other_dir g) \<and> owned_edge l call (sr_parent rec, other_dir g)"
    proof (cases "flagged l (leaf_addr rec)")
      case True
      then show ?thesis using f(2) by (simp add: g_def leaf_addr_def)
    next
      case False
      obtain d where d: "flagged l (sr_parent rec, d)" using f(1) by blast
      then have "d = other_dir (sr_leaf_dir rec)" using False dir_cases [of d "sr_leaf_dir rec"] by (auto simp: leaf_addr_def)
      then show ?thesis using d False f(2) by (simp add: g_def owned_edge_def)
    qed
    then have "nm_thread l P T {} pc (st t)" unfolding pc by (intro call_threadI [OF _ _ co]) (use r in auto)
    from call_step [OF rel call _ this] show ?thesis using pc by simp
  next
    assume p: "th t = CRead call rec target"
    then obtain d where d: "target = (sr_parent rec, d)" "tagged l (sr_parent rec, d)" "owned_edge l call (sr_parent rec, other_dir d)" using thr(1) by auto
    have pc: "pc = CCas call rec (ptr l (sr_parent rec, d)) (flagged l (sr_parent rec, d))" "l' = l" using t(2) p d(1) by (auto simp: ptr_def flagged_def)
    have "nm_thread l P T {} pc (st t)" unfolding pc by (intro call_threadI [OF _ _ co]) (use r d in auto)
    from call_step [OF rel call _ this] show ?thesis using pc by simp
  qed
qed

lemma tag_sim:
  assumes rel: "nm_rel P T Hf (l, th) (m, st)" and t: "th t = CTag call rec target" "nm_step (th t) l = (l', pc)"
  shows "\<exists>a'. exec (hind_sys map_app) (m, st) [] a' \<and> nm_sim (l', th(t := pc)) a'"
proof -
  note ok = nm_relD(1) [OF rel] and thr = nm_threadD [OF nm_relD(3) [OF rel, of t]]
  let ?a = "sr_parent rec"
  have call: "tpc_call (th t) = Some call" using t(1) by auto
  note co = thr(2) [OF call]
  obtain d where d: "target = (?a, d)" "flagged l (?a, other_dir d)" "owned_edge l call (?a, other_dir d)" and r: "rec_ok l P T (tcall_key call) rec"
    using thr(1) t(1) by auto
  have a: "?a \<in> P" "\<not> is_leaf l ?a" using r by (auto simp: rec_ok_def on_path_def)
  note eo = tree_okD(1) [OF ok]
  obtain b where b: "ptr l (?a, d) = Some b" using edges_okD(7) [OF eo a] by blast
  then obtain y where e: "edge l (?a, d) = (Some b, y)" by (cases "edge l (?a, d)") (auto simp: ptr_def)
  have y: "y \<in> {0, 1, 2, 3}" using edges_okD(2) [OF eo a(1), of d] e by simp
  let ?l = "set_edge (?a, d) (Some b, y OR 1) l"
  have nt: "?a \<noteq> 2" "?a \<noteq> 4" using mark_of(2) [OF d(2)] tree_okD(7) [OF ok] by (auto simp: top_ok_def)
  have mv: "moves l P T ?l P T"
  proof (rule moves_mark [OF ok a(1) nt e])
    assume "marks_flag (y OR 1)"
    then have "flagged l (?a, d)" using tag_marks [OF y] e by (simp add: flagged_def)
    then show "is_leaf l b \<and> (\<exists>k. key_of l b = Fin k)" using edges_okD(4) [OF eo a(1)] b by fastforce
  qed (use tag_marks [OF y] marks_tag_or [OF y] d(2) in auto)
  have at: "edge ?l (?a, d) = (Some b, y OR 1)" using edge_set_edge [OF edges_okD(1) [OF eo a(1)], of d "(Some b, y OR 1)" "(?a, d)"] by simp
  have "tagged ?l (?a, d)" using at tag_marks [OF y] by (auto simp: tagged_def)
  moreover have "tcall_ok ?l P T call (st t)"
  proof (rule tcall_moves [OF mv co call])
    show "t_nodes ?l ! c = t_nodes l ! c \<and> c \<notin> P" if "c \<in> privs (th t)" for c
    proof -
      have "c \<notin> P" by (rule privs_private(1) [OF nm_relD(3) [OF rel] that])
      moreover then have "c \<noteq> ?a" using a(1) by auto
      ultimately show ?thesis using set_edge_other by blast
    qed
    show "status_step l T T m (th t) (st t) (st t)" by (rule status_refl [OF rel])
  qed simp
  ultimately have me: "nm_thread ?l P T {} (CRead call rec target) (st t)"
    by (intro call_threadI) (use d rec_moves [OF mv ok r] owned_moves [OF mv a(1) d(3)] in auto)
  have f: "owner (CRead call rec target) = owner (th t)" "privs (CRead call rec target) = privs (th t)" using call_fields [of "CRead call rec target" "th t"] call by auto
  have "\<exists>a'. exec (hind_sys map_app) (m, st) [] a' \<and> nm_sim (?l, th(t := CRead call rec target)) a'"
  proof (rule nm_mark_sim [OF rel mv refl a(1) me _ _ _ e])
    show "owner (th u) \<noteq> Some c" if "u \<noteq> t" "owner (CRead call rec target) = Some c" for u c
    proof
      assume "owner (th u) = Some c"
      then have "t = u" using nm_relD(6) [OF rel, of t c u] f(1) that(2) by simp
      then show False using that(1) by simp
    qed
    show "marks_flag y \<or> owner (CRead call rec target) = Some b" if "marks_flag (y OR 1)" using tag_marks [OF y] that by simp
  qed (simp_all only: f order_refl)
  then show ?thesis using t d(1) e by (simp add: ptr_def)
qed

section \<open>Linking a leaf\<close>

lemma nm_link_sim:
  assumes rel: "nm_rel P T Hf (l, th) (m, st)" and t: "th t = TLink call rec i" "nm_step (th t) l = (l', pc)"
  shows "\<exists>a'. exec (hind_sys map_app) (m, st) [] a' \<and> nm_sim (l', th(t := pc)) a'"
proof -
  note ok = nm_relD(1) [OF rel] and thr = nm_threadD [OF nm_relD(3) [OF rel, of t]]
  let ?a = "sr_parent rec" and ?x = "sr_leaf rec" and ?k = "tcall_key call"
  have call: "tpc_call (th t) = Some call" using t(1) by auto
  note co = thr(2) [OF call]
  obtain k v n where n: "call = TInsert k v (Some n) (Some i)" "insert_nodes l k v n i ?x" using thr(1) t(1) by auto
  have r: "rec_ok l P T k rec" "?x \<in> P" "is_leaf l ?x" "key_of l ?x \<noteq> Fin k" using thr(1) t(1) n(1) by (auto simp: new_leaf_ok_def)
  have p: "on_path l P T k ?a" "sr_leaf_dir rec = next_dir l k ?a" "?a \<in> P" using r(1) by (auto simp: rec_ok_def on_path_def)
  obtain R where R: "st t = HSeen (MInsert k v) R" using co n(1) by auto
  show ?thesis
  proof (cases "edge l (leaf_addr rec) = (Some ?x, 0)")
    case True
    then have e: "edge l (?a, next_dir l k ?a) = (Some ?x, 0)" using p(2) by (simp add: leaf_addr_def)
    let ?l = "set_edge (?a, next_dir l k ?a) (Some i, 0) l" and ?S = "GNode i (GLeaf (fst (leaf_sides l k n ?x))) (GLeaf (snd (leaf_sides l k n ?x)))"
    let ?T = "repl ?x ?S T" and ?m = "m(k \<mapsto> v)" and ?r = "MInserted True"
    have aT: "?a \<in> gset T" using unmarked_in_tree [OF ok p(3) e] by simp
    then have ap: "?a \<in> gpath (next_dir l k) T" using p(1) by (simp add: on_path_def)
    have ni: "n \<notin> P" "i \<notin> P" using co n(1) by auto
    note mi = moves_insert [OF ok ap e r(3,4) n(2) ni refl refl]
    have tm: "tmap ?l ?T = ?m" using mi(2) nm_relD(2) [OF rel] by simp
    have "m k = None"
    proof -
      have "?x \<in> gpath (next_dir l k) T" using gpath_next [OF tree_okD(4) [OF ok] ap _ tree_okD(3) [OF ok]] e by (simp add: ptr_def)
      then have "?x = gend (next_dir l k) T" using end_leaf(2) [OF ok] r(3) by blast
      then show ?thesis using nm_relD(2) [OF rel] r(4) by (simp add: tmap_def Let_def)
    qed
    then have "map_app (MInsert k v) m = (?m, ?r)" by simp
    from h_act [where app = map_app and st = st and t = t, OF R this]
    have ex: "exec (hind_sys map_app) (m, st) [] (?m, (\<lambda>u. notice map_app ?m (st u))(t := HReady ?r))"
      using exec_step [where step = "hind_sys map_app"] by fastforce
    have at: "edge ?l f = (if f = (?a, next_dir l k ?a) then (Some i, 0) else edge l f)" for f
      by (rule edge_set_edge [OF edges_okD(1) [OF tree_okD(1) [OF ok] p(3)]])
    have set: "gset ?T = gset T - {?x} \<union> {n, i, ?x}" using repl_set [OF tree_okD(3) [OF ok] mi(3), of ?S] unfolding mi(4) by simp
    have "nm_sim (?l, th(t := TFinish ?r)) (tmap ?l ?T, (\<lambda>u. notice map_app ?m (st u))(t := HReady ?r))"
    proof (rule nm_rel_step [where t = t and H = "{}", OF rel mi(1)])
      show "t_nodes ?l ! c = t_nodes l ! c \<and> c \<notin> insert n (insert i P)" if u: "u \<noteq> t" "c \<in> privs (th u)" for u c
      proof -
        have c: "c \<notin> P" by (rule privs_private(1) [OF nm_relD(3) [OF rel] u(2)])
        then have "c \<noteq> ?a" using p(3) by auto
        then have "t_nodes ?l ! c = t_nodes l ! c" by (rule set_edge_other)
        moreover have "c \<noteq> n" "c \<noteq> i" using nm_relD(7) [OF rel, of t u] u call n(1) by (auto simp: privs_def)
        ultimately show ?thesis using c by simp
      qed
      show "status_step l T ?T (tmap ?l ?T) (th u) (st u) (((\<lambda>u. notice map_app ?m (st u))(t := HReady ?r)) u)" if "u \<noteq> t" for u
      proof -
        have "b \<in> gset ?T" if "b \<in> gset T" for b using that set by blast
        then show ?thesis using keep_notice [of "st u" m ?m] nm_relD(4) [OF rel, of u] tm that by (auto simp: status_step_def split: option.splits)
      qed
      show "owner (TFinish ?r) = Some b \<or> (\<exists>x \<in> gset T. \<exists>e. flagged l (x, e) \<and> ptr l (x, e) = Some b) \<and> owner (th t) \<noteq> Some b"
        if f: "z \<in> gset ?T" "flagged ?l (z, g)" "ptr ?l (z, g) = Some b" for z g b
      proof -
        have ne: "(z, g) \<noteq> (?a, next_dir l k ?a)" using f(2) at by (auto simp: flagged_def)
        then have eq: "edge ?l (z, g) = edge l (z, g)" using at [of "(z, g)"] by (simp only: if_False)
        then have fl: "flagged l (z, g)" "ptr l (z, g) = Some b" using f(2,3) by (simp_all add: flagged_def ptr_def)
        have "z \<noteq> n" "z \<noteq> i" using fl(1) n(2) by (cases g; auto simp: insert_nodes_def flagged_def)+
        then have "z \<in> gset T" using f(1) set gsub_set [OF mi(3)] by auto
        then show ?thesis using fl call n(1) by (auto simp: owner_def)
      qed
    qed (auto simp: nm_thread_finish)
    then show ?thesis using ex tm t True p(2) by (auto simp: cas_edge_def leaf_addr_def)
  next
    case False
    have root: "nm_thread l P T {} (TRoot call) (st t)" by (rule call_threadI [OF _ _ co]) auto
    have clean: "nm_thread l P T {} (CLoad call rec) (st t)" if "fst (edge l (leaf_addr rec)) = Some ?x"
    proof -
      have "marked l (?a, sr_leaf_dir rec)" using False that by (auto simp: marked_def leaf_addr_def prod_eq_iff)
      then obtain f where "flagged l (?a, f)" using mark_dir [OF ok p(3)] by blast
      then show ?thesis by (intro call_threadI [OF _ _ co]) (use r(1) n(1) in \<open>auto simp: owned_edge_def\<close>)
    qed
    show ?thesis
    proof (cases "fst (edge l (leaf_addr rec)) = Some ?x")
      case True
      then have "pc = CLoad call rec" "l' = l" using t False by (auto simp: cas_edge_def split: prod.splits)
      then show ?thesis using call_step [OF rel call _ clean [OF True]] by simp
    next
      case ne: False
      then have "pc = TRoot call" "l' = l" using t False by (auto simp: cas_edge_def split: prod.splits)
      then show ?thesis using call_step [OF rel call _ root] by simp
    qed
  qed
qed

end
