(* ===== verification/NM_Spec.thy ===== *)
theory NM_Spec
  imports NM_Sim
begin

unbundle bit_operations_syntax

text \<open>
  The step that unlinks leaves, the simulation of all steps, and the linearizability of the search tree of \<^verbatim>\<open>examples/ds/nm_tree.rs\<close>.
\<close>

section \<open>Several removals at once\<close>

lemma removes_exec:
  assumes "finite U" "\<forall>u \<in> U. (\<exists>R. st u = HSeen (MRemove (kf u)) R) \<and> m (kf u) = Some (vf u)" "inj_on kf U"
    "\<forall>u p R. st u = HSeen p R \<longrightarrow> reads map_app p m \<subseteq> R"
  shows "\<exists>st'. exec (hind_sys map_app) (m, st) [] (m |` (- kf ` U), st') \<and> (\<forall>u \<in> U. st' u = HReady (MValue (Some (vf u)))) \<and>
    (\<forall>u. u \<notin> U \<longrightarrow> keep (m |` (- kf ` U)) (st u) (st' u))"
  using assms
proof (induction U arbitrary: m st rule: finite_induct)
  case empty
  have "keep m (st u) (st u)" for u using empty.prems(3) by (cases "st u") auto
  then show ?case by (intro exI [of _ st]) (simp add: exec_refl)
next
  case (insert u U)
  let ?m = "m(kf u := None)" and ?r = "MValue (Some (vf u))"
  let ?st = "(\<lambda>w. notice map_app ?m (st w))(u := HReady ?r)"
  obtain R where R: "st u = HSeen (MRemove (kf u)) R" and v: "m (kf u) = Some (vf u)" using insert.prems(1) by auto
  have "map_app (MRemove (kf u)) m = (?m, ?r)" using v by simp
  from h_act [where app = map_app and st = st and t = u, OF R this]
  have ex: "exec (hind_sys map_app) (m, st) [] (?m, ?st)" using exec_step [where step = "hind_sys map_app"] by fastforce
  have ne: "kf w \<noteq> kf u" "w \<noteq> u" if "w \<in> U" for w using that insert.hyps(2) insert.prems(2) by (auto simp: inj_on_def)
  have eq: "?m |` (- kf ` U) = m |` (- kf ` insert u U)" by (auto simp: restrict_map_def fun_eq_iff)
  have "\<forall>w \<in> U. (\<exists>R. ?st w = HSeen (MRemove (kf w)) R) \<and> ?m (kf w) = Some (vf w)"
  proof
    fix w assume w: "w \<in> U"
    then obtain R where "st w = HSeen (MRemove (kf w)) R" "m (kf w) = Some (vf w)" using insert.prems(1) by auto
    then show "(\<exists>R. ?st w = HSeen (MRemove (kf w)) R) \<and> ?m (kf w) = Some (vf w)" using ne [OF w] by simp
  qed
  moreover have "inj_on kf U" using insert.prems(2) by simp
  moreover have "reads map_app p ?m \<subseteq> R" if "?st w = HSeen p R" for w p R using that by (cases "st w"; cases "w = u") auto
  then have "\<forall>w p R. ?st w = HSeen p R \<longrightarrow> reads map_app p ?m \<subseteq> R" by blast
  ultimately obtain st' where st': "exec (hind_sys map_app) (?m, ?st) [] (?m |` (- kf ` U), st')"
    "\<forall>w \<in> U. st' w = HReady (MValue (Some (vf w)))" "\<forall>w. w \<notin> U \<longrightarrow> keep (?m |` (- kf ` U)) (?st w) (st' w)"
    using insert.IH [of ?st ?m] by blast
  have "st' u = HReady ?r" using st'(3) insert.hyps(2) by (metis fun_upd_same keep_simps(2))
  moreover have "keep (m |` (- kf ` insert u U)) (st w) (st' w)" if "w \<notin> insert u U" for w
  proof -
    have "keep (?m |` (- kf ` U)) (?st w) (st' w)" using st'(3) that by blast
    moreover have "?st w = notice map_app ?m (st w)" using that by simp
    ultimately show ?thesis unfolding eq using keep_trans by metis
  qed
  moreover have "exec (hind_sys map_app) (m, st) [] (m |` (- kf ` insert u U), st')" using exec_trans [OF ex st'(1)] eq by simp
  ultimately show ?case using st'(2) by (intro exI [of _ st']) blast
qed

section \<open>Unlinking leaves\<close>

lemma owner_facts:
  assumes rel: "nm_rel P T Hf (l, th) (m, st)" and own: "owner (th u) = Some b" "b \<in> gset T"
  obtains k v R where "tpc_call (th u) = Some (TCleanup k b)" "is_leaf l b" "key_of l b = Fin k" "value_of l b = Some v" "m k = Some v"
    "st u = HSeen (MRemove k) R"
proof -
  note ok = nm_relD(1) [OF rel]
  obtain k where k: "tpc_call (th u) = Some (TCleanup k b)" using own(1) by (auto simp: owner_call)
  have "tcall_ok l P T (TCleanup k b) (st u)" by (rule nm_threadD(2) [OF nm_relD(3) [OF rel] k])
  then obtain R where b: "b \<in> P" "is_leaf l b" "key_of l b = Fin k" "st u = HSeen (MRemove k) R" using own(2) by auto
  obtain v where v: "value_of l b = Some v" using value_ok [OF ok b(1-3)] by blast
  have "m k = Some v" using tmap_leaf [OF ok own(2) b(2,3)] nm_relD(2) [OF rel] v by simp
  then show ?thesis using that k b(2-4) v by blast
qed

text \<open>Each removal whose leaf leaves the tree takes effect now.\<close>

lemma unlink_removes:
  assumes rel: "nm_rel P T Hf (l, th) (m, st)" and un: "unlinked l T l' T'"
  obtains st' where "exec (hind_sys map_app) (m, st) [] (tmap l' T', st')" "\<And>u. status_step l T T' (tmap l' T') (th u) (st u) (st' u)"
proof -
  note ok = nm_relD(1) [OF rel]
  define U where "U = {u. \<exists>b \<in> gset T - gset T'. owner (th u) = Some b}"
  let ?b = "\<lambda>u. the (owner (th u))" and ?k = "\<lambda>u. tcall_key (the (tpc_call (th u)))"
  let ?v = "\<lambda>u. the (value_of l (?b u))"
  have U: "owner (th u) = Some (?b u)" "?b u \<in> gset T" "?b u \<notin> gset T'" if "u \<in> U" for u using that by (auto simp: U_def)
  have f: "is_leaf l (?b u) \<and> key_of l (?b u) = Fin (?k u) \<and> m (?k u) = Some (?v u) \<and> (\<exists>R. st u = HSeen (MRemove (?k u)) R) \<and> value_of l (?b u) = Some (?v u)"
    if u: "u \<in> U" for u
  proof -
    obtain b where b: "owner (th u) = Some b" "b \<in> gset T" using u by (auto simp: U_def)
    obtain k v R where "tpc_call (th u) = Some (TCleanup k b)" "is_leaf l b" "key_of l b = Fin k" "value_of l b = Some v" "m k = Some v"
      "st u = HSeen (MRemove k) R" using owner_facts [OF rel b] by blast
    then show ?thesis using b(1) by simp
  qed
  have same: "u = w" if "u \<in> U" "w \<in> U" "?b u = ?b w" for u w
  proof (rule nm_relD(6) [OF rel U(1) [OF that(1)]])
    show "owner (th w) = Some (?b u)" unfolding that(3) by (rule U(1) [OF that(2)])
  qed
  have "finite U"
  proof (rule finite_imageD [of ?b])
    show "finite (?b ` U)" by (rule finite_subset [OF _ gset_finite [of T]]) (use U(2) in blast)
  qed (use same in \<open>simp add: inj_on_def\<close>)
  moreover have "inj_on ?k U"
  proof (rule inj_onI)
    fix u w assume a: "u \<in> U" "w \<in> U" "?k u = ?k w"
    have "gend (next_dir l (?k u)) T = ?b u" using tree_okD(6) [OF ok U(2) [OF a(1)]] f [OF a(1)] by blast
    moreover have "gend (next_dir l (?k w)) T = ?b w" using tree_okD(6) [OF ok U(2) [OF a(2)]] f [OF a(2)] by blast
    ultimately show "u = w" using same [OF a(1,2)] a(3) by simp
  qed
  moreover have "\<forall>u \<in> U. (\<exists>R. st u = HSeen (MRemove (?k u)) R) \<and> m (?k u) = Some (?v u)" using f by blast
  moreover have "\<forall>u p R. st u = HSeen p R \<longrightarrow> reads map_app p m \<subseteq> R" using nm_relD(4) [OF rel] by blast
  ultimately obtain st' where st': "exec (hind_sys map_app) (m, st) [] (m |` (- ?k ` U), st')"
    "\<forall>u \<in> U. st' u = HReady (MValue (Some (?v u)))" "\<forall>u. u \<notin> U \<longrightarrow> keep (m |` (- ?k ` U)) (st u) (st' u)"
    using removes_exec [of U st ?k m ?v] by blast
  have gone: "(\<exists>b \<in> gset T - gset T'. is_leaf l b \<and> key_of l b = Fin k) \<longleftrightarrow> k \<in> ?k ` U" for k
  proof
    assume "\<exists>b \<in> gset T - gset T'. is_leaf l b \<and> key_of l b = Fin k"
    then obtain b where b: "b \<in> gset T - gset T'" "is_leaf l b" "key_of l b = Fin k" by blast
    then obtain c e where "c \<in> gset T" "flagged l (c, e)" "ptr l (c, e) = Some b" using un unfolding unlinked_def by blast
    then obtain u where u: "owner (th u) = Some b" using nm_relD(5) [OF rel] by blast
    then have "u \<in> U" using b(1) by (auto simp: U_def)
    moreover have "k = ?k u" using f [OF calculation] b(3) u by simp
    ultimately show "k \<in> ?k ` U" by blast
  next
    assume "k \<in> ?k ` U"
    then obtain u where u: "u \<in> U" "k = ?k u" by blast
    then show "\<exists>b \<in> gset T - gset T'. is_leaf l b \<and> key_of l b = Fin k" using f [OF u(1)] U [OF u(1)] by blast
  qed
  have "tmap l' T' k = (m |` (- ?k ` U)) k" for k
    using un gone [of k] nm_relD(2) [OF rel] unfolding unlinked_def by (simp add: restrict_map_def)
  then have tm: "tmap l' T' = m |` (- ?k ` U)" by (rule ext)
  have "status_step l T T' (tmap l' T') (th u) (st u) (st' u)" for u
  proof (cases "u \<in> U")
    case True
    then obtain b where b: "owner (th u) = Some b" "b \<in> gset T - gset T'" by (auto simp: U_def)
    have "st' u = HReady (MValue (value_of l b))" using st'(2) f [OF True] True b(1) by simp
    then show ?thesis using b by (simp add: status_step_def)
  next
    case False
    then have "keep (tmap l' T') (st u) (st' u)" using st'(3) tm by simp
    moreover have "b \<notin> gset T - gset T'" if "owner (th u) = Some b" for b using False that by (auto simp: U_def)
    ultimately show ?thesis by (auto simp: status_step_def split: option.splits)
  qed
  then show ?thesis using that st'(1) tm by simp
qed

lemma status_reads:
  assumes "status_step l T T' m pc hs hs'" "hs' = HSeen p R"
  shows "reads map_app p m \<subseteq> R"
proof -
  have "keep m hs hs'" using assms by (auto simp: status_step_def split: option.splits if_splits)
  then show ?thesis using assms(2) by (cases hs) auto
qed

lemma nm_unlink_sim:
  assumes rel: "nm_rel P T Hf (l, th) (m, st)" and call: "tpc_call (th t) = Some call"
    and mv: "moves l P T l' P T'" and un: "unlinked l T l' T'" and l': "l' = set_edge (a, d) p l" "a \<in> P"
    and mine: "\<And>k b. call = TCleanup k b \<Longrightarrow> b \<in> gset T \<and> b \<notin> gset T'"
  shows "\<exists>a'. exec (hind_sys map_app) (m, st) [] a' \<and> nm_sim (l', th(t := cleanup_done call True l')) a'"
proof -
  note ok = nm_relD(1) [OF rel]
  let ?pc = "cleanup_done call True l'"
  have co: "tcall_ok l P T call (st t)" by (rule nm_threadD(2) [OF nm_relD(3) [OF rel] call])
  obtain st' where ex: "exec (hind_sys map_app) (m, st) [] (tmap l' T', st')"
    and st': "\<And>u. status_step l T T' (tmap l' T') (th u) (st u) (st' u)" using unlink_removes [OF rel un] by blast
  have priv: "t_nodes l' ! c = t_nodes l ! c \<and> c \<notin> P" if "c \<in> privs (th u)" for u c
  proof -
    have "c \<notin> P" by (rule privs_private(1) [OF nm_relD(3) [OF rel] that])
    moreover then have "c \<noteq> a" using l'(2) by auto
    ultimately show ?thesis using set_edge_other unfolding l'(1) by blast
  qed
  have tn: "tn l \<le> tn l'" by (simp add: l'(1))
  have me: "nm_thread l' P T' {} ?pc (st' t) \<and> owner ?pc = None \<and> privs ?pc \<subseteq> privs (th t)"
  proof (cases "\<exists>k b. call = TCleanup k b")
    case True
    then obtain k b where c: "call = TCleanup k b" by blast
    have b: "b \<in> P" "is_leaf l' b" "key_of l' b = Fin k" using co c movesD(4,6) [OF mv, of b] by auto
    obtain v where v: "value_of l' b = Some v" "value_holder l' b = TFinish (MValue (Some v))"
      using value_ok [OF movesD(1) [OF mv] b] by blast
    have "owner (th t) = Some b" using call c by (simp add: owner_def)
    then have "st' t = HReady (MValue (value_of l b))" using st' [of t] mine [OF c] by (simp add: status_step_def)
    moreover have "value_of l b = Some v" using movesD(5) [OF mv b(1)] v(1) by simp
    ultimately show ?thesis using c v(2) by (simp add: nm_thread_finish)
  next
    case False
    then have pc: "?pc = TRoot call" by (cases call) auto
    have "tcall_ok l' P T' call (st' t)" by (rule tcall_moves [OF mv co call priv tn st'])
    then have "nm_thread l' P T' {} (TRoot call) (st' t)" by (intro call_threadI) auto
    moreover have "owner (TRoot call) = None" using False by (cases call) (auto simp: owner_def)
    ultimately show ?thesis unfolding pc using call_fields [of "TRoot call" "th t"] call by simp
  qed
  have "nm_sim (l', th(t := ?pc)) (tmap l' T', st')"
  proof (rule nm_rel_step [where t = t, OF rel mv tn priv st' conjunct1 [OF me] status_reads [OF st']])
    show "owner ?pc = Some b \<or> (\<exists>x \<in> gset T. \<exists>e. flagged l (x, e) \<and> ptr l (x, e) = Some b) \<and> owner (th t) \<noteq> Some b"
      if "x \<in> gset T'" "flagged l' (x, e)" "ptr l' (x, e) = Some b" for x e b
    proof -
      have "\<exists>x \<in> gset T. \<exists>e. flagged l (x, e) \<and> ptr l (x, e) = Some b" using un that unfolding unlinked_def by blast
      moreover have "b \<in> gset T'" by (rule shape_edge_set [OF tree_okD(4) [OF movesD(1) [OF mv]] that(1,3)])
      then have "owner (th t) \<noteq> Some b" using mine call by (auto simp: owner_call)
      ultimately show ?thesis by blast
    qed
    show "owner (th u) \<noteq> Some b" if "owner ?pc = Some b" for u b using me that by simp
    show "privs ?pc \<inter> privs (th u) = {}" if "u \<noteq> t" for u using nm_relD(7) [OF rel, of t u] me that by blast
  qed
  then show ?thesis using ex by blast
qed

lemma nm_cas_sim:
  assumes rel: "nm_rel P T Hf (l, th) (m, st)" and t: "th t = CCas call rec sib flag" "nm_step (th t) l = (l', pc)"
  shows "\<exists>a'. exec (hind_sys map_app) (m, st) [] a' \<and> nm_sim (l', th(t := pc)) a'"
proof -
  note ok = nm_relD(1) [OF rel] and thr = nm_threadD [OF nm_relD(3) [OF rel, of t]]
  let ?k = "tcall_key call" and ?a = "sr_ancestor rec" and ?y = "sr_parent rec"
  have call: "tpc_call (th t) = Some call" using t(1) by simp
  note co = thr(2) [OF call]
  obtain d where r: "rec_ok l P T ?k rec" and d: "tagged l (?y, d)" "ptr l (?y, d) = sib" "flag = flagged l (?y, d)" "owned_edge l call (?y, other_dir d)"
    using thr(1) t(1) by auto
  have a: "on_path l P T ?k ?a" "sr_successor_dir rec = next_dir l ?k ?a" "?a \<in> P" and y: "?y \<in> P" "\<not> is_leaf l ?y"
    and ch: "tag_chain l ?k (sr_successor rec) ?y" using r by (auto simp: rec_ok_def on_path_def)
  note eo = tree_okD(1) [OF ok]
  show ?thesis
  proof (cases "edge l (successor_addr rec) = (Some (sr_successor rec), 0)")
    case True
    then have e: "edge l (?a, next_dir l ?k ?a) = (Some (sr_successor rec), 0)" using a(2) by (simp add: successor_addr_def)
    have "?a \<in> gset T" by (rule unmarked_in_tree(1) [OF ok a(3) e])
    then have ap: "?a \<in> gpath (next_dir l ?k) T" using a(1) by (simp add: on_path_def)
    obtain z where z: "ptr l (?y, d) = Some z" using edges_okD(7) [OF eo y] by blast
    obtain b where b: "ptr l (?y, other_dir d) = Some b" using edges_okD(7) [OF eo y] by blast
    let ?l = "set_edge (?a, next_dir l ?k ?a) (Some z, marks_new (flagged l (?y, d)) False) l"
    obtain S where S: "moves l P T ?l P (repl (sr_successor rec) S T)" "unlinked l T ?l (repl (sr_successor rec) S T)" "b \<in> gset T"
      "b \<notin> gset (repl (sr_successor rec) S T)" using nm_moves_unlink [OF ok ap e ch d(1) z b refl] by blast
    have "\<exists>a'. exec (hind_sys map_app) (m, st) [] a' \<and> nm_sim (?l, th(t := cleanup_done call True ?l)) a'"
    proof (rule nm_unlink_sim [OF rel call S(1,2) refl a(3)])
      show "b' \<in> gset T \<and> b' \<notin> gset (repl (sr_successor rec) S T)" if "call = TCleanup k b'" for k b'
        using d(4) that b S(3,4) by (auto simp: owned_edge_def)
    qed
    moreover have "(l', pc) = (?l, cleanup_done call True ?l)" using t True z d(2,3) a(2) by (auto simp: cas_edge_def successor_addr_def)
    ultimately show ?thesis by simp
  next
    case False
    have root: "cleanup_done call False l = TRoot call" by (cases call) auto
    then have "pc = TRoot call" "l' = l" using t False by (auto simp: cas_edge_def)
    moreover have "nm_thread l P T {} (TRoot call) (st t)" by (rule call_threadI [OF _ _ co]) auto
    ultimately show ?thesis using call_step [OF rel call] by simp
  qed
qed

section \<open>All steps\<close>

lemma idle_call [simp]: "owner TIdle = None" "privs TIdle = {}"
  by (simp_all add: owner_def privs_def)

lemma nm_call_sim:
  assumes rel: "nm_rel P T Hf (l, th) (m, st)" and t: "th t = TIdle"
  shows "\<exists>a'. exec (hind_sys map_app) (m, st) [Inv t p] a' \<and> nm_sim (l, th(t := nm_start p)) a'"
proof -
  note ok = nm_relD(1) [OF rel]
  let ?st = "st(t := HSeen p (reads map_app p m))"
  have "st t = HQuiet" using nm_relD(3) [OF rel, of t] t by (simp add: nm_thread_def)
  then have ex: "exec (hind_sys map_app) (m, st) [Inv t p] (m, ?st)"
    using exec_step [where step = "hind_sys map_app", OF h_call [of st t]] by fastforce
  have none: "owner (nm_start p) = None" "privs (nm_start p) = {}" "owner (th t) = None" using t by (cases p; simp add: owner_def privs_def)+
  have "nm_sim (l, th(t := nm_start p)) (tmap l T, ?st)"
  proof (rule nm_rel_step [where t = t and st' = ?st and H = "{}", OF rel nm_moves_refl [OF ok] order_refl])
    show "t_nodes l ! a = t_nodes l ! a \<and> a \<notin> P" if "a \<in> privs (th u)" for u a using privs_private(1) [OF nm_relD(3) [OF rel] that] by simp
    show "status_step l T T (tmap l T) (th u) (st u) (?st u)" if "u \<noteq> t" for u using status_refl [OF rel] nm_relD(2) [OF rel] that by simp
    show "nm_thread l P T {} (nm_start p) (?st t)" by (cases p) (auto simp: nm_thread_def)
    show "reads map_app q (tmap l T) \<subseteq> R" if "?st t = HSeen q R" for q R using that nm_relD(2) [OF rel] by auto
  qed (use none in auto)
  then show ?thesis using ex nm_relD(2) [OF rel] by auto
qed

lemma nm_return_sim:
  assumes rel: "nm_rel P T Hf (l, th) (m, st)" and t: "th t = TFinish r"
  shows "\<exists>a'. exec (hind_sys map_app) (m, st) [Res t r] a' \<and> nm_sim (l, th(t := TIdle)) a'"
proof -
  note ok = nm_relD(1) [OF rel]
  let ?st = "st(t := HQuiet)"
  have "st t = HReady r \<or> (\<exists>p R. st t = HSeen p R \<and> r \<in> R)" using nm_relD(3) [OF rel, of t] t by (simp add: nm_thread_finish)
  then have ex: "exec (hind_sys map_app) (m, st) [Res t r] (m, ?st)"
    using exec_step [where step = "hind_sys map_app", OF h_return [of st t r]] by fastforce
  have "nm_sim (l, th(t := TIdle)) (tmap l T, ?st)"
  proof (rule nm_rel_step [where t = t and st' = ?st and H = "{}", OF rel nm_moves_refl [OF ok] order_refl])
    show "t_nodes l ! a = t_nodes l ! a \<and> a \<notin> P" if "a \<in> privs (th u)" for u a using privs_private(1) [OF nm_relD(3) [OF rel] that] by simp
    show "status_step l T T (tmap l T) (th u) (st u) (?st u)" if "u \<noteq> t" for u using status_refl [OF rel] nm_relD(2) [OF rel] that by simp
    show "nm_thread l P T {} TIdle (?st t)" by (simp add: nm_thread_def)
  qed (use t in auto)
  then show ?thesis using ex nm_relD(2) [OF rel] by auto
qed

lemma nm_steps_sim:
  assumes rel: "nm_rel P T Hf (l, th) (m, st)" and s: "nm_sys (l, th) e c'"
  shows "\<exists>a'. exec (hind_sys map_app) (m, st) (case e of None \<Rightarrow> [] | Some x \<Rightarrow> [x]) a' \<and> nm_sim c' a'"
  using s
proof (cases rule: nm_sys.cases)
  case (n_call t p)
  then show ?thesis using nm_call_sim [OF rel] by simp
next
  case (n_work t l' pc)
  have "\<exists>a'. exec (hind_sys map_app) (m, st) [] a' \<and> nm_sim (l', th(t := pc)) a'"
  proof (cases "get_key (th t)")
    case (Some k)
    then show ?thesis by (rule get_sim [OF rel _ n_work(4)])
  next
    case None
    show ?thesis
    proof (cases "th t")
      case (TStoreL call rec i left right)
      then show ?thesis using nm_store_sim [OF rel _ n_work(4)] by blast
    next
      case (TStoreR call rec i right)
      then show ?thesis using nm_store_sim [OF rel _ n_work(4)] by blast
    next
      case (TLink call rec i)
      then show ?thesis by (rule nm_link_sim [OF rel _ n_work(4)])
    next
      case (TFlag k rec)
      then show ?thesis by (rule flag_sim [OF rel _ n_work(4)])
    next
      case (CLoad call rec)
      then show ?thesis using clean_read_sim [OF rel _ n_work(4)] by blast
    next
      case (CTag call rec target)
      then show ?thesis by (rule tag_sim [OF rel _ n_work(4)])
    next
      case (CRead call rec target)
      then show ?thesis using clean_read_sim [OF rel _ n_work(4)] by blast
    next
      case (CCas call rec sib flag)
      then show ?thesis by (rule nm_cas_sim [OF rel _ n_work(4)])
    qed (use seek_sim [OF rel _ n_work(4)] n_work(3) None in auto)
  qed
  then show ?thesis using n_work by simp
next
  case (n_return t r)
  then show ?thesis using nm_return_sim [OF rel] by simp
qed

section \<open>The empty tree\<close>

lemma nm_new_nodes:
  assumes "l = nm_new"
  shows "t_r l = 4" "tn l = 5" "edge l (0, d) = (None, 0)" "edge l (1, d) = (None, 0)" "edge l (3, d) = (None, 0)"
    "edge l (2, d) = (Some (if d = DirL then 0 else 1), 0)" "edge l (4, d) = (Some (if d = DirL then 2 else 3), 0)"
  unfolding assms by (cases d; simp add: nm_new_def new_internal_def new_leaf_def tree_alloc_def edge_def Let_def)+

lemma nm_new_keys:
  assumes "l = nm_new" "a < 5"
  shows "key_of l a = Inf"
proof -
  consider "a = 0" | "a = 1" | "a = 2" | "a = 3" | "a = 4" using assms(2) by linarith
  then show ?thesis unfolding assms(1) by cases (simp_all add: nm_new_def new_internal_def new_leaf_def tree_alloc_def key_of_def Let_def)
qed

lemma nm_new_unmarked:
  assumes "l = nm_new" "a < 5"
  shows "snd (edge l (a, d)) = 0"
proof -
  consider "a = 0" | "a = 1" | "a = 2" | "a = 3" | "a = 4" using assms(2) by linarith
  then show ?thesis by cases (use nm_new_nodes [OF assms(1)] in simp_all)
qed

lemma nm_new_ok:
  fixes l :: "('k :: linorder, 'v) nm_tree"
  assumes l: "l = nm_new" and T: "T = GNode 4 (GNode 2 (GLeaf 0) (GLeaf 1)) (GLeaf 3)"
  shows "tree_ok l {..<5} T" "tmap l T = Map.empty"
proof -
  note n = nm_new_nodes [OF l] and k = nm_new_keys [OF l] and unmarked = nm_new_unmarked [OF l]
  have five: "a \<in> {..<5} \<longleftrightarrow> a = 0 \<or> a = 1 \<or> a = 2 \<or> a = 3 \<or> a = 4" for a :: nat by auto
  have "edges_ok l {..<5}"
    unfolding edges_ok_def
  proof (rule ballI)
    fix a :: nat
    assume a: "a \<in> {..<5}"
    have "(\<forall>d. edge l (a, d) = (None, 0)) \<or> (\<forall>d. \<exists>b \<in> {..<5}. ptr l (a, d) = Some b)" using a n unfolding five by (auto simp: ptr_def)
    then show "a < tn l \<and> ((\<forall>d. edge l (a, d) = (None, 0)) \<or> (\<forall>d. \<exists>b \<in> {..<5}. ptr l (a, d) = Some b)) \<and>
      (\<forall>d. snd (edge l (a, d)) \<in> {0, 1, 2, 3}) \<and> (\<forall>d. tagged l (a, d) \<longrightarrow> flagged l (a, other_dir d)) \<and>
      (\<forall>d. flagged l (a, d) \<longrightarrow> (\<exists>b k. ptr l (a, d) = Some b \<and> is_leaf l b \<and> key_of l b = Fin k)) \<and>
      (\<forall>k. is_leaf l a \<and> key_of l a = Fin k \<longrightarrow> value_of l a \<noteq> None)"
      using a k [of a] n(2) unmarked by (simp add: tagged_def flagged_def)
  qed
  moreover have "gset T \<subseteq> {..<5}" "gdist T" "shape (ptr l) T" using n by (auto simp: T ptr_def)
  moreover have "{..<5} - gset T = {}" by (auto simp: T)
  moreover have "key_of l b \<noteq> Fin x" if "b \<in> gset T" for b x using that k [of b] by (auto simp: T)
  moreover have "top_ok l T" using n k by (simp add: top_ok_def T marked_def)
  ultimately show "tree_ok l {..<5} T" unfolding tree_ok_def by blast
  have "gend D T < 5" for D using gpath_set [OF gend_path, of D T] by (auto simp: T)
  then show "tmap l T = Map.empty" using k by (simp add: tmap_def Let_def fun_eq_iff)
qed

lemma nm_sim_initial: "nm_sim (nm_new, \<lambda>_. TIdle) (Map.empty, \<lambda>_. HQuiet)"
proof -
  define l :: "('a, 'b) nm_tree" where l: "l = nm_new"
  define T where T: "T = GNode 4 (GNode 2 (GLeaf 0) (GLeaf 1)) (GLeaf 3)"
  have "a < 5" if "a \<in> gset T" for a using that by (auto simp: T)
  then have "\<not> flagged l (a, e)" if "a \<in> gset T" for a e using nm_new_unmarked [OF l] that by (simp add: flagged_def)
  then have "nm_rel {..<5} T (\<lambda>_. {}) (l, \<lambda>_. TIdle) (Map.empty, \<lambda>_. HQuiet)"
    using nm_new_ok [OF l T] by (simp add: nm_rel_def nm_thread_def)
  then show ?thesis unfolding nm_sim_def l by blast
qed

interpretation nmt: forward_simulation "(nm_new, \<lambda>_. TIdle)" nm_sys "(Map.empty, \<lambda>_. HQuiet)" "hind_sys map_app" nm_sim
proof unfold_locales
  show "nm_sim (nm_new, \<lambda>_. TIdle) (Map.empty, \<lambda>_. HQuiet)" by (rule nm_sim_initial)
  show "\<exists>a'. exec (hind_sys map_app) a (case e of None \<Rightarrow> [] | Some x \<Rightarrow> [x]) a' \<and> nm_sim c' a'"
    if "nm_sim c a" "nm_sys c e c'" for c c' :: "('k :: linorder, 'v) nm_sys_state" and a e
    using that nm_steps_sim [of _ _ _ "fst c" "snd c" "fst a" "snd a" e c'] by (auto simp: nm_sim_def)
qed

section \<open>Schedules\<close>

fun nm_run :: "('k :: linorder, 'v) map_choice list \<Rightarrow> ('k, 'v) nm_sys_state \<Rightarrow>
    ((('k, 'v) map_op, 'v map_res) op_event list \<times> ('k, 'v) nm_sys_state) option" where
  "nm_run [] s = Some ([], s)"
| "nm_run (Begin t p # cs) (l, th) =
     (case th t of TIdle \<Rightarrow> map_option (\<lambda>(tr, s). (Inv t p # tr, s)) (nm_run cs (l, th(t := nm_start p))) | _ \<Rightarrow> None)"
| "nm_run (Run t # cs) (l, th) =
     (if nm_busy (th t) then (let (l', pc) = nm_step (th t) l in nm_run cs (l', th(t := pc))) else None)"
| "nm_run (End t # cs) (l, th) =
     (case th t of TFinish r \<Rightarrow> map_option (\<lambda>(tr, s). (Res t r # tr, s)) (nm_run cs (l, th(t := TIdle))) | _ \<Rightarrow> None)"

lemma nm_run_exec: "nm_run cs s = Some (tr, s') \<Longrightarrow> exec nm_sys s tr s'"
proof (induction cs s arbitrary: tr rule: nm_run.induct)
  case (1 s)
  then show ?case by (simp add: exec_refl)
next
  case (2 t p cs l th)
  then obtain tr' where r: "th t = TIdle" "nm_run cs (l, th(t := nm_start p)) = Some (tr', s')" "tr = Inv t p # tr'" by (auto split: nm_pc.splits)
  have "exec nm_sys (l, th(t := nm_start p)) tr' s'" using 2(1) r by metis
  from exec_first [where step = nm_sys, OF n_call [where th = th, OF r(1)] this] show ?case using r(3) by simp
next
  case (3 t cs l th)
  then obtain l' pc where r: "nm_busy (th t)" "nm_step (th t) l = (l', pc)" "nm_run cs (l', th(t := pc)) = Some (tr, s')"
    by (auto simp: Let_def split: if_splits prod.splits)
  have "exec nm_sys (l', th(t := pc)) tr s'" using 3(1) r by metis
  from exec_first [where step = nm_sys, OF n_work [where th = th, OF r(1,2)] this] show ?case by simp
next
  case (4 t cs l th)
  then obtain r tr' where r: "th t = TFinish r" "nm_run cs (l, th(t := TIdle)) = Some (tr', s')" "tr = Res t r # tr'" by (auto split: nm_pc.splits)
  have "exec nm_sys (l, th(t := TIdle)) tr' s'" using 4(1) r by metis
  from exec_first [where step = nm_sys, OF n_return [where th = th, OF r(1)] this] show ?case using r(3) by simp
qed

section \<open>Linearizability\<close>

text \<open>
  C5: the search tree of \<^verbatim>\<open>examples/ds/nm_tree.rs\<close> is linearizable: whatever the interleaving of the accesses of any number of
  threads, the calls and returns are those of a map whose operations take place in one step each. No thread ever fails at one of
  its \<^verbatim>\<open>unwrap\<close>s.
\<close>

theorem nm_tree_linearizable:
  assumes "exec nm_sys (nm_new, \<lambda>_. TIdle) tr (l, th)"
  shows "(\<exists>a. exec (atomic_sys map_app) (Map.empty, \<lambda>_. Quiet) tr a) \<and> (\<forall>t. th t \<noteq> TPanic)"
proof -
  obtain a where a: "exec (hind_sys map_app) (Map.empty, \<lambda>_. HQuiet) tr a" "nm_sim (l, th) a" using nmt.sim_exec [OF assms] by blast
  have "\<exists>a. exec (atomic_sys map_app) (Map.empty, \<lambda>_. Quiet) tr a" by (rule hind.histories [OF a(1)])
  moreover obtain P T Hf where "nm_rel P T Hf (l, th) (fst a, snd a)" using a(2) by (auto simp: nm_sim_def)
  then have "tpc_ok l P T (Hf t) (th t)" for t using nm_threadD(1) [OF nm_relD(3)] by blast
  then have "\<forall>t. th t \<noteq> TPanic" by (metis tpc_ok.simps(17))
  ultimately show ?thesis by blast
qed

text \<open>
  An insertion finds the edge to its place flagged, unlinks the leaf for the removal that is under way, and starts over: the key is gone
  before the removal goes on and returns.
\<close>

theorem nm_tree_linearizable_witness:
  "\<exists>a. exec (atomic_sys map_app) (Map.empty, \<lambda>_. Quiet)
     [Inv 0 (MInsert (5 :: nat) (50 :: nat)), Res 0 (MInserted True), Inv 0 (MInsert 7 70), Res 0 (MInserted True), Inv 1 (MRemove 5),
      Inv 2 (MInsert 6 60), Res 2 (MInserted True), Inv 3 (MGet 5), Res 3 (MValue None), Res 1 (MValue (Some 50))] a"
proof -
  let ?cs = "[Begin 0 (MInsert 5 50)] @ replicate 7 (Run 0) @ [End 0, Begin 0 (MInsert 7 70)] @ replicate 8 (Run 0) @ [End 0, Begin 1 (MRemove 5)] @
    replicate 7 (Run 1) @ [Begin 2 (MInsert 6 60)] @ replicate 21 (Run 2) @ [End 2, Begin 3 (MGet 5)] @ replicate 6 (Run 3) @ [End 3] @
    replicate 10 (Run 1) @ [End 1] :: (nat, nat) map_choice list"
  let ?tr = "[Inv 0 (MInsert 5 50), Res 0 (MInserted True), Inv 0 (MInsert 7 70), Res 0 (MInserted True), Inv 1 (MRemove 5),
    Inv 2 (MInsert 6 60), Res 2 (MInserted True), Inv 3 (MGet 5), Res 3 (MValue None), Res 1 (MValue (Some 50))]"
  have "map_option fst (nm_run ?cs (nm_new, \<lambda>_. TIdle)) = Some ?tr" by code_simp
  then obtain l th where "nm_run ?cs (nm_new, \<lambda>_. TIdle) = Some (?tr, l, th)" by auto
  from nm_tree_linearizable [OF nm_run_exec [OF this]] show ?thesis by simp
qed

end
