(* ===== verification/Spec2Isabelle.thy ===== *)
theory Spec2Isabelle
  imports Cycle_Spec Reusable_Slots Fixed_Hash_Set Trace_Derive Alloc_Spec MS_Queue Barrier_Race Concurrent_Marking
    Harris_Spec Treiber_Stack NM_Spec
begin

text \<open>
  \<^bold>\<open>A verification development for \<^verbatim>\<open>cdpt\<close>\<close>, a concurrent tracing garbage collector for Rust. The
  sources are under \<^verbatim>\<open>src/src\<close> (the crate), \<^verbatim>\<open>src/cdpt-derive\<close> (its derive macro) and \<^verbatim>\<open>src/examples\<close>.

  \<^bold>\<open>The program.\<close> Mutator threads allocate objects (\<^verbatim>\<open>ManObj\<close>: a header word, the user's value) and link them by managed
  pointers (\<^verbatim>\<open>AtomicSharedOption\<close>, \<^verbatim>\<open>AtomicShared\<close>, \<^verbatim>\<open>Shared\<close>, each one word with meta bits, address and tag). A pointer
  outside the managed heap is a root and counts in the header of its object; a pointer inside an object is an
  edge and carries a colour. Threads work under a guard that pins the current epoch (phase, white colour,
  timestamp), and protect single objects by hazard pointers. A collector thread runs cycles of three phases: root
  tracing (\<^verbatim>\<open>RT\<close>) scans all allocated objects for roots and marks from them, completion tracing (\<^verbatim>\<open>CT\<close>) repeats
  until no thread has scheduled marks in the current phase, and the normal phase (\<^verbatim>\<open>N\<close>) sweeps what stayed white. Mutators shade edges
  and schedule marks in their write barriers, and help with each phase when a guard is dropped.

  \<^bold>\<open>Theories and what they model.\<close>
  \<^item> \<open>Cdpt_Prelude\<close>: machine integers, panics, integer operations of the standard library; the locales \<open>packed_field\<close> and
    \<open>packed_fields\<close> for bit fields of a word. \<open>Interference\<close>: actions on shared state with explicit interference before every atomic
    access. \<open>Linearize\<close>: transition systems, traces, and the locale \<open>forward_simulation\<close>.
  \<^item> \<open>Epoch\<close> (\<^verbatim>\<open>epoch.rs\<close>), \<open>Obj_Meta\<close> (\<^verbatim>\<open>ObjMeta\<close>, \<^verbatim>\<open>AtomicObjMeta\<close>) and \<open>Man_Ptr\<close> (\<^verbatim>\<open>ManPtr\<close> of \<^verbatim>\<open>pointers.rs\<close>): the three packed words,
    with interpretations of the locales for every field.
  \<^item> \<open>Runtime\<close> (\<^verbatim>\<open>Local\<close>, \<^verbatim>\<open>Global\<close>, \<^verbatim>\<open>ObjBatch\<close> of \<^verbatim>\<open>internal.rs\<close>, the type registry of \<^verbatim>\<open>pointers.rs\<close>): the record \<open>rt\<close> of the whole state and the
    atomic accesses to it. \<open>Tracing\<close>: marking, shading, unrooting. \<open>Guards\<close> (\<^verbatim>\<open>guards.rs\<close>, pinning and phase barrier of
    \<^verbatim>\<open>internal.rs\<close>): handles, guards, the help for the collector. \<open>Pointers\<close>: every operation of the pointer types.
    \<open>Heuristics\<close>: settings, statistics and the decision to collect. \<open>Collector\<close> (\<^verbatim>\<open>collector.rs\<close>): the collection cycle.
  \<^item> \<open>Fixed_Hash_Set\<close> (\<^verbatim>\<open>sync/hash_set.rs\<close>), \<open>MS_Queue\<close> (\<^verbatim>\<open>sync/queue.rs\<close>), \<open>Reusable_Slots\<close> (\<^verbatim>\<open>sync/reusable_slots.rs\<close>): the lock-free
    structures of the crate. \<open>Trace_Derive\<close> (\<^verbatim>\<open>cdpt-derive/src/lib.rs\<close>): the generator of \<^verbatim>\<open>derive(TraceObj)\<close> with a
    semantics of the code it generates.
  \<^item> Client programs of the library: \<open>Harris_List\<close> (\<^verbatim>\<open>examples/ds/lists.rs\<close>: the ordered lists with their three ways to find a position and the hash map
    of lists), \<open>NM_Tree\<close> (\<^verbatim>\<open>examples/ds/nm_tree.rs\<close>: the search tree of Natarajan and Mittal), \<open>Treiber_Stack\<close> (\<^verbatim>\<open>examples/stack.rs\<close>), and
    \<open>Concurrent_Map\<close> (\<^verbatim>\<open>ConcurrentMap\<close> of \<^verbatim>\<open>examples/common/mod.rs\<close>): what the lists and the tree promise. \<open>Hindsight\<close>: objects with atomic operations, the locale
    \<open>backward_simulation\<close>, and a specification with the same histories in which a reader may choose its answer after the fact.

  \<^bold>\<open>What the lemmas show.\<close>
  \<^item> \<open>Tricolor\<close>, \<open>Cycle_Help\<close>, \<open>Cycle_Trace\<close>, \<open>Cycle_Spec\<close>: the tri-colour invariant is kept by every step of a cycle, the help of
    dropped guards included; scanning and draining end; a cycle that runs while no mutator is pinned reclaims exactly the
    unreachable objects and leaves a state for the next cycle. \<open>Sweep_Spec\<close>: what the sweep reclaims and hands on.
  \<^item> \<open>Snapshot\<close>, \<open>Snapshot_Alloc\<close>, \<open>Concurrent_Marking\<close>: marking while mutators run. Threads pin, unpin, allocate objects with null links, load, swap and
    compare-exchange pointers, scan batches and run mark tasks in any order, one whole operation per step; the invariant (every rooted, held or
    protected object is black or reached by white edges from an object that will still be marked) is kept by each step, and at the end of marking nothing in
    use is white. Threads without hazard pointers only pin in these steps. \<open>Barrier_Race\<close>: why that matters: the phase barrier for hazard pointers can
    mark an object that a late helper of the sweep then reclaims.
  \<^item> \<open>Pointer_Spec\<close>, \<open>Alloc_Spec\<close>: what an undisturbed pointer operation does to links, root counts, colours and scheduled
    marks; registration of types; unrooting. \<open>Progress\<close>: every mutator operation returns under any finite interference.
  \<^item> \<open>MS_Queue\<close>: the queue refines an atomic first-in first-out queue under every interleaving (\<open>msq\<close> interprets \<open>forward_simulation\<close>), never touches a freed
    node, and an operation that runs alone returns. \<open>Fixed_Hash_Set\<close>: all callers with one key agree on one entry.
    \<open>Reusable_Slots\<close>: a slot is never given to two threads. \<open>Trace_Derive\<close>: the generated code visits every managed pointer once.
  \<^item> \<open>Harris_Inv\<close>, \<open>Harris_Spec\<close>: the invariant of the lists (every bucket is sorted from its head, tagged nodes never change and are left behind, what a
    finder has passed stays below its key) and the simulation (\<open>hl\<close>) of a map by hindsight: a lookup that runs over nodes already
    unlinked returns what was right at some time during its call. \<open>Treiber_Stack\<close>: the simulation \<open>ts\<close> of a last-in first-out stack.
  \<^item> \<open>Ghost_Tree\<close>, \<open>NM_Inv\<close>, \<open>NM_Moves\<close>, \<open>NM_Threads\<close>, \<open>NM_Sim\<close>, \<open>NM_Spec\<close>: the search tree. Its pointers form a tree (\<open>gtree\<close>) whose leaves are found by the
    search for their keys; all changes to it are moves (marking an edge, linking a leaf, unlinking the nodes below an edge), which keep what every thread knows; one
    move may complete the removals of several threads. The simulation \<open>nmt\<close> is of the same map by hindsight as that of the lists.

  \<^bold>\<open>Modelling choices.\<close> An action of one thread is a function of the shared state and a list of what the other threads do
  before each of its atomic accesses; thread-local accesses are not preceded by interference. Memory is sequentially consistent: the
  orderings of the atomic accesses are not modelled. Reading or writing a reclaimed object is the error \<open>UseAfterFree\<close>, not undefined behaviour, so
  that its absence can be stated. Loops that may retry are partial functions in the option monad (\<open>None\<close> is a loop that does
  not end), and the theorems state that they return; no fuel is used except for \<open>hs_run\<close> and \<open>run_unprotected\<close>, whose
  theorems give a number of steps that suffices. The queues of batches are lists in
  \<open>rt\<close>, which \<open>MS_Queue\<close> justifies; a participant is its position in the list of slots, which never shrinks; the parallel
  workers of a phase run one after the other. The number of low bits \<open>k\<close> that the alignment of a type leaves free, the random
  choices of shards, the outcome of races for mark tasks, the number of tasks that a steal moves (\<^verbatim>\<open>crossbeam_deque\<close>), the
  hash function and the floating-point square root are arguments. Nodes of the lists, the tree and the stack are never reused: a thread refers to them under
  its guard, and the collector keeps what is reachable from there.

  \<^bold>\<open>Not modelled.\<close> \<^verbatim>\<open>task.rs\<close> (boxed closures: a mark task is the address of its object), \<^verbatim>\<open>tls.rs\<close> and \<^verbatim>\<open>lib.rs\<close> (access to the
  process-wide state, re-exports), formatting and hashing of pointers, the endless loops of the collector and heartbeat threads
  (their bodies are modelled), \<^verbatim>\<open>examples/ds/efrb_tree.rs\<close> (a second search tree), the benchmarks and the tests.
\<close>

end
